(* ===== verification/Cairn_Prelude.thy ===== *)
theory Cairn_Prelude
  imports Main
begin

text \<open>
  What every component of the development shares: the dynamic values the TypeScript code
  passes around, insertion-ordered maps and sets as JavaScript's \<open>Map\<close>, \<open>Set\<close> and object
  literals behave, thrown errors as values, counting lemmas for records kept in a list, and the
  reachability locale that the stateful components instantiate.
\<close>

named_theorems step_inv "preservation of a component's invariant by one operation"

section \<open>Dynamic values\<close>

text \<open>
  \<open>JInt\<close> is an integral number and \<open>JFloat\<close> a non-integral one (or \<open>NaN\<close>, \<open>Infinity\<close>), held as
  the text that \<open>Number.prototype.toString\<close> gives, which is injective on them. An object is the
  list of its own enumerable properties in the order \<open>Object.entries\<close> gives them. \<open>JDate\<close> is a valid
  \<open>Date\<close>, held as its \<open>toJSON\<close> text.
\<close>

datatype json =
    JUndefined
  | JNull
  | JBool bool
  | JInt int
  | JFloat string
  | JStr string
  | JDate string
  | JArr "json list"
  | JObj "(string \<times> json) list"

type_synonym json_object = "(string \<times> json) list"

fun isPlainObject :: "json \<Rightarrow> bool" where
  "isPlainObject (JObj _) = True"
| "isPlainObject _ = False"

fun isArray :: "json \<Rightarrow> bool" where
  "isArray (JArr _) = True"
| "isArray _ = False"

fun nullish :: "json \<Rightarrow> bool" where
  "nullish JNull = True"
| "nullish JUndefined = True"
| "nullish _ = False"

text \<open>lodash's \<open>isObjectLike\<close>: \<open>typeof value === 'object'\<close> and not \<open>null\<close>.\<close>

fun isObjectLike :: "json \<Rightarrow> bool" where
  "isObjectLike (JArr _) = True"
| "isObjectLike (JObj _) = True"
| "isObjectLike (JDate _) = True"
| "isObjectLike _ = False"

text \<open>JavaScript truthiness: the falsy values are \<open>undefined\<close>, \<open>null\<close>, \<open>false\<close>, 0, NaN and the empty string.\<close>

fun truthy :: "json \<Rightarrow> bool" where
  "truthy JUndefined = False"
| "truthy JNull = False"
| "truthy (JBool b) = b"
| "truthy (JInt n) = (n \<noteq> 0)"
| "truthy (JFloat s) = (s \<noteq> ''NaN'')"
| "truthy (JStr s) = (s \<noteq> [])"
| "truthy (JDate _) = True"
| "truthy (JArr _) = True"
| "truthy (JObj _) = True"

section \<open>Insertion-ordered maps and sets\<close>

text \<open>
  \<open>js_set\<close> is \<open>Map.prototype.set\<close> and property assignment: an existing key keeps its place, a new
  one goes last. \<open>js_add\<close> is \<open>Set.prototype.add\<close>.
\<close>

fun js_set :: "'k \<Rightarrow> 'v \<Rightarrow> ('k \<times> 'v) list \<Rightarrow> ('k \<times> 'v) list" where
  "js_set k v [] = [(k, v)]"
| "js_set k v ((k', v') # m) = (if k' = k then (k, v) # m else (k', v') # js_set k v m)"

definition js_delete :: "'k \<Rightarrow> ('k \<times> 'v) list \<Rightarrow> ('k \<times> 'v) list" where
  "js_delete k m = filter (\<lambda>(k', _). k' \<noteq> k) m"

definition js_has :: "'k \<Rightarrow> ('k \<times> 'v) list \<Rightarrow> bool" where
  "js_has k m = (k \<in> set (map fst m))"

definition js_add :: "'a \<Rightarrow> 'a list \<Rightarrow> 'a list" where
  "js_add x xs = (if x \<in> set xs then xs else xs @ [x])"

fun js_uniq_onto :: "'a list \<Rightarrow> 'a list \<Rightarrow> 'a list" where
  "js_uniq_onto acc [] = acc"
| "js_uniq_onto acc (x # xs) = js_uniq_onto (js_add x acc) xs"

text \<open>Reading a property: of an object, and of any value, where only an object has own properties.\<close>

definition js_get :: "json_object \<Rightarrow> string \<Rightarrow> json" where
  "js_get r f = (case map_of r f of None \<Rightarrow> JUndefined | Some v \<Rightarrow> v)"

fun js_prop :: "json \<Rightarrow> string \<Rightarrow> json" where
  "js_prop (JObj r) f = js_get r f"
| "js_prop _ f = JUndefined"

text \<open>\<open>value ?? fallback\<close>\<close>

definition js_or :: "json \<Rightarrow> json \<Rightarrow> json" where
  "js_or v fallback = (if nullish v then fallback else v)"

text \<open>\<open>Object.keys\<close> of an object, and the items of an array.\<close>

definition object_keys :: "json \<Rightarrow> string list" where
  "object_keys v = (case v of JObj o' \<Rightarrow> map fst o' | _ \<Rightarrow> [])"

definition array_items :: "json \<Rightarrow> json list" where
  "array_items v = (case v of JArr vs \<Rightarrow> vs | _ \<Rightarrow> [])"

text \<open>\<open>[...new Set(xs)]\<close>, lodash's \<open>uniq\<close>: first occurrences, in order.\<close>

definition js_uniq :: "'a list \<Rightarrow> 'a list" where
  "js_uniq xs = js_uniq_onto [] xs"

lemma map_of_js_set [simp]: "map_of (js_set k v m) = (map_of m)(k \<mapsto> v)"
  by (induction k v m rule: js_set.induct) (auto simp: fun_eq_iff)

lemma js_set_new: "k \<notin> set (map fst m) \<Longrightarrow> js_set k v m = m @ [(k, v)]"
  by (induction k v m rule: js_set.induct) auto

lemma keys_js_set: "map fst (js_set k v m) = js_add k (map fst m)"
  by (induction k v m rule: js_set.induct) (auto simp: js_add_def)

lemma js_get_set [simp]: "js_get (js_set k v m) f = (if f = k then v else js_get m f)"
  by (simp add: js_get_def)

lemma js_get_Cons [simp]: "js_get ((k, v) # m) f = (if f = k then v else js_get m f)"
  by (simp add: js_get_def)

lemma js_get_Nil [simp]: "js_get [] f = JUndefined"
  by (simp add: js_get_def)

lemma map_of_js_delete [simp]: "map_of (js_delete k m) = (map_of m)(k := None)"
  by (induction m) (auto simp: js_delete_def fun_eq_iff)

lemma keys_js_delete [simp]: "map fst (js_delete k m) = filter (\<lambda>k'. k' \<noteq> k) (map fst m)"
  by (induction m) (auto simp: js_delete_def)

lemma js_get_delete [simp]: "js_get (js_delete k m) f = (if f = k then JUndefined else js_get m f)"
  by (simp add: js_get_def)

lemma js_has_iff: "js_has k m \<longleftrightarrow> map_of m k \<noteq> None"
  by (induction m) (auto simp: js_has_def)

lemma set_js_add [simp]: "set (js_add x xs) = insert x (set xs)"
  by (auto simp: js_add_def)

lemma distinct_js_add [simp]: "distinct (js_add x xs) = distinct xs"
  by (auto simp: js_add_def)

lemma set_js_uniq_onto: "set (js_uniq_onto acc xs) = set acc \<union> set xs"
  by (induction acc xs rule: js_uniq_onto.induct) auto

lemma distinct_js_uniq_onto: "distinct (js_uniq_onto acc xs) = distinct acc"
  by (induction acc xs rule: js_uniq_onto.induct) auto

lemma set_js_uniq [simp]: "set (js_uniq xs) = set xs"
  by (simp add: js_uniq_def set_js_uniq_onto)

lemma distinct_js_uniq [simp]: "distinct (js_uniq xs)"
  by (simp add: js_uniq_def distinct_js_uniq_onto)

lemma distinct_keys_js_set [simp]: "distinct (map fst (js_set k v m)) = distinct (map fst m)"
  by (simp add: keys_js_set)

lemma map_of_rev: "distinct (map fst m) \<Longrightarrow> map_of (rev m) = map_of m"
  by (simp add: map_of_inject_set rev_map[symmetric])

lemma map_of_SomeI_distinct: "distinct (map fst m) \<Longrightarrow> (k, v) \<in> set m \<Longrightarrow> map_of m k = Some v"
  by (rule map_of_is_SomeI)

section \<open>Thrown errors\<close>

text \<open>A computation that may throw is a sum; \<open>and_then\<close> runs the next one unless the first has thrown.\<close>

definition and_then :: "'e + 'a \<Rightarrow> ('a \<Rightarrow> 'e + 'b) \<Rightarrow> 'e + 'b" where
  "and_then x f = (case x of Inl e \<Rightarrow> Inl e | Inr v \<Rightarrow> f v)"

lemma and_then_simps [simp]: "and_then (Inl e) f = Inl e" "and_then (Inr v) f = f v"
  by (simp_all add: and_then_def)

lemma and_then_cong [fundef_cong]:
  "x = y \<Longrightarrow> (\<And>v. y = Inr v \<Longrightarrow> f v = g v) \<Longrightarrow> and_then x f = and_then y g"
  by (simp add: and_then_def split: sum.split)

lemma and_then_Inr_iff: "and_then x f = Inr w \<longleftrightarrow> (\<exists>v. x = Inr v \<and> f v = Inr w)"
  by (cases x) simp_all

lemma and_then_InrE:
  assumes "and_then x f = Inr w"
  obtains v where "x = Inr v" "f v = Inr w"
  using assms by (auto simp: and_then_Inr_iff)

text \<open>\<open>list.map(f)\<close> where \<open>f\<close> may throw.\<close>

fun map_or_throw :: "('a \<Rightarrow> 'e + 'b) \<Rightarrow> 'a list \<Rightarrow> 'e + 'b list" where
  "map_or_throw f [] = Inr []"
| "map_or_throw f (x # xs) = and_then (f x) (\<lambda>y. and_then (map_or_throw f xs) (\<lambda>ys. Inr (y # ys)))"

lemma map_or_throw_cong [fundef_cong]:
  "xs = ys \<Longrightarrow> (\<And>x. x \<in> set ys \<Longrightarrow> f x = g x) \<Longrightarrow> map_or_throw f xs = map_or_throw g ys"
  by (induction ys arbitrary: xs) auto

lemma map_or_throw_Inr_iff: "map_or_throw f xs = Inr ys \<longleftrightarrow> list_all2 (\<lambda>x y. f x = Inr y) xs ys"
  by (induction xs arbitrary: ys) (auto simp: and_then_Inr_iff list_all2_Cons1)

lemma map_or_throw_mem: "map_or_throw f xs = Inr ys \<Longrightarrow> y \<in> set ys \<Longrightarrow> \<exists>x\<in>set xs. f x = Inr y"
  by (induction xs arbitrary: ys) (auto simp: and_then_Inr_iff)

text \<open>\<open>for (const x of xs) f(x)\<close> where \<open>f\<close> may throw.\<close>

fun for_each :: "('a \<Rightarrow> 'e + unit) \<Rightarrow> 'a list \<Rightarrow> 'e + unit" where
  "for_each f [] = Inr ()"
| "for_each f (x # xs) = and_then (f x) (\<lambda>_. for_each f xs)"

lemma for_each_cong [fundef_cong]:
  "xs = ys \<Longrightarrow> (\<And>x. x \<in> set ys \<Longrightarrow> f x = g x) \<Longrightarrow> for_each f xs = for_each g ys"
  by (induction ys arbitrary: xs) auto

lemma for_each_iff: "for_each f xs = Inr () \<longleftrightarrow> (\<forall>x\<in>set xs. f x = Inr ())"
  by (induction xs) (auto simp: and_then_Inr_iff)

section \<open>Counting records kept in a list\<close>

definition count_if :: "('a \<Rightarrow> bool) \<Rightarrow> 'a list \<Rightarrow> int" where
  "count_if P xs = int (length (filter P xs))"

lemma count_if_Nil [simp]: "count_if P [] = 0"
  by (simp add: count_if_def)

lemma count_if_Cons: "count_if P (x # xs) = of_bool (P x) + count_if P xs"
  by (simp add: count_if_def)

lemma count_if_snoc [simp]: "count_if P (xs @ [x]) = count_if P xs + of_bool (P x)"
  by (simp add: count_if_def)

lemma count_if_update [simp]:
  "i < length xs \<Longrightarrow>
     count_if P (xs[i := x]) = count_if P xs - of_bool (P (xs ! i)) + of_bool (P x)"
proof (induction xs arbitrary: i)
  case (Cons y ys)
  then show ?case by (cases i) (auto simp: count_if_Cons)
qed simp

lemma count_if_nonneg [simp]: "0 \<le> count_if P xs"
  by (simp add: count_if_def)

lemma count_if_pos: "x \<in> set xs \<Longrightarrow> P x \<Longrightarrow> 1 \<le> count_if P xs"
  by (induction xs) (auto simp: count_if_Cons intro: order_trans)

lemma count_if_zero_iff: "count_if P xs = 0 \<longleftrightarrow> (\<forall>x\<in>set xs. \<not> P x)"
  by (simp add: count_if_def filter_empty_conv)

lemma count_if_cong: "(\<And>x. x \<in> set xs \<Longrightarrow> P x = Q x) \<Longrightarrow> count_if P xs = count_if Q xs"
  by (simp add: count_if_def cong: filter_cong)

lemma all_set_update:
  assumes "\<And>j. j < length xs \<Longrightarrow> j \<noteq> i \<Longrightarrow> P (xs ! j)" and "P x"
  shows "\<forall>y\<in>set (xs[i := x]). P y"
proof
  fix y assume "y \<in> set (xs[i := x])"
  then obtain j where "j < length xs" "y = xs[i := x] ! j" by (auto simp: in_set_conv_nth)
  with assms show "P y" by (cases "j = i") auto
qed

section \<open>Reachable states\<close>

inductive reach :: "'s \<Rightarrow> ('s \<Rightarrow> 's \<Rightarrow> bool) \<Rightarrow> 's \<Rightarrow> bool" for s0 step where
  reach_init: "reach s0 step s0"
| reach_step: "reach s0 step s \<Longrightarrow> step s t \<Longrightarrow> reach s0 step t"

lemma reach_one: "step s0 s \<Longrightarrow> reach s0 step s"
  by (rule reach_step, rule reach_init)

text \<open>A component with an initial state and a step relation, and what its steps keep.\<close>

locale invariant_system =
  fixes init :: 's and step :: "'s \<Rightarrow> 's \<Rightarrow> bool" and inv :: "'s \<Rightarrow> bool"
  assumes inv_init: "inv init"
    and inv_step: "inv s \<Longrightarrow> step s t \<Longrightarrow> inv t"
begin

lemma inv_reach: "reach init step s \<Longrightarrow> inv s"
  by (induction rule: reach.induct) (auto intro: inv_init inv_step)

end

end
