(* ===== verification/Admission.thy ===== *)
theory Admission
  imports Cairn_Prelude
begin

text \<open>
  WebSocket admission control, \<open>api/src/websocket/admission.ts\<close>. One \<open>Admission\<close> object counts the
  connections of the process, per transport, per client address and per user, and hands out leases.
  The closures of \<open>createLease\<close> and \<open>beginWorkHold\<close> capture mutable state, so the model keeps the
  leases and the work holds in stores, in the order of their creation, and a lease or hold is named
  by its index. The main result is that the four counters always equal the numbers of unreleased
  leases, so no connection can leak or be released twice.
\<close>

section \<open>Counter maps\<close>

type_synonym counter_map = "string \<rightharpoonup> int"

definition occ :: "counter_map \<Rightarrow> string \<Rightarrow> int" where
  "occ m k = (case m k of None \<Rightarrow> 0 | Some n \<Rightarrow> n)"

definition tryIncrement :: "counter_map \<Rightarrow> string \<Rightarrow> int \<Rightarrow> bool \<times> counter_map" where
  "tryIncrement m k limit =
     (let current = occ m k
      in if current \<ge> limit then (False, m) else (True, m(k \<mapsto> current + 1)))"

definition decrement :: "counter_map \<Rightarrow> string \<Rightarrow> counter_map" where
  "decrement m k =
     (let current = occ m k
      in if current \<le> 1 then m(k := None) else m(k \<mapsto> current - 1))"

text \<open>
  The contract the admission object relies on: a counter map tallies the elements of a multiset by
  key. \<open>live k\<close> is the number the map has to hold for the key.
\<close>

locale tally_map =
  fixes look :: "'m \<Rightarrow> 'k \<Rightarrow> int"
    and inc :: "'m \<Rightarrow> 'k \<Rightarrow> int \<Rightarrow> bool \<times> 'm"
    and dec :: "'m \<Rightarrow> 'k \<Rightarrow> 'm"
    and wf :: "'m \<Rightarrow> bool"
  assumes inc_refused: "inc m k n = (False, m') \<Longrightarrow> m' = m \<and> n \<le> look m k"
    and inc_granted: "inc m k n = (True, m') \<Longrightarrow>
           look m k < n \<and> look m' = (look m)(k := look m k + 1)"
    and inc_wf: "wf m \<Longrightarrow> inc m k n = (b, m') \<Longrightarrow> wf m'"
    and dec_look: "wf m \<Longrightarrow> 1 \<le> look m k \<Longrightarrow> look (dec m k) = (look m)(k := look m k - 1)"
    and dec_wf: "wf m \<Longrightarrow> wf (dec m k)"
    and dec_le: "look (dec m k) j \<le> max 0 (look m j)"
begin

lemma inc_within:
  assumes "inc m k n = (b, m')" and "n \<le> bnd k" and "\<And>j. look m j \<le> bnd j"
  shows "look m' j \<le> bnd j"
proof (cases b)
  case True
  with assms inc_granted[of m k n m'] have "look m k < n" "look m' = (look m)(k := look m k + 1)"
    by auto
  with assms(2,3) show ?thesis by (cases "j = k") auto
next
  case False
  with assms inc_refused[of m k n m'] show ?thesis by auto
qed

lemma dec_within: "look m j \<le> bnd \<Longrightarrow> 0 \<le> bnd \<Longrightarrow> look (dec m k) j \<le> bnd"
  using dec_le[of m k j] by auto

lemma inc_dec:
  assumes "wf m" and "0 \<le> look m k" and "inc m k n = (True, m')"
  shows "look (dec m' k) = look m"
  using assms inc_granted[of m k n m'] inc_wf[of m k n True m'] dec_look[of m' k]
  by (auto simp: fun_eq_iff)

end

definition counter_wf :: "counter_map \<Rightarrow> bool" where
  "counter_wf m \<longleftrightarrow> (\<forall>k n. m k = Some n \<longrightarrow> 1 \<le> n)"

lemma occ_upd [simp]: "occ (m(k := v)) = (occ m)(k := (case v of None \<Rightarrow> 0 | Some n \<Rightarrow> n))"
  by (auto simp: occ_def fun_eq_iff)

lemma occ_nonneg: "counter_wf m \<Longrightarrow> 0 \<le> occ m k"
  by (auto simp: occ_def counter_wf_def split: option.splits) (meson order_trans zero_le_one)

lemma occ_zero_iff: "counter_wf m \<Longrightarrow> occ m k = 0 \<longleftrightarrow> m k = None"
  by (auto simp: occ_def counter_wf_def split: option.splits) force

interpretation counter: tally_map occ tryIncrement decrement counter_wf
proof unfold_locales
  show "counter_wf m \<Longrightarrow> tryIncrement m k n = (b, m') \<Longrightarrow> counter_wf m'" for m k n b m'
    using occ_nonneg[of m k] by (auto simp: tryIncrement_def Let_def counter_wf_def split: if_splits)
qed (auto simp: tryIncrement_def decrement_def Let_def counter_wf_def split: if_splits)


section \<open>State\<close>

record admission_limits =
  lim_process :: int
  lim_ip :: int
  lim_user :: int
  lim_transports :: "string \<rightharpoonup> int"

record lease_state =
  ls_transport :: string
  ls_ip :: string
  ls_user :: "string option"
  ls_workCount :: int
  ls_closed :: bool
  ls_released :: bool

text \<open>A work hold: the lease it holds open and the \<open>cleared\<close> flag its closure captures.\<close>

record work_hold =
  wh_lease :: nat
  wh_cleared :: bool

record admission =
  ad_limits :: admission_limits
  ad_processCount :: int
  ad_perTransport :: counter_map
  ad_perIp :: counter_map
  ad_perUser :: counter_map
  ad_leases :: "lease_state list"
  ad_holds :: "work_hold list"

datatype admission_error = UnknownTransport string

definition new_admission :: "admission_limits \<Rightarrow> admission" where
  "new_admission lim =
     \<lparr>ad_limits = lim, ad_processCount = 0, ad_perTransport = Map.empty, ad_perIp = Map.empty,
      ad_perUser = Map.empty, ad_leases = [], ad_holds = []\<rparr>"

section \<open>Operations\<close>

definition createLease :: "admission \<Rightarrow> lease_state \<Rightarrow> admission \<times> nat" where
  "createLease a l = (a\<lparr>ad_leases := ad_leases a @ [l]\<rparr>, length (ad_leases a))"

definition reserve :: "admission \<Rightarrow> string \<Rightarrow> string \<Rightarrow> admission_error + admission \<times> nat option" where
  "reserve a transport ip =
     (case lim_transports (ad_limits a) transport of
        None \<Rightarrow> Inl (UnknownTransport transport)
      | Some transportLimit \<Rightarrow>
         (case tryIncrement (ad_perTransport a) transport transportLimit of
            (False, _) \<Rightarrow> Inr (a, None)
          | (True, pt) \<Rightarrow>
             if ad_processCount a \<ge> lim_process (ad_limits a)
             then Inr (a\<lparr>ad_perTransport := decrement pt transport\<rparr>, None)
             else
               (let a1 = a\<lparr>ad_perTransport := pt, ad_processCount := ad_processCount a + 1\<rparr>
                in case tryIncrement (ad_perIp a1) ip (lim_ip (ad_limits a)) of
                     (False, _) \<Rightarrow>
                       Inr (a1\<lparr>ad_processCount := ad_processCount a1 - 1,
                                ad_perTransport := decrement (ad_perTransport a1) transport\<rparr>, None)
                   | (True, pi) \<Rightarrow>
                       (case createLease (a1\<lparr>ad_perIp := pi\<rparr>)
                               \<lparr>ls_transport = transport, ls_ip = ip, ls_user = None, ls_workCount = 0,
                                ls_closed = False, ls_released = False\<rparr> of
                          (a2, i) \<Rightarrow> Inr (a2, Some i)))))"

definition set_lease :: "admission \<Rightarrow> nat \<Rightarrow> lease_state \<Rightarrow> admission" where
  "set_lease a i l = a\<lparr>ad_leases := (ad_leases a)[i := l]\<rparr>"

definition release :: "admission \<Rightarrow> nat \<Rightarrow> admission" where
  "release a i =
     (let l = ad_leases a ! i in
      if ls_released l then a
      else
        (let a1 = set_lease a i (l\<lparr>ls_released := True\<rparr>);
             a2 = a1\<lparr>ad_perTransport := decrement (ad_perTransport a1) (ls_transport l),
                      ad_processCount := ad_processCount a1 - 1\<rparr>
         in case ls_user l of
              Some u \<Rightarrow> a2\<lparr>ad_perUser := decrement (ad_perUser a2) u\<rparr>
            | None \<Rightarrow> a2\<lparr>ad_perIp := decrement (ad_perIp a2) (ls_ip l)\<rparr>))"

definition beginWorkHold :: "admission \<Rightarrow> nat \<Rightarrow> admission \<times> nat option" where
  "beginWorkHold a i =
     (let l = ad_leases a ! i in
      if ls_closed l then (a, None)
      else ((set_lease a i (l\<lparr>ls_workCount := ls_workCount l + 1\<rparr>))
              \<lparr>ad_holds := ad_holds a @ [\<lparr>wh_lease = i, wh_cleared = False\<rparr>]\<rparr>,
            Some (length (ad_holds a))))"

definition clearHold :: "admission \<Rightarrow> nat \<Rightarrow> admission" where
  "clearHold a h =
     (let w = ad_holds a ! h; i = wh_lease w; l = ad_leases a ! i in
      if wh_cleared w then a
      else
        (let a1 = a\<lparr>ad_holds := (ad_holds a)[h := w\<lparr>wh_cleared := True\<rparr>]\<rparr>;
             a2 = set_lease a1 i (l\<lparr>ls_workCount := ls_workCount l - 1\<rparr>)
         in if ls_closed l \<and> ls_workCount l - 1 = 0 then release a2 i else a2))"

definition transitionToUser :: "admission \<Rightarrow> nat \<Rightarrow> string \<Rightarrow> bool \<times> admission" where
  "transitionToUser a i user =
     (let l = ad_leases a ! i in
      if ls_closed l then (False, a)
      else if ls_user l = Some user then (True, a)
      else if ls_user l \<noteq> None then (False, a)
      else (case tryIncrement (ad_perUser a) user (lim_user (ad_limits a)) of
              (False, _) \<Rightarrow> (False, a)
            | (True, pu) \<Rightarrow>
                (True, (set_lease a i (l\<lparr>ls_user := Some user\<rparr>))
                         \<lparr>ad_perUser := pu, ad_perIp := decrement (ad_perIp a) (ls_ip l)\<rparr>)))"

definition transitionToAnonymous :: "admission \<Rightarrow> nat \<Rightarrow> bool \<times> admission" where
  "transitionToAnonymous a i =
     (let l = ad_leases a ! i in
      if ls_closed l then (False, a)
      else (case ls_user l of
              None \<Rightarrow> (True, a)
            | Some u \<Rightarrow>
                (case tryIncrement (ad_perIp a) (ls_ip l) (lim_ip (ad_limits a)) of
                   (False, _) \<Rightarrow> (False, a)
                 | (True, pi) \<Rightarrow>
                     (True, (set_lease a i (l\<lparr>ls_user := None\<rparr>))
                              \<lparr>ad_perIp := pi, ad_perUser := decrement (ad_perUser a) u\<rparr>))))"

definition closeLease :: "admission \<Rightarrow> nat \<Rightarrow> admission" where
  "closeLease a i =
     (let l = ad_leases a ! i in
      if ls_released l then a
      else
        (let a1 = set_lease a i (l\<lparr>ls_closed := True\<rparr>)
         in if ls_workCount l > 0 then a1 else release a1 i))"

text \<open>One call on the admission object or on a lease or work hold it handed out.\<close>

inductive adm_step :: "admission \<Rightarrow> admission \<Rightarrow> bool" where
  adm_reserve: "reserve a t ip = Inr (a', r) \<Longrightarrow> adm_step a a'"
| adm_begin: "i < length (ad_leases a) \<Longrightarrow> beginWorkHold a i = (a', r) \<Longrightarrow> adm_step a a'"
| adm_clear: "h < length (ad_holds a) \<Longrightarrow> adm_step a (clearHold a h)"
| adm_user: "i < length (ad_leases a) \<Longrightarrow> transitionToUser a i u = (b, a') \<Longrightarrow> adm_step a a'"
| adm_anonymous: "i < length (ad_leases a) \<Longrightarrow> transitionToAnonymous a i = (b, a') \<Longrightarrow> adm_step a a'"
| adm_close: "i < length (ad_leases a) \<Longrightarrow> adm_step a (closeLease a i)"

section \<open>The accounting invariant\<close>

abbreviation live :: "lease_state \<Rightarrow> bool" where
  "live l \<equiv> \<not> ls_released l"

definition adm_counts :: "admission \<Rightarrow> bool" where
  "adm_counts a \<longleftrightarrow>
     ad_processCount a = count_if live (ad_leases a) \<and>
     (\<forall>k. occ (ad_perTransport a) k = count_if (\<lambda>l. live l \<and> ls_transport l = k) (ad_leases a)) \<and>
     (\<forall>k. occ (ad_perIp a) k =
            count_if (\<lambda>l. live l \<and> ls_user l = None \<and> ls_ip l = k) (ad_leases a)) \<and>
     (\<forall>k. occ (ad_perUser a) k = count_if (\<lambda>l. live l \<and> ls_user l = Some k) (ad_leases a))"

definition adm_wf :: "admission \<Rightarrow> bool" where
  "adm_wf a \<longleftrightarrow>
     counter_wf (ad_perTransport a) \<and> counter_wf (ad_perIp a) \<and> counter_wf (ad_perUser a)"

definition adm_holds :: "admission \<Rightarrow> bool" where
  "adm_holds a \<longleftrightarrow>
     (\<forall>h\<in>set (ad_holds a). wh_lease h < length (ad_leases a)) \<and>
     (\<forall>i<length (ad_leases a).
        ls_workCount (ad_leases a ! i) =
          count_if (\<lambda>h. wh_lease h = i \<and> \<not> wh_cleared h) (ad_holds a))"

definition adm_flags :: "admission \<Rightarrow> bool" where
  "adm_flags a \<longleftrightarrow>
     (\<forall>l\<in>set (ad_leases a). ls_released l \<longleftrightarrow> ls_closed l \<and> ls_workCount l = 0)"

definition adm_inv :: "admission \<Rightarrow> bool" where
  "adm_inv a \<longleftrightarrow> adm_counts a \<and> adm_wf a \<and> adm_holds a \<and> adm_flags a"


lemmas adm_defs = adm_counts_def adm_wf_def adm_holds_def adm_flags_def

lemma lease_counted:
  assumes "adm_counts a" and "i < length (ad_leases a)" and "live (ad_leases a ! i)"
  shows "1 \<le> ad_processCount a" "1 \<le> occ (ad_perTransport a) (ls_transport (ad_leases a ! i))"
    and "ls_user (ad_leases a ! i) = None \<Longrightarrow> 1 \<le> occ (ad_perIp a) (ls_ip (ad_leases a ! i))"
    and "ls_user (ad_leases a ! i) = Some u \<Longrightarrow> 1 \<le> occ (ad_perUser a) u"
  using assms by (auto simp: adm_counts_def intro: count_if_pos[OF nth_mem])

lemma set_lease_sel [simp]:
  "ad_limits (set_lease a i l) = ad_limits a" "ad_processCount (set_lease a i l) = ad_processCount a"
  "ad_perTransport (set_lease a i l) = ad_perTransport a" "ad_perIp (set_lease a i l) = ad_perIp a"
  "ad_perUser (set_lease a i l) = ad_perUser a" "ad_holds (set_lease a i l) = ad_holds a"
  "ad_leases (set_lease a i l) = (ad_leases a)[i := l]"
  by (simp_all add: set_lease_def)

lemma release_counts:
  assumes "adm_counts a" "adm_wf a" "i < length (ad_leases a)"
  shows "adm_counts (release a i)"
proof (cases "live (ad_leases a ! i)")
  case True
  note pos = lease_counted[OF assms(1,3) True]
  show ?thesis
  proof (cases "ls_user (ad_leases a ! i)")
    case None
    with True pos assms counter.dec_look[OF _ pos(2)] counter.dec_look[OF _ pos(3)] show ?thesis
      by (auto simp: release_def adm_counts_def adm_wf_def Let_def)
  next
    case (Some u)
    with True pos assms counter.dec_look[OF _ pos(2)] counter.dec_look[OF _ pos(4)] show ?thesis
      by (auto simp: release_def adm_counts_def adm_wf_def Let_def)
  qed
next
  case False
  then show ?thesis using assms by (simp add: release_def)
qed

lemma release_wf: "adm_wf a \<Longrightarrow> adm_wf (release a i)"
  by (auto simp: release_def adm_wf_def Let_def counter.dec_wf split: option.splits)

lemma release_leases:
  "ad_leases (release a i) = (ad_leases a)[i := (ad_leases a ! i)\<lparr>ls_released := True\<rparr>]"
  by (cases "i < length (ad_leases a)")
     (auto simp: release_def Let_def list_update_beyond split: option.splits
           intro!: sym[OF list_update_same_conv[THEN iffD2]])

lemma release_holds [simp]: "ad_holds (release a i) = ad_holds a"
  by (auto simp: release_def Let_def split: option.splits)

lemma release_limits [simp]: "ad_limits (release a i) = ad_limits a"
  by (auto simp: release_def Let_def split: option.splits)

lemma adm_inv_init: "adm_inv (new_admission lim)"
  by (simp add: adm_inv_def adm_defs new_admission_def occ_def counter_wf_def)

definition new_lease :: "string \<Rightarrow> string \<Rightarrow> lease_state" where
  "new_lease transport ip =
     \<lparr>ls_transport = transport, ls_ip = ip, ls_user = None, ls_workCount = 0,
      ls_closed = False, ls_released = False\<rparr>"

lemma reserve_refused:
  assumes "reserve a t ip = Inr (a', None)" and "adm_wf a"
  shows "ad_leases a' = ad_leases a \<and> ad_holds a' = ad_holds a \<and> ad_limits a' = ad_limits a \<and>
    ad_processCount a' = ad_processCount a \<and> ad_perIp a' = ad_perIp a \<and> ad_perUser a' = ad_perUser a \<and>
    occ (ad_perTransport a') = occ (ad_perTransport a) \<and> counter_wf (ad_perTransport a')"
proof -
  have undo: "tryIncrement (ad_perTransport a) t n = (True, m) \<Longrightarrow>
      occ (decrement m t) = occ (ad_perTransport a) \<and> counter_wf (decrement m t)" for m n
    using assms(2) counter.inc_dec[of "ad_perTransport a" t n m] counter.inc_wf[of "ad_perTransport a" t n True m]
    by (auto simp: adm_wf_def occ_nonneg counter.dec_wf)
  have wf: "counter_wf (ad_perTransport a)"
    using assms(2) by (simp add: adm_wf_def)
  show ?thesis
    using assms(1) wf
    by (auto simp: reserve_def createLease_def Let_def undo
             split: option.splits prod.splits bool.splits if_splits)
qed

lemma reserve_granted:
  assumes "reserve a t ip = Inr (a', Some i)"
  obtains tl pt pi where
    "lim_transports (ad_limits a) t = Some tl" "tryIncrement (ad_perTransport a) t tl = (True, pt)"
    "ad_processCount a < lim_process (ad_limits a)"
    "tryIncrement (ad_perIp a) ip (lim_ip (ad_limits a)) = (True, pi)"
    "a' = a\<lparr>ad_perTransport := pt, ad_processCount := ad_processCount a + 1, ad_perIp := pi,
            ad_leases := ad_leases a @ [new_lease t ip]\<rparr>" "i = length (ad_leases a)"
  using assms
  by (auto simp: reserve_def createLease_def new_lease_def Let_def not_le
           split: option.splits prod.splits bool.splits if_splits)

lemma reserve_inv [step_inv]:
  assumes inv: "adm_inv a" and res: "reserve a t ip = Inr (a', r)"
  shows "adm_inv a'"
proof (cases r)
  case None
  from inv have "adm_wf a" by (simp add: adm_inv_def)
  from reserve_refused[OF res[unfolded None] this] inv show ?thesis
    by (simp add: adm_inv_def adm_defs)
next
  case (Some i)
  from res[unfolded Some] obtain tl pt pi where
    pt: "tryIncrement (ad_perTransport a) t tl = (True, pt)" and
    pi: "tryIncrement (ad_perIp a) ip (lim_ip (ad_limits a)) = (True, pi)" and
    a': "a' = a\<lparr>ad_perTransport := pt, ad_processCount := ad_processCount a + 1, ad_perIp := pi,
            ad_leases := ad_leases a @ [new_lease t ip]\<rparr>"
    by (rule reserve_granted)
  have "adm_counts a'"
    using inv counter.inc_granted[OF pt] counter.inc_granted[OF pi]
    by (simp add: a' adm_inv_def adm_counts_def new_lease_def)
  moreover have "adm_wf a'"
    using inv counter.inc_wf[OF _ pt] counter.inc_wf[OF _ pi] by (simp add: a' adm_inv_def adm_wf_def)
  moreover have "adm_holds a'"
  proof -
    from inv have "\<forall>h\<in>set (ad_holds a). wh_lease h < length (ad_leases a)"
      by (simp add: adm_inv_def adm_holds_def)
    then have "count_if (\<lambda>h. wh_lease h = length (ad_leases a) \<and> \<not> wh_cleared h) (ad_holds a) = 0"
      by (auto simp: count_if_zero_iff)
    with inv show ?thesis
      by (auto simp: a' adm_inv_def adm_holds_def new_lease_def nth_append less_Suc_eq)
  qed
  moreover have "adm_flags a'"
    using inv by (simp add: a' adm_inv_def adm_flags_def new_lease_def)
  ultimately show ?thesis by (simp add: adm_inv_def)
qed

lemma begin_inv [step_inv]:
  assumes "adm_inv a" "i < length (ad_leases a)" "beginWorkHold a i = (a', r)"
  shows "adm_inv a'"
proof (cases "ls_closed (ad_leases a ! i)")
  case False
  let ?l = "ad_leases a ! i"
  from assms(3) False have a': "a' = (set_lease a i (?l\<lparr>ls_workCount := ls_workCount ?l + 1\<rparr>))
      \<lparr>ad_holds := ad_holds a @ [\<lparr>wh_lease = i, wh_cleared = False\<rparr>]\<rparr>"
    by (simp add: beginWorkHold_def Let_def)
  from False assms(1,2) have live: "live ?l" by (auto simp: adm_inv_def adm_flags_def)
  have "adm_counts a'" "adm_wf a'"
    using assms(1,2) live by (auto simp: a' adm_inv_def adm_counts_def adm_wf_def)
  moreover have "adm_holds a'"
    using assms(1,2) by (auto simp: a' adm_inv_def adm_holds_def nth_list_update)
  moreover have "adm_flags a'"
    using assms(1,2) False live
    by (auto simp: a' adm_inv_def adm_flags_def dest!: set_update_subset_insert[THEN subsetD])
  ultimately show ?thesis by (simp add: adm_inv_def)
next
  case True
  with assms show ?thesis by (simp add: beginWorkHold_def Let_def)
qed

lemma clear_inv [step_inv]:
  assumes inv: "adm_inv a" and h: "h < length (ad_holds a)"
  shows "adm_inv (clearHold a h)"
proof (cases "wh_cleared (ad_holds a ! h)")
  case False
  let ?w = "ad_holds a ! h" and ?i = "wh_lease (ad_holds a ! h)"
  let ?l = "ad_leases a ! ?i"
  define b where "b = (set_lease (a\<lparr>ad_holds := (ad_holds a)[h := ?w\<lparr>wh_cleared := True\<rparr>]\<rparr>) ?i
      (?l\<lparr>ls_workCount := ls_workCount ?l - 1\<rparr>))"
  have clear: "clearHold a h = (if ls_closed ?l \<and> ls_workCount ?l - 1 = 0 then release b ?i else b)"
    using False by (simp add: clearHold_def b_def Let_def)
  from inv h have i: "?i < length (ad_leases a)"
    by (auto simp: adm_inv_def adm_holds_def)
  have "1 \<le> count_if (\<lambda>x. wh_lease x = ?i \<and> \<not> wh_cleared x) (ad_holds a)"
    using h False by (intro count_if_pos[OF nth_mem]) auto
  with inv i have work: "1 \<le> ls_workCount ?l"
    by (auto simp: adm_inv_def adm_holds_def)
  with inv i have live: "live ?l"
    by (auto simp: adm_inv_def adm_flags_def)
  have counts: "adm_counts b" "adm_wf b"
    using inv i live by (auto simp: b_def adm_inv_def adm_counts_def adm_wf_def)
  have holds: "adm_holds b"
    using inv i h False by (auto simp: b_def adm_inv_def adm_holds_def nth_list_update dest!: set_update_subset_insert[THEN subsetD])
  have others: "\<forall>j<length (ad_leases a). j \<noteq> ?i \<longrightarrow>
      ls_released (ad_leases a ! j) = (ls_closed (ad_leases a ! j) \<and> ls_workCount (ad_leases a ! j) = 0)"
    using inv by (auto simp: adm_inv_def adm_flags_def)
  show ?thesis
  proof (cases "ls_closed ?l \<and> ls_workCount ?l - 1 = 0")
    case True
    have "adm_counts (release b ?i)" "adm_wf (release b ?i)"
      using counts i by (auto intro!: release_counts release_wf simp: b_def)
    moreover have "adm_holds (release b ?i)"
      using holds i by (auto simp: adm_holds_def release_leases nth_list_update b_def)
    moreover have "adm_flags (release b ?i)"
      unfolding adm_flags_def release_leases b_def set_lease_sel admission.simps list_update_overwrite
      using others True i by (intro all_set_update) auto
    ultimately show ?thesis using clear True by (simp add: adm_inv_def)
  next
    case False
    have "adm_flags b"
      unfolding adm_flags_def b_def set_lease_sel admission.simps
      using others False i live by (intro all_set_update) auto
    with counts holds False clear show ?thesis by (auto simp: adm_inv_def)
  qed
next
  case True
  with inv show ?thesis by (simp add: clearHold_def Let_def)
qed

lemma close_inv [step_inv]:
  assumes inv: "adm_inv a" and i: "i < length (ad_leases a)"
  shows "adm_inv (closeLease a i)"
proof (cases "ls_released (ad_leases a ! i)")
  case False
  let ?l = "ad_leases a ! i"
  define b where "b = set_lease a i (?l\<lparr>ls_closed := True\<rparr>)"
  have close: "closeLease a i = (if ls_workCount ?l > 0 then b else release b i)"
    using False by (simp add: closeLease_def b_def Let_def)
  have parts: "adm_counts b" "adm_wf b" "adm_holds b"
    using inv i False by (auto simp: b_def adm_inv_def adm_defs nth_list_update)
  have others: "\<forall>j<length (ad_leases a). j \<noteq> i \<longrightarrow>
      ls_released (ad_leases a ! j) = (ls_closed (ad_leases a ! j) \<and> ls_workCount (ad_leases a ! j) = 0)"
    using inv by (auto simp: adm_inv_def adm_flags_def)
  have work: "0 \<le> ls_workCount ?l"
    using inv i by (simp add: adm_inv_def adm_holds_def)
  show ?thesis
  proof (cases "ls_workCount ?l > 0")
    case True
    have "adm_flags b"
      unfolding adm_flags_def b_def set_lease_sel
      using others True i False by (intro all_set_update) auto
    with parts True close show ?thesis by (simp add: adm_inv_def)
  next
    case nowork: False
    have "adm_counts (release b i)" "adm_wf (release b i)"
      using parts i by (auto intro!: release_counts release_wf simp: b_def)
    moreover have "adm_holds (release b i)"
      using parts i by (auto simp: adm_holds_def release_leases nth_list_update b_def)
    moreover have "adm_flags (release b i)"
      unfolding adm_flags_def release_leases b_def set_lease_sel list_update_overwrite
      using others nowork work i by (intro all_set_update) auto
    ultimately show ?thesis using close nowork by (simp add: adm_inv_def)
  qed
next
  case True
  with inv show ?thesis by (simp add: closeLease_def Let_def)
qed

lemma user_inv [step_inv]:
  assumes inv: "adm_inv a" and i: "i < length (ad_leases a)" and t: "transitionToUser a i u = (b, a')"
  shows "adm_inv a'"
proof (cases "a' = a")
  case False
  let ?l = "ad_leases a ! i"
  from t False obtain pu where none: "ls_user ?l = None" and opened: "\<not> ls_closed ?l"
    and pu: "tryIncrement (ad_perUser a) u (lim_user (ad_limits a)) = (True, pu)"
    and a': "a' = (set_lease a i (?l\<lparr>ls_user := Some u\<rparr>))
        \<lparr>ad_perUser := pu, ad_perIp := decrement (ad_perIp a) (ls_ip ?l)\<rparr>"
    by (auto simp: transitionToUser_def Let_def split: if_splits prod.splits bool.splits)
  have live: "live ?l" using inv i opened by (auto simp: adm_inv_def adm_flags_def)
  have counts: "adm_counts a" and wf: "adm_wf a" using inv by (auto simp: adm_inv_def)
  note pos = lease_counted(3)[OF counts i live none]
  have "adm_counts a'"
    using counts wf i live none counter.inc_granted[OF pu] counter.dec_look[OF _ pos]
    by (simp add: a' adm_counts_def adm_wf_def)
  moreover have "adm_wf a'"
    using wf counter.inc_wf[OF _ pu] counter.dec_wf by (simp add: a' adm_wf_def)
  moreover have "adm_holds a'" "adm_flags a'"
    using inv i opened live
    by (auto simp: a' adm_inv_def adm_holds_def adm_flags_def nth_list_update dest!: set_update_subset_insert[THEN subsetD])
  ultimately show ?thesis by (simp add: adm_inv_def)
qed (simp add: inv)

lemma anonymous_inv [step_inv]:
  assumes inv: "adm_inv a" and i: "i < length (ad_leases a)" and t: "transitionToAnonymous a i = (b, a')"
  shows "adm_inv a'"
proof (cases "a' = a")
  case False
  let ?l = "ad_leases a ! i"
  from t False obtain u pi where some: "ls_user ?l = Some u" and opened: "\<not> ls_closed ?l"
    and pi: "tryIncrement (ad_perIp a) (ls_ip ?l) (lim_ip (ad_limits a)) = (True, pi)"
    and a': "a' = (set_lease a i (?l\<lparr>ls_user := None\<rparr>))
        \<lparr>ad_perIp := pi, ad_perUser := decrement (ad_perUser a) u\<rparr>"
    by (auto simp: transitionToAnonymous_def Let_def split: if_splits prod.splits bool.splits option.splits)
  have live: "live ?l" using inv i opened by (auto simp: adm_inv_def adm_flags_def)
  have counts: "adm_counts a" and wf: "adm_wf a" using inv by (auto simp: adm_inv_def)
  note pos = lease_counted(4)[OF counts i live some]
  have "adm_counts a'"
    using counts wf i live some counter.inc_granted[OF pi] counter.dec_look[OF _ pos]
    by (simp add: a' adm_counts_def adm_wf_def)
  moreover have "adm_wf a'"
    using wf counter.inc_wf[OF _ pi] counter.dec_wf by (simp add: a' adm_wf_def)
  moreover have "adm_holds a'" "adm_flags a'"
    using inv i opened live
    by (auto simp: a' adm_inv_def adm_holds_def adm_flags_def nth_list_update dest!: set_update_subset_insert[THEN subsetD])
  ultimately show ?thesis by (simp add: adm_inv_def)
qed (simp add: inv)

lemma adm_step_inv: "adm_step a a' \<Longrightarrow> adm_inv a \<Longrightarrow> adm_inv a'"
  by (cases rule: adm_step.cases) (auto intro: step_inv)

section \<open>Limits\<close>

definition transport_bound :: "admission_limits \<Rightarrow> string \<Rightarrow> int" where
  "transport_bound lim t = (case lim_transports lim t of None \<Rightarrow> 0 | Some n \<Rightarrow> max 0 n)"

definition adm_within :: "admission \<Rightarrow> bool" where
  "adm_within a \<longleftrightarrow>
     ad_processCount a \<le> max 0 (lim_process (ad_limits a)) \<and>
     (\<forall>t. occ (ad_perTransport a) t \<le> transport_bound (ad_limits a) t) \<and>
     (\<forall>ip. occ (ad_perIp a) ip \<le> max 0 (lim_ip (ad_limits a))) \<and>
     (\<forall>u. occ (ad_perUser a) u \<le> max 0 (lim_user (ad_limits a)))"

lemmas within_rules = counter.dec_within counter.inc_within

lemma transport_bound_nonneg [simp]: "0 \<le> transport_bound lim t"
  by (simp add: transport_bound_def split: option.split)

lemma set_lease_within [simp]: "adm_within (set_lease a i l) = adm_within a"
  by (simp add: adm_within_def)

lemma holds_within [simp]: "adm_within (a\<lparr>ad_holds := hs\<rparr>) = adm_within a"
  by (simp add: adm_within_def)

lemma decrement_within: "\<forall>j. occ m j \<le> max 0 c \<Longrightarrow> occ (decrement m k) j \<le> max 0 c"
  by (rule counter.dec_within) auto

lemma release_within: "adm_within a \<Longrightarrow> adm_within (release a i)"
  by (auto simp: release_def adm_within_def Let_def intro: within_rules split: option.splits)

lemma reserve_within:
  assumes res: "reserve a t ip = Inr (a', r)" and inv: "adm_inv a" and within: "adm_within a"
  shows "adm_within a' \<and> ad_limits a' = ad_limits a"
proof (cases r)
  case None
  from inv have "adm_wf a" by (simp add: adm_inv_def)
  from reserve_refused[OF res[unfolded None] this] within show ?thesis
    by (simp add: adm_within_def)
next
  case (Some i)
  from res[unfolded Some] obtain tl pt pi where
    tl: "lim_transports (ad_limits a) t = Some tl" and
    pt: "tryIncrement (ad_perTransport a) t tl = (True, pt)" and
    pc: "ad_processCount a < lim_process (ad_limits a)" and
    pi: "tryIncrement (ad_perIp a) ip (lim_ip (ad_limits a)) = (True, pi)" and
    a': "a' = a\<lparr>ad_perTransport := pt, ad_processCount := ad_processCount a + 1, ad_perIp := pi,
            ad_leases := ad_leases a @ [new_lease t ip]\<rparr>"
    by (rule reserve_granted)
  have "occ pt j \<le> transport_bound (ad_limits a) j" for j
    using within tl by (intro counter.inc_within[OF pt]) (auto simp: adm_within_def transport_bound_def)
  moreover have "occ pi j \<le> max 0 (lim_ip (ad_limits a))" for j
    using within by (intro counter.inc_within[OF pi]) (auto simp: adm_within_def)
  ultimately show ?thesis using within pc by (simp add: a' adm_within_def)
qed

lemma user_within:
  assumes "transitionToUser a i u = (b, a')" and "adm_within a"
  shows "adm_within a' \<and> ad_limits a' = ad_limits a"
  using assms
  by (auto simp: transitionToUser_def adm_within_def Let_def
           split: if_splits prod.splits bool.splits intro: within_rules decrement_within)

lemma anonymous_within:
  assumes "transitionToAnonymous a i = (b, a')" and "adm_within a"
  shows "adm_within a' \<and> ad_limits a' = ad_limits a"
  using assms
  by (auto simp: transitionToAnonymous_def adm_within_def Let_def
           split: if_splits prod.splits bool.splits option.splits intro: within_rules decrement_within)

lemma hold_within:
  assumes "adm_within a"
  shows "beginWorkHold a i = (a', r) \<Longrightarrow> adm_within a' \<and> ad_limits a' = ad_limits a"
    and "adm_within (clearHold a h) \<and> ad_limits (clearHold a h) = ad_limits a"
    and "adm_within (closeLease a i) \<and> ad_limits (closeLease a i) = ad_limits a"
  using assms
  by (auto simp: beginWorkHold_def clearHold_def closeLease_def Let_def intro!: release_within
           split: if_splits)

lemma within_step:
  assumes "adm_step a a'" "adm_inv a" "adm_within a"
  shows "adm_within a' \<and> ad_limits a' = ad_limits a"
  using assms
proof (cases rule: adm_step.cases)
  case (adm_reserve t ip r)
  then show ?thesis using reserve_within assms by blast
next
  case (adm_user i u b)
  then show ?thesis using user_within assms by blast
next
  case (adm_anonymous i b)
  then show ?thesis using anonymous_within assms by blast
qed (use hold_within assms in blast)+

definition adm_ok :: "admission_limits \<Rightarrow> admission \<Rightarrow> bool" where
  "adm_ok lim a \<longleftrightarrow> adm_inv a \<and> adm_within a \<and> ad_limits a = lim"

interpretation adm_system: invariant_system "new_admission lim" adm_step "adm_ok lim" for lim
proof unfold_locales
  show "adm_ok lim (new_admission lim)"
    using adm_inv_init by (simp add: adm_ok_def adm_within_def new_admission_def occ_def)
  show "adm_ok lim s \<Longrightarrow> adm_step s t \<Longrightarrow> adm_ok lim t" for s t
    using adm_step_inv within_step by (auto simp: adm_ok_def)
qed

section \<open>Properties\<close>

definition live_leases :: "admission \<Rightarrow> lease_state list" where
  "live_leases a = filter live (ad_leases a)"

text \<open>
  C5: in every state reachable from a new admission object the process counter, the transport
  counters, the address counters of anonymous connections and the user counters of authenticated
  ones are exactly the numbers of unreleased leases they stand for.
\<close>

theorem admission_accounting:
  assumes "reach (new_admission lim) adm_step a"
  shows "ad_processCount a = int (length (live_leases a)) \<and>
    occ (ad_perTransport a) t = int (length (filter (\<lambda>l. ls_transport l = t) (live_leases a))) \<and>
    occ (ad_perIp a) ip =
      int (length (filter (\<lambda>l. ls_user l = None \<and> ls_ip l = ip) (live_leases a))) \<and>
    occ (ad_perUser a) u = int (length (filter (\<lambda>l. ls_user l = Some u) (live_leases a)))"
proof -
  from adm_system.inv_reach[OF assms] have "adm_counts a" by (simp add: adm_ok_def adm_inv_def)
  then show ?thesis
    by (simp add: adm_counts_def live_leases_def count_if_def conj_commute conj_left_commute)
qed

text \<open>C4: no reachable state has more connections than a limit allows, at any of the four levels.\<close>

theorem admission_limits_respected:
  assumes "reach (new_admission lim) adm_step a"
  shows "ad_processCount a \<le> max 0 (lim_process lim) \<and>
    occ (ad_perTransport a) t \<le> transport_bound lim t \<and>
    occ (ad_perIp a) ip \<le> max 0 (lim_ip lim) \<and> occ (ad_perUser a) u \<le> max 0 (lim_user lim)"
  using adm_system.inv_reach[OF assms] by (auto simp: adm_ok_def adm_within_def)

text \<open>
  C19: nothing leaks. Once every lease was closed and every work hold cleared, each lease is released,
  the process counter is back at zero and the three maps are empty again.
\<close>

theorem admission_drains:
  assumes "reach (new_admission lim) adm_step a"
    and "\<forall>l\<in>set (ad_leases a). ls_closed l" and "\<forall>h\<in>set (ad_holds a). wh_cleared h"
  shows "live_leases a = [] \<and> ad_processCount a = 0 \<and> ad_perTransport a = Map.empty \<and>
    ad_perIp a = Map.empty \<and> ad_perUser a = Map.empty"
proof -
  from adm_system.inv_reach[OF assms(1)] have inv: "adm_counts a" "adm_wf a" "adm_holds a" "adm_flags a"
    by (simp_all add: adm_ok_def adm_inv_def)
  have "i < length (ad_leases a) \<Longrightarrow> ls_workCount (ad_leases a ! i) = 0" for i
    using inv(3) assms(3) by (simp add: adm_holds_def count_if_zero_iff)
  then have none: "live_leases a = []"
    using inv(4) assms(2) by (auto simp: adm_flags_def live_leases_def filter_empty_conv in_set_conv_nth)
  have zero: "count_if (\<lambda>l. live l \<and> P l) (ad_leases a) = 0" for P
    using none by (auto simp: live_leases_def filter_empty_conv count_if_zero_iff)
  show ?thesis
    using inv(1,2) none zero zero[of "\<lambda>_. True"]
    by (auto simp: adm_counts_def adm_wf_def occ_zero_iff fun_eq_iff)
qed

section \<open>Concrete runs\<close>

definition demo_limits :: admission_limits where
  "demo_limits = \<lparr>lim_process = 2, lim_ip = 1, lim_user = 1, lim_transports = [''rest'' \<mapsto> 2]\<rparr>"

definition demo_open :: admission where
  "demo_open =
     \<lparr>ad_limits = demo_limits, ad_processCount = 1, ad_perTransport = [''rest'' \<mapsto> 1],
      ad_perIp = [''ip'' \<mapsto> 1], ad_perUser = Map.empty,
      ad_leases = [new_lease ''rest'' ''ip''], ad_holds = []\<rparr>"

definition demo_closing :: admission where
  "demo_closing =
     demo_open\<lparr>ad_leases := [(new_lease ''rest'' ''ip'')\<lparr>ls_workCount := 1, ls_closed := True\<rparr>],
                ad_holds := [\<lparr>wh_lease = 0, wh_cleared = False\<rparr>]\<rparr>"

definition demo_drained :: admission where
  "demo_drained = clearHold demo_closing 0"

lemma demo_open_reach: "reach (new_admission demo_limits) adm_step demo_open"
proof (rule reach_one)
  have "reserve (new_admission demo_limits) ''rest'' ''ip'' = Inr (demo_open, Some 0)"
    by (simp add: reserve_def createLease_def new_admission_def demo_limits_def demo_open_def
          new_lease_def tryIncrement_def occ_def Let_def)
  then show "adm_step (new_admission demo_limits) demo_open" by (rule adm_reserve)
qed

lemma demo_drained_reach: "reach (new_admission demo_limits) adm_step demo_drained"
proof -
  let ?b = "fst (beginWorkHold demo_open 0)"
  have "adm_step demo_open ?b"
    by (rule adm_begin[of 0 _ _ "snd (beginWorkHold demo_open 0)"]) (simp_all add: demo_open_def)
  moreover have "closeLease ?b 0 = demo_closing"
    by (simp add: beginWorkHold_def closeLease_def set_lease_def demo_open_def demo_closing_def
          new_lease_def Let_def)
  moreover have "adm_step ?b (closeLease ?b 0)"
    by (rule adm_close) (simp add: beginWorkHold_def demo_open_def new_lease_def Let_def)
  moreover have "adm_step demo_closing demo_drained"
    unfolding demo_drained_def by (rule adm_clear) (simp add: demo_closing_def)
  ultimately show ?thesis
    using demo_open_reach by (metis reach_step)
qed

lemma demo_drained_eval:
  "ad_leases demo_drained =
     [(new_lease ''rest'' ''ip'')\<lparr>ls_workCount := 0, ls_closed := True, ls_released := True\<rparr>] \<and>
   ad_holds demo_drained = [\<lparr>wh_lease = 0, wh_cleared = True\<rparr>]"
  by (simp add: demo_drained_def demo_closing_def demo_open_def clearHold_def release_leases
        set_lease_def new_lease_def Let_def)

theorem admission_accounting_witness:
  "ad_processCount demo_open = 1 \<and> occ (ad_perTransport demo_open) ''rest'' = 1 \<and>
   occ (ad_perIp demo_open) ''ip'' = 1 \<and> occ (ad_perUser demo_open) ''user'' = 0"
  using admission_accounting[OF demo_open_reach, of "''rest''" "''ip''" "''user''"]
  by (simp add: live_leases_def demo_open_def new_lease_def)

theorem admission_limits_witness:
  "ad_processCount demo_open \<le> 2 \<and> occ (ad_perTransport demo_open) ''rest'' \<le> 2 \<and>
   occ (ad_perIp demo_open) ''ip'' \<le> 1 \<and> occ (ad_perUser demo_open) ''user'' \<le> 1"
  using admission_limits_respected[OF demo_open_reach, of "''rest''" "''ip''" "''user''"]
  by (simp add: demo_limits_def transport_bound_def)

theorem admission_drains_witness:
  "length (ad_leases demo_drained) = 1 \<and> live_leases demo_drained = [] \<and>
   ad_perIp demo_drained = Map.empty"
  using admission_drains[OF demo_drained_reach] by (simp add: demo_drained_eval)

end
