(* ===== verification/Js_Text.thy ===== *)
theory Js_Text
  imports Cairn_Prelude
begin

text \<open>
  The part of JavaScript's \<open>String\<close> and \<open>Number\<close> libraries the modelled code uses, on strings as
  lists of characters: splitting and joining on one character, prefixes, trimming, and the
  conversions of integers to and from a radix.
\<close>

section \<open>Splitting and joining\<close>

fun js_split :: "char \<Rightarrow> string \<Rightarrow> string list" where
  "js_split c [] = [[]]"
| "js_split c (x # xs) =
     (if x = c then [] # js_split c xs
      else (case js_split c xs of [] \<Rightarrow> [[x]] | p # ps \<Rightarrow> (x # p) # ps))"

fun js_join :: "char \<Rightarrow> string list \<Rightarrow> string" where
  "js_join c [] = []"
| "js_join c [s] = s"
| "js_join c (s # t # ts) = s @ c # js_join c (t # ts)"

lemma js_split_not_Nil [simp]: "js_split c s \<noteq> []"
  by (induction s) (auto split: list.split)

lemma js_split_free: "c \<notin> set s \<Longrightarrow> js_split c s = [s]"
  by (induction s) auto

lemma js_split_append: "c \<notin> set s \<Longrightarrow> js_split c (s @ c # t) = s # js_split c t"
  by (induction s) auto

lemma js_split_join:
  "ss \<noteq> [] \<Longrightarrow> (\<And>s. s \<in> set ss \<Longrightarrow> c \<notin> set s) \<Longrightarrow> js_split c (js_join c ss) = ss"
proof (induction c ss rule: js_join.induct)
  case (3 c s t ts)
  then show ?case by (simp add: js_split_append)
qed (simp_all add: js_split_free)

lemma js_join_Nil_iff: "js_join c ss = [] \<longleftrightarrow> ss = [] \<or> ss = [[]]"
  by (induction c ss rule: js_join.induct) auto

lemma set_js_join: "set (js_join c ss) \<subseteq> insert c (\<Union>s\<in>set ss. set s)"
  by (induction c ss rule: js_join.induct) auto

section \<open>Prefixes and trimming\<close>

fun startsWith :: "string \<Rightarrow> string \<Rightarrow> bool" where
  "startsWith s [] = True"
| "startsWith [] (_ # _) = False"
| "startsWith (c # s) (d # p) = (c = d \<and> startsWith s p)"

definition is_space :: "char \<Rightarrow> bool" where
  "is_space c \<longleftrightarrow> c \<in> {CHR '' '', CHR 0x09, CHR 0x0A, CHR 0x0B, CHR 0x0C, CHR 0x0D}"

definition js_trim :: "string \<Rightarrow> string" where
  "js_trim s = rev (dropWhile is_space (rev (dropWhile is_space s)))"

lemma startsWith_append: "startsWith s p \<longleftrightarrow> (\<exists>t. s = p @ t)"
  by (induction s p rule: startsWith.induct) auto

section \<open>Integers in a radix\<close>

definition digit_char :: "nat \<Rightarrow> char" where
  "digit_char d = (if d < 10 then char_of (48 + d) else char_of (55 + d))"

definition digit_value :: "char \<Rightarrow> nat option" where
  "digit_value c =
     (let k = of_char c :: nat in
      if 48 \<le> k \<and> k \<le> 57 then Some (k - 48)
      else if 65 \<le> k \<and> k \<le> 90 then Some (k - 55)
      else if 97 \<le> k \<and> k \<le> 122 then Some (k - 87) else None)"

fun nat_to_radix :: "nat \<Rightarrow> nat \<Rightarrow> string" where
  "nat_to_radix b n =
     (if n < b \<or> b < 2 then [digit_char n]
      else nat_to_radix b (n div b) @ [digit_char (n mod b)])"

declare nat_to_radix.simps [simp del]

text \<open>\<open>Number.prototype.toString(radix)\<close> of an integer, in upper case.\<close>

definition to_radix :: "nat \<Rightarrow> int \<Rightarrow> string" where
  "to_radix b n = (if n < 0 then CHR ''-'' # nat_to_radix b (nat (- n)) else nat_to_radix b (nat n))"

fun digits_prefix :: "nat \<Rightarrow> string \<Rightarrow> nat list" where
  "digits_prefix b [] = []"
| "digits_prefix b (c # cs) =
     (case digit_value c of
        None \<Rightarrow> []
      | Some d \<Rightarrow> if d < b then d # digits_prefix b cs else [])"

definition digits_to_nat :: "nat \<Rightarrow> nat list \<Rightarrow> nat" where
  "digits_to_nat b ds = foldl (\<lambda>a d. a * b + d) 0 ds"

text \<open>\<open>parseInt(s, radix)\<close>: the longest prefix of digits after white space and a sign, \<open>None\<close> for NaN.\<close>

definition parseInt :: "nat \<Rightarrow> string \<Rightarrow> int option" where
  "parseInt b s =
     (let t = dropWhile is_space s;
          neg = (case t of c # _ \<Rightarrow> c = CHR ''-'' | [] \<Rightarrow> False);
          u = (case t of c # r \<Rightarrow> if c = CHR ''-'' \<or> c = CHR ''+'' then r else t | [] \<Rightarrow> []);
          ds = digits_prefix b u
      in if ds = [] then None
         else Some (if neg then - int (digits_to_nat b ds) else int (digits_to_nat b ds)))"

lemma digit_value_char: "d < 36 \<Longrightarrow> digit_value (digit_char d) = Some d"
  by (auto simp: digit_value_def digit_char_def Let_def)

lemma digit_value_mod:
  "2 \<le> b \<Longrightarrow> b \<le> 36 \<Longrightarrow> digit_value (digit_char (n mod b)) = Some (n mod b)"
  by (rule digit_value_char, rule less_le_trans[OF mod_less_divisor]) auto

definition digits_of :: "nat \<Rightarrow> string \<Rightarrow> bool" where
  "digits_of b s \<longleftrightarrow> (\<forall>c\<in>set s. \<exists>d<b. digit_value c = Some d)"

lemma digits_of_simps [simp]:
  "digits_of b []" "digits_of b (c # s) \<longleftrightarrow> (\<exists>d<b. digit_value c = Some d) \<and> digits_of b s"
  "digits_of b (s @ t) \<longleftrightarrow> digits_of b s \<and> digits_of b t"
  by (auto simp: digits_of_def)

lemma digits_prefix_valid: "digits_of b s \<Longrightarrow> digits_prefix b s = map (the \<circ> digit_value) s"
  by (induction s) auto

lemma digits_of_radix: "2 \<le> b \<Longrightarrow> b \<le> 36 \<Longrightarrow> digits_of b (nat_to_radix b n)"
proof (induction b n rule: nat_to_radix.induct)
  case (1 b n)
  then show ?case
    by (subst nat_to_radix.simps) (auto simp: digit_value_char digit_value_mod intro!: exI[of _ "n mod b"])
qed

lemma nat_to_radix_not_Nil [simp]: "nat_to_radix b n \<noteq> []"
  by (subst nat_to_radix.simps) simp

lemma value_of_radix:
  "2 \<le> b \<Longrightarrow> b \<le> 36 \<Longrightarrow> digits_to_nat b (map (the \<circ> digit_value) (nat_to_radix b n)) = n"
proof (induction b n rule: nat_to_radix.induct)
  case (1 b n)
  show ?case
  proof (cases "n < b")
    case True
    with "1.prems" show ?thesis
      by (subst nat_to_radix.simps) (simp add: digits_to_nat_def digit_value_char)
  next
    case False
    with 1 have "digits_to_nat b (map (the \<circ> digit_value) (nat_to_radix b (n div b))) = n div b"
      by (simp add: comp_def)
    with False "1.prems" show ?thesis
      by (subst nat_to_radix.simps) (simp add: digits_to_nat_def digit_value_mod comp_def)
  qed
qed

lemma digit_value_special [simp]:
  "digit_value CHR ''-'' = None" "digit_value CHR ''+'' = None" "digit_value CHR ''|'' = None"
  "digit_value CHR ''^'' = None" "digit_value CHR ''@'' = None" "digit_value CHR ''$'' = None"
  "digit_value CHR '']'' = None"
  by (simp_all add: digit_value_def)

lemma digit_value_not_space: "digit_value c = Some d \<Longrightarrow> \<not> is_space c"
  by (auto simp: is_space_def digit_value_def Let_def split: if_splits)

lemma parseInt_digits:
  "digits_of b s \<Longrightarrow> s \<noteq> [] \<Longrightarrow>
     parseInt b s = Some (int (digits_to_nat b (map (the \<circ> digit_value) s)))"
  by (cases s) (auto simp: parseInt_def digit_value_not_space digits_prefix_valid Let_def)

lemma parseInt_nat: "2 \<le> b \<Longrightarrow> b \<le> 36 \<Longrightarrow> parseInt b (nat_to_radix b n) = Some (int n)"
  by (simp add: parseInt_digits digits_of_radix value_of_radix)

text \<open>The round trip of an integer through \<open>toString(radix)\<close> and \<open>parseInt\<close>.\<close>

lemma parseInt_to_radix: "2 \<le> b \<Longrightarrow> b \<le> 36 \<Longrightarrow> parseInt b (to_radix b n) = Some n"
proof (cases "n < 0")
  case True
  assume b: "2 \<le> b" "b \<le> 36"
  show ?thesis
    using True digits_of_radix[OF b, of "nat (- n)"] value_of_radix[OF b, of "nat (- n)"]
    by (simp add: to_radix_def parseInt_def is_space_def digits_prefix_valid Let_def)
qed (simp add: to_radix_def parseInt_nat)

lemma to_radix_chars:
  "2 \<le> b \<Longrightarrow> b \<le> 36 \<Longrightarrow> c \<in> set (to_radix b n) \<Longrightarrow> c = CHR ''-'' \<or> digit_value c \<noteq> None"
  using digits_of_radix[of b "nat n"] digits_of_radix[of b "nat (- n)"]
  by (auto simp: to_radix_def digits_of_def split: if_splits)

lemma to_radix_not_Nil [simp]: "to_radix b n \<noteq> []"
  by (simp add: to_radix_def)

end
