(* ===== verification/Compress.thy ===== *)
theory Compress
  imports Js_Text
begin

text \<open>
  \<open>packages/utils/shared/compress.ts\<close>: an object or array is compressed to one string of four
  \<open>^\<close>-separated parts, the three value tables (strings, integers, floats) and a tree of indices into
  them, and \<open>decompress\<close> reads it back. The main result is the round trip: every well-formed value
  comes back, with dates as their JSON text. Numbers are exact: integers are safe integers and a
  float is the text its \<open>toString\<close> gives, on which \<open>parseFloat\<close> is the identity.
\<close>

section \<open>Tokens\<close>

datatype token_type =
  T_NULL | T_UNDEFINED | T_STRING | T_INTEGER | T_FLOAT | T_BOOLEAN | T_EMPTY

datatype compress_token =
    Token token_type int
  | NestedToken char "compress_token list"

abbreviation "Tokens_TRUE \<equiv> - 1 :: int"
abbreviation "Tokens_FALSE \<equiv> - 2 :: int"
abbreviation "Tokens_NULL \<equiv> - 3 :: int"
abbreviation "Tokens_EMPTY \<equiv> - 4 :: int"
abbreviation "Tokens_UNDEFINED \<equiv> - 5 :: int"

text \<open>The three \<open>Map\<close>s of \<open>compress\<close>, in insertion order; a float key is its number's text.\<close>

record tables =
  tb_strings :: "(string \<times> int) list"
  tb_integers :: "(string \<times> int) list"
  tb_floats :: "(string \<times> int) list"

definition no_tables :: tables where
  "no_tables = \<lparr>tb_strings = [], tb_integers = [], tb_floats = []\<rparr>"

section \<open>Text encoding of strings and integers\<close>

fun encode :: "string \<Rightarrow> string" where
  "encode [] = []"
| "encode (a # s) =
     (if a = CHR '' '' then ''+''
      else if a = CHR ''+'' then ''%2B''
      else if a = CHR ''|'' then ''%7C''
      else if a = CHR ''^'' then ''%5E''
      else if a = CHR ''%'' then ''%25'' else [a]) @ encode s"

fun decode :: "string \<Rightarrow> string" where
  "decode [] = []"
| "decode (a # s) =
     (if a = CHR ''+'' then CHR '' '' # decode s
      else if a = CHR ''%'' \<and> startsWith s ''2B'' then CHR ''+'' # decode (drop 2 s)
      else if a = CHR ''%'' \<and> startsWith s ''7C'' then CHR ''|'' # decode (drop 2 s)
      else if a = CHR ''%'' \<and> startsWith s ''5E'' then CHR ''^'' # decode (drop 2 s)
      else if a = CHR ''%'' \<and> startsWith s ''25'' then CHR ''%'' # decode (drop 2 s)
      else a # decode s)"

definition to36 :: "int \<Rightarrow> string" where
  "to36 num = to_radix 36 num"

definition to10 :: "string \<Rightarrow> int option" where
  "to10 str = parseInt 36 str"

fun getValueForToken :: "int \<Rightarrow> json" where
  "getValueForToken token =
     (if token = Tokens_TRUE then JBool True
      else if token = Tokens_FALSE then JBool False
      else if token = Tokens_NULL then JNull
      else if token = Tokens_EMPTY then JStr []
      else JUndefined)"

text \<open>\<open>output[index] = value\<close> on an array: an index past the end leaves holes.\<close>

definition array_put :: "int \<Rightarrow> 'a \<Rightarrow> 'a option list \<Rightarrow> 'a option list" where
  "array_put i v xs =
     (if nat i < length xs then xs[nat i := Some v]
      else xs @ replicate (nat i - length xs) None @ [Some v])"

fun mapToSortedArray_onto :: "'a option list \<Rightarrow> ('a \<times> int) list \<Rightarrow> 'a option list" where
  "mapToSortedArray_onto output [] = output"
| "mapToSortedArray_onto output ((value, index) # m) =
     mapToSortedArray_onto (array_put index value output) m"

definition mapToSortedArray :: "('a \<times> int) list \<Rightarrow> 'a option list" where
  "mapToSortedArray m = mapToSortedArray_onto [] m"

section \<open>Compression\<close>

text \<open>A value already in its table keeps its index; a new one gets the table's size.\<close>

definition intern :: "string \<Rightarrow> (string \<times> int) list \<Rightarrow> int \<times> (string \<times> int) list" where
  "intern value m =
     (case map_of m value of
        Some index \<Rightarrow> (index, m)
      | None \<Rightarrow> (let index = int (length m) in (index, js_set value index m)))"

definition intern_string :: "string \<Rightarrow> tables \<Rightarrow> compress_token \<times> tables" where
  "intern_string value t =
     (case intern value (tb_strings t) of (i, m) \<Rightarrow> (Token T_STRING i, t\<lparr>tb_strings := m\<rparr>))"

fun getAst :: "json \<Rightarrow> tables \<Rightarrow> compress_token \<times> tables"
and getAsts :: "json list \<Rightarrow> tables \<Rightarrow> compress_token list \<times> tables"
and getAstEntries :: "(string \<times> json) list \<Rightarrow> tables \<Rightarrow> compress_token list \<times> tables" where
  "getAst JNull t = (Token T_NULL Tokens_NULL, t)"
| "getAst JUndefined t = (Token T_UNDEFINED Tokens_UNDEFINED, t)"
| "getAst (JArr part) t = (case getAsts part t of (ts, t') \<Rightarrow> (NestedToken CHR ''@'' ts, t'))"
| "getAst (JDate part) t = intern_string (encode part) t"
| "getAst (JObj part) t = (case getAstEntries part t of (ts, t') \<Rightarrow> (NestedToken CHR ''$'' ts, t'))"
| "getAst (JStr part) t =
     (if part = [] then (Token T_EMPTY Tokens_EMPTY, t) else intern_string (encode part) t)"
| "getAst (JInt part) t =
     (case intern (to36 part) (tb_integers t) of (i, m) \<Rightarrow> (Token T_INTEGER i, t\<lparr>tb_integers := m\<rparr>))"
| "getAst (JFloat part) t =
     (case intern part (tb_floats t) of (i, m) \<Rightarrow> (Token T_FLOAT i, t\<lparr>tb_floats := m\<rparr>))"
| "getAst (JBool part) t = (Token T_BOOLEAN (if part then Tokens_TRUE else Tokens_FALSE), t)"
| "getAsts [] t = ([], t)"
| "getAsts (v # vs) t =
     (case getAst v t of (a, t1) \<Rightarrow> (case getAsts vs t1 of (as, t2) \<Rightarrow> (a # as, t2)))"
| "getAstEntries [] t = ([], t)"
| "getAstEntries ((key, v) # es) t =
     (case (if key = [] then (Token T_EMPTY Tokens_EMPTY, t) else intern_string (encode key) t) of
        (k, t1) \<Rightarrow>
          (case getAst v t1 of
             (a, t2) \<Rightarrow> (case getAstEntries es t2 of (as, t3) \<Rightarrow> (k # a # as, t3))))"

definition strip_last_bar :: "string \<Rightarrow> string" where
  "strip_last_bar s = (if s \<noteq> [] \<and> last s = CHR ''|'' then butlast s else s)"

fun getCompressed :: "tables \<Rightarrow> compress_token \<Rightarrow> string"
and getCompressedList :: "tables \<Rightarrow> compress_token list \<Rightarrow> string" where
  "getCompressed t (NestedToken c ts) = strip_last_bar (c # getCompressedList t ts) @ '']''"
| "getCompressed t (Token ty index) =
     (case ty of
        T_STRING \<Rightarrow> to36 index
      | T_INTEGER \<Rightarrow> to36 (int (length (tb_strings t)) + index)
      | T_FLOAT \<Rightarrow> to36 (int (length (tb_strings t)) + int (length (tb_integers t)) + index)
      | _ \<Rightarrow> to_radix 10 index)"
| "getCompressedList t [] = []"
| "getCompressedList t (p # ps) = getCompressed t p @ ''|'' @ getCompressedList t ps"

definition join_table :: "(string \<times> int) list \<Rightarrow> string" where
  "join_table m =
     js_join CHR ''|'' (map (\<lambda>x. case x of None \<Rightarrow> [] | Some s \<Rightarrow> s) (mapToSortedArray m))"

definition compress :: "json \<Rightarrow> string" where
  "compress obj =
     (case getAst obj no_tables of
        (ast, t) \<Rightarrow>
          join_table (tb_strings t) @ ''^'' @ join_table (tb_integers t) @ ''^'' @
          join_table (tb_floats t) @ ''^'' @ getCompressed t ast)"

section \<open>Decompression\<close>

datatype decompress_token = Sym char | Num "int option"

datatype decompress_error =
  InvalidInput | BadToken "decompress_token option" | OutOfFuel

text \<open>\<open>parseFloat\<close> on the texts \<open>compress\<close> writes: an integral text reads as an integer.\<close>

definition parseFloat :: "string \<Rightarrow> json" where
  "parseFloat s =
     (case parseInt 10 s of
        Some n \<Rightarrow> if to_radix 10 n = s then JInt n else JFloat s
      | None \<Rightarrow> JFloat s)"

definition number_or_NaN :: "int option \<Rightarrow> json" where
  "number_or_NaN n = (case n of None \<Rightarrow> JFloat ''NaN'' | Some k \<Rightarrow> JInt k)"

definition value_table :: "string \<Rightarrow> string \<Rightarrow> string \<Rightarrow> json list" where
  "value_table strings integers floats =
     (if strings \<noteq> [] then map (\<lambda>p. JStr (decode p)) (js_split CHR ''|'' strings) else []) @
     (if integers \<noteq> [] then map (\<lambda>p. number_or_NaN (to10 p)) (js_split CHR ''|'' integers) else []) @
     (if floats \<noteq> [] then map parseFloat (js_split CHR ''|'' floats) else [])"

definition is_symbol :: "char \<Rightarrow> bool" where
  "is_symbol c \<longleftrightarrow> c \<in> {CHR ''|'', CHR ''$'', CHR ''@'', CHR '']''}"

fun tokenize :: "string \<Rightarrow> string \<Rightarrow> decompress_token list" where
  "tokenize num36Buffer [] = []"
| "tokenize num36Buffer (symbol # s) =
     (if is_symbol symbol
      then (if num36Buffer \<noteq> [] then [Num (to10 num36Buffer)] else []) @
           (if symbol \<noteq> CHR ''|'' then [Sym symbol] else []) @ tokenize [] s
      else tokenize (num36Buffer @ [symbol]) s)"

text \<open>\<open>values[token]\<close>, and the fallback to the constant tokens.\<close>

definition value_at :: "json list \<Rightarrow> decompress_token \<Rightarrow> json" where
  "value_at values t =
     (case t of
        Num (Some k) \<Rightarrow> if 0 \<le> k \<and> nat k < length values then values ! nat k else JUndefined
      | _ \<Rightarrow> JUndefined)"

definition token_value :: "json list \<Rightarrow> decompress_token \<Rightarrow> json" where
  "token_value values t =
     (if nullish (value_at values t)
      then (case t of Num (Some k) \<Rightarrow> getValueForToken k | _ \<Rightarrow> JUndefined)
      else value_at values t)"

text \<open>The property name a table value becomes in \<open>node[key]\<close>; a table holds strings and numbers only.\<close>

definition property_key :: "json \<Rightarrow> string" where
  "property_key v =
     (case v of JStr s \<Rightarrow> s | JInt n \<Rightarrow> to_radix 10 n | JFloat s \<Rightarrow> s | _ \<Rightarrow> ''undefined'')"

definition opens :: "decompress_token \<Rightarrow> bool" where
  "opens t \<longleftrightarrow> t = Sym CHR ''$'' \<or> t = Sym CHR ''@''"

text \<open>
  \<open>getDecompressed\<close> and its two loops, on the tokens from \<open>tokenIndex\<close> on. A nested call leaves the
  index on the closing token, which the loop's increment then skips. Each call or iteration spends one
  unit of fuel, and of two consecutive ones at least one consumes a token, so \<open>2 * length tokens + 1\<close>
  units are enough (\<open>decompress_terminates\<close>).
\<close>

fun getDecompressed :: "nat \<Rightarrow> json list \<Rightarrow> decompress_token list \<Rightarrow>
      decompress_error + json \<times> decompress_token list"
and object_loop :: "nat \<Rightarrow> json list \<Rightarrow> json_object \<Rightarrow> decompress_token list \<Rightarrow>
      decompress_error + json \<times> decompress_token list"
and array_loop :: "nat \<Rightarrow> json list \<Rightarrow> json list \<Rightarrow> decompress_token list \<Rightarrow>
      decompress_error + json \<times> decompress_token list" where
  "getDecompressed 0 values ts = Inl OutOfFuel"
| "getDecompressed (Suc n) values [] = Inl (BadToken None)"
| "getDecompressed (Suc n) values (ty # ts) =
     (if ty = Sym CHR ''$'' then object_loop n values [] ts
      else if ty = Sym CHR ''@'' then array_loop n values [] ts
      else Inl (BadToken (Some ty)))"
| "object_loop 0 values node ts = Inl OutOfFuel"
| "object_loop (Suc n) values node [] = Inl (BadToken (Some (Sym CHR ''$'')))"
| "object_loop (Suc n) values node (rawKey # ts) =
     (if rawKey = Sym CHR '']'' then Inr (JObj node, rawKey # ts)
      else
        (let key = property_key (value_at values rawKey) in
         case ts of
           [] \<Rightarrow> object_loop n values (js_set key JUndefined node) []
         | rawValue # rest \<Rightarrow>
             if opens rawValue
             then (case getDecompressed n values (rawValue # rest) of
                     Inl e \<Rightarrow> Inl e
                   | Inr (v, rest') \<Rightarrow> object_loop n values (js_set key v node) (tl rest'))
             else object_loop n values (js_set key (token_value values rawValue) node) rest))"
| "array_loop 0 values node ts = Inl OutOfFuel"
| "array_loop (Suc n) values node [] = Inl (BadToken (Some (Sym CHR ''@'')))"
| "array_loop (Suc n) values node (rawValue # ts) =
     (if rawValue = Sym CHR '']'' then Inr (JArr node, rawValue # ts)
      else if opens rawValue
      then (case getDecompressed n values (rawValue # ts) of
              Inl e \<Rightarrow> Inl e
            | Inr (v, rest') \<Rightarrow> array_loop n values (node @ [v]) (tl rest'))
      else array_loop n values (node @ [token_value values rawValue]) ts)"

definition decompress :: "string \<Rightarrow> decompress_error + json" where
  "decompress input =
     (case js_split CHR ''^'' input of
        [strings, integers, floats, tree] \<Rightarrow>
          (let tokens = tokenize [] tree in
           case getDecompressed (Suc (2 * length tokens)) (value_table strings integers floats) tokens of
             Inl e \<Rightarrow> Inl e
           | Inr (v, _) \<Rightarrow> Inr v)
      | _ \<Rightarrow> Inl InvalidInput)"

section \<open>The text encoding is invertible\<close>

lemma decode_encode [simp]: "decode (encode s) = s"
  by (induction s) auto

lemma encode_free: "c \<in> set (encode s) \<Longrightarrow> c \<noteq> CHR ''|'' \<and> c \<noteq> CHR ''^''"
  by (induction s) (auto split: if_splits)

lemma encode_Nil_iff [simp]: "encode s = [] \<longleftrightarrow> s = []"
  by (cases s) auto

lemma to10_to36 [simp]: "to10 (to36 n) = Some n"
  by (simp add: to10_def to36_def parseInt_to_radix)

section \<open>Value tables\<close>

definition table_ok :: "('a \<times> int) list \<Rightarrow> bool" where
  "table_ok m \<longleftrightarrow> map snd m = map int [0..<length m] \<and> distinct (map fst m)"

lemma sorted_onto:
  "map snd m = map int [length xs..<length xs + length m] \<Longrightarrow>
     mapToSortedArray_onto xs m = xs @ map (Some \<circ> fst) m"
proof (induction m arbitrary: xs)
  case (Cons p m)
  obtain v i where p: "p = (v, i)" by (cases p)
  have "[length xs..<length xs + length (p # m)] =
      length xs # [Suc (length xs)..<Suc (length xs) + length m]"
    by (simp add: upt_conv_Cons del: upt_Suc)
  with Cons.prems have i: "i = int (length xs)"
    and rest: "map snd m = map int [Suc (length xs)..<Suc (length xs) + length m]"
    by (simp_all add: p del: upt_Suc)
  from rest have "map snd m = map int [length (xs @ [Some v])..<length (xs @ [Some v]) + length m]"
    by simp
  from Cons.IH[OF this] show ?case by (simp add: p i array_put_def)
qed simp

lemma mapToSortedArray_table: "table_ok m \<Longrightarrow> mapToSortedArray m = map (Some \<circ> fst) m"
  using sorted_onto[of m "[]"] by (simp add: table_ok_def mapToSortedArray_def)

lemma intern_ok:
  assumes "table_ok m" "intern v m = (i, m')"
  shows "table_ok m' \<and> (\<exists>ys. m' = m @ ys) \<and> (\<exists>k<length m'. i = int k \<and> fst (m' ! k) = v)"
proof (cases "map_of m v")
  case None
  then have new: "v \<notin> set (map fst m)" by (simp add: map_of_eq_None_iff)
  with assms None have "m' = m @ [(v, int (length m))]" "i = int (length m)"
    by (auto simp: intern_def Let_def js_set_new)
  with assms(1) new show ?thesis
    by (auto simp: table_ok_def nth_append intro: exI[of _ "length m"])
next
  case (Some j)
  then have "(v, j) \<in> set m" by (rule map_of_SomeD)
  then obtain k where k: "k < length m" "m ! k = (v, j)" by (auto simp: in_set_conv_nth)
  from assms(1) k(1) have "snd (m ! k) = int k"
    unfolding table_ok_def by (metis add_0 diff_zero length_map length_upt nth_map nth_upt)
  with k Some assms show ?thesis by (auto simp: intern_def)
qed

definition tables_ok :: "tables \<Rightarrow> bool" where
  "tables_ok t \<longleftrightarrow> table_ok (tb_strings t) \<and> table_ok (tb_integers t) \<and> table_ok (tb_floats t)"

definition extends :: "tables \<Rightarrow> tables \<Rightarrow> bool" where
  "extends t t' \<longleftrightarrow> (\<exists>xs ys zs. tb_strings t' = tb_strings t @ xs \<and>
     tb_integers t' = tb_integers t @ ys \<and> tb_floats t' = tb_floats t @ zs)"

lemma extends_refl [simp]: "extends t t"
  by (simp add: extends_def)

lemma extends_trans: "extends t1 t2 \<Longrightarrow> extends t2 t3 \<Longrightarrow> extends t1 t3"
  by (auto simp: extends_def)

lemma tables_ok_init [simp]: "tables_ok no_tables"
  by (simp add: tables_ok_def table_ok_def no_tables_def)

section \<open>Well-formed values and what a token stands for\<close>

text \<open>
  What comes back: safe integers, float texts of \<open>Number.prototype.toString\<close>, dates with a
  non-empty text, and objects whose keys are distinct and not empty (and not \<open>__proto__\<close>, whose
  assignment sets no property).
\<close>

definition float_text :: "string \<Rightarrow> bool" where
  "float_text s \<longleftrightarrow> s \<noteq> [] \<and> CHR ''|'' \<notin> set s \<and> CHR ''^'' \<notin> set s \<and> parseFloat s = JFloat s"

fun wf_value :: "json \<Rightarrow> bool" where
  "wf_value (JInt n) = (\<bar>n\<bar> < 2 ^ 53)"
| "wf_value (JFloat s) = float_text s"
| "wf_value (JDate s) = (s \<noteq> [])"
| "wf_value (JArr vs) = (\<forall>v\<in>set vs. wf_value v)"
| "wf_value (JObj es) =
     (distinct (map fst es) \<and> (\<forall>e\<in>set es. fst e \<noteq> [] \<and> fst e \<noteq> ''__proto__'' \<and> wf_value (snd e)))"
| "wf_value _ = True"

fun undate :: "json \<Rightarrow> json" where
  "undate (JDate s) = JStr s"
| "undate (JArr vs) = JArr (map undate vs)"
| "undate (JObj es) = JObj (map (\<lambda>e. (fst e, undate (snd e))) es)"
| "undate v = v"

fun den :: "tables \<Rightarrow> compress_token \<Rightarrow> json \<Rightarrow> bool"
and dens :: "tables \<Rightarrow> compress_token list \<Rightarrow> json list \<Rightarrow> bool"
and den_entries :: "tables \<Rightarrow> compress_token list \<Rightarrow> (string \<times> json) list \<Rightarrow> bool" where
  "den t a JNull = (a = Token T_NULL Tokens_NULL)"
| "den t a JUndefined = (a = Token T_UNDEFINED Tokens_UNDEFINED)"
| "den t a (JBool b) = (a = Token T_BOOLEAN (if b then Tokens_TRUE else Tokens_FALSE))"
| "den t a (JInt n) =
     (\<exists>k<length (tb_integers t). a = Token T_INTEGER (int k) \<and> fst (tb_integers t ! k) = to36 n)"
| "den t a (JFloat s) =
     (float_text s \<and> (\<exists>k<length (tb_floats t). a = Token T_FLOAT (int k) \<and> fst (tb_floats t ! k) = s))"
| "den t a (JStr s) =
     (if s = [] then a = Token T_EMPTY Tokens_EMPTY
      else \<exists>k<length (tb_strings t). a = Token T_STRING (int k) \<and> fst (tb_strings t ! k) = encode s)"
| "den t a (JDate s) = False"
| "den t a (JArr vs) = (\<exists>ts. a = NestedToken CHR ''@'' ts \<and> dens t ts vs)"
| "den t a (JObj es) =
     (distinct (map fst es) \<and> (\<exists>ts. a = NestedToken CHR ''$'' ts \<and> den_entries t ts es))"
| "dens t ts [] = (ts = [])"
| "dens t ts (v # vs) = (\<exists>a as. ts = a # as \<and> den t a v \<and> dens t as vs)"
| "den_entries t ts [] = (ts = [])"
| "den_entries t ts ((key, v) # es) =
     (\<exists>k a as. ts = k # a # as \<and> key \<noteq> [] \<and> den t k (JStr key) \<and> den t a v \<and> den_entries t as es)"

lemma den_mono:
  "extends t t' \<Longrightarrow> den t a v \<Longrightarrow> den t' a v"
  "extends t t' \<Longrightarrow> dens t ts vs \<Longrightarrow> dens t' ts vs"
  "extends t t' \<Longrightarrow> den_entries t ts es \<Longrightarrow> den_entries t' ts es"
proof (induction t a v and t ts vs and t ts es rule: den_dens_den_entries.induct)
  case (4 t a n)
  then show ?case by (fastforce simp: extends_def nth_append)
next
  case (5 t a s)
  then show ?case by (fastforce simp: extends_def nth_append)
next
  case (6 t a s)
  then show ?case by (fastforce simp: extends_def nth_append split: if_splits)
qed (fastforce simp: extends_def nth_append)+

section \<open>Compression builds a tree that stands for the value\<close>

definition built :: "tables \<Rightarrow> tables \<Rightarrow> bool" where
  "built t t' \<longleftrightarrow> tables_ok t' \<and> extends t t'"

lemma intern_string_built:
  assumes "tables_ok t" "intern_string (encode s) t = (a, t')" "s \<noteq> []"
  shows "built t t' \<and> den t' a (JStr s)"
proof -
  obtain i m where im: "intern (encode s) (tb_strings t) = (i, m)" by fastforce
  with assms have "a = Token T_STRING i" "t' = t\<lparr>tb_strings := m\<rparr>" by (auto simp: intern_string_def)
  with intern_ok[OF _ im] assms show ?thesis
    by (auto simp: built_def tables_ok_def extends_def)
qed

lemma built_trans: "built t1 t2 \<Longrightarrow> built t2 t3 \<Longrightarrow> built t1 t3"
  by (auto simp: built_def intro: extends_trans)

lemma built_mono:
  "built t t' \<Longrightarrow> den t a v \<Longrightarrow> den t' a v" "built t t' \<Longrightarrow> dens t ts vs \<Longrightarrow> dens t' ts vs"
  by (auto simp: built_def intro: den_mono)

lemma getAst_den:
  "tables_ok t \<Longrightarrow> wf_value v \<Longrightarrow> getAst v t = (a, t') \<Longrightarrow> built t t' \<and> den t' a (undate v)"
  "tables_ok t \<Longrightarrow> \<forall>v\<in>set vs. wf_value v \<Longrightarrow> getAsts vs t = (ts, t') \<Longrightarrow>
     built t t' \<and> dens t' ts (map undate vs)"
  "tables_ok t \<Longrightarrow> \<forall>e\<in>set es. fst e \<noteq> [] \<and> wf_value (snd e) \<Longrightarrow> getAstEntries es t = (ts, t') \<Longrightarrow>
     built t t' \<and> den_entries t' ts (map (\<lambda>e. (fst e, undate (snd e))) es)"
proof (induction v t and vs t and es t arbitrary: a t' and ts t' and ts t' rule: getAst_getAsts_getAstEntries.induct)
  case (4 part t)
  then show ?case using intern_string_built by auto
next
  case (6 part t)
  then show ?case using intern_string_built by (auto simp: built_def split: if_splits)
next
  case (7 part t)
  obtain i m where im: "intern (to36 part) (tb_integers t) = (i, m)" by fastforce
  with 7 intern_ok[OF _ im] show ?case by (auto simp: built_def tables_ok_def extends_def)
next
  case (8 part t)
  obtain i m where im: "intern part (tb_floats t) = (i, m)" by fastforce
  with 8 intern_ok[OF _ im] show ?case by (auto simp: built_def tables_ok_def extends_def)
next
  case (11 v vs t)
  obtain b t1 where b: "getAst v t = (b, t1)" by fastforce
  obtain bs t2 where bs: "getAsts vs t1 = (bs, t2)" by fastforce
  from 11 b have one: "built t t1 \<and> den t1 b (undate v)" by simp
  then have "tables_ok t1" by (simp add: built_def)
  with 11 b bs have two: "built t1 t2 \<and> dens t2 bs (map undate vs)" by simp
  from 11 b bs one two show ?case by (auto intro: built_trans built_mono)
next
  case (13 key v es t)
  obtain k t1 where k: "intern_string (encode key) t = (k, t1)" by fastforce
  obtain b t2 where b: "getAst v t1 = (b, t2)" by fastforce
  obtain bs t3 where bs: "getAstEntries es t2 = (bs, t3)" by fastforce
  from 13 have key: "key \<noteq> []" by simp
  from intern_string_built[OF _ k key] 13 have one: "built t t1 \<and> den t1 k (JStr key)" by simp
  then have "tables_ok t1" by (simp add: built_def)
  with 13 key k b have two: "built t1 t2 \<and> den t2 b (undate v)" by simp
  then have "tables_ok t2" by (simp add: built_def)
  with 13 key k b bs have three:
    "built t2 t3 \<and> den_entries t3 bs (map (\<lambda>e. (fst e, undate (snd e))) es)" by simp
  from one two three have "built t t3" "den t3 k (JStr key)" "den t3 b (undate v)"
    by (meson built_trans built_mono)+
  with 13 key k b bs three show ?case by auto
qed (auto simp: built_def comp_def split: prod.splits)

section \<open>The tree text is read back token by token\<close>

fun code :: "tables \<Rightarrow> token_type \<Rightarrow> int \<Rightarrow> int" where
  "code t T_INTEGER i = int (length (tb_strings t)) + i"
| "code t T_FLOAT i = int (length (tb_strings t)) + int (length (tb_integers t)) + i"
| "code t _ i = i"

fun toks :: "tables \<Rightarrow> compress_token \<Rightarrow> decompress_token list" where
  "toks t (Token ty i) = [Num (Some (code t ty i))]"
| "toks t (NestedToken c ts) = Sym c # concat (map (toks t) ts) @ [Sym CHR '']'']"

fun lexable :: "tables \<Rightarrow> compress_token \<Rightarrow> bool" where
  "lexable t (Token ty i) \<longleftrightarrow> ty \<in> {T_STRING, T_INTEGER, T_FLOAT} \<or> - 5 \<le> i \<and> i \<le> - 1"
| "lexable t (NestedToken c ts) \<longleftrightarrow>
     (c = CHR ''@'' \<or> c = CHR ''$'') \<and> (\<forall>a\<in>set ts. lexable t a)"

lemma den_lexable:
  "den t a v \<Longrightarrow> lexable t a"
  "dens t ts vs \<Longrightarrow> \<forall>a\<in>set ts. lexable t a"
  "den_entries t ts es \<Longrightarrow> \<forall>a\<in>set ts. lexable t a"
  by (induction t a v and t ts vs and t ts es rule: den_dens_den_entries.induct)
     (auto split: if_splits)

lemma small_radix: "- 9 \<le> i \<Longrightarrow> i \<le> 9 \<Longrightarrow> to_radix 10 i = to36 i"
  by (cases "i < 0") (auto simp: to36_def to_radix_def nat_to_radix.simps[of _ "nat i"]
        nat_to_radix.simps[of _ "nat (- i)"])

lemma leaf_text: "lexable t (Token ty i) \<Longrightarrow> getCompressed t (Token ty i) = to36 (code t ty i)"
  by (cases ty) (simp_all add: small_radix)

lemma to36_no_symbol: "c \<in> set (to36 n) \<Longrightarrow> \<not> is_symbol c"
  using to_radix_chars[of 36 c n] by (auto simp: to36_def is_symbol_def)

lemma to36_not_Nil [simp]: "to36 n \<noteq> []"
  by (simp add: to36_def)

lemma tokenize_run: "(\<And>c. c \<in> set xs \<Longrightarrow> \<not> is_symbol c) \<Longrightarrow> tokenize buf (xs @ s) = tokenize (buf @ xs) s"
  by (induction xs arbitrary: buf) auto

lemma tokenize_leaf:
  "is_symbol x \<Longrightarrow> tokenize [] (to36 n @ x # s) = Num (Some n) # tokenize [] (x # s)"
  by (subst tokenize_run) (auto simp: to36_no_symbol)

lemma list_bar:
  "ts \<noteq> [] \<Longrightarrow> getCompressedList t ts = js_join CHR ''|'' (map (getCompressed t) ts) @ ''|''"
proof (induction ts)
  case (Cons a ts)
  then show ?case by (cases ts) auto
qed simp

lemma getCompressed_nested:
  "c \<noteq> CHR ''|'' \<Longrightarrow>
     getCompressed t (NestedToken c ts) = c # js_join CHR ''|'' (map (getCompressed t) ts) @ '']''"
  by (cases "ts = []") (auto simp: strip_last_bar_def list_bar butlast_append)

declare getCompressed.simps(1) [simp del]

lemma lex_list:
  assumes "\<And>a rest. a \<in> set ts \<Longrightarrow> (\<exists>x r. rest = x # r \<and> is_symbol x) \<Longrightarrow>
      tokenize [] (getCompressed t a @ rest) = toks t a @ tokenize [] rest"
  shows "tokenize [] (js_join CHR ''|'' (map (getCompressed t) ts) @ CHR '']'' # rest) =
      concat (map (toks t) ts) @ Sym CHR '']'' # tokenize [] rest"
  using assms
proof (induction ts)
  case (Cons a ts)
  show ?case
  proof (cases ts)
    case Nil
    with Cons.prems[of a "CHR '']'' # rest"] show ?thesis by (simp add: is_symbol_def)
  next
    case (Cons b bs)
    let ?more = "js_join CHR ''|'' (map (getCompressed t) ts) @ CHR '']'' # rest"
    have "tokenize [] (getCompressed t a @ CHR ''|'' # ?more) = toks t a @ tokenize [] (CHR ''|'' # ?more)"
      by (rule Cons.prems) (auto simp: is_symbol_def)
    moreover have "tokenize [] ?more = concat (map (toks t) ts) @ Sym CHR '']'' # tokenize [] rest"
      using Cons.prems by (intro Cons.IH) auto
    ultimately show ?thesis using Cons by (simp add: is_symbol_def)
  qed
qed (simp add: is_symbol_def)

lemma lex_token:
  "lexable t a \<Longrightarrow> (\<exists>c ts. a = NestedToken c ts) \<or> (\<exists>x r. rest = x # r \<and> is_symbol x) \<Longrightarrow>
     tokenize [] (getCompressed t a @ rest) = toks t a @ tokenize [] rest"
proof (induction t a arbitrary: rest rule: toks.induct)
  case (1 t ty i)
  then obtain x r where "rest = x # r" "is_symbol x" by auto
  with 1 show ?case by (simp only: leaf_text tokenize_leaf toks.simps append.simps)
next
  case (2 t c ts)
  from 2 have c: "c = CHR ''@'' \<or> c = CHR ''$''" by simp
  then have "c \<noteq> CHR ''|''" "is_symbol c" by (auto simp: is_symbol_def)
  moreover have "tokenize [] (js_join CHR ''|'' (map (getCompressed t) ts) @ CHR '']'' # rest) =
      concat (map (toks t) ts) @ Sym CHR '']'' # tokenize [] rest"
    using 2 by (intro lex_list) auto
  ultimately show ?case by (simp add: getCompressed_nested)
qed

section \<open>Reading the tables\<close>

definition table_values :: "tables \<Rightarrow> json list" where
  "table_values t =
     map (JStr \<circ> decode \<circ> fst) (tb_strings t) @
     map (number_or_NaN \<circ> to10 \<circ> fst) (tb_integers t) @ map (parseFloat \<circ> fst) (tb_floats t)"

lemma intern_keys: "intern v m = (i, m') \<Longrightarrow> fst ` set m' \<subseteq> insert v (fst ` set m)"
proof -
  have "fst ` set (js_set v k m) = insert v (fst ` set m)" for k :: int
    using arg_cong[OF keys_js_set, of set v k m] by simp
  then show "intern v m = (i, m') \<Longrightarrow> fst ` set m' \<subseteq> insert v (fst ` set m)"
    by (auto simp: intern_def Let_def split: option.splits)
qed

definition string_entry :: "string \<Rightarrow> bool" where
  "string_entry s \<longleftrightarrow> s \<noteq> [] \<and> CHR ''|'' \<notin> set s \<and> CHR ''^'' \<notin> set s"

definition integer_entry :: "string \<Rightarrow> bool" where
  "integer_entry s \<longleftrightarrow> (\<exists>n. s = to36 n)"

definition all_keys :: "(string \<Rightarrow> bool) \<Rightarrow> (string \<times> int) list \<Rightarrow> bool" where
  "all_keys P m \<longleftrightarrow> fst ` set m \<subseteq> Collect P"

definition entries_ok :: "tables \<Rightarrow> bool" where
  "entries_ok t \<longleftrightarrow>
     all_keys string_entry (tb_strings t) \<and> all_keys integer_entry (tb_integers t) \<and>
     all_keys float_text (tb_floats t)"

lemma intern_all_keys: "all_keys P m \<Longrightarrow> P v \<Longrightarrow> intern v m = (i, m') \<Longrightarrow> all_keys P m'"
  using intern_keys[of v m i m'] unfolding all_keys_def by blast

lemma encode_entry: "s \<noteq> [] \<Longrightarrow> string_entry (encode s)"
  using encode_free by (auto simp: string_entry_def)

lemma new_string_key:
  "all_keys string_entry m \<Longrightarrow> s \<noteq> [] \<Longrightarrow> intern (encode s) m = (i, m') \<Longrightarrow> all_keys string_entry m'"
  by (rule intern_all_keys) (auto simp: encode_entry)

lemma new_integer_key:
  "all_keys integer_entry m \<Longrightarrow> intern (to36 n) m = (i, m') \<Longrightarrow> all_keys integer_entry m'"
  by (rule intern_all_keys) (auto simp: integer_entry_def)

lemma entry_string:
  "entries_ok t \<Longrightarrow> intern_string (encode s) t = (a, t') \<Longrightarrow> s \<noteq> [] \<Longrightarrow> entries_ok t'"
proof -
  assume ok: "entries_ok t" "intern_string (encode s) t = (a, t')" "s \<noteq> []"
  obtain i m where im: "intern (encode s) (tb_strings t) = (i, m)" by fastforce
  with ok have "t' = t\<lparr>tb_strings := m\<rparr>" by (simp add: intern_string_def)
  with new_string_key[OF _ ok(3) im] ok(1) show "entries_ok t'" by (simp add: entries_ok_def)
qed

lemma getAst_entries:
  "entries_ok t \<Longrightarrow> wf_value v \<Longrightarrow> getAst v t = (a, t') \<Longrightarrow> entries_ok t'"
  "entries_ok t \<Longrightarrow> \<forall>v\<in>set vs. wf_value v \<Longrightarrow> getAsts vs t = (ts, t') \<Longrightarrow> entries_ok t'"
  "entries_ok t \<Longrightarrow> \<forall>e\<in>set es. fst e \<noteq> [] \<and> wf_value (snd e) \<Longrightarrow> getAstEntries es t = (ts, t') \<Longrightarrow> entries_ok t'"
proof (induction v t and vs t and es t arbitrary: a t' and ts t' and ts t' rule: getAst_getAsts_getAstEntries.induct)
  case (4 part t)
  then have "intern_string (encode part) t = (a, t')" "part \<noteq> []" by auto
  with entry_string 4 show ?case by blast
next
  case (6 part t)
  show ?case
  proof (cases "part = []")
    case False
    with 6 have "intern_string (encode part) t = (a, t')" by simp
    with entry_string 6 False show ?thesis by blast
  qed (use 6 in simp)
next
  case (7 part t)
  obtain i m where im: "intern (to36 part) (tb_integers t) = (i, m)" by fastforce
  with 7 new_integer_key[OF _ im] show ?case by (auto simp: entries_ok_def)
next
  case (8 part t)
  obtain i m where im: "intern part (tb_floats t) = (i, m)" by fastforce
  with 8 intern_all_keys[OF _ _ im] show ?case by (auto simp: entries_ok_def)
next
  case (3 part t)
  obtain bs t1 where "getAsts part t = (bs, t1)" by fastforce
  with 3 show ?case by simp
next
  case (5 part t)
  obtain bs t1 where "getAstEntries part t = (bs, t1)" by fastforce
  with 5 show ?case by simp
next
  case (11 v vs t)
  obtain b t1 where b: "getAst v t = (b, t1)" by fastforce
  obtain bs t2 where bs: "getAsts vs t1 = (bs, t2)" by fastforce
  from "11.prems" b "11.IH"(1)[of b t1] have ok: "entries_ok t1" by simp
  from "11.prems" b bs have "t' = t2" "\<forall>v\<in>set vs. wf_value v" by simp_all
  with "11.IH"(2)[OF b[symmetric] ok _ bs] show ?case by blast
next
  case (13 key v es t)
  obtain k t1 where k: "intern_string (encode key) t = (k, t1)" by fastforce
  obtain b t2 where b: "getAst v t1 = (b, t2)" by fastforce
  obtain bs t3 where bs: "getAstEntries es t2 = (bs, t3)" by fastforce
  from "13.prems" have key: "key \<noteq> []" by simp
  have ok1: "entries_ok t1" by (rule entry_string[OF "13.prems"(1) k key])
  with "13.IH"(1)[of k t1 b t2] "13.prems"(2) k b key have ok2: "entries_ok t2" by simp
  with "13.IH"(2)[of k t1 b t2 bs t3] "13.prems"(2) k b bs key have "entries_ok t3" by simp
  moreover from "13.prems"(3) k b bs key have "t' = t3" by simp
  ultimately show ?case by simp
qed simp_all

lemma join_table_eq: "table_ok m \<Longrightarrow> join_table m = js_join CHR ''|'' (map fst m)"
  by (simp add: join_table_def mapToSortedArray_table comp_def)

lemma split_table:
  assumes "table_ok m"
    and "\<And>s. s \<in> fst ` set m \<Longrightarrow> s \<noteq> [] \<and> CHR ''|'' \<notin> set s \<and> CHR ''^'' \<notin> set s"
  shows "(if join_table m \<noteq> [] then map f (js_split CHR ''|'' (join_table m)) else []) = map (f \<circ> fst) m"
proof (cases m)
  case (Cons p m')
  have "js_split CHR ''|'' (js_join CHR ''|'' (map fst m)) = map fst m"
    using assms(2) Cons by (intro js_split_join) auto
  moreover have "js_join CHR ''|'' (map fst m) \<noteq> []"
    using assms(2)[of "fst p"] Cons by (auto simp: js_join_Nil_iff)
  ultimately show ?thesis using assms(1) by (simp add: join_table_eq comp_def)
qed (simp add: join_table_def mapToSortedArray_def)

lemma to36_free: "CHR ''|'' \<notin> set (to36 n)" "CHR ''^'' \<notin> set (to36 n)"
  using to_radix_chars[of 36 "CHR ''|''" n] to_radix_chars[of 36 "CHR ''^''" n] by (auto simp: to36_def)

lemma all_keysD: "all_keys P m \<Longrightarrow> s \<in> fst ` set m \<Longrightarrow> P s"
  unfolding all_keys_def by blast

lemma entry_chars:
  "string_entry s \<Longrightarrow> s \<noteq> [] \<and> CHR ''|'' \<notin> set s \<and> CHR ''^'' \<notin> set s"
  "integer_entry s \<Longrightarrow> s \<noteq> [] \<and> CHR ''|'' \<notin> set s \<and> CHR ''^'' \<notin> set s"
  "float_text s \<Longrightarrow> s \<noteq> [] \<and> CHR ''|'' \<notin> set s \<and> CHR ''^'' \<notin> set s"
  unfolding string_entry_def integer_entry_def float_text_def using to36_free by force+

lemma entries_chars:
  assumes "entries_ok t"
  shows "s \<in> fst ` set (tb_strings t) \<Longrightarrow> s \<noteq> [] \<and> CHR ''|'' \<notin> set s \<and> CHR ''^'' \<notin> set s"
    and "s \<in> fst ` set (tb_integers t) \<Longrightarrow> s \<noteq> [] \<and> CHR ''|'' \<notin> set s \<and> CHR ''^'' \<notin> set s"
    and "s \<in> fst ` set (tb_floats t) \<Longrightarrow> s \<noteq> [] \<and> CHR ''|'' \<notin> set s \<and> CHR ''^'' \<notin> set s"
  by (rule entry_chars, rule all_keysD, rule assms[unfolded entries_ok_def, THEN conjunct1], assumption)
     (rule entry_chars, rule all_keysD, rule assms[unfolded entries_ok_def, THEN conjunct2, THEN conjunct1], assumption,
      rule entry_chars, rule all_keysD, rule assms[unfolded entries_ok_def, THEN conjunct2, THEN conjunct2], assumption)

lemma value_table_eq:
  assumes "tables_ok t" "entries_ok t"
  shows "value_table (join_table (tb_strings t)) (join_table (tb_integers t)) (join_table (tb_floats t)) =
    table_values t"
proof -
  from assms(1) have ok: "table_ok (tb_strings t)" "table_ok (tb_integers t)" "table_ok (tb_floats t)"
    by (simp_all add: tables_ok_def)
  show ?thesis
    unfolding value_table_def table_values_def
    by (simp only: split_table[OF ok(1) entries_chars(1)[OF assms(2)]]
        split_table[OF ok(2) entries_chars(2)[OF assms(2)]]
        split_table[OF ok(3) entries_chars(3)[OF assms(2)]] comp_def)
qed

lemma table_caret_free:
  assumes "table_ok m"
    and "\<And>s. s \<in> fst ` set m \<Longrightarrow> s \<noteq> [] \<and> CHR ''|'' \<notin> set s \<and> CHR ''^'' \<notin> set s"
  shows "CHR ''^'' \<notin> set (join_table m)"
proof
  assume "CHR ''^'' \<in> set (join_table m)"
  then have "CHR ''^'' \<in> set (js_join CHR ''|'' (map fst m))" by (simp only: join_table_eq[OF assms(1)])
  with set_js_join[of "CHR ''|''" "map fst m"] have "CHR ''^'' \<in> insert CHR ''|'' (\<Union> (set ` set (map fst m)))"
    by (rule subsetD)
  then obtain s where "s \<in> fst ` set m" "CHR ''^'' \<in> set s" by auto
  with assms(2) show False by blast
qed

lemma tree_caret_free: "lexable t a \<Longrightarrow> CHR ''^'' \<notin> set (getCompressed t a)"
proof (induction t a rule: toks.induct)
  case (1 t ty i)
  then show ?case by (simp only: leaf_text to36_free not_False_eq_True)
next
  case (2 t c ts)
  then show ?case
    using set_js_join[of "CHR ''|''" "map (getCompressed t) ts"] by (auto simp: getCompressed_nested)
qed

lemma value_at_table:
  "k < length (tb_strings t) \<Longrightarrow>
     value_at (table_values t) (Num (Some (int k))) = JStr (decode (fst (tb_strings t ! k)))"
  "k < length (tb_integers t) \<Longrightarrow>
     value_at (table_values t) (Num (Some (int (length (tb_strings t)) + int k))) =
       number_or_NaN (to10 (fst (tb_integers t ! k)))"
  "k < length (tb_floats t) \<Longrightarrow>
     value_at (table_values t)
       (Num (Some (int (length (tb_strings t)) + int (length (tb_integers t)) + int k))) =
       parseFloat (fst (tb_floats t ! k))"
  by (simp_all add: value_at_def table_values_def nth_append nat_add_distrib)

lemma leaf_value:
  assumes "den t (Token ty i) v"
  shows "token_value (table_values t) (Num (Some (code t ty i))) = v"
proof (cases v)
  case (JInt n)
  with assms show ?thesis by (auto simp: token_value_def value_at_table number_or_NaN_def)
next
  case (JFloat f)
  with assms show ?thesis by (auto simp: token_value_def value_at_table float_text_def)
next
  case (JStr s)
  with assms show ?thesis
    by (cases "s = []") (auto simp: token_value_def value_at_table, simp add: value_at_def)
next
  case (JBool b)
  with assms show ?thesis by (cases b) (auto simp: token_value_def value_at_def)
qed (use assms in \<open>auto simp: token_value_def value_at_def\<close>)

lemma key_value:
  assumes "den t (Token ty i) (JStr key)" "key \<noteq> []"
  shows "property_key (value_at (table_values t) (Num (Some (code t ty i)))) = key"
  using assms by (auto simp: property_key_def value_at_table)

section \<open>Parsing the tree\<close>

lemma toks_head:
  "toks t a = x # xs \<Longrightarrow> den t a v \<Longrightarrow>
     x \<noteq> Sym CHR '']'' \<and> (opens x \<longleftrightarrow> (\<exists>c ts. a = NestedToken c ts)) \<and> (\<not> opens x \<longrightarrow> xs = [])"
  by (cases a; cases v) (auto simp: opens_def split: if_splits)

lemma token_step:
  assumes "den t a v"
    and "\<exists>c ts. a = NestedToken c ts \<Longrightarrow>
      getDecompressed n (table_values t) (toks t a @ s) = Inr (v, Sym CHR '']'' # s)"
  shows "array_loop (Suc n) (table_values t) node (toks t a @ s) =
      array_loop n (table_values t) (node @ [v]) s"
  using assms by (cases a) (auto simp: opens_def leaf_value dest: den_lexable(1))

lemma entry_step:
  assumes "den t k (JStr key)" "key \<noteq> []" "den t a v"
    and "\<exists>c ts. a = NestedToken c ts \<Longrightarrow>
      getDecompressed n (table_values t) (toks t a @ s) = Inr (v, Sym CHR '']'' # s)"
  shows "object_loop (Suc n) (table_values t) node (toks t k @ toks t a @ s) =
      object_loop n (table_values t) (js_set key v node) s"
proof -
  from assms(1,2) obtain i where k: "k = Token T_STRING i" by auto
  with assms(1,2) have "property_key (value_at (table_values t) (Num (Some i))) = key"
    using key_value[of t T_STRING i key] by simp
  then show ?thesis
    using assms(3,4) k by (cases a) (auto simp: opens_def leaf_value dest: den_lexable(1))
qed

lemma parse_tree:
  "den t a v \<Longrightarrow> a = NestedToken c ts' \<Longrightarrow> 2 * length (toks t a @ s) \<le> n \<Longrightarrow>
     getDecompressed n (table_values t) (toks t a @ s) = Inr (v, Sym CHR '']'' # s)"
  "dens t ts vs \<Longrightarrow> 2 * length (concat (map (toks t) ts) @ Sym CHR '']'' # s) < n \<Longrightarrow>
     array_loop n (table_values t) node (concat (map (toks t) ts) @ Sym CHR '']'' # s) =
       Inr (JArr (node @ vs), Sym CHR '']'' # s)"
  "den_entries t ts es \<Longrightarrow> distinct (map fst (onode @ es)) \<Longrightarrow>
     2 * length (concat (map (toks t) ts) @ Sym CHR '']'' # s) < n \<Longrightarrow>
     object_loop n (table_values t) onode (concat (map (toks t) ts) @ Sym CHR '']'' # s) =
       Inr (JObj (onode @ es), Sym CHR '']'' # s)"
proof (induction t a v and t ts vs and t ts es arbitrary: c ts' s n and node s n and onode s n
    rule: den_dens_den_entries.induct)
  case (8 t a vs)
  from 8 obtain m where n: "n = Suc m" by (cases n) auto
  from 8 have "c = CHR ''@''" "dens t ts' vs" by auto
  with 8 n show ?case by simp
next
  case (9 t a es)
  from 9 obtain m where n: "n = Suc m" by (cases n) auto
  from 9 have "c = CHR ''$''" "den_entries t ts' es" "distinct (map fst es)" by auto
  with 9 n show ?case by simp
next
  case (10 t ts)
  then show ?case by (cases n) auto
next
  case (11 t ts v vs)
  from 11 obtain m where n: "n = Suc m" by (cases n) auto
  from 11 obtain a as where ts: "ts = a # as" and d: "den t a v" and ds: "dens t as vs" by auto
  let ?s = "concat (map (toks t) as) @ Sym CHR '']'' # s"
  have "1 \<le> length (toks t a)" by (cases a) auto
  then have short: "2 * length ?s < m" "2 * length (toks t a @ ?s) \<le> m" using "11.prems" n ts by auto
  have nested: "getDecompressed m (table_values t) (toks t a @ ?s) = Inr (v, Sym CHR '']'' # ?s)"
    if "\<exists>c ts. a = NestedToken c ts"
  proof -
    from that obtain c ts' where a: "a = NestedToken c ts'" by blast
    show ?thesis by (rule "11.IH"(1)[OF d a short(2)])
  qed
  have "array_loop n (table_values t) node (toks t a @ ?s) = array_loop m (table_values t) (node @ [v]) ?s"
    unfolding n by (rule token_step[OF d nested])
  also have "\<dots> = Inr (JArr ((node @ [v]) @ vs), Sym CHR '']'' # s)"
    by (rule "11.IH"(2)[OF ds short(1)])
  finally show ?case by (simp add: ts)
next
  case (12 t ts)
  then show ?case by (cases n) auto
next
  case (13 t ts key v es)
  from 13 obtain m where n: "n = Suc m" by (cases n) auto
  from 13 obtain k a as where ts: "ts = k # a # as" and key: "key \<noteq> []" "den t k (JStr key)"
    and d: "den t a v" and ds: "den_entries t as es" by auto
  let ?s = "concat (map (toks t) as) @ Sym CHR '']'' # s"
  have len: "1 \<le> length (toks t k)" "1 \<le> length (toks t a)" by (cases k; simp) (cases a; simp)
  then have short: "2 * length ?s < m" "2 * length (toks t a @ ?s) \<le> m"
    using "13.prems"(3) n ts by auto
  have nested: "getDecompressed m (table_values t) (toks t a @ ?s) = Inr (v, Sym CHR '']'' # ?s)"
    if "\<exists>c ts. a = NestedToken c ts"
  proof -
    from that obtain c ts' where a: "a = NestedToken c ts'" by blast
    show ?thesis by (rule "13.IH"(2)[OF d a short(2)])
  qed
  have new: "js_set key v onode = onode @ [(key, v)]"
    using "13.prems"(2) by (intro js_set_new) auto
  have "object_loop n (table_values t) onode (toks t k @ toks t a @ ?s) =
      object_loop m (table_values t) (js_set key v onode) ?s"
    unfolding n by (rule entry_step[OF key(2,1) d nested])
  also have "\<dots> = Inr (JObj ((onode @ [(key, v)]) @ es), Sym CHR '']'' # s)"
    unfolding new using "13.prems"(2) by (intro "13.IH"(3)[OF ds _ short(1)]) auto
  finally show ?case by (simp add: ts)
next
  case (6 t a str)
  then show ?case by (cases "str = []") auto
qed auto

section \<open>Round trip and termination\<close>

lemma split_compressed:
  assumes "getAst v no_tables = (a, t)" "wf_value v" "tables_ok t" "lexable t a"
  shows "js_split CHR ''^'' (compress v) =
    [join_table (tb_strings t), join_table (tb_integers t), join_table (tb_floats t), getCompressed t a]"
proof -
  have "entries_ok no_tables" by (simp add: entries_ok_def no_tables_def all_keys_def)
  then have ok: "entries_ok t" using getAst_entries(1) assms(1,2) by blast
  from assms(3) have tb: "table_ok (tb_strings t)" "table_ok (tb_integers t)" "table_ok (tb_floats t)"
    by (simp_all add: tables_ok_def)
  have free: "CHR ''^'' \<notin> set (join_table (tb_strings t))" "CHR ''^'' \<notin> set (join_table (tb_integers t))"
    "CHR ''^'' \<notin> set (join_table (tb_floats t))" "CHR ''^'' \<notin> set (getCompressed t a)"
    using table_caret_free[OF tb(1) entries_chars(1)[OF ok]] table_caret_free[OF tb(2) entries_chars(2)[OF ok]]
      table_caret_free[OF tb(3) entries_chars(3)[OF ok]] tree_caret_free[OF assms(4)] by simp_all
  have "compress v = js_join CHR ''^''
      [join_table (tb_strings t), join_table (tb_integers t), join_table (tb_floats t), getCompressed t a]"
    by (simp add: compress_def assms(1))
  then show ?thesis using free by (simp only: js_split_join) (subst js_split_join, auto)
qed


text \<open>
  C11: Every well-formed array or object survives compression: \<open>decompress (compress v)\<close> returns the
  same value, with each date replaced by its JSON text.
\<close>

theorem decompress_compress:
  assumes "wf_value v" "isArray v \<or> isPlainObject v"
  shows "decompress (compress v) = Inr (undate v)"
proof -
  obtain a t where ast: "getAst v no_tables = (a, t)" by fastforce
  from getAst_den(1)[OF tables_ok_init assms(1) ast] have ok: "tables_ok t" and d: "den t a (undate v)"
    by (simp_all add: built_def)
  from assms(2) d obtain c ts where a: "a = NestedToken c ts" by (cases v) auto
  have lex: "lexable t a" by (rule den_lexable(1)[OF d])
  have "entries_ok no_tables" by (simp add: entries_ok_def no_tables_def all_keys_def)
  then have entries: "entries_ok t" using getAst_entries(1) assms(1) ast by blast
  have toks: "tokenize [] (getCompressed t a) = toks t a" using lex_token[OF lex, of "[]"] a by simp
  have "getDecompressed (Suc (2 * length (toks t a))) (table_values t) (toks t a @ []) =
      Inr (undate v, [Sym CHR '']''])"
    by (rule parse_tree(1)[OF d a]) simp
  then show ?thesis
    by (simp add: decompress_def split_compressed[OF ast assms(1) ok lex] toks
        value_table_eq[OF ok entries] Let_def)
qed

lemma decompress_compress_witness:
  "decompress (compress (JArr [JObj [(''a|b'', JInt 40), (''c'', JNull)], JStr [], JDate ''2020'']))
    = Inr (JArr [JObj [(''a|b'', JInt 40), (''c'', JNull)], JStr [], JStr ''2020''])"
  using decompress_compress[of "JArr [JObj [(''a|b'', JInt 40), (''c'', JNull)], JStr [], JDate ''2020'']"]
  by simp

lemma fuel_enough:
  "2 * length ts \<le> n \<Longrightarrow> ts \<noteq> [] \<Longrightarrow> getDecompressed n vals ts \<noteq> Inl OutOfFuel \<and>
     (\<forall>v rest. getDecompressed n vals ts = Inr (v, rest) \<longrightarrow> rest \<noteq> [] \<and> length rest < length ts)"
  "2 * length ts < n \<Longrightarrow> object_loop n vals onode ts \<noteq> Inl OutOfFuel \<and>
     (\<forall>v rest. object_loop n vals onode ts = Inr (v, rest) \<longrightarrow> rest \<noteq> [] \<and> length rest \<le> length ts)"
  "2 * length ts < n \<Longrightarrow> array_loop n vals node ts \<noteq> Inl OutOfFuel \<and>
     (\<forall>v rest. array_loop n vals node ts = Inr (v, rest) \<longrightarrow> rest \<noteq> [] \<and> length rest \<le> length ts)"
proof (induction n vals ts and n vals onode ts and n vals node ts
    rule: getDecompressed_object_loop_array_loop.induct)
  case (3 n vals ty ts)
  then show ?case by (auto simp: less_Suc_eq_le)
next
  case (6 n vals node rawKey ts)
  show ?case
  proof (cases "rawKey = Sym CHR '']''")
    case False
    show ?thesis
    proof (cases ts)
      case Nil
      with 6 False show ?thesis by (simp add: Let_def)
    next
      case (Cons rawValue rest)
      show ?thesis
      proof (cases "opens rawValue")
        case True
        then show ?thesis using 6 False Cons
          by (cases "getDecompressed n vals (rawValue # rest)")
            (fastforce simp: Let_def)+
      next
        case False
        then show ?thesis using 6 \<open>rawKey \<noteq> Sym CHR '']''\<close> Cons by (fastforce simp: Let_def)
      qed
    qed
  qed simp
next
  case (9 n vals node rawValue ts)
  show ?case
  proof (cases "rawValue \<noteq> Sym CHR '']'' \<and> opens rawValue")
    case True
    then show ?thesis using 9
      by (cases "getDecompressed n vals (rawValue # ts)") fastforce+
  next
    case False
    then show ?thesis using 9 by (cases "rawValue = Sym CHR '']''") fastforce+
  qed
qed auto

text \<open>
  \<open>decompress\<close> returns on every text, well formed or not: its parsing loops never run past the
  fuel of the model, so each input gives a value or one of the code's errors.
\<close>

lemma decompress_terminates: "decompress input \<noteq> Inl OutOfFuel"
proof -
  have "getDecompressed (Suc (2 * length ts)) vals ts \<noteq> Inl OutOfFuel" for vals ts
    using fuel_enough(1)[of ts "Suc (2 * length ts)" vals] by (cases ts) auto
  then show ?thesis
    by (auto simp: decompress_def Let_def split: list.splits sum.splits)
qed

text \<open>
  A property with an empty name does not survive: compression writes its name as the token of the
  empty string, which decompression looks up among the table values only, so it comes back under the
  name \<open>undefined\<close>.
\<close>

lemma decompress_loses_empty_key:
  "decompress (compress (JObj [([], JBool b)])) = Inr (JObj [(''undefined'', JBool b)])"
proof -
  have "decompress (compress (JObj [([], JBool True)])) = Inr (JObj [(''undefined'', JBool True)])"
    and "decompress (compress (JObj [([], JBool False)])) = Inr (JObj [(''undefined'', JBool False)])"
    by code_simp+
  then show ?thesis by (cases b) (simp_all only:)
qed

end
