(* ===== verification/Config_Graph.thy ===== *)
theory Config_Graph
  imports Cairn_Prelude "HOL-Library.List_Lexorder" "HOL-Library.Char_ord"
begin

text \<open>
  \<open>api/src/utils/config/graph.ts\<close>, \<open>registry.ts\<close> and \<open>dependency-context.ts\<close>: the configuration
  kinds, the order in which they are planned and applied, and access to what a dependency published.
  \<open>topologicalOrder\<close> succeeds exactly on acyclic closed dependency graphs and lists dependencies first;
  \<open>dependencyClosure\<close> returns and computes reachability.
\<close>

section \<open>Topological order\<close>

datatype 'a graph_error = Cycle 'a | UnknownDependency 'a 'a | OutOfDepth

record 'a walk =
  wk_ordered :: "'a list"
  wk_visited :: "'a list"
  wk_onStack :: "'a list"

text \<open>
  \<open>visit\<close> and its loop over the dependencies. Fuel bounds the depth: the stack holds distinct known
  nodes, so one more than their number is enough (\<open>visit_depth\<close>).
\<close>

fun visit :: "nat \<Rightarrow> 'a set \<Rightarrow> ('a \<Rightarrow> 'a list) \<Rightarrow> 'a \<Rightarrow> 'a walk \<Rightarrow> 'a graph_error + 'a walk"
and visit_all :: "nat \<Rightarrow> 'a set \<Rightarrow> ('a \<Rightarrow> 'a list) \<Rightarrow> 'a \<Rightarrow> 'a list \<Rightarrow> 'a walk \<Rightarrow> 'a graph_error + 'a walk"
where
  "visit 0 known dependenciesOf node w = Inl OutOfDepth"
| "visit (Suc n) known dependenciesOf node w =
     (if node \<in> set (wk_visited w) then Inr w
      else if node \<in> set (wk_onStack w) then Inl (Cycle node)
      else
        (case visit_all n known dependenciesOf node (dependenciesOf node)
                (w\<lparr>wk_onStack := js_add node (wk_onStack w)\<rparr>) of
           Inl e \<Rightarrow> Inl e
         | Inr w' \<Rightarrow>
             Inr (w'\<lparr>wk_onStack := removeAll node (wk_onStack w'),
                     wk_visited := js_add node (wk_visited w'),
                     wk_ordered := wk_ordered w' @ [node]\<rparr>)))"
| "visit_all n known dependenciesOf node [] w = Inr w"
| "visit_all n known dependenciesOf node (dependency # ds) w =
     (if dependency \<notin> known then Inl (UnknownDependency node dependency)
      else (case visit n known dependenciesOf dependency w of
              Inl e \<Rightarrow> Inl e
            | Inr w' \<Rightarrow> visit_all n known dependenciesOf node ds w'))"

fun visit_nodes :: "nat \<Rightarrow> 'a set \<Rightarrow> ('a \<Rightarrow> 'a list) \<Rightarrow> 'a list \<Rightarrow> 'a walk \<Rightarrow> 'a graph_error + 'a walk" where
  "visit_nodes n known dependenciesOf [] w = Inr w"
| "visit_nodes n known dependenciesOf (node # nodes) w =
     (case visit n known dependenciesOf node w of
        Inl e \<Rightarrow> Inl e
      | Inr w' \<Rightarrow> visit_nodes n known dependenciesOf nodes w')"

definition new_walk :: "'a walk" where
  "new_walk = \<lparr>wk_ordered = [], wk_visited = [], wk_onStack = []\<rparr>"

definition topologicalOrder :: "'a list \<Rightarrow> ('a \<Rightarrow> 'a list) \<Rightarrow> 'a graph_error + 'a list" where
  "topologicalOrder nodes dependenciesOf =
     (case visit_nodes (Suc (length nodes)) (set nodes) dependenciesOf nodes new_walk of
        Inl e \<Rightarrow> Inl e
      | Inr w \<Rightarrow> Inr (wk_ordered w))"

section \<open>Dependency closure\<close>

text \<open>The worklist: \<open>pop\<close> takes the last pending node.\<close>

partial_function (option) closure_loop :: "('a \<Rightarrow> 'a list) \<Rightarrow> 'a list \<Rightarrow> 'a list \<Rightarrow> 'a list option" where
  "closure_loop dependenciesOf reached pending =
     (if pending = [] then Some reached
      else
        (let node = last pending; rest = butlast pending in
         if node \<in> set reached then closure_loop dependenciesOf reached rest
         else
           (let reached' = js_add node reached in
            closure_loop dependenciesOf reached'
              (rest @ filter (\<lambda>d. d \<notin> set reached') (dependenciesOf node)))))"

definition dependencyClosure :: "'a list \<Rightarrow> ('a \<Rightarrow> 'a list) \<Rightarrow> 'a list option" where
  "dependencyClosure seeds dependenciesOf = closure_loop dependenciesOf [] seeds"

declare closure_loop.simps [code]

section \<open>The configuration kinds\<close>

datatype config_kind =
    K_roles | K_permissions | K_folders | K_settings | K_extension_settings | K_translations | K_schema

definition CONFIG_KINDS :: "config_kind list" where
  "CONFIG_KINDS =
     [K_roles, K_permissions, K_folders, K_settings, K_extension_settings, K_translations, K_schema]"

fun kind_name :: "config_kind \<Rightarrow> string" where
  "kind_name K_roles = ''roles''"
| "kind_name K_permissions = ''permissions''"
| "kind_name K_folders = ''folders''"
| "kind_name K_settings = ''settings''"
| "kind_name K_extension_settings = ''extension-settings''"
| "kind_name K_translations = ''translations''"
| "kind_name K_schema = ''schema''"

text \<open>\<open>getDescriptor(kind).dependencies\<close>, from the seven handlers' descriptors.\<close>

fun kind_dependencies :: "config_kind \<Rightarrow> config_kind list" where
  "kind_dependencies K_permissions = [K_roles]"
| "kind_dependencies K_settings = [K_folders]"
| "kind_dependencies _ = []"

text \<open>Kinds compare by name, as \<open>sort\<close> compares the strings.\<close>

instantiation config_kind :: linorder
begin

definition less_eq_config_kind :: "config_kind \<Rightarrow> config_kind \<Rightarrow> bool" where
  "less_eq_config_kind k l \<longleftrightarrow> kind_name k \<le> kind_name l"

definition less_config_kind :: "config_kind \<Rightarrow> config_kind \<Rightarrow> bool" where
  "less_config_kind k l \<longleftrightarrow> kind_name k < kind_name l"

instance
proof
  fix k l :: config_kind
  show "k \<le> l \<Longrightarrow> l \<le> k \<Longrightarrow> k = l"
    by (cases k; cases l) (simp_all add: less_eq_config_kind_def)
qed (auto simp: less_eq_config_kind_def less_config_kind_def)

end

definition configDependencyOrder :: "config_kind graph_error + config_kind list" where
  "configDependencyOrder = topologicalOrder CONFIG_KINDS kind_dependencies"

definition dependencyOrder :: "config_kind list \<Rightarrow> config_kind graph_error + config_kind list" where
  "dependencyOrder kinds = map_sum id (filter (\<lambda>k. k \<in> set kinds)) configDependencyOrder"

definition reverseDependencyOrder :: "config_kind list \<Rightarrow> config_kind graph_error + config_kind list" where
  "reverseDependencyOrder kinds = map_sum id rev (dependencyOrder kinds)"

section \<open>Published dependencies\<close>

datatype access_error = Undeclared config_kind | Unpublished config_kind

definition makeDependencyAccessor ::
  "config_kind list \<Rightarrow> (config_kind \<Rightarrow> 'p option) \<Rightarrow> config_kind \<Rightarrow> access_error + 'p" where
  "makeDependencyAccessor declared published kind =
     (if kind \<notin> set declared then Inl (Undeclared kind)
      else (case published kind of None \<Rightarrow> Inl (Unpublished kind) | Some p \<Rightarrow> Inr p))"

section \<open>Correctness of the topological order\<close>

definition deps_first :: "('a \<Rightarrow> 'a list) \<Rightarrow> 'a list \<Rightarrow> bool" where
  "deps_first deps xs \<longleftrightarrow> (\<forall>ys x zs. xs = ys @ x # zs \<longrightarrow> set (deps x) \<subseteq> set ys)"

lemma deps_first_Nil [simp]: "deps_first deps []"
  by (simp add: deps_first_def)

lemma deps_first_snoc: "deps_first deps xs \<Longrightarrow> set (deps x) \<subseteq> set xs \<Longrightarrow> deps_first deps (xs @ [x])"
  unfolding deps_first_def by (metis append_Cons append_self_conv2 butlast_append butlast_snoc last_snoc
      list.distinct(1) rev_exhaust append_assoc append_butlast_last_id last_appendR)

definition walk_ok :: "('a \<Rightarrow> 'a list) \<Rightarrow> 'a walk \<Rightarrow> bool" where
  "walk_ok deps w \<longleftrightarrow>
     set (wk_visited w) = set (wk_ordered w) \<and> distinct (wk_ordered w) \<and>
     deps_first deps (wk_ordered w) \<and> set (wk_onStack w) \<inter> set (wk_ordered w) = {}"

definition walk_grows :: "'a set \<Rightarrow> 'a walk \<Rightarrow> 'a walk \<Rightarrow> bool" where
  "walk_grows known w w' \<longleftrightarrow>
     set (wk_ordered w) \<subseteq> set (wk_ordered w') \<and> set (wk_ordered w') \<subseteq> set (wk_ordered w) \<union> known \<and>
     wk_onStack w' = wk_onStack w"

lemma walk_grows_refl [simp]: "walk_grows known w w"
  by (simp add: walk_grows_def)

lemma walk_grows_trans: "walk_grows known w w' \<Longrightarrow> walk_grows known w' w'' \<Longrightarrow> walk_grows known w w''"
  by (auto simp: walk_grows_def)

lemma visit_sound:
  "visit n known deps node w = Inr w' \<Longrightarrow> walk_ok deps w \<Longrightarrow> node \<in> known \<Longrightarrow>
     walk_ok deps w' \<and> walk_grows known w w' \<and> node \<in> set (wk_ordered w')"
  "visit_all n known deps node ds w = Inr w' \<Longrightarrow> walk_ok deps w \<Longrightarrow>
     walk_ok deps w' \<and> walk_grows known w w' \<and> set ds \<subseteq> set (wk_ordered w')"
proof (induction n known deps node w and n known deps node ds w arbitrary: w' and w'
    rule: visit_visit_all.induct)
  case (2 n known deps node w)
  show ?case
  proof (cases "node \<in> set (wk_visited w)")
    case True
    with 2 show ?thesis by (auto simp: walk_ok_def)
  next
    case new: False
    let ?w = "w\<lparr>wk_onStack := js_add node (wk_onStack w)\<rparr>"
    from 2 new obtain w1 where off: "node \<notin> set (wk_onStack w)"
      and w1: "visit_all n known deps node (deps node) ?w = Inr w1"
      and w': "w' = w1\<lparr>wk_onStack := removeAll node (wk_onStack w1), wk_visited := js_add node (wk_visited w1),
                     wk_ordered := wk_ordered w1 @ [node]\<rparr>"
      by (auto split: if_splits sum.splits)
    have "walk_ok deps ?w" using "2.prems"(2) new by (auto simp: walk_ok_def)
    with "2.IH" new off w1 have ok: "walk_ok deps w1" and grows: "walk_grows known ?w w1"
      and ds: "set (deps node) \<subseteq> set (wk_ordered w1)" by auto
    from grows have stack: "wk_onStack w1 = wk_onStack w @ [node]"
      using off by (simp add: walk_grows_def js_add_def)
    with ok have notin: "node \<notin> set (wk_ordered w1)" by (auto simp: walk_ok_def)
    from ok have "deps_first deps (wk_ordered w1 @ [node])"
      using ds by (intro deps_first_snoc) (simp_all add: walk_ok_def)
    with ok notin stack have "walk_ok deps w'" by (auto simp: walk_ok_def w')
    moreover have "removeAll node (wk_onStack w1) = wk_onStack w" using stack off by simp
    with grows "2.prems"(3) have "walk_grows known w w'" by (auto simp: walk_grows_def w')
    ultimately show ?thesis by (simp add: w')
  qed
next
  case (4 n known deps node d ds w)
  from "4.prems"(1) obtain w1 where known: "d \<in> known" and w1: "visit n known deps d w = Inr w1"
    and rest: "visit_all n known deps node ds w1 = Inr w'"
    by (auto split: if_splits sum.splits)
  from "4.IH"(1)[OF _ w1 "4.prems"(2) known] known
  have one: "walk_ok deps w1" "walk_grows known w w1" "d \<in> set (wk_ordered w1)" by auto
  from "4.IH"(2)[OF _ w1 rest one(1)] known
  have two: "walk_ok deps w'" "walk_grows known w1 w'" "set ds \<subseteq> set (wk_ordered w')" by auto
  from one two show ?case by (auto intro: walk_grows_trans simp: walk_grows_def)
qed simp_all

lemma visit_nodes_sound:
  "visit_nodes n known deps nodes w = Inr w' \<Longrightarrow> walk_ok deps w \<Longrightarrow> set nodes \<subseteq> known \<Longrightarrow>
     walk_ok deps w' \<and> walk_grows known w w' \<and> set nodes \<subseteq> set (wk_ordered w')"
proof (induction nodes arbitrary: w)
  case (Cons node nodes)
  from Cons.prems(1) obtain w1 where w1: "visit n known deps node w = Inr w1"
    and rest: "visit_nodes n known deps nodes w1 = Inr w'" by (auto split: sum.splits)
  from visit_sound(1)[OF w1] Cons.prems
  have one: "walk_ok deps w1" "walk_grows known w w1" "node \<in> set (wk_ordered w1)" by auto
  from Cons.IH[OF rest one(1)] Cons.prems
  have two: "walk_ok deps w'" "walk_grows known w1 w'" "set nodes \<subseteq> set (wk_ordered w')" by auto
  from one two show ?case by (auto intro: walk_grows_trans simp: walk_grows_def)
qed simp

definition edges :: "'a set \<Rightarrow> ('a \<Rightarrow> 'a list) \<Rightarrow> ('a \<times> 'a) set" where
  "edges known deps = {(a, b). a \<in> known \<and> b \<in> set (deps a)}"

text \<open>Every stacked node leads to the one being visited, so a cycle error names a real cycle.\<close>

lemma visit_errors:
  "visit n known deps node w = Inl e \<Longrightarrow> walk_ok deps w \<Longrightarrow> node \<in> known \<Longrightarrow>
     \<forall>s\<in>set (wk_onStack w). (s, node) \<in> (edges known deps)\<^sup>+ \<Longrightarrow>
     (\<forall>c. e = Cycle c \<longrightarrow> (c, c) \<in> (edges known deps)\<^sup>+) \<and>
     (\<forall>a b. e = UnknownDependency a b \<longrightarrow> a \<in> known \<and> b \<in> set (deps a) \<and> b \<notin> known)"
  "visit_all n known deps node ds w = Inl e \<Longrightarrow> walk_ok deps w \<Longrightarrow> node \<in> known \<Longrightarrow>
     set ds \<subseteq> set (deps node) \<Longrightarrow>
     \<forall>s\<in>set (wk_onStack w). (s, node) \<in> (edges known deps)\<^sup>* \<Longrightarrow>
     (\<forall>c. e = Cycle c \<longrightarrow> (c, c) \<in> (edges known deps)\<^sup>+) \<and>
     (\<forall>a b. e = UnknownDependency a b \<longrightarrow> a \<in> known \<and> b \<in> set (deps a) \<and> b \<notin> known)"
proof (induction n known deps node w and n known deps node ds w rule: visit_visit_all.induct)
  case (2 n known deps node w)
  show ?case
  proof (cases "node \<in> set (wk_onStack w)")
    case True
    with 2 have "e = Cycle node" by (auto simp: walk_ok_def)
    with 2 True show ?thesis by auto
  next
    case False
    let ?w = "w\<lparr>wk_onStack := js_add node (wk_onStack w)\<rparr>"
    from 2 False have new: "node \<notin> set (wk_visited w)" by auto
    with 2 False have "visit_all n known deps node (deps node) ?w = Inl e" by (auto split: sum.splits)
    moreover have "walk_ok deps ?w" using "2.prems"(2) new by (auto simp: walk_ok_def)
    moreover have "\<forall>s\<in>set (wk_onStack ?w). (s, node) \<in> (edges known deps)\<^sup>*"
      using "2.prems"(4) by (auto intro: trancl_into_rtrancl)
    ultimately show ?thesis using "2.IH"[OF new False] "2.prems"(3) by blast
  qed
next
  case (4 n known deps node d ds w)
  show ?case
  proof (cases "d \<in> known")
    case False
    with 4 show ?thesis by auto
  next
    case True
    from 4(4,5,6,7) have step: "(node, d) \<in> edges known deps" by (auto simp: edges_def)
    have stack: "\<forall>s\<in>set (wk_onStack w). (s, d) \<in> (edges known deps)\<^sup>+"
      using "4.prems"(5) step by (auto intro: rtrancl_into_trancl1)
    show ?thesis
    proof (cases "visit n known deps d w")
      case (Inl e')
      with 4 True have "e = e'" by simp
      with "4.IH"(1)[of ] Inl True "4.prems"(2) stack show ?thesis by blast
    next
      case (Inr w1)
      from visit_sound(1)[OF Inr "4.prems"(2) True]
      have ok: "walk_ok deps w1" and same: "wk_onStack w1 = wk_onStack w" by (auto simp: walk_grows_def)
      from "4.prems"(1) Inr True have rest: "visit_all n known deps node ds w1 = Inl e" by simp
      from "4.prems"(4) have "set ds \<subseteq> set (deps node)" by simp
      with "4.IH"(2)[of w1] Inr True rest ok same "4.prems"(3,5) show ?thesis by auto
    qed
  qed
qed simp_all

lemma visit_depth:
  "walk_ok deps w \<Longrightarrow> node \<in> known \<Longrightarrow> finite known \<Longrightarrow> card (known - set (wk_onStack w)) < n \<Longrightarrow>
     visit n known deps node w \<noteq> Inl OutOfDepth"
  "walk_ok deps w \<Longrightarrow> node \<in> set (wk_onStack w) \<Longrightarrow> finite known \<Longrightarrow>
     card (known - set (wk_onStack w)) < n \<Longrightarrow> visit_all n known deps node ds w \<noteq> Inl OutOfDepth"
proof (induction n known deps node w and n known deps node ds w rule: visit_visit_all.induct)
  case (2 n known deps node w)
  show ?case
  proof (cases "node \<in> set (wk_visited w) \<or> node \<in> set (wk_onStack w)")
    case False
    let ?w = "w\<lparr>wk_onStack := js_add node (wk_onStack w)\<rparr>"
    have "known - set (wk_onStack ?w) = known - set (wk_onStack w) - {node}" by auto
    then have "card (known - set (wk_onStack ?w)) < card (known - set (wk_onStack w))"
      using "2.prems"(2,3) False by (metis card_Diff1_less DiffI finite_Diff)
    then have "card (known - set (wk_onStack ?w)) < n" using "2.prems"(4) by simp
    moreover have "walk_ok deps ?w" using "2.prems"(1) False by (auto simp: walk_ok_def)
    ultimately have "visit_all n known deps node (deps node) ?w \<noteq> Inl OutOfDepth"
      using "2.IH" False "2.prems"(3) by auto
    with False show ?thesis by (auto split: sum.splits)
  qed auto
next
  case (4 n known deps node d ds w)
  show ?case
  proof (cases "d \<in> known")
    case True
    with 4 have one: "visit n known deps d w \<noteq> Inl OutOfDepth" by simp
    show ?thesis
    proof (cases "visit n known deps d w")
      case (Inr w1)
      from visit_sound(1)[OF Inr "4.prems"(1) True]
      have "walk_ok deps w1" "wk_onStack w1 = wk_onStack w" by (auto simp: walk_grows_def)
      with "4.IH"(2)[of w1] Inr True "4.prems" show ?thesis by simp
    qed (use one True in auto)
  qed simp
qed simp_all

lemma visit_nodes_errors:
  assumes "visit_nodes (Suc (length nodes)) (set nodes) deps ns w = Inl e" "walk_ok deps w"
    "wk_onStack w = []" "set ns \<subseteq> set nodes"
  shows "(\<exists>c. e = Cycle c \<and> (c, c) \<in> (edges (set nodes) deps)\<^sup>+) \<or>
    (\<exists>a b. e = UnknownDependency a b \<and> a \<in> set nodes \<and> b \<in> set (deps a) \<and> b \<notin> set nodes)"
  using assms
proof (induction ns arbitrary: w)
  case (Cons n ns)
  then have n: "n \<in> set nodes" by simp
  show ?case
  proof (cases "visit (Suc (length nodes)) (set nodes) deps n w")
    case (Inl e')
    with Cons.prems have e: "visit (Suc (length nodes)) (set nodes) deps n w = Inl e" by simp
    have "card (set nodes) < Suc (length nodes)" by (simp add: card_length le_imp_less_Suc)
    with visit_depth(1)[OF Cons.prems(2) n] e have "e \<noteq> OutOfDepth"
      using Cons.prems(3) by fastforce
    with visit_errors(1)[OF e Cons.prems(2) n] Cons.prems(3) show ?thesis by (cases e) auto
  next
    case (Inr w1)
    from visit_sound(1)[OF Inr Cons.prems(2) n] Cons.prems(3)
    have "walk_ok deps w1" "wk_onStack w1 = []" by (auto simp: walk_grows_def)
    with Cons Inr show ?thesis by simp
  qed
qed simp

lemma walk_ok_new [simp]: "walk_ok deps new_walk"
  by (simp add: walk_ok_def new_walk_def)

lemma topologicalOrder_sound:
  assumes "topologicalOrder nodes deps = Inr xs"
  shows "distinct xs \<and> set xs = set nodes \<and> deps_first deps xs"
proof -
  from assms obtain w where w: "visit_nodes (Suc (length nodes)) (set nodes) deps nodes new_walk = Inr w"
    and xs: "xs = wk_ordered w" by (auto simp: topologicalOrder_def split: sum.splits)
  from visit_nodes_sound[OF w walk_ok_new subset_refl] show ?thesis
    by (auto simp: walk_ok_def walk_grows_def xs new_walk_def)
qed

lemma topologicalOrder_error:
  assumes "topologicalOrder nodes deps = Inl e"
  shows "(\<exists>c. e = Cycle c \<and> (c, c) \<in> (edges (set nodes) deps)\<^sup>+) \<or>
    (\<exists>a b. e = UnknownDependency a b \<and> a \<in> set nodes \<and> b \<in> set (deps a) \<and> b \<notin> set nodes)"
proof -
  from assms have "visit_nodes (Suc (length nodes)) (set nodes) deps nodes new_walk = Inl e"
    by (auto simp: topologicalOrder_def split: sum.splits)
  then show ?thesis by (rule visit_nodes_errors) (simp_all add: new_walk_def[symmetric], simp add: new_walk_def)
qed

lemma deps_before:
  assumes "deps_first deps xs" "(a, b) \<in> (edges (set xs) deps)\<^sup>+"
  shows "\<exists>ys zs. xs = ys @ a # zs \<and> b \<in> set ys"
  using assms(2)
proof (induction rule: trancl_induct)
  case (base b)
  then obtain ys zs where "xs = ys @ a # zs" by (auto simp: edges_def dest: split_list)
  with base assms(1) show ?case by (auto simp: edges_def deps_first_def)
next
  case (step b c)
  then obtain ys zs where xs: "xs = ys @ a # zs" and "b \<in> set ys" by blast
  then obtain us vs where ys: "ys = us @ b # vs" by (auto dest: split_list)
  with xs have "xs = us @ b # (vs @ a # zs)" by simp
  with assms(1) have "set (deps b) \<subseteq> set us" unfolding deps_first_def by blast
  with step(2) have "c \<in> set ys" by (auto simp: edges_def ys)
  with xs show ?case by blast
qed

lemma deps_first_acyclic:
  assumes "deps_first deps xs" "distinct xs"
  shows "acyclic (edges (set xs) deps)"
proof (rule acyclicI, rule allI, rule notI)
  fix a assume "(a, a) \<in> (edges (set xs) deps)\<^sup>+"
  from deps_before[OF assms(1) this] assms(2) show False by auto
qed

text \<open>
  C20: \<open>topologicalOrder\<close> is correct and complete: when it returns, the result lists every node once,
  each after all its dependencies; it returns exactly when every dependency is a node and no node
  depends on itself through a chain of dependencies; and it never exhausts the depth of the model.
\<close>

theorem topologicalOrder_correct:
  "(\<forall>xs. topologicalOrder nodes deps = Inr xs \<longrightarrow>
      distinct xs \<and> set xs = set nodes \<and>
      (\<forall>ys x zs. xs = ys @ x # zs \<longrightarrow> set (deps x) \<subseteq> set ys)) \<and>
   ((\<exists>xs. topologicalOrder nodes deps = Inr xs) \<longleftrightarrow>
      (\<forall>n\<in>set nodes. set (deps n) \<subseteq> set nodes) \<and> acyclic (edges (set nodes) deps)) \<and>
   topologicalOrder nodes deps \<noteq> Inl OutOfDepth"
proof (intro conjI iffI)
  assume "\<exists>xs. topologicalOrder nodes deps = Inr xs"
  then obtain xs where "topologicalOrder nodes deps = Inr xs" by blast
  note ok = topologicalOrder_sound[OF this]
  then have "\<And>n. n \<in> set nodes \<Longrightarrow> set (deps n) \<subseteq> set xs"
    by (metis deps_first_def split_list set_append Un_upper1 subset_trans)
  with ok show "\<forall>n\<in>set nodes. set (deps n) \<subseteq> set nodes" by simp
  from ok deps_first_acyclic show "acyclic (edges (set nodes) deps)" by metis
next
  assume ok: "(\<forall>n\<in>set nodes. set (deps n) \<subseteq> set nodes) \<and> acyclic (edges (set nodes) deps)"
  show "\<exists>xs. topologicalOrder nodes deps = Inr xs"
  proof (cases "topologicalOrder nodes deps")
    case (Inl e)
    from topologicalOrder_error[OF Inl] ok show ?thesis by (auto simp: acyclic_def)
  qed simp
qed (use topologicalOrder_sound topologicalOrder_error deps_first_def in fastforce)+

lemma topologicalOrder_correct_witness:
  "\<exists>xs. topologicalOrder [1::nat, 2] (\<lambda>n. if n = 1 then [2] else []) = Inr xs \<and> distinct xs \<and> set xs = {1, 2}"
proof -
  have run: "topologicalOrder [1::nat, 2] (\<lambda>n. if n = 1 then [2] else []) = Inr [2, 1]" by code_simp
  with topologicalOrder_correct[of "[1::nat, 2]" "\<lambda>n. if n = 1 then [2] else []"] show ?thesis by simp
qed

section \<open>Correctness of the closure\<close>

definition pending_weight :: "'a list \<Rightarrow> ('a \<Rightarrow> 'a list) \<Rightarrow> 'a list \<Rightarrow> 'a list \<Rightarrow> nat" where
  "pending_weight universe deps reached pending =
     (\<Sum>u\<in>set universe - set reached. Suc (length (deps u))) + length pending"

definition dep_rel :: "('a \<Rightarrow> 'a list) \<Rightarrow> ('a \<times> 'a) set" where
  "dep_rel deps = {(a, b). b \<in> set (deps a)}"

lemma rtrancl_image_mono:
  assumes "A \<subseteq> R\<^sup>* `` B"
  shows "R\<^sup>* `` A \<subseteq> R\<^sup>* `` B"
proof
  fix x assume "x \<in> R\<^sup>* `` A"
  then obtain a where "a \<in> A" "(a, x) \<in> R\<^sup>*" by blast
  with assms obtain b where "b \<in> B" "(b, a) \<in> R\<^sup>*" by blast
  with \<open>(a, x) \<in> R\<^sup>*\<close> show "x \<in> R\<^sup>* `` B" by (meson ImageI rtrancl_trans)
qed

lemma closure_loop_total:
  assumes "\<forall>u\<in>set universe. set (deps u) \<subseteq> set universe"
  shows "set reached \<subseteq> set universe \<Longrightarrow> set pending \<subseteq> set universe \<Longrightarrow>
    \<forall>r\<in>set reached. set (deps r) \<subseteq> set reached \<union> set pending \<Longrightarrow> distinct reached \<Longrightarrow>
    \<exists>ys. closure_loop deps reached pending = Some ys \<and> distinct ys \<and>
      set reached \<union> set pending \<subseteq> set ys \<and> (\<forall>r\<in>set ys. set (deps r) \<subseteq> set ys) \<and>
      set ys \<subseteq> (dep_rel deps)\<^sup>* `` (set reached \<union> set pending)"
proof (induction "pending_weight universe deps reached pending" arbitrary: reached pending
    rule: less_induct)
  case less
  show ?case
  proof (cases pending rule: rev_cases)
    case Nil
    with less.prems show ?thesis by (auto simp: closure_loop.simps)
  next
    case (snoc rest node)
    show ?thesis
    proof (cases "node \<in> set reached")
      case True
      have "pending_weight universe deps reached rest < pending_weight universe deps reached pending"
        by (simp add: pending_weight_def snoc)
      moreover have "\<forall>r\<in>set reached. set (deps r) \<subseteq> set reached \<union> set rest"
        using less.prems(3) snoc True by auto
      ultimately obtain ys where "closure_loop deps reached rest = Some ys \<and> distinct ys \<and>
        set reached \<union> set rest \<subseteq> set ys \<and> (\<forall>r\<in>set ys. set (deps r) \<subseteq> set ys) \<and>
        set ys \<subseteq> (dep_rel deps)\<^sup>* `` (set reached \<union> set rest)"
        using less.hyps[of reached rest] less.prems snoc by auto
      with snoc True show ?thesis by (subst closure_loop.simps) (auto simp: Let_def)
    next
      case False
      let ?r = "js_add node reached"
      let ?p = "rest @ filter (\<lambda>d. d \<notin> set ?r) (deps node)"
      let ?f = "\<lambda>u. Suc (length (deps u))"
      have node: "node \<in> set universe - set reached" using less.prems snoc False by simp
      have "set universe - set ?r = set universe - set reached - {node}" by auto
      then have "(\<Sum>u\<in>set universe - set reached. ?f u) = ?f node + (\<Sum>u\<in>set universe - set ?r. ?f u)"
        using sum.remove[OF _ node, of ?f] by simp
      moreover have "length (filter (\<lambda>d. d \<notin> set ?r) (deps node)) \<le> length (deps node)" by simp
      ultimately have small: "pending_weight universe deps ?r ?p < pending_weight universe deps reached pending"
        unfolding pending_weight_def snoc length_append list.size by linarith
      have "set ?r \<subseteq> set universe" "set ?p \<subseteq> set universe" "distinct ?r"
        using less.prems snoc assms node by auto
      moreover have "\<forall>r\<in>set ?r. set (deps r) \<subseteq> set ?r \<union> set ?p" using less.prems snoc by auto
      ultimately obtain ys where ys: "closure_loop deps ?r ?p = Some ys" "distinct ys"
        "set ?r \<union> set ?p \<subseteq> set ys" "\<forall>r\<in>set ys. set (deps r) \<subseteq> set ys"
        "set ys \<subseteq> (dep_rel deps)\<^sup>* `` (set ?r \<union> set ?p)"
        using less.hyps[OF small] by blast
      have "set ?r \<union> set ?p \<subseteq> (dep_rel deps)\<^sup>* `` (set reached \<union> set pending)"
        by (auto simp: snoc dep_rel_def)
      then have "(dep_rel deps)\<^sup>* `` (set ?r \<union> set ?p) \<subseteq> (dep_rel deps)\<^sup>* `` (set reached \<union> set pending)"
        by (rule rtrancl_image_mono)
      with ys(5) have upper: "set ys \<subseteq> (dep_rel deps)\<^sup>* `` (set reached \<union> set pending)" by (rule subset_trans)
      have "closure_loop deps reached pending = Some ys"
        using ys(1) by (subst closure_loop.simps) (simp add: Let_def snoc False)
      with ys upper snoc show ?thesis by auto
    qed
  qed
qed

lemma closure_reachable:
  assumes "set seeds \<subseteq> set universe" "\<forall>u\<in>set universe. set (deps u) \<subseteq> set universe"
  shows "\<exists>ys. dependencyClosure seeds deps = Some ys \<and> distinct ys \<and>
    set ys = {b. \<exists>s\<in>set seeds. (s, b) \<in> {(x, y). y \<in> set (deps x)}\<^sup>*}"
proof -
  from closure_loop_total[OF assms(2), of "[]" seeds] assms(1)
  obtain ys where ys: "dependencyClosure seeds deps = Some ys" "distinct ys" "set seeds \<subseteq> set ys"
    "\<forall>r\<in>set ys. set (deps r) \<subseteq> set ys" "set ys \<subseteq> (dep_rel deps)\<^sup>* `` set seeds"
    by (auto simp: dependencyClosure_def)
  have "(s, b) \<in> (dep_rel deps)\<^sup>* \<Longrightarrow> s \<in> set ys \<Longrightarrow> b \<in> set ys" for s b
    by (induction rule: rtrancl_induct) (use ys(4) in \<open>auto simp: dep_rel_def\<close>)
  with ys show ?thesis by (fastforce simp: dep_rel_def)
qed

text \<open>
  C21: over any finite universe of nodes that contains the seeds and is closed under dependencies,
  \<open>dependencyClosure\<close> returns, and the result is exactly the set of nodes reachable from the seeds.
\<close>

theorem dependencyClosure_correct:
  assumes "set seeds \<subseteq> set universe" "\<forall>u\<in>set universe. set (deps u) \<subseteq> set universe"
  shows "\<exists>ys. dependencyClosure seeds deps = Some ys \<and> distinct ys \<and>
    set ys = {b. \<exists>s\<in>set seeds. (s, b) \<in> {(x, y). y \<in> set (deps x)}\<^sup>*}"
  by (rule closure_reachable[OF assms])

lemma dependencyClosure_witness:
  "\<exists>ys. dependencyClosure [K_permissions] kind_dependencies = Some ys \<and> distinct ys"
  using dependencyClosure_correct[of "[K_permissions]" CONFIG_KINDS kind_dependencies]
  by (auto simp: CONFIG_KINDS_def)

section \<open>The orders of the configuration kinds\<close>

lemma configDependencyOrder_eq: "configDependencyOrder = Inr CONFIG_KINDS"
  by code_simp

lemma dependencyOrder_eq: "dependencyOrder kinds = Inr (filter (\<lambda>k. k \<in> set kinds) CONFIG_KINDS)"
  by (simp add: dependencyOrder_def configDependencyOrder_eq)

lemma reverseDependencyOrder_eq:
  "reverseDependencyOrder kinds = Inr (rev (filter (\<lambda>k. k \<in> set kinds) CONFIG_KINDS))"
  by (simp add: reverseDependencyOrder_def dependencyOrder_eq)

lemma set_CONFIG_KINDS [simp]: "set CONFIG_KINDS = UNIV"
proof -
  have "k \<in> set CONFIG_KINDS" for k by (cases k) (simp_all add: CONFIG_KINDS_def)
  then show ?thesis by blast
qed

lemma kinds_closed: "\<forall>u\<in>set CONFIG_KINDS. set (kind_dependencies u) \<subseteq> set CONFIG_KINDS"
  by simp

lemma kind_closure:
  "\<exists>ys. dependencyClosure seeds kind_dependencies = Some ys \<and> distinct ys \<and>
    set ys = {b. \<exists>s\<in>set seeds. (s, b) \<in> {(x, y). y \<in> set (kind_dependencies x)}\<^sup>*}"
  by (rule closure_reachable[OF _ kinds_closed]) simp

lemma deps_first_kinds: "deps_first kind_dependencies CONFIG_KINDS"
  using topologicalOrder_sound[of CONFIG_KINDS kind_dependencies CONFIG_KINDS] configDependencyOrder_eq
  by (simp add: configDependencyOrder_def)

end
