(* ===== verification/Config_Diff.thy ===== *)
theory Config_Diff
  imports Config_Graph
begin

text \<open>
  \<open>api/src/utils/config/values.ts\<close> and \<open>diff.ts\<close>: canonical values of a configuration record and the
  generic create/update/delete plan of one kind. Records, identities and plan entries are dynamic
  values. The locale \<open>kind_contract\<close> says what a kind's descriptor has to satisfy; inside it the plan is
  shown to take the current records to the desired ones, and to be empty when there is nothing to do.
\<close>

section \<open>Deep equality\<close>

text \<open>lodash's \<open>isEqual\<close>: objects are equal when their own properties are, in any order.\<close>

fun isEqual :: "json \<Rightarrow> json \<Rightarrow> bool" where
  "isEqual (JArr xs) (JArr ys) = list_all2 isEqual xs ys"
| "isEqual (JObj es) (JObj fs) =
     (length es = length fs \<and>
      (\<forall>e\<in>set es. (case map_of fs (fst e) of None \<Rightarrow> False | Some w \<Rightarrow> isEqual (snd e) w)))"
| "isEqual v w = (v = w)"

fun wf_json :: "json \<Rightarrow> bool" where
  "wf_json (JArr xs) = (\<forall>x\<in>set xs. wf_json x)"
| "wf_json (JObj es) = (distinct (map fst es) \<and> (\<forall>e\<in>set es. wf_json (snd e)))"
| "wf_json _ = True"

lemma isEqual_refl: "wf_json v \<Longrightarrow> isEqual v v"
proof (induction v rule: wf_json.induct)
  case (1 xs)
  then show ?case by (auto simp: list_all2_conv_all_nth)
next
  case (2 es)
  then show ?case by (auto simp: map_of_is_SomeI)
qed simp_all

section \<open>Field descriptors and canonical values\<close>

text \<open>The part of \<open>ConfigFieldDescriptor\<close> that planning reads.\<close>

record field_descriptor =
  fd_name :: string
  fd_mutable :: bool
  fd_omissionPreservesCurrent :: bool
  fd_canonicalize :: "(json \<Rightarrow> json) option"

datatype values_error = UnknownValueField string

fun text_of :: "json \<Rightarrow> string" where
  "text_of (JStr s) = s"
| "text_of _ = []"

text \<open>\<open>values\<close> is typed as a list of strings; \<open>sort\<close> compares code units.\<close>

definition sortedOrNull :: "json \<Rightarrow> json" where
  "sortedOrNull v =
     (if nullish v then JNull else (case v of JArr xs \<Rightarrow> JArr (sort_key text_of xs) | _ \<Rightarrow> v))"

definition changesToValues :: "json \<Rightarrow> json" where
  "changesToValues changes =
     (case changes of
        JObj es \<Rightarrow> JObj (map (\<lambda>(field, change). (field, js_prop change ''after'')) es)
      | _ \<Rightarrow> JObj [])"

text \<open>A later descriptor of the same name replaces an earlier one in \<open>byName\<close>.\<close>

definition field_by_name :: "field_descriptor list \<Rightarrow> string \<Rightarrow> field_descriptor option" where
  "field_by_name recordFields = map_of (rev (map (\<lambda>f. (fd_name f, f)) recordFields))"

fun orderedValueFields ::
  "field_descriptor list \<Rightarrow> string list \<Rightarrow> values_error + field_descriptor list" where
  "orderedValueFields recordFields [] = Inr []"
| "orderedValueFields recordFields (name # valueFieldOrder) =
     (case field_by_name recordFields name of
        None \<Rightarrow> Inl (UnknownValueField name)
      | Some field \<Rightarrow>
          (case orderedValueFields recordFields valueFieldOrder of
             Inl e \<Rightarrow> Inl e
           | Inr fds \<Rightarrow> Inr (field # fds)))"

definition canonical_field :: "field_descriptor \<Rightarrow> json \<Rightarrow> json" where
  "canonical_field field record =
     (let raw = js_prop record (fd_name field)
      in case fd_canonicalize field of None \<Rightarrow> raw | Some c \<Rightarrow> c raw)"

fun compose_fields :: "field_descriptor list \<Rightarrow> json \<Rightarrow> json_object \<Rightarrow> json_object" where
  "compose_fields [] record vals = vals"
| "compose_fields (field # fds) record vals =
     compose_fields fds record (js_set (fd_name field) (canonical_field field record) vals)"

definition composeValues ::
  "field_descriptor list \<Rightarrow> string list \<Rightarrow> json \<Rightarrow> values_error + json" where
  "composeValues recordFields valueFieldOrder record =
     (case orderedValueFields recordFields valueFieldOrder of
        Inl e \<Rightarrow> Inl e
      | Inr fds \<Rightarrow> Inr (JObj (compose_fields fds record [])))"

section \<open>The plan of one kind\<close>

text \<open>
  The planning part of \<open>ConfigResourceDescriptor\<close>. An identity key is \<open>JSON.stringify\<close> of a list of
  strings in the code, which is injective, and that list here.
\<close>

record descriptor =
  ds_recordFields :: "field_descriptor list"
  ds_valueFieldOrder :: "string list"
  ds_projectDocuments :: "json list \<Rightarrow> json list"
  ds_identityOf :: "json \<Rightarrow> json"
  ds_identityKey :: "json \<Rightarrow> string list"
  ds_identityOfDelete :: "json \<Rightarrow> json"
  ds_canonicalizeValues :: "json \<Rightarrow> values_error + json"
  ds_toCreateEntry :: "json \<Rightarrow> json"
  ds_toUpdateEntry :: "json \<Rightarrow> json \<Rightarrow> json"
  ds_toDeleteEntry :: "json \<Rightarrow> json"

record kind_plan =
  kp_create :: "json list"
  kp_update :: "json list"
  kp_delete :: "json list"

definition emptyKindPlan :: kind_plan where
  "emptyKindPlan = \<lparr>kp_create = [], kp_update = [], kp_delete = []\<rparr>"

fun diff_fields :: "field_descriptor list \<Rightarrow> json \<Rightarrow> json \<Rightarrow> json \<Rightarrow> json_object \<Rightarrow> json_object" where
  "diff_fields [] before after desiredRaw changes = changes"
| "diff_fields (field # fds) before after desiredRaw changes =
     diff_fields fds before after desiredRaw
       (if \<not> fd_mutable field then changes
        else if fd_omissionPreservesCurrent field \<and>
          \<not> (case desiredRaw of JObj r \<Rightarrow> js_has (fd_name field) r | _ \<Rightarrow> False) then changes
        else if isEqual (js_prop before (fd_name field)) (js_prop after (fd_name field)) then changes
        else js_set (fd_name field)
               (JObj [(''before'', js_prop before (fd_name field)), (''after'', js_prop after (fd_name field))])
               changes)"

definition diffRecordValues :: "descriptor \<Rightarrow> json \<Rightarrow> json \<Rightarrow> values_error + json" where
  "diffRecordValues d current desired =
     (case ds_canonicalizeValues d current of
        Inl e \<Rightarrow> Inl e
      | Inr before \<Rightarrow>
          (case ds_canonicalizeValues d desired of
             Inl e \<Rightarrow> Inl e
           | Inr after \<Rightarrow>
               (case orderedValueFields (ds_recordFields d) (ds_valueFieldOrder d) of
                  Inl e \<Rightarrow> Inl e
                | Inr fds \<Rightarrow> Inr (JObj (diff_fields fds before after desired [])))))"

definition record_key :: "descriptor \<Rightarrow> json \<Rightarrow> string list" where
  "record_key d record = ds_identityKey d (ds_identityOf d record)"

fun index_records :: "descriptor \<Rightarrow> json list \<Rightarrow> (string list \<times> json) list \<Rightarrow> (string list \<times> json) list" where
  "index_records d [] m = m"
| "index_records d (record # rs) m = index_records d rs (js_set (record_key d record) record m)"

fun plan_desired :: "descriptor \<Rightarrow> (string list \<times> json) list \<Rightarrow> json list \<Rightarrow> kind_plan \<Rightarrow> values_error + kind_plan"
where
  "plan_desired d currentByKey [] plan = Inr plan"
| "plan_desired d currentByKey (record # rs) plan =
     (let identity = ds_identityOf d record in
      case map_of currentByKey (ds_identityKey d identity) of
        None \<Rightarrow> plan_desired d currentByKey rs (plan\<lparr>kp_create := kp_create plan @ [ds_toCreateEntry d record]\<rparr>)
      | Some current \<Rightarrow>
          (case diffRecordValues d current record of
             Inl e \<Rightarrow> Inl e
           | Inr changes \<Rightarrow>
               plan_desired d currentByKey rs
                 (if changes = JObj [] then plan
                  else plan\<lparr>kp_update := kp_update plan @ [ds_toUpdateEntry d identity changes]\<rparr>)))"

definition computeKindPlan :: "descriptor \<Rightarrow> json list \<Rightarrow> json list \<Rightarrow> values_error + kind_plan" where
  "computeKindPlan d currentRecords desiredRecords =
     (let currentByKey = index_records d currentRecords [];
          desiredKeys = map (record_key d) desiredRecords
      in case plan_desired d currentByKey desiredRecords emptyKindPlan of
           Inl e \<Rightarrow> Inl e
         | Inr plan \<Rightarrow>
             Inr (plan\<lparr>kp_delete :=
               map (\<lambda>r. ds_toDeleteEntry d (ds_identityOf d r))
                 (filter (\<lambda>r. record_key d r \<notin> set desiredKeys) currentRecords)\<rparr>))"

section \<open>Lemmas on the loops\<close>

lemma compose_fields_map:
  "distinct (map fd_name fs) \<Longrightarrow> set (map fst vals) \<inter> set (map fd_name fs) = {} \<Longrightarrow>
     compose_fields fs r vals = vals @ map (\<lambda>f. (fd_name f, canonical_field f r)) fs"
  by (induction fs arbitrary: vals) (auto simp: js_set_new)

definition field_differs :: "field_descriptor \<Rightarrow> json \<Rightarrow> json \<Rightarrow> json \<Rightarrow> bool" where
  "field_differs f before after raw \<longleftrightarrow>
     fd_mutable f \<and>
     (fd_omissionPreservesCurrent f \<longrightarrow> (case raw of JObj r \<Rightarrow> js_has (fd_name f) r | _ \<Rightarrow> False)) \<and>
     \<not> isEqual (js_prop before (fd_name f)) (js_prop after (fd_name f))"

lemma diff_fields_map:
  "distinct (map fd_name fs) \<Longrightarrow> set (map fst changes) \<inter> set (map fd_name fs) = {} \<Longrightarrow>
     diff_fields fs before after raw changes = changes @
       map (\<lambda>f. (fd_name f, JObj [(''before'', js_prop before (fd_name f)), (''after'', js_prop after (fd_name f))]))
         (filter (\<lambda>f. field_differs f before after raw) fs)"
  by (induction fs arbitrary: changes) (auto simp: js_set_new field_differs_def)

lemma index_records_get:
  "map_of (index_records d rs m) k =
     (case map_of (rev (map (\<lambda>r. (record_key d r, r)) rs)) k of None \<Rightarrow> map_of m k | Some r \<Rightarrow> Some r)"
  by (induction d rs m rule: index_records.induct) (auto simp: map_add_def split: option.splits)

lemma index_records_distinct:
  assumes "distinct (map (record_key d) rs)"
  shows "map_of (index_records d rs []) k = map_of (map (\<lambda>r. (record_key d r, r)) rs) k"
proof -
  have "distinct (map fst (map (\<lambda>r. (record_key d r, r)) rs))" using assms by (simp add: comp_def)
  then show ?thesis by (simp only: index_records_get map_of_rev) (simp split: option.splits)
qed

definition lookup_record :: "descriptor \<Rightarrow> json list \<Rightarrow> json \<Rightarrow> json option" where
  "lookup_record d rs r = map_of (map (\<lambda>c. (record_key d c, c)) rs) (record_key d r)"

lemma lookup_record_key:
  assumes "lookup_record d rs r = Some c"
  shows "record_key d c = record_key d r \<and> c \<in> set rs"
proof -
  from assms have "(record_key d r, c) \<in> set (map (\<lambda>c. (record_key d c, c)) rs)"
    unfolding lookup_record_def by (rule map_of_SomeD)
  then show ?thesis by auto
qed

lemma lookup_record_None: "lookup_record d rs r = None \<longleftrightarrow> record_key d r \<notin> record_key d ` set rs"
  unfolding lookup_record_def map_of_eq_None_iff by force

lemma lookup_record_cong: "record_key d r = record_key d r' \<Longrightarrow> lookup_record d rs r = lookup_record d rs r'"
  by (simp add: lookup_record_def)

section \<open>What a plan does to the stored records\<close>

text \<open>
  The specification side: the stored records as a map from identity keys to canonical values, and the
  effect of a list of plan entries, each on the record its key names.
\<close>

type_synonym store = "string list \<Rightarrow> json option"

definition apply_entries ::
  "('e \<Rightarrow> string list) \<Rightarrow> ('e \<Rightarrow> json option \<Rightarrow> json option) \<Rightarrow> 'e list \<Rightarrow> store \<Rightarrow> store" where
  "apply_entries key g es st = fold (\<lambda>e st. st(key e := g e (st (key e)))) es st"

lemma apply_entries_other:
  "\<forall>r\<in>set rs. key (e r) = kf r \<Longrightarrow> k \<notin> kf ` set rs \<Longrightarrow> apply_entries key g (map e rs) st k = st k"
  by (induction rs arbitrary: st) (auto simp: apply_entries_def)

lemma apply_entries_hit:
  "\<forall>r\<in>set rs. key (e r) = kf r \<Longrightarrow> distinct (map kf rs) \<Longrightarrow> r \<in> set rs \<Longrightarrow>
     apply_entries key g (map e rs) st (kf r) = g (e r) (st (kf r))"
proof (induction rs arbitrary: st)
  case (Cons x rs)
  let ?st = "st(key (e x) := g (e x) (st (key (e x))))"
  have step: "apply_entries key g (map e (x # rs)) st = apply_entries key g (map e rs) ?st"
    by (simp add: apply_entries_def)
  show ?case
  proof (cases "r \<in> set rs")
    case True
    with Cons.prems have "kf x \<noteq> kf r" by (metis distinct.simps(2) imageI list.simps(9) set_map)
    have "apply_entries key g (map e rs) ?st (kf r) = g (e r) (?st (kf r))"
      using Cons.prems True by (intro Cons.IH) auto
    with \<open>kf x \<noteq> kf r\<close> Cons.prems(1) show ?thesis by (simp only: step) simp
  next
    case False
    with Cons.prems have "r = x" "kf r \<notin> kf ` set rs" by auto
    have "apply_entries key g (map e rs) ?st (kf r) = ?st (kf r)"
      using Cons.prems(1) \<open>kf r \<notin> kf ` set rs\<close> by (intro apply_entries_other) auto
    with \<open>r = x\<close> Cons.prems(1) show ?thesis by (simp only: step) simp
  qed
qed simp

fun overwrite :: "json \<Rightarrow> json \<Rightarrow> json" where
  "overwrite (JObj r) (JObj vs) = JObj (fold (\<lambda>(k, v). js_set k v) vs r)"
| "overwrite v _ = v"

definition canonical_values :: "descriptor \<Rightarrow> json \<Rightarrow> json" where
  "canonical_values d r = (case ds_canonicalizeValues d r of Inr v \<Rightarrow> v | Inl _ \<Rightarrow> JUndefined)"

definition store_of :: "descriptor \<Rightarrow> json list \<Rightarrow> store" where
  "store_of d rs = map_of (map (\<lambda>r. (record_key d r, canonical_values d r)) rs)"

definition apply_kind_plan ::
  "descriptor \<Rightarrow> (json \<Rightarrow> json) \<Rightarrow> (json \<Rightarrow> string list) \<Rightarrow> (json \<Rightarrow> json) \<Rightarrow> kind_plan \<Rightarrow> store \<Rightarrow> store" where
  "apply_kind_plan d recordOfCreate keyOfUpdate changesOfUpdate p st =
     apply_entries (\<lambda>e. ds_identityKey d (ds_identityOfDelete d e)) (\<lambda>_ _. None) (kp_delete p)
      (apply_entries keyOfUpdate
         (\<lambda>e. map_option (\<lambda>v. overwrite v (changesToValues (changesOfUpdate e)))) (kp_update p)
        (apply_entries (\<lambda>e. record_key d (recordOfCreate e))
          (\<lambda>e _. Some (canonical_values d (recordOfCreate e))) (kp_create p) st))"

lemma fold_js_set_get:
  "js_get (fold (\<lambda>(k, v). js_set k v) vs r) n =
     (case map_of (rev vs) n of None \<Rightarrow> js_get r n | Some v \<Rightarrow> v)"
  by (induction vs arbitrary: r) (auto simp: map_add_def split: option.splits)

lemma overwrite_get:
  assumes "distinct (map fst vs)"
  shows "js_prop (overwrite (JObj r) (JObj vs)) n = (case map_of vs n of None \<Rightarrow> js_get r n | Some v \<Rightarrow> v)"
  by (simp add: fold_js_set_get map_of_rev[OF assms])

text \<open>A desired field is reached: it is the desired canonical value, up to deep equality.\<close>

definition field_reached :: "field_descriptor \<Rightarrow> json \<Rightarrow> json \<Rightarrow> bool" where
  "field_reached f v w \<longleftrightarrow>
     js_prop v (fd_name f) = js_prop w (fd_name f) \<or> isEqual (js_prop v (fd_name f)) (js_prop w (fd_name f))"

definition field_planned :: "field_descriptor \<Rightarrow> json \<Rightarrow> bool" where
  "field_planned f raw \<longleftrightarrow>
     fd_mutable f \<and>
     (fd_omissionPreservesCurrent f \<longrightarrow> (case raw of JObj r \<Rightarrow> js_has (fd_name f) r | _ \<Rightarrow> False))"

section \<open>The contract of a kind\<close>

locale kind_contract =
  fixes d :: descriptor and fs :: "field_descriptor list"
    and recordOfCreate :: "json \<Rightarrow> json"
    and keyOfUpdate :: "json \<Rightarrow> string list"
    and changesOfUpdate :: "json \<Rightarrow> json"
  assumes value_fields: "orderedValueFields (ds_recordFields d) (ds_valueFieldOrder d) = Inr fs"
    and names_distinct: "distinct (map fd_name fs)"
    and canonicalize: "ds_canonicalizeValues d r = composeValues (ds_recordFields d) (ds_valueFieldOrder d) r"
    and create_key: "record_key d (recordOfCreate (ds_toCreateEntry d r)) = record_key d r"
    and create_values: "f \<in> set fs \<Longrightarrow>
      js_prop (recordOfCreate (ds_toCreateEntry d r)) (fd_name f) = js_prop r (fd_name f)"
    and update_key: "keyOfUpdate (ds_toUpdateEntry d i c) = ds_identityKey d i"
    and update_changes: "changesOfUpdate (ds_toUpdateEntry d i c) = c"
    and delete_key: "ds_identityKey d (ds_identityOfDelete d (ds_toDeleteEntry d i)) = ds_identityKey d i"
begin

definition canon :: "json \<Rightarrow> json" where
  "canon r = JObj (map (\<lambda>f. (fd_name f, canonical_field f r)) fs)"

lemma canonicalize_eq: "ds_canonicalizeValues d r = Inr (canon r)"
  by (simp add: canonicalize composeValues_def value_fields canon_def compose_fields_map names_distinct)

lemma canonical_values_eq: "canonical_values d r = canon r"
  by (simp add: canonical_values_def canonicalize_eq)

lemma canon_field: "f \<in> set fs \<Longrightarrow> js_prop (canon r) (fd_name f) = canonical_field f r"
proof -
  assume f: "f \<in> set fs"
  have "distinct (map fst (map (\<lambda>f. (fd_name f, canonical_field f r)) fs))"
    using names_distinct by (simp add: comp_def)
  then have "map_of (map (\<lambda>f. (fd_name f, canonical_field f r)) fs) (fd_name f) = Some (canonical_field f r)"
    using f by (intro map_of_is_SomeI) auto
  then show ?thesis by (simp add: canon_def js_get_def)
qed

definition changes :: "json \<Rightarrow> json \<Rightarrow> json_object" where
  "changes c r =
     map (\<lambda>f. (fd_name f, JObj [(''before'', canonical_field f c), (''after'', canonical_field f r)]))
       (filter (\<lambda>f. field_differs f (canon c) (canon r) r) fs)"

lemma diff_eq: "diffRecordValues d c r = Inr (JObj (changes c r))"
proof -
  have "map (\<lambda>f. (fd_name f, JObj [(''before'', js_prop (canon c) (fd_name f)),
         (''after'', js_prop (canon r) (fd_name f))])) (filter (\<lambda>f. field_differs f (canon c) (canon r) r) fs) =
      changes c r"
    unfolding changes_def by (rule map_cong) (auto simp: canon_field)
  then show ?thesis
    by (simp add: diffRecordValues_def canonicalize_eq value_fields diff_fields_map names_distinct)
qed

lemma plan_desired_eq:
  "plan_desired d cur rs p = Inr (p\<lparr>
     kp_create := kp_create p @
       map (ds_toCreateEntry d) (filter (\<lambda>r. map_of cur (record_key d r) = None) rs),
     kp_update := kp_update p @
       map (\<lambda>r. ds_toUpdateEntry d (ds_identityOf d r) (JObj (changes (the (map_of cur (record_key d r))) r)))
         (filter (\<lambda>r. \<exists>c. map_of cur (record_key d r) = Some c \<and> changes c r \<noteq> []) rs)\<rparr>)"
proof (induction rs arbitrary: p)
  case (Cons r rs)
  then show ?case
    by (cases "map_of cur (record_key d r)") (auto simp: Let_def record_key_def diff_eq)
qed simp

lemma plan_eq:
  assumes "distinct (map (record_key d) cur)"
  shows "computeKindPlan d cur des = Inr \<lparr>
    kp_create = map (ds_toCreateEntry d) (filter (\<lambda>r. lookup_record d cur r = None) des),
    kp_update = map (\<lambda>r. ds_toUpdateEntry d (ds_identityOf d r) (JObj (changes (the (lookup_record d cur r)) r)))
      (filter (\<lambda>r. \<exists>c. lookup_record d cur r = Some c \<and> changes c r \<noteq> []) des),
    kp_delete = map (\<lambda>r. ds_toDeleteEntry d (ds_identityOf d r))
      (filter (\<lambda>r. record_key d r \<notin> record_key d ` set des) cur)\<rparr>"
  by (simp add: computeKindPlan_def plan_desired_eq emptyKindPlan_def Let_def lookup_record_def
      index_records_distinct[OF assms] cong: conj_cong)

lemma create_values_eq: "canonical_values d (recordOfCreate (ds_toCreateEntry d r)) = canon r"
  unfolding canonical_values_eq unfolding canon_def
  by (auto simp: canonical_field_def create_values cong: map_cong)

lemma store_get: "store_of d cur (record_key d r) = map_option canon (lookup_record d cur r)"
proof -
  have "store_of d cur = map_option canon \<circ> map_of (map (\<lambda>r. (record_key d r, r)) cur)"
    unfolding store_of_def canonical_values_eq by (induction cur) auto
  then show ?thesis by (simp add: lookup_record_def)
qed

lemma plan_effect:
  assumes dc: "distinct (map (record_key d) cur)" and dd: "distinct (map (record_key d) des)"
    and p: "computeKindPlan d cur des = Inr p"
  defines "st' \<equiv> apply_kind_plan d recordOfCreate keyOfUpdate changesOfUpdate p (store_of d cur)"
  shows "r \<in> set des \<Longrightarrow> lookup_record d cur r = None \<Longrightarrow> st' (record_key d r) = Some (canon r)"
    and "r \<in> set des \<Longrightarrow> lookup_record d cur r = Some c \<Longrightarrow>
      st' (record_key d r) = Some (overwrite (canon c) (changesToValues (JObj (changes c r))))"
    and "k \<notin> record_key d ` set des \<Longrightarrow> st' k = None"
proof -
  let ?k = "record_key d"
  let ?cr = "filter (\<lambda>r. lookup_record d cur r = None) des"
  let ?up = "filter (\<lambda>r. \<exists>c. lookup_record d cur r = Some c \<and> changes c r \<noteq> []) des"
  let ?de = "filter (\<lambda>r. ?k r \<notin> ?k ` set des) cur"
  let ?ue = "\<lambda>r. ds_toUpdateEntry d (ds_identityOf d r) (JObj (changes (the (lookup_record d cur r)) r))"
  let ?s1 = "apply_entries (\<lambda>e. ?k (recordOfCreate e)) (\<lambda>e _. Some (canonical_values d (recordOfCreate e)))
      (map (ds_toCreateEntry d) ?cr) (store_of d cur)"
  let ?s2 = "apply_entries keyOfUpdate
      (\<lambda>e. map_option (\<lambda>v. overwrite v (changesToValues (changesOfUpdate e)))) (map ?ue ?up) ?s1"
  have st': "st' = apply_entries (\<lambda>e. ds_identityKey d (ds_identityOfDelete d e)) (\<lambda>_ _. None)
      (map (\<lambda>r. ds_toDeleteEntry d (ds_identityOf d r)) ?de) ?s2"
    using p unfolding st'_def plan_eq[OF dc] apply_kind_plan_def by (auto dest!: sym[of _ p])
  have d1: "distinct (map ?k ?cr)" and d2: "distinct (map ?k ?up)" and d3: "distinct (map ?k ?de)"
    using dc dd by (simp_all add: distinct_map_filter)
  have k1: "\<forall>r\<in>set ?cr. ?k (recordOfCreate (ds_toCreateEntry d r)) = ?k r" by (simp add: create_key)
  have k2: "\<forall>r\<in>set ?up. keyOfUpdate (?ue r) = ?k r" by (simp add: update_key record_key_def)
  have k3: "\<forall>r\<in>set ?de. ds_identityKey d (ds_identityOfDelete d (ds_toDeleteEntry d (ds_identityOf d r))) = ?k r"
    by (simp add: delete_key record_key_def)
  note hit1 = apply_entries_hit[where kf = ?k and rs = ?cr and e = "ds_toCreateEntry d"
      and key = "\<lambda>e. ?k (recordOfCreate e)", OF k1 d1]
  note hit2 = apply_entries_hit[where kf = ?k and rs = ?up and e = ?ue and key = keyOfUpdate, OF k2 d2]
  note hit3 = apply_entries_hit[where kf = ?k and rs = ?de and e = "\<lambda>r. ds_toDeleteEntry d (ds_identityOf d r)"
      and key = "\<lambda>e. ds_identityKey d (ds_identityOfDelete d e)", OF k3 d3]
  note off1 = apply_entries_other[where kf = ?k and rs = ?cr and e = "ds_toCreateEntry d"
      and key = "\<lambda>e. ?k (recordOfCreate e)", OF k1]
  note off2 = apply_entries_other[where kf = ?k and rs = ?up and e = ?ue and key = keyOfUpdate, OF k2]
  note off3 = apply_entries_other[where kf = ?k and rs = ?de and e = "\<lambda>r. ds_toDeleteEntry d (ds_identityOf d r)"
      and key = "\<lambda>e. ds_identityKey d (ds_identityOfDelete d e)", OF k3]
  have kept: "?k r \<notin> ?k ` set ?de" if "r \<in> set des" for r
  proof
    assume "?k r \<in> ?k ` set ?de"
    then obtain x where "?k x \<notin> ?k ` set des" "?k r = ?k x" by auto
    with that show False by (metis imageI)
  qed
  have same: "r' = r" if "r \<in> set des" "r' \<in> set des" "?k r' = ?k r" for r r'
    using dd that by (meson distinct_map inj_onD)
  show "r \<in> set des \<Longrightarrow> lookup_record d cur r = None \<Longrightarrow> st' (?k r) = Some (canon r)"
  proof -
    assume r: "r \<in> set des" "lookup_record d cur r = None"
    then have "?s1 (?k r) = Some (canon r)"
      using hit1[of r] by (simp add: create_values_eq)
    moreover have "?s2 (?k r) = ?s1 (?k r)"
    proof (rule off2, rule notI)
      assume "?k r \<in> ?k ` set ?up"
      then obtain r' where "r' \<in> set ?up" and k: "?k r = ?k r'" by blast
      then show False using lookup_record_cong[OF k, of cur] r(2) by simp
    qed
    moreover have "st' (?k r) = ?s2 (?k r)" unfolding st'
      by (rule off3, rule kept) (use r in simp)
    ultimately show ?thesis by simp
  qed
  show "st' (?k r) = Some (overwrite (canon c) (changesToValues (JObj (changes c r))))"
    if r: "r \<in> set des" and c: "lookup_record d cur r = Some c"
  proof -
    have one: "?s1 (?k r) = Some (canon c)"
    proof -
      have "?s1 (?k r) = store_of d cur (?k r)"
      proof (rule off1, rule notI)
        assume "?k r \<in> ?k ` set ?cr"
        then obtain r' where "r' \<in> set ?cr" and k: "?k r = ?k r'" by blast
        then show False using lookup_record_cong[OF k, of cur] c by simp
      qed
      with c show ?thesis by (simp add: store_get)
    qed
    have two: "?s2 (?k r) = Some (overwrite (canon c) (changesToValues (JObj (changes c r))))"
    proof (cases "changes c r = []")
      case True
      have "?s2 (?k r) = ?s1 (?k r)"
      proof (rule off2, rule notI)
        assume "?k r \<in> ?k ` set ?up"
        then obtain r' where "r' \<in> set ?up" and k: "?k r = ?k r'" by blast
        then have r': "r' \<in> set des" "\<exists>c. lookup_record d cur r' = Some c \<and> changes c r' \<noteq> []" by auto
        with same[OF r r'(1) k[symmetric]] c True show False by auto
      qed
      with one True show ?thesis by (simp add: canon_def changesToValues_def)
    next
      case False
      with r c have "r \<in> set ?up" by simp
      from hit2[OF this] one c show ?thesis by (simp add: update_changes)
    qed
    have "st' (?k r) = ?s2 (?k r)" unfolding st'
      by (rule off3, rule kept) (use r in simp)
    with two show ?thesis by simp
  qed
  show "k \<notin> ?k ` set des \<Longrightarrow> st' k = None"
  proof -
    assume k: "k \<notin> ?k ` set des"
    show ?thesis
    proof (cases "k \<in> ?k ` set cur")
      case True
      then obtain r where r: "r \<in> set cur" "k = ?k r" by blast
      with k have "r \<in> set ?de" by auto
      from hit3[OF this] r show ?thesis by (simp add: st')
    next
      case False
      then have "store_of d cur k = None" by (auto simp: store_of_def map_of_eq_None_iff)
      moreover have "?s1 k = store_of d cur k" by (rule off1) (use k in auto)
      moreover have "?s2 k = ?s1 k" by (rule off2) (use k in auto)
      moreover have "st' k = ?s2 k" unfolding st' by (rule off3) (use False in auto)
      ultimately show ?thesis by simp
    qed
  qed
qed

lemma overwritten_field:
  assumes f: "f \<in> set fs"
  shows "js_prop (overwrite (canon c) (changesToValues (JObj (changes c r)))) (fd_name f) =
    (if field_differs f (canon c) (canon r) r then canonical_field f r else canonical_field f c)"
proof -
  let ?diff = "filter (\<lambda>f. field_differs f (canon c) (canon r) r) fs"
  let ?vs = "map (\<lambda>f. (fd_name f, canonical_field f r)) ?diff"
  have vs: "changesToValues (JObj (changes c r)) = JObj ?vs"
    by (simp add: changesToValues_def changes_def js_get_def comp_def)
  have dist: "distinct (map fst ?vs)" using names_distinct by (simp add: comp_def distinct_map_filter)
  have old: "js_prop (canon c) (fd_name f) = canonical_field f c" by (rule canon_field[OF f])
  have "f = f'" if "f' \<in> set fs" "fd_name f' = fd_name f" for f'
    using that f names_distinct unfolding distinct_map by (metis inj_onD)
  then have "map_of ?vs (fd_name f) =
      (if field_differs f (canon c) (canon r) r then Some (canonical_field f r) else None)"
    using f dist by (auto simp: map_of_eq_None_iff intro!: map_of_is_SomeI)
  moreover obtain r0 where r0: "canon c = JObj r0" by (simp add: canon_def)
  moreover have "overwrite (canon c) (JObj ?vs) = overwrite (JObj r0) (JObj ?vs)" by (simp only: r0)
  moreover have "js_get r0 (fd_name f) = canonical_field f c" using old r0 by simp
  ultimately show ?thesis unfolding vs using overwrite_get[OF dist, of r0 "fd_name f"] by simp
qed

lemma plan_reaches:
  assumes "distinct (map (record_key d) cur)" "distinct (map (record_key d) des)"
    and "computeKindPlan d cur des = Inr p"
  defines "st' \<equiv> apply_kind_plan d recordOfCreate keyOfUpdate changesOfUpdate p (store_of d cur)"
  shows "dom st' = record_key d ` set des"
    and "r \<in> set des \<Longrightarrow> f \<in> set fs \<Longrightarrow> field_planned f r \<or> lookup_record d cur r = None \<Longrightarrow>
      field_reached f (the (st' (record_key d r))) (canonical_values d r)"
    and "r \<in> set des \<Longrightarrow> f \<in> set fs \<Longrightarrow> \<not> field_planned f r \<Longrightarrow> lookup_record d cur r = Some c \<Longrightarrow>
      js_prop (the (st' (record_key d r))) (fd_name f) = js_prop (canonical_values d c) (fd_name f)"
proof -
  note eff = plan_effect[OF assms(1-3), folded st'_def]
  have "\<exists>v. st' (record_key d r) = Some v" if "r \<in> set des" for r
    using eff(1,2)[OF that] by (cases "lookup_record d cur r") auto
  then show "dom st' = record_key d ` set des" using eff(3) by fastforce
  show "field_reached f (the (st' (record_key d r))) (canonical_values d r)"
    if "r \<in> set des" "f \<in> set fs" "field_planned f r \<or> lookup_record d cur r = None"
  proof (cases "lookup_record d cur r")
    case None
    with eff(1) that show ?thesis by (simp add: field_reached_def canonical_values_eq)
  next
    case (Some c)
    with that have "field_planned f r" by simp
    with eff(2)[OF that(1) Some] overwritten_field[OF that(2)] show ?thesis
      by (auto simp: field_reached_def canonical_values_eq canon_field[OF that(2)] field_differs_def field_planned_def)
  qed
  show "js_prop (the (st' (record_key d r))) (fd_name f) = js_prop (canonical_values d c) (fd_name f)"
    if "r \<in> set des" "f \<in> set fs" "\<not> field_planned f r" "lookup_record d cur r = Some c"
    using eff(2)[OF that(1,4)] overwritten_field[OF that(2), of c r] that(3)
    by (auto simp: canonical_values_eq canon_field[OF that(2)] field_differs_def field_planned_def)
qed

text \<open>Nothing changes when the desired records are the current ones.\<close>

lemma plan_noop:
  assumes dist: "distinct (map (record_key d) rs)"
    and wf: "\<And>r f. r \<in> set rs \<Longrightarrow> f \<in> set fs \<Longrightarrow> wf_json (canonical_field f r)"
  shows "computeKindPlan d rs rs = Inr emptyKindPlan"
proof -
  have self: "lookup_record d rs r = Some r" if "r \<in> set rs" for r
  proof -
    have "distinct (map fst (map (\<lambda>c. (record_key d c, c)) rs))" using dist by (simp add: comp_def)
    then show ?thesis unfolding lookup_record_def using that by (intro map_of_is_SomeI) auto
  qed
  have same: "changes r r = []" if "r \<in> set rs" for r
    using wf[OF that] by (auto simp: changes_def field_differs_def canon_field isEqual_refl filter_empty_conv)
  have none: "filter (\<lambda>r. lookup_record d rs r = None) rs = []"
    "filter (\<lambda>r. \<exists>c. lookup_record d rs r = Some c \<and> changes c r \<noteq> []) rs = []"
    "filter (\<lambda>r. record_key d r \<notin> record_key d ` set rs) rs = []"
    by (simp_all add: filter_empty_conv self same)
  show ?thesis unfolding plan_eq[OF dist] none by (simp add: emptyKindPlan_def)
qed

end

end
