(* ===== verification/Visit_Order.thy ===== *)
theory Visit_Order
  imports Config_Graph
begin

text \<open>
  The depth-first walk several operations repeat: a node is marked on entry, its successors are visited
  in order, and it is pushed afterwards. Folder creates and deletes, folder preparation and the order of
  schema collections are this walk over different successor functions. Fuel bounds the depth; one more than the
  number of nodes is enough (\<open>walk_all_total\<close>).
\<close>

fun post_visit :: "nat \<Rightarrow> ('a \<Rightarrow> 'a list) \<Rightarrow> 'a \<Rightarrow> 'a list \<times> 'a list \<Rightarrow> ('a list \<times> 'a list) option"
and post_visits :: "nat \<Rightarrow> ('a \<Rightarrow> 'a list) \<Rightarrow> 'a list \<Rightarrow> 'a list \<times> 'a list \<Rightarrow> ('a list \<times> 'a list) option"
where
  "post_visit 0 succs node w = None"
| "post_visit (Suc n) succs node (visited, order) =
     (if node \<in> set visited then Some (visited, order)
      else (case post_visits n succs (succs node) (visited @ [node], order) of
              None \<Rightarrow> None
            | Some (visited', order') \<Rightarrow> Some (visited', order' @ [node])))"
| "post_visits n succs [] w = Some w"
| "post_visits n succs (node # nodes) w =
     (case post_visit n succs node w of None \<Rightarrow> None | Some w' \<Rightarrow> post_visits n succs nodes w')"

definition walk_all :: "('a \<Rightarrow> 'a list) \<Rightarrow> nat \<Rightarrow> 'a list \<Rightarrow> 'a list option" where
  "walk_all succs bound nodes = map_option snd (post_visits (Suc bound) succs nodes ([], []))"

definition visiting_ok :: "'a list \<times> 'a list \<Rightarrow> bool" where
  "visiting_ok w \<longleftrightarrow> distinct (snd w) \<and> distinct (fst w) \<and> set (snd w) \<subseteq> set (fst w)"

definition open_nodes :: "'a list \<times> 'a list \<Rightarrow> 'a set" where
  "open_nodes w = set (fst w) - set (snd w)"

definition succ_closed :: "('a \<Rightarrow> 'a list) \<Rightarrow> 'a list \<times> 'a list \<Rightarrow> bool" where
  "succ_closed succs w \<longleftrightarrow> (\<forall>y\<in>set (snd w). set (succs y) \<subseteq> set (fst w))"

definition walked :: "('a \<Rightarrow> 'a list) \<Rightarrow> 'a set \<Rightarrow> 'a list \<times> 'a list \<Rightarrow> 'a list \<times> 'a list \<Rightarrow> bool" where
  "walked succs from_nodes w w' \<longleftrightarrow>
     visiting_ok w' \<and> open_nodes w' = open_nodes w \<and> set (fst w) \<subseteq> set (fst w') \<and>
     set (snd w) \<subseteq> set (snd w') \<and> from_nodes \<subseteq> set (fst w') \<and>
     set (fst w') \<subseteq> set (fst w) \<union> (dep_rel succs)\<^sup>* `` from_nodes \<and>
     (succ_closed succs w \<longrightarrow> succ_closed succs w')"

lemma post_visit_walked:
  "post_visit n succs node w = Some w' \<Longrightarrow> visiting_ok w \<Longrightarrow> walked succs {node} w w'"
  "post_visits n succs nodes w = Some w' \<Longrightarrow> visiting_ok w \<Longrightarrow> walked succs (set nodes) w w'"
proof (induction n succs node w and n succs nodes w arbitrary: w' and w'
    rule: post_visit_post_visits.induct)
  case (2 n succs node visited order)
  show ?case
  proof (cases "node \<in> set visited")
    case True
    with 2 show ?thesis by (auto simp: walked_def)
  next
    case False
    let ?w = "(visited @ [node], order)"
    from 2 False obtain v1 o1 where w1: "post_visits n succs (succs node) ?w = Some (v1, o1)"
      and w': "w' = (v1, o1 @ [node])" by (auto split: option.splits)
    have "visiting_ok ?w" using "2.prems"(2) False by (auto simp: visiting_ok_def)
    from "2.IH"[OF False w1 this] have ok: "walked succs (set (succs node)) ?w (v1, o1)" .
    have node: "node \<in> open_nodes (v1, o1)" "node \<in> set v1" "node \<notin> set o1"
      using ok "2.prems"(2) False by (auto simp: walked_def open_nodes_def visiting_ok_def)
    have "(dep_rel succs)\<^sup>* `` set (succs node) \<subseteq> (dep_rel succs)\<^sup>* `` {node}"
      by (auto simp: dep_rel_def intro: converse_rtrancl_into_rtrancl)
    moreover have "set v1 \<subseteq> insert node (set visited) \<union> (dep_rel succs)\<^sup>* `` set (succs node)"
      using ok by (simp add: walked_def)
    ultimately have reach: "set v1 \<subseteq> set visited \<union> (dep_rel succs)\<^sup>* `` {node}" by blast
    have closed: "succ_closed succs (visited, order) \<longrightarrow> succ_closed succs w'"
      using ok node unfolding w' walked_def succ_closed_def by auto
    have "visiting_ok w'" "open_nodes w' = open_nodes (visited, order)" "set visited \<subseteq> set v1"
      "set order \<subseteq> set (o1 @ [node])"
      using ok node "2.prems"(2) False unfolding w' walked_def visiting_ok_def open_nodes_def by auto
    with reach closed node show ?thesis unfolding walked_def by (simp add: w')
  qed
next
  case (4 n succs node nodes w)
  then obtain w1 where w1: "post_visit n succs node w = Some w1"
    and rest: "post_visits n succs nodes w1 = Some w'" by (auto split: option.splits)
  from "4.IH"(1)[OF w1 "4.prems"(2)] have one: "walked succs {node} w w1" .
  then have "visiting_ok w1" by (simp add: walked_def)
  from "4.IH"(2)[OF w1 rest this] have two: "walked succs (set nodes) w1 w'" .
  have first: "set (fst w1) \<subseteq> set (fst w) \<union> (dep_rel succs)\<^sup>* `` {node}"
    and second: "set (fst w') \<subseteq> set (fst w1) \<union> (dep_rel succs)\<^sup>* `` set nodes"
    using one two unfolding walked_def by simp_all
  have image: "(dep_rel succs)\<^sup>* `` set (node # nodes) =
      (dep_rel succs)\<^sup>* `` {node} \<union> (dep_rel succs)\<^sup>* `` set nodes" by auto
  have "set (fst w') \<subseteq> set (fst w) \<union> (dep_rel succs)\<^sup>* `` set (node # nodes)"
    unfolding image using first second by (auto simp del: Image_singleton_iff)
  moreover have "visiting_ok w'" "open_nodes w' = open_nodes w" "set (fst w) \<subseteq> set (fst w')"
    "set (snd w) \<subseteq> set (snd w')" "set (node # nodes) \<subseteq> set (fst w')"
    "succ_closed succs w \<longrightarrow> succ_closed succs w'"
    using one two unfolding walked_def by auto
  ultimately show ?case unfolding walked_def by (intro conjI)
qed (auto simp: walked_def)

lemma post_visit_total:
  "visiting_ok w \<Longrightarrow> node \<in> U \<Longrightarrow> finite U \<Longrightarrow> \<forall>u\<in>U. set (succs u) \<subseteq> U \<Longrightarrow>
     card (U - set (fst w)) < n \<Longrightarrow> post_visit n succs node w \<noteq> None"
  "visiting_ok w \<Longrightarrow> set nodes \<subseteq> U \<Longrightarrow> finite U \<Longrightarrow> \<forall>u\<in>U. set (succs u) \<subseteq> U \<Longrightarrow>
     card (U - set (fst w)) < n \<Longrightarrow> post_visits n succs nodes w \<noteq> None"
proof (induction n succs node w and n succs nodes w rule: post_visit_post_visits.induct)
  case (2 n succs node visited order)
  show ?case
  proof (cases "node \<in> set visited")
    case False
    let ?w = "(visited @ [node], order)"
    have "U - set (visited @ [node]) = U - set visited - {node}" by auto
    moreover have "card (U - set visited - {node}) < card (U - set visited)"
      using "2.prems" False by (intro card_Diff1_less) auto
    ultimately have "card (U - set (fst ?w)) < n" using "2.prems"(5) by simp
    moreover have "visiting_ok ?w" using "2.prems"(1) False by (auto simp: visiting_ok_def)
    ultimately have "post_visits n succs (succs node) ?w \<noteq> None"
      using "2.IH"[OF False] "2.prems" by blast
    with False show ?thesis by auto
  qed simp
next
  case (4 n succs node nodes w)
  then have "post_visit n succs node w \<noteq> None" by simp
  then obtain w1 where w1: "post_visit n succs node w = Some w1" by blast
  from post_visit_walked(1)[OF this "4.prems"(1)]
  have "visiting_ok w1" "set (fst w) \<subseteq> set (fst w1)" by (simp_all add: walked_def)
  moreover from this(2) have "card (U - set (fst w1)) \<le> card (U - set (fst w))"
    using "4.prems"(3) by (intro card_mono) auto
  ultimately have "post_visits n succs nodes w1 \<noteq> None" using "4.IH"(2)[OF w1] "4.prems" by simp
  with w1 show ?case by simp
qed auto

text \<open>Without a cycle, a successor already marked is already in the order.\<close>

lemma post_visit_ordered:
  "post_visit n succs node w = Some w' \<Longrightarrow> visiting_ok w \<Longrightarrow> acyclic (dep_rel succs) \<Longrightarrow>
     \<forall>s\<in>open_nodes w. (s, node) \<in> (dep_rel succs)\<^sup>+ \<Longrightarrow> deps_first succs (snd w) \<Longrightarrow>
     deps_first succs (snd w') \<and> node \<in> set (snd w')"
  "post_visits n succs nodes w = Some w' \<Longrightarrow> visiting_ok w \<Longrightarrow> acyclic (dep_rel succs) \<Longrightarrow>
     \<forall>s\<in>open_nodes w. \<forall>x\<in>set nodes. (s, x) \<in> (dep_rel succs)\<^sup>+ \<Longrightarrow> deps_first succs (snd w) \<Longrightarrow>
     deps_first succs (snd w') \<and> set nodes \<subseteq> set (snd w')"
proof (induction n succs node w and n succs nodes w arbitrary: w' and w'
    rule: post_visit_post_visits.induct)
  case (2 n succs node visited order)
  show ?case
  proof (cases "node \<in> set visited")
    case True
    have "node \<notin> open_nodes (visited, order)"
    proof
      assume "node \<in> open_nodes (visited, order)"
      with "2.prems"(4) have "(node, node) \<in> (dep_rel succs)\<^sup>+" by blast
      with "2.prems"(3) show False by (simp add: acyclic_def)
    qed
    with 2 True show ?thesis by (auto simp: open_nodes_def)
  next
    case False
    let ?w = "(visited @ [node], order)"
    from 2 False obtain v1 o1 where w1: "post_visits n succs (succs node) ?w = Some (v1, o1)"
      and w': "w' = (v1, o1 @ [node])" by (auto split: option.splits)
    have ok: "visiting_ok ?w" using "2.prems"(2) False by (auto simp: visiting_ok_def)
    have "\<forall>s\<in>open_nodes ?w. \<forall>x\<in>set (succs node). (s, x) \<in> (dep_rel succs)\<^sup>+"
    proof (intro ballI)
      fix s x assume s: "s \<in> open_nodes ?w" and x: "x \<in> set (succs node)"
      then have edge: "(node, x) \<in> dep_rel succs" by (simp add: dep_rel_def)
      show "(s, x) \<in> (dep_rel succs)\<^sup>+"
      proof (cases "s = node")
        case False
        with s have "s \<in> open_nodes (visited, order)" by (auto simp: open_nodes_def)
        with "2.prems"(4) have "(s, node) \<in> (dep_rel succs)\<^sup>+" by blast
        with edge show ?thesis by (rule trancl_into_trancl[rotated])
      qed (use edge in auto)
    qed
    from "2.IH"[OF False w1 ok "2.prems"(3) this] "2.prems"(5)
    have "deps_first succs o1" "set (succs node) \<subseteq> set o1" by simp_all
    then show ?thesis by (simp add: w' deps_first_snoc)
  qed
next
  case (4 n succs node nodes w)
  then obtain w1 where w1: "post_visit n succs node w = Some w1"
    and rest: "post_visits n succs nodes w1 = Some w'" by (auto split: option.splits)
  from "4.IH"(1)[OF w1] "4.prems" have one: "deps_first succs (snd w1)" "node \<in> set (snd w1)" by simp_all
  from post_visit_walked(1)[OF w1 "4.prems"(2)]
  have ok: "visiting_ok w1" and same: "open_nodes w1 = open_nodes w" by (simp_all add: walked_def)
  from "4.IH"(2)[OF w1 rest ok "4.prems"(3)] one same "4.prems"(4)
  have two: "deps_first succs (snd w')" "set nodes \<subseteq> set (snd w')" by simp_all
  from post_visit_walked(2)[OF rest ok] have "set (snd w1) \<subseteq> set (snd w')" by (simp add: walked_def)
  with one two show ?case by auto
qed auto

text \<open>The walk returns, lists every reachable node once, and successors first when there is no cycle.\<close>

lemma walk_all_total:
  assumes "set nodes \<subseteq> set U" "\<forall>u\<in>set U. set (succs u) \<subseteq> set U" "length U \<le> bound"
  shows "\<exists>order. walk_all succs bound nodes = Some order \<and> distinct order \<and>
    set order = (dep_rel succs)\<^sup>* `` set nodes \<and>
    (acyclic (dep_rel succs) \<longrightarrow> deps_first succs order)"
proof -
  have "card (set U) < Suc bound" using assms(3) card_length[of U] by simp
  then obtain v order where w: "post_visits (Suc bound) succs nodes ([], []) = Some (v, order)"
    using post_visit_total(2)[of "([], [])" nodes "set U" succs "Suc bound"] assms(1,2)
    by (auto simp: visiting_ok_def)
  have ok: "visiting_ok ([], [])" by (simp add: visiting_ok_def)
  from post_visit_walked(2)[OF w ok]
  have "distinct order" "set order = set v" and sub: "set nodes \<subseteq> set v"
    "set v \<subseteq> (dep_rel succs)\<^sup>* `` set nodes" and closed: "\<forall>y\<in>set order. set (succs y) \<subseteq> set v"
    by (auto simp: walked_def visiting_ok_def open_nodes_def succ_closed_def)
  moreover have "(s, b) \<in> (dep_rel succs)\<^sup>* \<Longrightarrow> s \<in> set order \<Longrightarrow> b \<in> set order" for s b
    by (induction rule: rtrancl_induct) (use closed \<open>set order = set v\<close> in \<open>auto simp: dep_rel_def\<close>)
  ultimately have reach: "set order = (dep_rel succs)\<^sup>* `` set nodes" by blast
  have "acyclic (dep_rel succs) \<longrightarrow> deps_first succs order"
    using post_visit_ordered(2)[OF w ok] by (simp add: open_nodes_def)
  with w reach \<open>distinct order\<close> show ?thesis by (simp add: walk_all_def)
qed

end
