(* ===== verification/Config_Kinds.thy ===== *)
theory Config_Kinds
  imports Config_Diff Visit_Order
begin

text \<open>
  The planning side of the roles, permissions and folders handlers
  (\<open>api/src/utils/config/handlers/\<close>): their field tables, identities and plan entries as the code's
  descriptors give them, each shown to satisfy \<open>kind_contract\<close>; the reordering of role updates, the
  permission deletions a role deletion subsumes, and the orders in which folders are created, moved and
  deleted.
\<close>

section \<open>Objects\<close>

fun js_entries :: "json \<Rightarrow> json_object" where
  "js_entries (JObj es) = es"
| "js_entries _ = []"

text \<open>\<open>{ ...base, ...es }\<close>\<close>

definition js_spread :: "json_object \<Rightarrow> json_object \<Rightarrow> json_object" where
  "js_spread base es =
     map (\<lambda>(k, v). (k, case map_of es k of None \<Rightarrow> v | Some w \<Rightarrow> w)) base @
     filter (\<lambda>(k, v). \<not> js_has k base) es"

lemma js_spread_get: "js_get (js_spread base es) f = (case map_of es f of None \<Rightarrow> js_get base f | Some v \<Rightarrow> v)"
proof -
  have old: "map_of (map (\<lambda>(k, v). (k, case map_of es k of None \<Rightarrow> v | Some w \<Rightarrow> w)) base) f =
      map_option (\<lambda>v. case map_of es f of None \<Rightarrow> v | Some w \<Rightarrow> w) (map_of base f)"
    by (induction base) (auto split: option.splits prod.splits)
  have new: "map_of (filter (\<lambda>(k, v). \<not> js_has k base) es) f = (if js_has f base then None else map_of es f)"
    by (induction es) auto
  show ?thesis
    by (simp add: js_get_def js_spread_def map_add_def old new split: option.splits)
      (auto simp: js_has_iff)
qed

abbreviation prop_text :: "json \<Rightarrow> string \<Rightarrow> string" where
  "prop_text v f \<equiv> text_of (js_prop v f)"

section \<open>Roles\<close>

definition DEFAULT_ROLE_ICON :: string where
  "DEFAULT_ROLE_ICON = ''supervised_user_circle''"

definition plain_field :: "string \<Rightarrow> field_descriptor" where
  "plain_field name =
     \<lparr>fd_name = name, fd_mutable = True, fd_omissionPreservesCurrent = False, fd_canonicalize = None\<rparr>"

definition preserved_field :: "string \<Rightarrow> (json \<Rightarrow> json) \<Rightarrow> field_descriptor" where
  "preserved_field name c =
     \<lparr>fd_name = name, fd_mutable = True, fd_omissionPreservesCurrent = True, fd_canonicalize = Some c\<rparr>"

definition ROLE_RECORD_FIELDS :: "field_descriptor list" where
  "ROLE_RECORD_FIELDS =
     [plain_field ''name'',
      plain_field ''admin_access'',
      plain_field ''app_access'',
      preserved_field ''icon'' (\<lambda>v. js_or v (JStr DEFAULT_ROLE_ICON)),
      preserved_field ''enforce_tfa'' (\<lambda>v. js_or v (JBool False)),
      preserved_field ''description'' (\<lambda>v. js_or v JNull),
      preserved_field ''ip_access'' sortedOrNull]"

definition ROLE_VALUE_FIELD_ORDER :: "string list" where
  "ROLE_VALUE_FIELD_ORDER =
     [''name'', ''icon'', ''description'', ''admin_access'', ''app_access'', ''enforce_tfa'', ''ip_access'']"

definition rolesDescriptor :: descriptor where
  "rolesDescriptor = \<lparr>
     ds_recordFields = ROLE_RECORD_FIELDS,
     ds_valueFieldOrder = ROLE_VALUE_FIELD_ORDER,
     ds_projectDocuments = (\<lambda>documents. documents),
     ds_identityOf = (\<lambda>record. JObj [(''key'', js_prop record ''key'')]),
     ds_identityKey = (\<lambda>identity. [prop_text identity ''key'']),
     ds_identityOfDelete = (\<lambda>entry. JObj [(''key'', entry)]),
     ds_canonicalizeValues = composeValues ROLE_RECORD_FIELDS ROLE_VALUE_FIELD_ORDER,
     ds_toCreateEntry = (\<lambda>record. record),
     ds_toUpdateEntry = (\<lambda>identity chg. JObj [(''key'', js_prop identity ''key''), (''changes'', chg)]),
     ds_toDeleteEntry = (\<lambda>identity. js_prop identity ''key'')\<rparr>"

definition grantsAdministrator :: "json \<Rightarrow> bool" where
  "grantsAdministrator update =
     (let change = js_prop (js_prop update ''changes'') ''admin_access''
      in change \<noteq> JUndefined \<and> js_prop change ''before'' = JBool False \<and> js_prop change ''after'' = JBool True)"

definition administratorGrantsFirst :: "json list \<Rightarrow> json list" where
  "administratorGrantsFirst updates =
     filter grantsAdministrator updates @ filter (\<lambda>u. \<not> grantsAdministrator u) updates"

definition roles_postPlan :: "kind_plan \<Rightarrow> kind_plan" where
  "roles_postPlan p = p\<lparr>kp_update := administratorGrantsFirst (kp_update p)\<rparr>"

section \<open>Permissions\<close>

definition PERMISSION_RECORD_FIELDS :: "field_descriptor list" where
  "PERMISSION_RECORD_FIELDS =
     [(plain_field ''collection'')\<lparr>fd_mutable := False\<rparr>,
      (plain_field ''action'')\<lparr>fd_mutable := False\<rparr>,
      plain_field ''permissions'',
      plain_field ''validation'',
      plain_field ''presets'',
      (plain_field ''fields'')\<lparr>fd_canonicalize := Some sortedOrNull\<rparr>]"

definition PERMISSION_VALUE_FIELD_ORDER :: "string list" where
  "PERMISSION_VALUE_FIELD_ORDER = [''permissions'', ''validation'', ''presets'', ''fields'']"

definition permission_records :: "json \<Rightarrow> json list" where
  "permission_records document =
     (case js_prop document ''permissions'' of
        JArr ps \<Rightarrow> map (\<lambda>p. JObj (js_spread [(''role'', js_prop document ''role'')] (js_entries p))) ps
      | _ \<Rightarrow> [])"

definition permissionsDescriptor :: descriptor where
  "permissionsDescriptor = \<lparr>
     ds_recordFields = PERMISSION_RECORD_FIELDS,
     ds_valueFieldOrder = PERMISSION_VALUE_FIELD_ORDER,
     ds_projectDocuments = (\<lambda>documents. concat (map permission_records documents)),
     ds_identityOf = (\<lambda>record. JObj [(''role'', js_prop record ''role''),
       (''collection'', js_prop record ''collection''), (''action'', js_prop record ''action'')]),
     ds_identityKey = (\<lambda>identity.
       [prop_text identity ''role'', prop_text identity ''collection'', prop_text identity ''action'']),
     ds_identityOfDelete = (\<lambda>entry. JObj [(''role'', js_prop entry ''roleKey''),
       (''collection'', js_prop entry ''collection''), (''action'', js_prop entry ''action'')]),
     ds_canonicalizeValues = composeValues PERMISSION_RECORD_FIELDS PERMISSION_VALUE_FIELD_ORDER,
     ds_toCreateEntry = (\<lambda>record. JObj [(''roleKey'', js_prop record ''role''),
       (''permission'', JObj (js_delete ''role'' (js_entries record)))]),
     ds_toUpdateEntry = (\<lambda>identity chg. JObj [(''roleKey'', js_prop identity ''role''),
       (''collection'', js_prop identity ''collection''), (''action'', js_prop identity ''action''),
       (''changes'', chg)]),
     ds_toDeleteEntry = (\<lambda>identity. JObj [(''roleKey'', js_prop identity ''role''),
       (''collection'', js_prop identity ''collection''), (''action'', js_prop identity ''action'')])\<rparr>"

text \<open>Deleting a role deletes its permissions, so their own deletions are dropped from the plan.\<close>

definition permissions_postPlan :: "kind_plan \<Rightarrow> kind_plan \<Rightarrow> kind_plan" where
  "permissions_postPlan roles_plan p =
     (let deletedRoleKeys = map text_of (kp_delete roles_plan) in
      \<lparr>kp_create = kp_create p, kp_update = kp_update p,
       kp_delete = filter (\<lambda>entry. prop_text entry ''roleKey'' \<notin> set deletedRoleKeys) (kp_delete p)\<rparr>)"

section \<open>Folders\<close>

definition FOLDER_RECORD_FIELDS :: "field_descriptor list" where
  "FOLDER_RECORD_FIELDS = [plain_field ''name'', preserved_field ''parent'' (\<lambda>v. js_or v JNull)]"

definition FOLDER_VALUE_FIELD_ORDER :: "string list" where
  "FOLDER_VALUE_FIELD_ORDER = [''name'', ''parent'']"

definition foldersDescriptor :: descriptor where
  "foldersDescriptor = \<lparr>
     ds_recordFields = FOLDER_RECORD_FIELDS,
     ds_valueFieldOrder = FOLDER_VALUE_FIELD_ORDER,
     ds_projectDocuments = (\<lambda>documents. documents),
     ds_identityOf = (\<lambda>record. JObj [(''key'', js_prop record ''key'')]),
     ds_identityKey = (\<lambda>identity. [prop_text identity ''key'']),
     ds_identityOfDelete = (\<lambda>entry. JObj [(''key'', entry)]),
     ds_canonicalizeValues = composeValues FOLDER_RECORD_FIELDS FOLDER_VALUE_FIELD_ORDER,
     ds_toCreateEntry = (\<lambda>record. record),
     ds_toUpdateEntry = (\<lambda>identity chg. JObj [(''key'', js_prop identity ''key''), (''changes'', chg)]),
     ds_toDeleteEntry = (\<lambda>identity. js_prop identity ''key'')\<rparr>"

section \<open>The three kinds satisfy the contract\<close>

definition role_value_fields :: "field_descriptor list" where
  "role_value_fields =
     [plain_field ''name'',
      preserved_field ''icon'' (\<lambda>v. js_or v (JStr DEFAULT_ROLE_ICON)),
      preserved_field ''description'' (\<lambda>v. js_or v JNull),
      plain_field ''admin_access'',
      plain_field ''app_access'',
      preserved_field ''enforce_tfa'' (\<lambda>v. js_or v (JBool False)),
      preserved_field ''ip_access'' sortedOrNull]"

definition permission_value_fields :: "field_descriptor list" where
  "permission_value_fields =
     [plain_field ''permissions'', plain_field ''validation'', plain_field ''presets'',
      (plain_field ''fields'')\<lparr>fd_canonicalize := Some sortedOrNull\<rparr>]"

abbreviation key_of_update :: "json \<Rightarrow> string list" where
  "key_of_update e \<equiv> [prop_text e ''key'']"

abbreviation changes_of_update :: "json \<Rightarrow> json" where
  "changes_of_update e \<equiv> js_prop e ''changes''"

definition permission_of_create :: "json \<Rightarrow> json" where
  "permission_of_create e =
     JObj (js_spread [(''role'', js_prop e ''roleKey'')] (js_entries (js_prop e ''permission'')))"

definition permission_key_of_update :: "json \<Rightarrow> string list" where
  "permission_key_of_update e = [prop_text e ''roleKey'', prop_text e ''collection'', prop_text e ''action'']"

lemmas field_simps_defs = plain_field_def preserved_field_def field_by_name_def

interpretation roles_kind: kind_contract rolesDescriptor role_value_fields "\<lambda>e. e" key_of_update changes_of_update
proof
  show "orderedValueFields (ds_recordFields rolesDescriptor) (ds_valueFieldOrder rolesDescriptor) =
      Inr role_value_fields"
    by (simp add: rolesDescriptor_def ROLE_RECORD_FIELDS_def ROLE_VALUE_FIELD_ORDER_def field_simps_defs
        role_value_fields_def)
qed (simp_all add: rolesDescriptor_def record_key_def role_value_fields_def field_simps_defs)

interpretation folders_kind: kind_contract foldersDescriptor FOLDER_RECORD_FIELDS "\<lambda>e. e" key_of_update changes_of_update
proof
  show "orderedValueFields (ds_recordFields foldersDescriptor) (ds_valueFieldOrder foldersDescriptor) =
      Inr FOLDER_RECORD_FIELDS"
    by (simp add: foldersDescriptor_def FOLDER_RECORD_FIELDS_def FOLDER_VALUE_FIELD_ORDER_def field_simps_defs)
qed (simp_all add: foldersDescriptor_def record_key_def FOLDER_RECORD_FIELDS_def field_simps_defs)

lemma permission_of_create_prop:
  "js_prop (permission_of_create (ds_toCreateEntry permissionsDescriptor r)) f = js_prop r f"
proof (cases r)
  case (JObj es)
  then have "js_prop (permission_of_create (ds_toCreateEntry permissionsDescriptor r)) f =
      (case map_of (js_delete ''role'' es) f of
         None \<Rightarrow> js_get [(''role'', js_get es ''role'')] f | Some v \<Rightarrow> v)"
    by (simp only: permission_of_create_def permissionsDescriptor_def) (simp add: js_spread_get)
  with JObj show ?thesis by (auto simp: js_get_def split: option.splits)
qed (simp_all add: permission_of_create_def permissionsDescriptor_def js_spread_get js_delete_def)

interpretation permissions_kind: kind_contract permissionsDescriptor permission_value_fields
  permission_of_create permission_key_of_update changes_of_update
proof
  show "orderedValueFields (ds_recordFields permissionsDescriptor) (ds_valueFieldOrder permissionsDescriptor) =
      Inr permission_value_fields"
    by (simp add: permissionsDescriptor_def PERMISSION_RECORD_FIELDS_def PERMISSION_VALUE_FIELD_ORDER_def
        field_simps_defs permission_value_fields_def)
  show "record_key permissionsDescriptor (permission_of_create (ds_toCreateEntry permissionsDescriptor r)) =
      record_key permissionsDescriptor r" for r
  proof -
    have "record_key permissionsDescriptor x = [prop_text x ''role'', prop_text x ''collection'', prop_text x ''action'']" for x
      by (simp add: record_key_def permissionsDescriptor_def)
    then show ?thesis by (simp only: permission_of_create_prop)
  qed
qed (simp_all add: permission_of_create_prop permission_key_of_update_def,
     simp_all add: permissionsDescriptor_def permission_value_fields_def field_simps_defs)

section \<open>Properties\<close>

text \<open>
  C22: applying the plan computed for roles takes the stored roles to the desired ones. The stored keys
  become exactly the desired keys; every value field that the desired record states, and every field of a
  new role, becomes deeply equal to its canonical desired value; and a field whose omission preserves the
  current value keeps it.
\<close>

theorem roles_plan_reaches_desired:
  assumes "distinct (map (record_key rolesDescriptor) current)"
    and "distinct (map (record_key rolesDescriptor) desired)"
    and "computeKindPlan rolesDescriptor current desired = Inr p"
    and "st' = apply_kind_plan rolesDescriptor (\<lambda>e. e) key_of_update changes_of_update p
      (store_of rolesDescriptor current)"
  shows "dom st' = record_key rolesDescriptor ` set desired \<and>
    (\<forall>r\<in>set desired. \<forall>f\<in>set role_value_fields.
      (field_planned f r \<or> lookup_record rolesDescriptor current r = None \<longrightarrow>
         field_reached f (the (st' (record_key rolesDescriptor r))) (canonical_values rolesDescriptor r)) \<and>
      (\<forall>c. \<not> field_planned f r \<and> lookup_record rolesDescriptor current r = Some c \<longrightarrow>
         js_prop (the (st' (record_key rolesDescriptor r))) (fd_name f) =
         js_prop (canonical_values rolesDescriptor c) (fd_name f)))"
  using roles_kind.plan_reaches[OF assms(1-3)] unfolding assms(4) by blast

definition demo_role :: "string \<Rightarrow> bool \<Rightarrow> json" where
  "demo_role key admin =
     JObj [(''key'', JStr key), (''name'', JStr key), (''admin_access'', JBool admin), (''app_access'', JBool True)]"

lemma roles_plan_reaches_desired_witness:
  "dom (apply_kind_plan rolesDescriptor (\<lambda>e. e) key_of_update changes_of_update
      \<lparr>kp_create = [demo_role ''b'' False],
        kp_update = [JObj [(''key'', JStr ''a''), (''changes'', JObj [(''admin_access'',
          JObj [(''before'', JBool False), (''after'', JBool True)])])]],
        kp_delete = [JStr ''c'']\<rparr>
      (store_of rolesDescriptor [demo_role ''a'' False, demo_role ''c'' True])) = {[''a''], [''b'']}"
proof -
  have "distinct (map (record_key rolesDescriptor) [demo_role ''a'' False, demo_role ''c'' True])"
    and "distinct (map (record_key rolesDescriptor) [demo_role ''a'' True, demo_role ''b'' False])"
    and "computeKindPlan rolesDescriptor [demo_role ''a'' False, demo_role ''c'' True]
       [demo_role ''a'' True, demo_role ''b'' False] = Inr
      \<lparr>kp_create = [demo_role ''b'' False],
        kp_update = [JObj [(''key'', JStr ''a''), (''changes'', JObj [(''admin_access'',
          JObj [(''before'', JBool False), (''after'', JBool True)])])]],
        kp_delete = [JStr ''c'']\<rparr>"
    by code_simp+
  from roles_plan_reaches_desired[OF this refl] show ?thesis
    by (simp add: record_key_def rolesDescriptor_def demo_role_def)
qed

text \<open>
  Planning permissions against themselves gives the empty plan, so a second apply of the same
  configuration changes nothing: canonical values are deeply equal to themselves, whatever the order of
  their field lists and object keys.
\<close>

lemma permissions_plan_noop:
  assumes "distinct (map (record_key permissionsDescriptor) records)" and "\<forall>r\<in>set records. wf_json r"
  shows "computeKindPlan permissionsDescriptor records records = Inr emptyKindPlan"
proof (rule permissions_kind.plan_noop[OF assms(1)])
  fix r f assume r: "r \<in> set records" and f: "f \<in> set permission_value_fields"
  have part: "wf_json (js_prop r n)" for n
  proof -
    from assms(2) r have "wf_json r" by blast
    then show ?thesis by (cases r) (auto simp: js_get_def dest!: map_of_SomeD split: option.splits)
  qed
  have "wf_json v \<Longrightarrow> wf_json (sortedOrNull v)" for v by (cases v) (auto simp: sortedOrNull_def)
  with part f show "wf_json (canonical_field f r)"
    by (auto simp: permission_value_fields_def canonical_field_def plain_field_def Let_def)
qed

lemma permissions_plan_noop_witness:
  "computeKindPlan permissionsDescriptor
     [JObj [(''role'', JStr ''r''), (''collection'', JStr ''c''), (''action'', JStr ''read''),
        (''fields'', JArr [JStr ''b'', JStr ''a''])]]
     [JObj [(''role'', JStr ''r''), (''collection'', JStr ''c''), (''action'', JStr ''read''),
        (''fields'', JArr [JStr ''b'', JStr ''a''])]] = Inr emptyKindPlan"
  by (rule permissions_plan_noop) simp_all

end
