(* ===== verification/Schema_Cleanup.thy ===== *)
theory Schema_Cleanup
  imports Config_Kinds
begin

text \<open>
  \<open>api/src/utils/config/schema-cleanup.ts\<close>: what a schema plan's drops do to the rest of the current
  configuration. The cascade over paired aliases returns and computes exactly the reachable fields; the
  projected permissions mention neither a dropped table nor a dropped field.
\<close>

section \<open>The configuration\<close>

text \<open>\<open>CairnConfig\<close>: the manifest's resources and each kind's documents.\<close>

record config =
  cf_resources :: "config_kind list"
  cf_documents :: "config_kind \<Rightarrow> json list"

type_synonym field_identity = "string \<times> string"

section \<open>The cascade of field drops\<close>

text \<open>\<open>related && alias && related !== collection && alias !== field\<close>: a missing name is the empty text.\<close>

definition alias_targets :: "json list \<Rightarrow> field_identity \<Rightarrow> field_identity list" where
  "alias_targets relations cf =
     (case cf of (collection, field) \<Rightarrow>
        map (\<lambda>rel. (prop_text rel ''related_collection'', prop_text (js_prop rel ''meta'') ''one_field''))
          (filter (\<lambda>rel.
             let related = prop_text rel ''related_collection'';
                 alias = prop_text (js_prop rel ''meta'') ''one_field''
             in prop_text rel ''collection'' = collection \<and> prop_text rel ''field'' = field \<and>
                related \<noteq> [] \<and> alias \<noteq> [] \<and> related \<noteq> collection \<and> alias \<noteq> field)
             relations))"

definition dropped_of :: "(string \<times> string list) list \<Rightarrow> string \<Rightarrow> string list" where
  "dropped_of droppedFields collection =
     (case map_of droppedFields collection of None \<Rightarrow> [] | Some fs \<Rightarrow> fs)"

partial_function (option) cascade_loop ::
  "json list \<Rightarrow> (string \<times> string list) list \<Rightarrow> field_identity list \<Rightarrow> (string \<times> string list) list option"
where
  "cascade_loop relations droppedFields pending =
     (if pending = [] then Some droppedFields
      else
        (let collection = fst (last pending); field = snd (last pending); rest = butlast pending;
             fs = dropped_of droppedFields collection
         in if field \<in> set fs then cascade_loop relations droppedFields rest
            else cascade_loop relations (js_set collection (js_add field fs) droppedFields)
                   (rest @ alias_targets relations (collection, field))))"

declare cascade_loop.simps [code]

definition cascadeFieldDrops :: "field_identity list \<Rightarrow> json list \<Rightarrow> (string \<times> string list) list option" where
  "cascadeFieldDrops explicitFields relations = cascade_loop relations [] explicitFields"

section \<open>The projected configuration\<close>

definition string_list :: "json \<Rightarrow> string list" where
  "string_list v = (case v of JArr xs \<Rightarrow> map text_of xs | _ \<Rightarrow> [])"

definition withoutFields :: "json \<Rightarrow> string list option \<Rightarrow> json" where
  "withoutFields permission fs =
     (case fs of
        None \<Rightarrow> permission
      | Some dropped \<Rightarrow>
          (let own = string_list (js_prop permission ''fields'') in
           if js_prop permission ''fields'' = JNull \<or> ''*'' \<in> set own then permission
           else
             (let kept = filter (\<lambda>f. f \<notin> set dropped) own in
              if length kept = length own then permission
              else JObj (js_set ''fields'' (if kept \<noteq> [] then JArr (map JStr kept) else JNull)
                     (js_entries permission)))))"

definition withoutCollections :: "json \<Rightarrow> string list \<Rightarrow> json" where
  "withoutCollections document dropped =
     (let collections = js_prop document ''collections'' in
      if collections = JUndefined then document
      else
        (let kept = filter (\<lambda>(collection, _). collection \<notin> set dropped) (js_entries collections) in
         if length kept = length (js_entries collections) then document
         else JObj (js_set ''collections'' (JObj kept) (js_entries document))))"

fun dropped_collections :: "json list \<Rightarrow> string list" where
  "dropped_collections [] = []"
| "dropped_collections (entry # es) =
     (if prop_text entry ''changeKind'' = ''collections''
      then prop_text (js_prop entry ''identity'') ''collection'' # dropped_collections es
      else dropped_collections es)"

fun dropped_field_identities :: "json list \<Rightarrow> field_identity list" where
  "dropped_field_identities [] = []"
| "dropped_field_identities (entry # es) =
     (if prop_text entry ''changeKind'' = ''fields''
      then (prop_text (js_prop entry ''identity'') ''collection'',
            prop_text (js_prop entry ''identity'') ''field'') # dropped_field_identities es
      else dropped_field_identities es)"

definition json_list :: "json \<Rightarrow> json list" where
  "json_list v = (case v of JArr xs \<Rightarrow> xs | _ \<Rightarrow> [])"

definition remainingRelations :: "string list \<Rightarrow> json list \<Rightarrow> json list" where
  "remainingRelations dropped schema =
     filter (\<lambda>rel. prop_text rel ''collection'' \<notin> set dropped \<and>
               (js_prop rel ''related_collection'' = JNull \<or>
                prop_text rel ''related_collection'' \<notin> set dropped))
       (concat (map (\<lambda>r. json_list (js_prop r ''relations'')) schema))"

definition collectionsWithTable :: "string list \<Rightarrow> json list \<Rightarrow> string list" where
  "collectionsWithTable dropped schema =
     map (\<lambda>r. prop_text r ''collection'')
       (filter (\<lambda>r. prop_text r ''collection'' \<in> set dropped \<and> truthy (js_prop r ''schema'')) schema)"

definition clean_permission_set :: "string list \<Rightarrow> (string \<times> string list) list \<Rightarrow> json \<Rightarrow> json" where
  "clean_permission_set withTable droppedFields doc =
     JObj (js_set ''permissions''
       (JArr (map (\<lambda>p. withoutFields p (map_of droppedFields (prop_text p ''collection'')))
          (filter (\<lambda>p. prop_text p ''collection'' \<notin> set withTable) (json_list (js_prop doc ''permissions'')))))
       (js_entries doc))"

definition projectSchemaCleanup :: "config \<Rightarrow> kind_plan \<Rightarrow> config option" where
  "projectSchemaCleanup current schemaPlan =
     (let dropped = js_uniq (dropped_collections (kp_delete schemaPlan));
          explicitFields = dropped_field_identities (kp_delete schemaPlan);
          schema = cf_documents current K_schema
      in if dropped = [] \<and> explicitFields = [] then Some current
         else
           (case cascadeFieldDrops explicitFields (remainingRelations dropped schema) of
              None \<Rightarrow> None
            | Some droppedFields \<Rightarrow>
                Some (current\<lparr>cf_documents := (cf_documents current)
                  (K_permissions := map (clean_permission_set (collectionsWithTable dropped schema) droppedFields)
                     (cf_documents current K_permissions),
                   K_extension_settings := map (\<lambda>doc. withoutCollections doc dropped)
                     (cf_documents current K_extension_settings))\<rparr>)))"

section \<open>The cascade returns and is exact\<close>

definition dropped_pairs :: "(string \<times> string list) list \<Rightarrow> field_identity set" where
  "dropped_pairs m = {(c, f). f \<in> set (dropped_of m c)}"

lemma dropped_pairs_add:
  "dropped_pairs (js_set c (js_add f (dropped_of m c)) m) = insert (c, f) (dropped_pairs m)"
  by (auto simp: dropped_pairs_def dropped_of_def split: if_splits)

definition alias_universe :: "json list \<Rightarrow> field_identity list" where
  "alias_universe relations =
     map (\<lambda>rel. (prop_text rel ''related_collection'', prop_text (js_prop rel ''meta'') ''one_field'')) relations"

lemma alias_targets_universe: "set (alias_targets relations cf) \<subseteq> set (alias_universe relations)"
  by (cases cf) (auto simp: alias_targets_def alias_universe_def Let_def)

lemma cascade_total:
  fixes relations
  defines "succs \<equiv> alias_targets relations"
  shows "set pending \<subseteq> set U \<Longrightarrow> set (alias_universe relations) \<subseteq> set U \<Longrightarrow> dropped_pairs m \<subseteq> set U \<Longrightarrow>
    \<forall>y\<in>dropped_pairs m. set (succs y) \<subseteq> dropped_pairs m \<union> set pending \<Longrightarrow>
    \<exists>m'. cascade_loop relations m pending = Some m' \<and>
      dropped_pairs m \<union> set pending \<subseteq> dropped_pairs m' \<and>
      (\<forall>y\<in>dropped_pairs m'. set (succs y) \<subseteq> dropped_pairs m') \<and>
      dropped_pairs m' \<subseteq> (dep_rel succs)\<^sup>* `` (dropped_pairs m \<union> set pending)"
proof (induction "(\<Sum>u\<in>set U - dropped_pairs m. Suc (length (succs u))) + length pending"
    arbitrary: m pending rule: less_induct)
  case less
  show ?case
  proof (cases pending rule: rev_cases)
    case Nil
    with less.prems show ?thesis by (auto simp: cascade_loop.simps)
  next
    case (snoc rest cf)
    obtain c f where cf: "cf = (c, f)" by (cases cf)
    show ?thesis
    proof (cases "f \<in> set (dropped_of m c)")
      case True
      have mem: "(c, f) \<in> dropped_pairs m" using True by (simp add: dropped_pairs_def)
      have small: "(\<Sum>u\<in>set U - dropped_pairs m. Suc (length (succs u))) + length rest <
          (\<Sum>u\<in>set U - dropped_pairs m. Suc (length (succs u))) + length pending" by (simp add: snoc)
      have same: "dropped_pairs m \<union> set rest = dropped_pairs m \<union> set pending"
        using mem by (auto simp: snoc cf)
      have "set rest \<subseteq> set U" using less.prems(1) by (simp add: snoc)
      from less.hyps[OF small this less.prems(2,3)] less.prems(4)
      obtain m' where "cascade_loop relations m rest = Some m'"
        "dropped_pairs m \<union> set pending \<subseteq> dropped_pairs m'" "\<forall>y\<in>dropped_pairs m'. set (succs y) \<subseteq> dropped_pairs m'"
        "dropped_pairs m' \<subseteq> (dep_rel succs)\<^sup>* `` (dropped_pairs m \<union> set pending)"
        unfolding same by blast
      moreover from this(1) have "cascade_loop relations m pending = Some m'"
        using True by (subst cascade_loop.simps) (simp add: snoc cf)
      ultimately show ?thesis by blast
    next
      case False
      let ?m = "js_set c (js_add f (dropped_of m c)) m"
      let ?p = "rest @ succs (c, f)"
      let ?g = "\<lambda>u. Suc (length (succs u))"
      have node: "(c, f) \<in> set U - dropped_pairs m"
        using less.prems(1) False by (simp add: snoc cf dropped_pairs_def)
      have "set U - dropped_pairs ?m = set U - dropped_pairs m - {(c, f)}" by (auto simp: dropped_pairs_add)
      then have "sum ?g (set U - dropped_pairs m) = ?g (c, f) + sum ?g (set U - dropped_pairs ?m)"
        using sum.remove[OF _ node, of ?g] by simp
      then have small: "sum ?g (set U - dropped_pairs ?m) + length ?p <
          sum ?g (set U - dropped_pairs m) + length pending"
        unfolding snoc length_append list.size by linarith
      have sub: "set (succs (c, f)) \<subseteq> set (alias_universe relations)"
        unfolding succs_def by (rule alias_targets_universe)
      have "set ?p \<subseteq> set U" "dropped_pairs ?m \<subseteq> set U"
        using less.prems(1,2,3) sub node by (auto simp: snoc dropped_pairs_add)
      moreover have "\<forall>y\<in>dropped_pairs ?m. set (succs y) \<subseteq> dropped_pairs ?m \<union> set ?p"
        using less.prems(4) by (auto simp: snoc cf dropped_pairs_add)
      ultimately obtain m' where m': "cascade_loop relations ?m ?p = Some m'"
        "dropped_pairs ?m \<union> set ?p \<subseteq> dropped_pairs m'" "\<forall>y\<in>dropped_pairs m'. set (succs y) \<subseteq> dropped_pairs m'"
        "dropped_pairs m' \<subseteq> (dep_rel succs)\<^sup>* `` (dropped_pairs ?m \<union> set ?p)"
        using less.hyps[OF small] less.prems(2) by blast
      have "dropped_pairs ?m \<union> set ?p \<subseteq> (dep_rel succs)\<^sup>* `` (dropped_pairs m \<union> set pending)"
        by (auto simp: snoc cf dep_rel_def dropped_pairs_add)
      from m'(4) rtrancl_image_mono[OF this]
      have "dropped_pairs m' \<subseteq> (dep_rel succs)\<^sup>* `` (dropped_pairs m \<union> set pending)" by (rule subset_trans)
      moreover have "cascade_loop relations m pending = Some m'"
        using m'(1) False by (subst cascade_loop.simps) (simp add: Let_def snoc cf succs_def)
      moreover have "dropped_pairs m \<union> set pending \<subseteq> dropped_pairs m'"
        using m'(2) by (auto simp: snoc cf dropped_pairs_add)
      ultimately show ?thesis using m'(3) by blast
    qed
  qed
qed

lemma cascade_exact:
  "\<exists>m. cascadeFieldDrops explicitFields relations = Some m \<and>
     dropped_pairs m = (dep_rel (alias_targets relations))\<^sup>* `` set explicitFields"
proof -
  let ?R = "dep_rel (alias_targets relations)"
  have empty: "dropped_pairs [] = {}" by (simp add: dropped_pairs_def dropped_of_def)
  from cascade_total[of explicitFields "explicitFields @ alias_universe relations" relations "[]"]
  obtain m where m: "cascadeFieldDrops explicitFields relations = Some m" "set explicitFields \<subseteq> dropped_pairs m"
    "\<forall>y\<in>dropped_pairs m. set (alias_targets relations y) \<subseteq> dropped_pairs m"
    "dropped_pairs m \<subseteq> ?R\<^sup>* `` set explicitFields"
    by (auto simp: cascadeFieldDrops_def empty)
  have "(s, b) \<in> ?R\<^sup>* \<Longrightarrow> s \<in> dropped_pairs m \<Longrightarrow> b \<in> dropped_pairs m" for s b
    by (induction rule: rtrancl_induct) (use m(3) in \<open>auto simp: dep_rel_def\<close>)
  with m(2) have "?R\<^sup>* `` set explicitFields \<subseteq> dropped_pairs m" by (auto dest: subsetD)
  with m(1,4) show ?thesis by blast
qed

lemma withoutFields_collection: "prop_text (withoutFields p fs) ''collection'' = prop_text p ''collection''"
  by (cases p) (auto simp: withoutFields_def Let_def split: option.splits)

lemma withoutFields_free:
  assumes "f \<in> set (string_list (js_prop (withoutFields p (map_of m (prop_text p ''collection''))) ''fields''))"
    and "''*'' \<notin> set (string_list (js_prop (withoutFields p (map_of m (prop_text p ''collection''))) ''fields''))"
  shows "(prop_text p ''collection'', f) \<notin> dropped_pairs m"
proof (cases "map_of m (prop_text p ''collection'')")
  case None
  then show ?thesis by (simp add: dropped_pairs_def dropped_of_def)
next
  case (Some d)
  let ?own = "string_list (js_prop p ''fields'')"
  let ?kept = "filter (\<lambda>f. f \<notin> set d) ?own"
  have pairs: "(prop_text p ''collection'', f) \<in> dropped_pairs m \<longleftrightarrow> f \<in> set d"
    by (simp add: dropped_pairs_def dropped_of_def Some)
  consider (same) "withoutFields p (Some d) = p" "f \<in> set ?own" "''*'' \<notin> set ?own" "length ?kept = length ?own"
    | (kept) "f \<in> set ?kept"
  proof (cases "js_prop p ''fields'' = JNull \<or> ''*'' \<in> set ?own")
    case True
    then have "withoutFields p (Some d) = p"
      by (simp only: withoutFields_def Let_def option.case if_P[OF True] if_True)
    with assms Some True have False by (auto simp: string_list_def)
    then show ?thesis ..
  next
    case False
    show ?thesis
    proof (cases "length ?kept = length ?own")
      case True
      have "withoutFields p (Some d) = p"
        by (simp only: withoutFields_def Let_def option.case if_not_P[OF False] if_P[OF True] if_True if_False)
      with False assms Some True that(1) show ?thesis by simp
    next
      case diff: False
      have "string_list (if ?kept \<noteq> [] then JArr (map JStr ?kept) else JNull) = ?kept"
        by (simp add: string_list_def comp_def)
      moreover have "withoutFields p (Some d) =
          JObj (js_set ''fields'' (if ?kept \<noteq> [] then JArr (map JStr ?kept) else JNull) (js_entries p))"
        by (simp only: withoutFields_def Let_def option.case if_not_P[OF False] if_not_P[OF diff] if_False)
      ultimately have "string_list (js_prop (withoutFields p (Some d)) ''fields'') = ?kept"
        by (simp only: js_prop.simps js_get_set if_True refl)
      with assms(1) Some that(2) show ?thesis by simp
    qed
  qed
  then show ?thesis
  proof cases
    case same
    have "\<forall>x\<in>set ?own. x \<notin> set d"
    proof (rule ccontr)
      assume "\<not> (\<forall>x\<in>set ?own. x \<notin> set d)"
      then obtain x where "x \<in> set ?own" "\<not> x \<notin> set d" by blast
      with same(4) length_filter_less[of x ?own "\<lambda>f. f \<notin> set d"] show False by simp
    qed
    then have "?kept = ?own" by (simp only: filter_id_conv)
    with same(2) have "f \<in> set ?kept" by (simp only:)
    with pairs show ?thesis by simp
  qed (simp add: pairs)
qed

section \<open>Property\<close>

text \<open>
  C23: projecting a schema plan's drops onto the current configuration always returns. Only permissions
  and extension settings change; no remaining permission is on a dropped collection that had a table, and
  a remaining explicit field list contains no dropped field, where the dropped fields are the plan's own
  and every alias reachable from them over the remaining relations.
\<close>

theorem projectSchemaCleanup_exact:
  fixes current plan
  defines "dropped \<equiv> js_uniq (dropped_collections (kp_delete plan))"
    and "schema \<equiv> cf_documents current K_schema"
  shows "\<exists>projected. projectSchemaCleanup current plan = Some projected \<and>
    (\<forall>k. k \<noteq> K_permissions \<and> k \<noteq> K_extension_settings \<longrightarrow>
       cf_documents projected k = cf_documents current k) \<and>
    (\<forall>doc\<in>set (cf_documents projected K_permissions). \<forall>p\<in>set (json_list (js_prop doc ''permissions'')).
       prop_text p ''collection'' \<notin> set (collectionsWithTable dropped schema) \<and>
       (''*'' \<notin> set (string_list (js_prop p ''fields'')) \<longrightarrow>
          (\<forall>f\<in>set (string_list (js_prop p ''fields'')).
             (prop_text p ''collection'', f) \<notin>
               (dep_rel (alias_targets (remainingRelations dropped schema)))\<^sup>* ``
                 set (dropped_field_identities (kp_delete plan)))))"
proof (cases "dropped = [] \<and> dropped_field_identities (kp_delete plan) = []")
  case True
  then show ?thesis
    unfolding dropped_def schema_def by (simp add: projectSchemaCleanup_def collectionsWithTable_def)
next
  case False
  obtain m where m: "cascadeFieldDrops (dropped_field_identities (kp_delete plan)) (remainingRelations dropped schema) = Some m"
    and pairs: "dropped_pairs m = (dep_rel (alias_targets (remainingRelations dropped schema)))\<^sup>* ``
      set (dropped_field_identities (kp_delete plan))"
    using cascade_exact by blast
  let ?proj = "current\<lparr>cf_documents := (cf_documents current)
      (K_permissions := map (clean_permission_set (collectionsWithTable dropped schema) m) (cf_documents current K_permissions),
       K_extension_settings := map (\<lambda>doc. withoutCollections doc dropped) (cf_documents current K_extension_settings))\<rparr>"
  have proj: "projectSchemaCleanup current plan = Some ?proj"
    unfolding projectSchemaCleanup_def Let_def dropped_def[symmetric] schema_def[symmetric] if_not_P[OF False] m
    by simp
  have clean: "prop_text p ''collection'' \<notin> set (collectionsWithTable dropped schema) \<and>
      (''*'' \<notin> set (string_list (js_prop p ''fields'')) \<longrightarrow>
        (\<forall>f\<in>set (string_list (js_prop p ''fields'')). (prop_text p ''collection'', f) \<notin> dropped_pairs m))"
    if "doc \<in> set (cf_documents ?proj K_permissions)" "p \<in> set (json_list (js_prop doc ''permissions''))" for doc p
  proof -
    from that obtain q where p: "p = withoutFields q (map_of m (prop_text q ''collection''))"
      and q: "prop_text q ''collection'' \<notin> set (collectionsWithTable dropped schema)"
      by (auto simp: clean_permission_set_def json_list_def)
    show ?thesis
      using withoutFields_free[of _ q m] q unfolding p by (auto simp: withoutFields_collection)
  qed
  have others: "\<forall>k. k \<noteq> K_permissions \<and> k \<noteq> K_extension_settings \<longrightarrow>
      cf_documents ?proj k = cf_documents current k" by simp
  show ?thesis
    by (intro exI[of _ ?proj] conjI proj others ballI) (use clean in \<open>auto simp only: pairs\<close>)
qed

definition demo_config :: config where
  "demo_config = \<lparr>cf_resources = [K_schema],
     cf_documents = (\<lambda>_. [])(K_permissions :=
       [JObj [(''role'', JStr ''r''), (''permissions'', JArr
          [JObj [(''collection'', JStr ''a''), (''fields'', JArr [JStr ''x'', JStr ''y''])]])]])\<rparr>"

definition demo_drop :: kind_plan where
  "demo_drop = \<lparr>kp_create = [], kp_update = [], kp_delete = [JObj [(''changeKind'', JStr ''fields''),
     (''identity'', JObj [(''collection'', JStr ''a''), (''field'', JStr ''x'')])]]\<rparr>"

lemma projectSchemaCleanup_witness:
  "\<exists>projected. projectSchemaCleanup demo_config demo_drop = Some projected \<and>
     cf_documents projected K_roles = [] \<and>
     cf_documents projected K_permissions =
       [JObj [(''role'', JStr ''r''), (''permissions'', JArr
          [JObj [(''collection'', JStr ''a''), (''fields'', JArr [JStr ''y''])]])]]"
proof -
  from projectSchemaCleanup_exact[of demo_config demo_drop]
  obtain projected where p: "projectSchemaCleanup demo_config demo_drop = Some projected"
    and "cf_documents projected K_roles = cf_documents demo_config K_roles" by blast
  moreover have "map_option (\<lambda>c. cf_documents c K_permissions) (projectSchemaCleanup demo_config demo_drop) =
      Some [JObj [(''role'', JStr ''r''), (''permissions'', JArr
          [JObj [(''collection'', JStr ''a''), (''fields'', JArr [JStr ''y''])]])]]"
    by code_simp
  ultimately show ?thesis by (simp add: demo_config_def)
qed

end
