(* ===== verification/Config_Plan.thy ===== *)
theory Config_Plan
  imports Schema_Cleanup
begin

text \<open>
  \<open>api/src/utils/compute-config-plan.ts\<close>, \<open>admin-continuity.ts\<close> and \<open>config/plan-folds.ts\<close>: the plan of
  a whole configuration and the refusal of plans that would leave no administrator. The kinds other than
  roles, permissions and folders, and the schema planner, are parameters.
\<close>

section \<open>Administrator continuity\<close>

definition leavesAtLeastOneAdmin :: "'id list \<Rightarrow> 'id list \<Rightarrow> 'id list \<Rightarrow> bool" where
  "leavesAtLeastOneAdmin currentAdmins removing adding \<longleftrightarrow>
     adding \<noteq> [] \<or> (\<exists>a\<in>set currentAdmins. a \<notin> set removing)"

datatype role_operation = Role_update | Role_delete

datatype contributor = Contributor role_operation string

datatype config_protection = ADMIN_CONTINUITY_REQUIRED "contributor list"

text \<open>The two removal loops; \<open>Inl\<close> is the early return with the contributors so far.\<close>

fun admin_updates ::
  "json list \<Rightarrow> string list \<Rightarrow> contributor list \<Rightarrow> contributor list + string list \<times> contributor list" where
  "admin_updates [] admins removals = Inr (admins, removals)"
| "admin_updates (update # us) admins removals =
     (let change = js_prop (js_prop update ''changes'') ''admin_access''; key = prop_text update ''key'' in
      if change = JUndefined then admin_updates us admins removals
      else if js_prop change ''before'' = JBool False \<and> js_prop change ''after'' = JBool True
      then admin_updates us (js_add key admins) removals
      else if js_prop change ''before'' = JBool True \<and> js_prop change ''after'' = JBool False
      then
        (let removals' = removals @ [Contributor Role_update key] in
         if \<not> leavesAtLeastOneAdmin admins [key] [] then Inl removals'
         else admin_updates us (removeAll key admins) removals')
      else admin_updates us admins removals)"

fun admin_deletes ::
  "json list \<Rightarrow> string list \<Rightarrow> contributor list \<Rightarrow> contributor list + string list \<times> contributor list" where
  "admin_deletes [] admins removals = Inr (admins, removals)"
| "admin_deletes (entry # es) admins removals =
     (let key = text_of entry in
      if key \<notin> set admins then admin_deletes es admins removals
      else
        (let removals' = removals @ [Contributor Role_delete key] in
         if \<not> leavesAtLeastOneAdmin admins [key] [] then Inl removals'
         else admin_deletes es (removeAll key admins) removals'))"

definition admin_keys :: "json list \<Rightarrow> string list" where
  "admin_keys roles = map (\<lambda>r. prop_text r ''key'') (filter (\<lambda>r. truthy (js_prop r ''admin_access'')) roles)"

definition computeAdminContinuityProtections ::
  "config \<Rightarrow> kind_plan \<Rightarrow> config_kind list \<Rightarrow> config_protection list" where
  "computeAdminContinuityProtections current roles_plan managed =
     (if K_roles \<notin> set managed then []
      else
        (let admins = js_uniq (admin_keys (cf_documents current K_roles) @ admin_keys (kp_create roles_plan)) in
         case admin_updates (kp_update roles_plan) admins [] of
           Inl removals \<Rightarrow> [ADMIN_CONTINUITY_REQUIRED removals]
         | Inr (admins', removals) \<Rightarrow>
             (case admin_deletes (kp_delete roles_plan) admins' removals of
                Inl removals' \<Rightarrow> [ADMIN_CONTINUITY_REQUIRED removals']
              | Inr _ \<Rightarrow> [])))"

section \<open>The plan of a configuration\<close>

record config_plan =
  pl_slices :: "config_kind \<Rightarrow> kind_plan"
  pl_managedResources :: "config_kind list"
  pl_protections :: "config_protection list"

datatype plan_error =
    PlanValues values_error
  | PlanAccess access_error
  | PlanGraph "config_kind graph_error"
  | PlanLoops

text \<open>
  The registry: the kinds modelled here have their own descriptor and \<open>postPlan\<close>; the parameters give
  the others'. \<open>dependency\<close> is the accessor of the published plans.
\<close>

record registry =
  rg_descriptor :: "config_kind \<Rightarrow> descriptor"
  rg_postPlan :: "config_kind \<Rightarrow> kind_plan \<Rightarrow> (config_kind \<Rightarrow> access_error + kind_plan) \<Rightarrow> access_error + kind_plan"
  rg_computeSchemaPlan :: "json list \<Rightarrow> json list \<Rightarrow> kind_plan"

definition getDescriptor :: "registry \<Rightarrow> config_kind \<Rightarrow> descriptor" where
  "getDescriptor rg kind =
     (case kind of
        K_roles \<Rightarrow> rolesDescriptor
      | K_permissions \<Rightarrow> permissionsDescriptor
      | K_folders \<Rightarrow> foldersDescriptor
      | _ \<Rightarrow> rg_descriptor rg kind)"

definition kind_postPlan ::
  "registry \<Rightarrow> config_kind \<Rightarrow> kind_plan \<Rightarrow> (config_kind \<Rightarrow> access_error + kind_plan) \<Rightarrow> access_error + kind_plan"
where
  "kind_postPlan rg kind p dependency =
     (case kind of
        K_roles \<Rightarrow> Inr (roles_postPlan p)
      | K_permissions \<Rightarrow>
          (case dependency K_roles of Inl e \<Rightarrow> Inl e | Inr roles_plan \<Rightarrow> Inr (permissions_postPlan roles_plan p))
      | K_folders \<Rightarrow> Inr p
      | _ \<Rightarrow> rg_postPlan rg kind p dependency)"

fun plan_kinds ::
  "registry \<Rightarrow> config \<Rightarrow> config \<Rightarrow> config_kind list \<Rightarrow> kind_plan \<Rightarrow> config_kind list \<Rightarrow>
   (config_kind \<Rightarrow> kind_plan option) \<Rightarrow> plan_error + (config_kind \<Rightarrow> kind_plan option)" where
  "plan_kinds rg projected desired managed schemaPlan [] published = Inr published"
| "plan_kinds rg projected desired managed schemaPlan (kind # kinds) published =
     (if kind \<notin> set managed
      then plan_kinds rg projected desired managed schemaPlan kinds (published(kind \<mapsto> emptyKindPlan))
      else if kind = K_schema
      then plan_kinds rg projected desired managed schemaPlan kinds (published(kind \<mapsto> schemaPlan))
      else
        (let d = getDescriptor rg kind;
             currentRecords = ds_projectDocuments d (cf_documents projected kind);
             desiredRecords = ds_projectDocuments d (cf_documents desired kind)
         in case computeKindPlan d currentRecords desiredRecords of
              Inl e \<Rightarrow> Inl (PlanValues e)
            | Inr raw \<Rightarrow>
                (case kind_postPlan rg kind raw (makeDependencyAccessor (kind_dependencies kind) published) of
                   Inl e \<Rightarrow> Inl (PlanAccess e)
                 | Inr p \<Rightarrow> plan_kinds rg projected desired managed schemaPlan kinds (published(kind \<mapsto> p)))))"

definition plan_closure :: "config_kind list \<Rightarrow> plan_error + config_kind list" where
  "plan_closure managed =
     (case dependencyClosure managed kind_dependencies of
        None \<Rightarrow> Inl PlanLoops
      | Some reached \<Rightarrow> map_sum PlanGraph id (dependencyOrder reached))"

definition computeConfigPlan :: "registry \<Rightarrow> config \<Rightarrow> config \<Rightarrow> plan_error + config_plan" where
  "computeConfigPlan rg current desired =
     (let managed = js_uniq (cf_resources desired);
          schemaPlan = rg_computeSchemaPlan rg (cf_documents current K_schema) (cf_documents desired K_schema)
      in case plan_closure managed of
           Inl e \<Rightarrow> Inl e
         | Inr closure \<Rightarrow>
             (case (if K_schema \<in> set managed then projectSchemaCleanup current schemaPlan else Some current) of
                None \<Rightarrow> Inl PlanLoops
              | Some projected \<Rightarrow>
                  (case plan_kinds rg projected desired managed schemaPlan closure (\<lambda>_. None) of
                     Inl e \<Rightarrow> Inl e
                   | Inr published \<Rightarrow>
                       (let slices = (\<lambda>kind. case published kind of None \<Rightarrow> emptyKindPlan | Some p \<Rightarrow> p) in
                        Inr \<lparr>pl_slices = slices,
                             pl_managedResources = sort managed,
                             pl_protections = computeAdminContinuityProtections current (slices K_roles) managed\<rparr>))))"

section \<open>Folds over a plan\<close>

definition sliceHasChanges :: "kind_plan \<Rightarrow> bool" where
  "sliceHasChanges p \<longleftrightarrow> kp_create p \<noteq> [] \<or> kp_update p \<noteq> [] \<or> kp_delete p \<noteq> []"

definition isPlanEmpty :: "config_plan \<Rightarrow> bool" where
  "isPlanEmpty plan \<longleftrightarrow>
     (\<forall>kind\<in>set CONFIG_KINDS. kp_create (pl_slices plan kind) = [] \<and> kp_update (pl_slices plan kind) = [] \<and>
        kp_delete (pl_slices plan kind) = [])"

fun plan_totals :: "config_plan \<Rightarrow> config_kind list \<Rightarrow> nat \<times> nat \<times> nat \<Rightarrow> nat \<times> nat \<times> nat" where
  "plan_totals plan [] summary = summary"
| "plan_totals plan (kind # kinds) (c, u, d) =
     plan_totals plan kinds
       (c + length (kp_create (pl_slices plan kind)), u + length (kp_update (pl_slices plan kind)),
        d + length (kp_delete (pl_slices plan kind)))"

definition planSummary :: "config_plan \<Rightarrow> nat \<times> nat \<times> nat" where
  "planSummary plan = plan_totals plan CONFIG_KINDS (0, 0, 0)"

definition planHasDeletions :: "config_plan \<Rightarrow> bool" where
  "planHasDeletions plan \<longleftrightarrow> (\<exists>kind\<in>set CONFIG_KINDS. kp_delete (pl_slices plan kind) \<noteq> [])"

definition planDeletions :: "registry \<Rightarrow> config_plan \<Rightarrow> (config_kind \<times> json) list" where
  "planDeletions rg plan =
     concat (map (\<lambda>kind. map (\<lambda>entry. (kind, ds_identityOfDelete (getDescriptor rg kind) entry))
       (kp_delete (pl_slices plan kind))) CONFIG_KINDS)"

section \<open>The protection is exact\<close>

definition is_grant :: "json \<Rightarrow> bool" where
  "is_grant u \<longleftrightarrow> js_prop (js_prop (js_prop u ''changes'') ''admin_access'') ''before'' = JBool False \<and>
     js_prop (js_prop (js_prop u ''changes'') ''admin_access'') ''after'' = JBool True"

definition is_demotion :: "json \<Rightarrow> bool" where
  "is_demotion u \<longleftrightarrow> js_prop (js_prop (js_prop u ''changes'') ''admin_access'') ''before'' = JBool True \<and>
     js_prop (js_prop (js_prop u ''changes'') ''admin_access'') ''after'' = JBool False"

lemma grantsAdministrator_eq: "grantsAdministrator = is_grant"
  by (auto simp: grantsAdministrator_def is_grant_def Let_def fun_eq_iff)

abbreviation keys_of :: "json list \<Rightarrow> string set" where
  "keys_of us \<equiv> (\<lambda>u. prop_text u ''key'') ` set us"

lemma leavesAtLeastOneAdmin_iff: "leavesAtLeastOneAdmin A [k] [] \<longleftrightarrow> set A - {k} \<noteq> {}"
  by (auto simp: leavesAtLeastOneAdmin_def)

lemma admin_updates_step:
  "admin_updates (u # us) A rs =
     (if is_grant u then admin_updates us (js_add (prop_text u ''key'') A) rs
      else if is_demotion u
      then (if set A - {prop_text u ''key''} = {} then Inl (rs @ [Contributor Role_update (prop_text u ''key'')])
            else admin_updates us (removeAll (prop_text u ''key'') A)
                   (rs @ [Contributor Role_update (prop_text u ''key'')]))
      else admin_updates us A rs)"
  by (auto simp: is_grant_def is_demotion_def Let_def leavesAtLeastOneAdmin_iff)

declare admin_updates.simps(2) [simp del]

lemma admin_updates_grants:
  "\<forall>u\<in>set us. is_grant u \<Longrightarrow>
     \<exists>A'. (\<forall>vs. admin_updates (us @ vs) A rs = admin_updates vs A' rs) \<and> set A' = set A \<union> keys_of us"
proof (induction us arbitrary: A)
  case (Cons u us)
  then obtain A' where "\<forall>vs. admin_updates (us @ vs) (js_add (prop_text u ''key'') A) rs = admin_updates vs A' rs"
    "set A' = set (js_add (prop_text u ''key'') A) \<union> keys_of us" by fastforce
  with Cons.prems show ?case by (auto simp: admin_updates_step)
qed auto

text \<open>
  Without grants the walk only removes: if anyone is left at the end, someone was left throughout, and the
  walk is refused exactly when the end is empty.
\<close>

definition removal_result :: "'c + 'a list \<times> 'c \<Rightarrow> 'a set \<Rightarrow> bool" where
  "removal_result res S = (case res of Inl _ \<Rightarrow> S = {} | Inr (A, _) \<Rightarrow> set A = S \<and> S \<noteq> {})"

lemma admin_updates_removals:
  "\<forall>u\<in>set us. \<not> is_grant u \<Longrightarrow> set A \<noteq> {} \<Longrightarrow>
     removal_result (admin_updates us A rs) (set A - keys_of (filter is_demotion us))"
proof (induction us arbitrary: A rs)
  case (Cons u us)
  let ?k = "prop_text u ''key''"
  consider (other) "\<not> is_demotion u" | (last) "is_demotion u" "set A - {?k} = {}"
    | (more) "is_demotion u" "set (removeAll ?k A) \<noteq> {}" by (cases "is_demotion u") auto
  then show ?case
  proof cases
    case other
    with Cons show ?thesis by (simp add: admin_updates_step)
  next
    case last
    then have "set A - keys_of (filter is_demotion (u # us)) = {}" by auto
    with last Cons.prems(1) show ?thesis by (simp add: admin_updates_step removal_result_def)
  next
    case more
    have "set A - keys_of (filter is_demotion (u # us)) =
        set (removeAll ?k A) - keys_of (filter is_demotion us)" using more by auto
    with Cons.IH[OF _ more(2), of "rs @ [Contributor Role_update ?k]"] Cons.prems(1) more
    show ?thesis by (simp add: admin_updates_step)
  qed
qed (simp add: removal_result_def)

lemma admin_deletes_removals:
  "set A \<noteq> {} \<Longrightarrow> removal_result (admin_deletes es A rs) (set A - text_of ` set es)"
proof (induction es arbitrary: A rs)
  case (Cons e es)
  let ?k = "text_of e"
  consider (other) "?k \<notin> set A" | (last) "?k \<in> set A" "set A - {?k} = {}"
    | (more) "?k \<in> set A" "set (removeAll ?k A) \<noteq> {}" by (cases "?k \<in> set A") auto
  then show ?case
  proof cases
    case other
    then have "set A - text_of ` set (e # es) = set A - text_of ` set es" by auto
    with other Cons show ?thesis by (simp add: Let_def)
  next
    case last
    then have "set A - text_of ` set (e # es) = {}" by auto
    with last show ?thesis by (simp add: Let_def leavesAtLeastOneAdmin_iff removal_result_def)
  next
    case more
    have "set A - text_of ` set (e # es) = set (removeAll ?k A) - text_of ` set es" by auto
    with Cons.IH[OF more(2), of "rs @ [Contributor Role_delete ?k]"] more
    show ?thesis by (simp add: Let_def leavesAtLeastOneAdmin_iff)
  qed
qed (simp add: removal_result_def)

text \<open>The administrators an applied role plan leaves.\<close>

definition admins_after :: "string set \<Rightarrow> kind_plan \<Rightarrow> string set" where
  "admins_after A p =
     A \<union> set (admin_keys (kp_create p)) \<union> keys_of (filter is_grant (kp_update p))
       - keys_of (filter is_demotion (kp_update p)) - text_of ` set (kp_delete p)"

text \<open>
  C10: with role updates reordered as the plan has them, administrator grants first, a target that has an
  administrator gets a protection exactly when the whole plan would leave it without one. No acceptable
  plan is refused because of the order of its updates, and no plan that removes the last administrator passes.
\<close>

theorem admin_continuity_exact:
  assumes "K_roles \<in> set managed" and "admin_keys (cf_documents current K_roles) \<noteq> []"
  shows "computeAdminContinuityProtections current (roles_postPlan p) managed = [] \<longleftrightarrow>
    admins_after (set (admin_keys (cf_documents current K_roles))) p \<noteq> {}"
proof -
  let ?A = "js_uniq (admin_keys (cf_documents current K_roles) @ admin_keys (kp_create p))"
  let ?grants = "filter is_grant (kp_update p)" and ?rest = "filter (\<lambda>u. \<not> is_grant u) (kp_update p)"
  obtain A' where A': "\<forall>vs. admin_updates (?grants @ vs) ?A [] = admin_updates vs A' []"
    "set A' = set ?A \<union> keys_of ?grants"
    using admin_updates_grants[of ?grants ?A "[]"] by auto
  have order: "kp_update (roles_postPlan p) = ?grants @ ?rest"
    by (simp add: roles_postPlan_def administratorGrantsFirst_def grantsAdministrator_eq)
  have demoted: "filter is_demotion ?rest = filter is_demotion (kp_update p)"
    by (auto simp: is_grant_def is_demotion_def intro: filter_cong)
  have some: "set A' \<noteq> {}" using A'(2) assms(2) by auto
  have "\<forall>u\<in>set ?rest. \<not> is_grant u" by simp
  from admin_updates_removals[OF this some, of "[]"] have ups: "removal_result (admin_updates ?rest A' []) (set A' - keys_of (filter is_demotion (kp_update p)))"
    unfolding demoted .
  have final: "admins_after (set (admin_keys (cf_documents current K_roles))) p =
      set A' - keys_of (filter is_demotion (kp_update p)) - text_of ` set (kp_delete p)"
    using A'(2) by (auto simp: admins_after_def)
  have parts: "kp_create (roles_postPlan p) = kp_create p" "kp_delete (roles_postPlan p) = kp_delete p"
    by (simp_all add: roles_postPlan_def)
  have run: "computeAdminContinuityProtections current (roles_postPlan p) managed =
      (case admin_updates ?rest A' [] of
         Inl removals \<Rightarrow> [ADMIN_CONTINUITY_REQUIRED removals]
       | Inr (admins', removals) \<Rightarrow>
           (case admin_deletes (kp_delete p) admins' removals of
              Inl removals' \<Rightarrow> [ADMIN_CONTINUITY_REQUIRED removals'] | Inr _ \<Rightarrow> []))"
    unfolding computeAdminContinuityProtections_def parts order using assms(1) by (simp add: A'(1) Let_def)
  show ?thesis
  proof (cases "admin_updates ?rest A' []")
    case (Inl r)
    with ups have none: "set A' - keys_of (filter is_demotion (kp_update p)) = {}"
      by (simp only: removal_result_def sum.case)
    show ?thesis unfolding run final none Inl by simp
  next
    case (Inr q)
    obtain B r where q: "q = (B, r)" by (cases q)
    with ups Inr have B: "set B = set A' - keys_of (filter is_demotion (kp_update p))" "set B \<noteq> {}"
      unfolding removal_result_def by simp_all
    from admin_deletes_removals[OF B(2), of "kp_delete p" r]
    have "removal_result (admin_deletes (kp_delete p) B r)
        (admins_after (set (admin_keys (cf_documents current K_roles))) p)"
      unfolding final B(1) .
    with Inr q show ?thesis unfolding run by (auto simp: removal_result_def split: sum.splits)
  qed
qed

definition demo_roles :: config where
  "demo_roles = \<lparr>cf_resources = [K_roles], cf_documents = (\<lambda>_. [])(K_roles := [demo_role ''a'' True])\<rparr>"

lemma admin_continuity_exact_witness:
  "computeAdminContinuityProtections demo_roles
     (roles_postPlan \<lparr>kp_create = [], kp_update = [], kp_delete = [JStr ''a'']\<rparr>) [K_roles] \<noteq> [] \<and>
   computeAdminContinuityProtections demo_roles
     (roles_postPlan \<lparr>kp_create = [demo_role ''b'' True], kp_update = [], kp_delete = [JStr ''a'']\<rparr>) [K_roles] = []"
proof -
  have a: "admin_keys (cf_documents demo_roles K_roles) = [''a'']" by code_simp
  have gone: "admins_after (set [''a'']) \<lparr>kp_create = [], kp_update = [], kp_delete = [JStr ''a'']\<rparr> = {}"
    and stay: "admins_after (set [''a'']) \<lparr>kp_create = [demo_role ''b'' True], kp_update = [], kp_delete = [JStr ''a'']\<rparr> \<noteq> {}"
    by (simp_all add: admins_after_def admin_keys_def demo_role_def)
  show ?thesis
    using admin_continuity_exact[of "[K_roles]" demo_roles
        "\<lparr>kp_create = [], kp_update = [], kp_delete = [JStr ''a'']\<rparr>"]
      admin_continuity_exact[of "[K_roles]" demo_roles
        "\<lparr>kp_create = [demo_role ''b'' True], kp_update = [], kp_delete = [JStr ''a'']\<rparr>"]
    unfolding a using gone stay by simp
qed

section \<open>The plan of a configuration\<close>

lemma plan_kinds_other:
  "plan_kinds rg pr de ma sp kinds pub = Inr pub' \<Longrightarrow> k \<notin> set kinds \<Longrightarrow> pub' k = pub k"
  by (induction kinds arbitrary: pub) (auto simp: Let_def split: if_splits sum.splits)

lemma plan_kinds_unmanaged:
  "plan_kinds rg pr de ma sp kinds pub = Inr pub' \<Longrightarrow> k \<in> set kinds \<Longrightarrow> k \<notin> set ma \<Longrightarrow>
     distinct kinds \<Longrightarrow> pub' k = Some emptyKindPlan"
proof (induction kinds arbitrary: pub)
  case (Cons j kinds)
  show ?case
  proof (cases "j = k")
    case True
    with Cons.prems plan_kinds_other[of rg pr de ma sp kinds "pub(k \<mapsto> emptyKindPlan)" pub' k]
    show ?thesis by simp
  next
    case False
    with Cons.prems obtain q where "plan_kinds rg pr de ma sp kinds q = Inr pub'"
      by (auto simp: Let_def split: if_splits sum.splits)
    with Cons.IH Cons.prems False show ?thesis by auto
  qed
qed simp

text \<open>Each managed kind's plan, with the published plans it was computed from.\<close>

lemma plan_kinds_managed:
  "plan_kinds rg pr de ma sp (xs @ k # ys) pub = Inr pub' \<Longrightarrow> k \<in> set ma \<Longrightarrow> k \<noteq> K_schema \<Longrightarrow>
     k \<notin> set ys \<Longrightarrow>
     \<exists>raw p q. computeKindPlan (getDescriptor rg k) (ds_projectDocuments (getDescriptor rg k) (cf_documents pr k))
         (ds_projectDocuments (getDescriptor rg k) (cf_documents de k)) = Inr raw \<and>
       kind_postPlan rg k raw (makeDependencyAccessor (kind_dependencies k) q) = Inr p \<and>
       pub' k = Some p \<and> (\<forall>j. j \<notin> set (k # ys) \<longrightarrow> pub' j = q j)"
proof (induction xs arbitrary: pub)
  case Nil
  then obtain raw p where raw: "computeKindPlan (getDescriptor rg k)
        (ds_projectDocuments (getDescriptor rg k) (cf_documents pr k))
        (ds_projectDocuments (getDescriptor rg k) (cf_documents de k)) = Inr raw"
    and p: "kind_postPlan rg k raw (makeDependencyAccessor (kind_dependencies k) pub) = Inr p"
    and rest: "plan_kinds rg pr de ma sp ys (pub(k \<mapsto> p)) = Inr pub'"
    by (auto simp: Let_def split: if_splits sum.splits)
  from plan_kinds_other[OF rest] Nil.prems(4) have "pub' k = Some p" by simp
  moreover from plan_kinds_other[OF rest] have "\<forall>j. j \<notin> set (k # ys) \<longrightarrow> pub' j = pub j" by simp
  ultimately show ?case using raw p by blast
next
  case (Cons x xs)
  then obtain q where "plan_kinds rg pr de ma sp (xs @ k # ys) q = Inr pub'"
    by (auto simp: Let_def split: if_splits sum.splits)
  with Cons.IH Cons.prems show ?case by blast
qed

lemma plan_kinds_access:
  assumes "\<forall>k raw dep. \<forall>e. rg_postPlan rg k raw dep \<noteq> Inl e"
  shows "plan_kinds rg pr de ma sp kinds pub = Inl (PlanAccess e) \<Longrightarrow>
    \<forall>ys zs. kinds = ys @ K_permissions # zs \<longrightarrow> K_roles \<in> set ys \<or> pub K_roles \<noteq> None \<Longrightarrow> False"
proof (induction kinds arbitrary: pub)
  case (Cons k kinds)
  have later: "\<forall>ys zs. kinds = ys @ K_permissions # zs \<longrightarrow>
      K_roles \<in> set ys \<or> (pub(k \<mapsto> v)) K_roles \<noteq> None" for v
  proof (intro allI impI)
    fix ys zs assume "kinds = ys @ K_permissions # zs"
    then have "k # kinds = (k # ys) @ K_permissions # zs" by simp
    with Cons.prems(2) have "K_roles \<in> set (k # ys) \<or> pub K_roles \<noteq> None" by blast
    then show "K_roles \<in> set ys \<or> (pub(k \<mapsto> v)) K_roles \<noteq> None" by auto
  qed
  have ok: "kind_postPlan rg k raw (makeDependencyAccessor (kind_dependencies k) pub) \<noteq> Inl e" for raw e
  proof (cases "k = K_permissions")
    case True
    with Cons.prems(2) have "pub K_roles \<noteq> None" by (metis append_Nil list.set(1) empty_iff)
    with True show ?thesis by (auto simp: kind_postPlan_def makeDependencyAccessor_def)
  next
    case False
    then show ?thesis using assms by (cases k) (auto simp: kind_postPlan_def)
  qed
  have "plan_kinds rg pr de ma sp kinds (pub(k \<mapsto> v)) \<noteq> Inl (PlanAccess e)" for v
    using Cons.IH[of "pub(k \<mapsto> v)"] later[of v] by blast
  with Cons.prems(1) ok show ?case
    by (auto simp: Let_def split: if_splits sum.splits)
qed simp

lemma plan_closure_eq:
  "\<exists>closure. plan_closure managed = Inr closure \<and> distinct closure \<and> set managed \<subseteq> set closure \<and>
     (K_permissions \<in> set managed \<longrightarrow> K_roles \<in> set closure) \<and> closure = filter (\<lambda>k. k \<in> set closure) CONFIG_KINDS"
proof -
  let ?E = "{(x, y). y \<in> set (kind_dependencies x)}"
  obtain ys where ys: "dependencyClosure managed kind_dependencies = Some ys"
    "set ys = {b. \<exists>s\<in>set managed. (s, b) \<in> ?E\<^sup>*}" using kind_closure by blast
  have "(K_permissions, K_roles) \<in> ?E" by simp
  then have "K_permissions \<in> set managed \<longrightarrow> K_roles \<in> set ys" using ys(2) by blast
  moreover have "set managed \<subseteq> set ys" using ys(2) by auto
  moreover have "distinct CONFIG_KINDS" by (simp add: CONFIG_KINDS_def)
  ultimately show ?thesis using ys(1)
    by (auto simp: plan_closure_def dependencyOrder_eq intro!: filter_cong)
qed

lemma makeDependencyAccessor_Inr:
  "makeDependencyAccessor ds q k = Inr p \<longleftrightarrow> k \<in> set ds \<and> q k = Some p"
  by (auto simp: makeDependencyAccessor_def split: option.splits)

text \<open>
  A computed plan is the kinds' plans put together. The slice of an unmanaged kind is empty. The
  slices of managed roles and folders are what their own planner gives on the projected and desired records,
  roles with administrator grants first. A permission deletion is in the plan exactly when the permissions planner
  asks for it and its role is not deleted by the same plan. The managed kinds are listed in order of their names.
\<close>

lemma computeConfigPlan_slices:
  assumes "computeConfigPlan rg current desired = Inr plan"
  shows "(\<forall>k. k \<notin> set (cf_resources desired) \<longrightarrow> pl_slices plan k = emptyKindPlan) \<and>
    sorted (pl_managedResources plan) \<and> set (pl_managedResources plan) = set (cf_resources desired) \<and>
    (\<exists>projected.
      (K_schema \<notin> set (cf_resources desired) \<longrightarrow> projected = current) \<and>
      (K_roles \<in> set (cf_resources desired) \<longrightarrow>
        (\<exists>raw. computeKindPlan rolesDescriptor (cf_documents projected K_roles) (cf_documents desired K_roles) = Inr raw \<and>
          pl_slices plan K_roles = roles_postPlan raw)) \<and>
      (K_folders \<in> set (cf_resources desired) \<longrightarrow>
         computeKindPlan foldersDescriptor (cf_documents projected K_folders) (cf_documents desired K_folders) =
           Inr (pl_slices plan K_folders)) \<and>
      (K_permissions \<in> set (cf_resources desired) \<longrightarrow>
        (\<exists>raw. computeKindPlan permissionsDescriptor
             (concat (map permission_records (cf_documents projected K_permissions)))
             (concat (map permission_records (cf_documents desired K_permissions))) = Inr raw \<and>
           pl_slices plan K_permissions = raw\<lparr>kp_delete :=
             filter (\<lambda>e. prop_text e ''roleKey'' \<notin> text_of ` set (kp_delete (pl_slices plan K_roles)))
               (kp_delete raw)\<rparr>)))"
proof -
  let ?ma = "js_uniq (cf_resources desired)"
  let ?sp = "rg_computeSchemaPlan rg (cf_documents current K_schema) (cf_documents desired K_schema)"
  obtain closure where cl: "plan_closure ?ma = Inr closure" "distinct closure" "set ?ma \<subseteq> set closure"
    and roles: "K_permissions \<in> set ?ma \<longrightarrow> K_roles \<in> set closure"
    and order: "closure = filter (\<lambda>k. k \<in> set closure) CONFIG_KINDS"
    using plan_closure_eq[of ?ma] by blast
  from assms cl(1) obtain pr pub
    where pr: "(if K_schema \<in> set ?ma then projectSchemaCleanup current ?sp else Some current) = Some pr"
      and pub: "plan_kinds rg pr desired ?ma ?sp closure (\<lambda>_. None) = Inr pub"
      and slices: "pl_slices plan = (\<lambda>kind. case pub kind of None \<Rightarrow> emptyKindPlan | Some p \<Rightarrow> p)"
      and managed: "pl_managedResources plan = sort ?ma"
    by (auto simp: computeConfigPlan_def Let_def split: sum.splits option.splits)
  have unmanaged: "pl_slices plan k = emptyKindPlan" if "k \<notin> set (cf_resources desired)" for k
    using that plan_kinds_unmanaged[OF pub, of k] plan_kinds_other[OF pub, of k] cl(2)
    by (cases "k \<in> set closure") (simp_all add: slices)
  have at: "\<exists>raw p q. computeKindPlan (getDescriptor rg k) (ds_projectDocuments (getDescriptor rg k) (cf_documents pr k))
         (ds_projectDocuments (getDescriptor rg k) (cf_documents desired k)) = Inr raw \<and>
       kind_postPlan rg k raw (makeDependencyAccessor (kind_dependencies k) q) = Inr p \<and>
       pub k = Some p \<and> (k = K_permissions \<longrightarrow> pub K_roles = q K_roles)"
    if k: "k \<in> set (cf_resources desired)" "k \<noteq> K_schema" for k
  proof -
    from k cl(3) have "k \<in> set closure" by auto
    then obtain xs ys where split: "closure = xs @ k # ys" by (auto dest: split_list)
    have "K_roles \<notin> set (k # ys)" if "k = K_permissions"
    proof -
      obtain rest where "CONFIG_KINDS = K_roles # rest" by (simp add: CONFIG_KINDS_def)
      moreover have "K_roles \<in> set closure" using roles k(1) that by simp
      ultimately have "closure = K_roles # filter (\<lambda>k. k \<in> set closure) rest"
        using order by (metis (no_types, lifting) filter.simps(2))
      with split that cl(2) show ?thesis by (cases xs) auto
    qed
    moreover have "k \<notin> set ys" using cl(2) split by simp
    ultimately show ?thesis using plan_kinds_managed[OF pub[unfolded split], of] k by fastforce
  qed
  have "K_roles \<in> set (cf_resources desired) \<longrightarrow>
      (\<exists>raw. computeKindPlan rolesDescriptor (cf_documents pr K_roles) (cf_documents desired K_roles) = Inr raw \<and>
        pl_slices plan K_roles = roles_postPlan raw)"
    using at[of K_roles] by (auto simp: getDescriptor_def kind_postPlan_def slices rolesDescriptor_def)
  moreover have "K_folders \<in> set (cf_resources desired) \<longrightarrow>
      computeKindPlan foldersDescriptor (cf_documents pr K_folders) (cf_documents desired K_folders) =
        Inr (pl_slices plan K_folders)"
    using at[of K_folders] by (auto simp: getDescriptor_def kind_postPlan_def slices foldersDescriptor_def)
  moreover have "K_permissions \<in> set (cf_resources desired) \<longrightarrow>
      (\<exists>raw. computeKindPlan permissionsDescriptor
           (concat (map permission_records (cf_documents pr K_permissions)))
           (concat (map permission_records (cf_documents desired K_permissions))) = Inr raw \<and>
         pl_slices plan K_permissions = raw\<lparr>kp_delete :=
           filter (\<lambda>e. prop_text e ''roleKey'' \<notin> text_of ` set (kp_delete (pl_slices plan K_roles))) (kp_delete raw)\<rparr>)"
  proof
    assume "K_permissions \<in> set (cf_resources desired)"
    from at[OF this] obtain raw p q where raw: "computeKindPlan permissionsDescriptor
        (concat (map permission_records (cf_documents pr K_permissions)))
        (concat (map permission_records (cf_documents desired K_permissions))) = Inr raw"
      and p: "kind_postPlan rg K_permissions raw (makeDependencyAccessor [K_roles] q) = Inr p"
      and pp: "pub K_permissions = Some p" "pub K_roles = q K_roles"
      by (auto simp: getDescriptor_def permissionsDescriptor_def)
    from p obtain rp where rp: "q K_roles = Some rp" "p = permissions_postPlan rp raw"
      by (auto simp: kind_postPlan_def makeDependencyAccessor_Inr split: sum.splits)
    with pp raw show "\<exists>raw. computeKindPlan permissionsDescriptor
           (concat (map permission_records (cf_documents pr K_permissions)))
           (concat (map permission_records (cf_documents desired K_permissions))) = Inr raw \<and>
         pl_slices plan K_permissions = raw\<lparr>kp_delete :=
           filter (\<lambda>e. prop_text e ''roleKey'' \<notin> text_of ` set (kp_delete (pl_slices plan K_roles))) (kp_delete raw)\<rparr>"
      by (auto simp: slices permissions_postPlan_def)
  qed
  moreover have "K_schema \<notin> set (cf_resources desired) \<longrightarrow> pr = current" using pr by auto
  ultimately show ?thesis using unmanaged by (auto simp: managed)
qed

definition demo_registry :: registry where
  "demo_registry = \<lparr>rg_descriptor = (\<lambda>_. rolesDescriptor), rg_postPlan = (\<lambda>_ p _. Inr p),
     rg_computeSchemaPlan = (\<lambda>_ _. emptyKindPlan)\<rparr>"

definition demo_permission_set :: json where
  "demo_permission_set = JObj [(''role'', JStr ''a''), (''permissions'', JArr
     [JObj [(''collection'', JStr ''c''), (''action'', JStr ''read''), (''fields'', JNull)]])]"

definition demo_current :: config where
  "demo_current = \<lparr>cf_resources = [K_permissions, K_roles],
     cf_documents = (\<lambda>_. [])(K_roles := [demo_role ''a'' False, demo_role ''b'' True],
       K_permissions := [demo_permission_set])\<rparr>"

definition demo_desired :: config where
  "demo_desired = \<lparr>cf_resources = [K_roles, K_permissions],
     cf_documents = (\<lambda>_. [])(K_roles := [demo_role ''b'' True])\<rparr>"

lemma computeConfigPlan_slices_witness:
  "\<exists>plan. computeConfigPlan demo_registry demo_current demo_desired = Inr plan \<and>
     pl_slices plan K_folders = emptyKindPlan \<and> set (pl_managedResources plan) = {K_roles, K_permissions}"
proof -
  have "case computeConfigPlan demo_registry demo_current demo_desired of Inl _ \<Rightarrow> False | Inr _ \<Rightarrow> True"
    by code_simp
  then obtain plan where plan: "computeConfigPlan demo_registry demo_current demo_desired = Inr plan"
    by (auto split: sum.splits)
  have "set (cf_resources demo_desired) = {K_roles, K_permissions}" by (simp add: demo_desired_def)
  with computeConfigPlan_slices[OF plan] plan show ?thesis by auto
qed

end
