(* ===== verification/Config_Apply.thy ===== *)
theory Config_Apply
  imports Config_Plan
begin

text \<open>
  \<open>api/src/utils/apply-engine.ts\<close> with \<open>database/serialization-error.ts\<close> and the part of
  \<open>database/bound-transaction.ts\<close> it rests on: a plan is applied in one serializable transaction, creates
  and updates in dependency order and deletes in the reverse order, and every failure before the commit
  leaves the database as it was. The database, the kinds' handlers, the commit, the cache and the emitter
  are parameters.
\<close>

section \<open>Thrown values\<close>

text \<open>
  A thrown \<open>BaseException\<close> with its code and extensions, any other thrown value with its properties, or
  a thrown list of values.
\<close>

datatype thrown =
    BaseException string json_object
  | Other json
  | ErrorList "thrown list"

fun thrown_property :: "thrown \<Rightarrow> string \<Rightarrow> json" where
  "thrown_property (BaseException code extensions) name =
     (if name = ''code'' then JStr code
      else if name = ''extensions'' then JObj extensions else JUndefined)"
| "thrown_property (Other v) name = js_prop v name"
| "thrown_property (ErrorList es) name = JUndefined"

definition isSerializationConflict :: "thrown \<Rightarrow> bool" where
  "isSerializationConflict err =
     (let string_or_undefined = (\<lambda>v. case v of JStr s \<Rightarrow> Some s | _ \<Rightarrow> None);
          sqlState = (case string_or_undefined (thrown_property err ''sqlState'') of
                        Some s \<Rightarrow> Some s
                      | None \<Rightarrow> string_or_undefined (thrown_property err ''code''))
      in sqlState = Some ''40001'' \<or> sqlState = Some ''40P01'' \<or> thrown_property err ''errno'' = JInt 1213)"

abbreviation "ConfigApplyFailedException \<equiv> BaseException ''CONFIG_APPLY_FAILED'' []"
abbreviation "ConfigApplyScopeMismatchException \<equiv> BaseException ''CONFIG_APPLY_SCOPE_MISMATCH'' []"
abbreviation "ConfigStateChangedException \<equiv> BaseException ''CONFIG_STATE_CHANGED'' []"
abbreviation "ConfigProtectedRecordException ext \<equiv> BaseException ''CONFIG_PROTECTED_RECORD'' ext"
abbreviation "DestructiveChangesRequiredException ext \<equiv> BaseException ''DESTRUCTIVE_CHANGES_REQUIRED'' ext"

definition ConfigPostCommitFailedException :: "string \<Rightarrow> thrown" where
  "ConfigPostCommitFailedException phase =
     BaseException ''CONFIG_POST_COMMIT_FAILED'' [(''committed'', JBool True), (''phase'', JStr phase)]"

section \<open>Guards\<close>

record state_token =
  st_resources :: "config_kind list"
  st_digest :: string
  st_extensionSubjects :: "string list option"

definition sameResourceSet :: "config_kind list \<Rightarrow> config_kind list \<Rightarrow> bool" where
  "sameResourceSet a b \<longleftrightarrow>
     (let setA = js_uniq a; setB = js_uniq b in
      \<not> (length setA \<noteq> length a \<or> length setB \<noteq> length b) \<and>
      length setA = length setB \<and> (\<forall>kind\<in>set setA. kind \<in> set setB))"

definition entry_subject :: "json \<Rightarrow> string" where
  "entry_subject entry = prop_text (js_prop entry ''identity'') ''subject''"

definition assertExtensionScopeBound :: "config_plan \<Rightarrow> state_token \<Rightarrow> thrown option" where
  "assertExtensionScopeBound plan expected =
     (let slice = pl_slices plan K_extension_settings;
          planSubjects = js_uniq (map entry_subject (kp_create slice @ kp_update slice @ kp_delete slice))
      in if planSubjects = [] then None
         else (case st_extensionSubjects expected of
                 None \<Rightarrow> Some ConfigApplyScopeMismatchException
               | Some scope \<Rightarrow>
                   if \<exists>subject\<in>set planSubjects. subject \<notin> set scope
                   then Some ConfigApplyScopeMismatchException else None))"

definition sliceActive :: "kind_plan \<Rightarrow> bool" where
  "sliceActive slice \<longleftrightarrow> kp_create slice \<noteq> [] \<or> kp_update slice \<noteq> [] \<or> kp_delete slice \<noteq> []"

definition postCommitPhase :: "bool \<Rightarrow> bool \<Rightarrow> string" where
  "postCommitPhase cacheFailed actionFailed =
     (if cacheFailed \<and> actionFailed then ''cache_and_actions''
      else if cacheFailed then ''cache'' else ''actions'')"

section \<open>The transaction body\<close>

text \<open>
  The state inside the transaction is the database with the action events recorded so far. A handler
  gets its entries and the accessor of published dependency states.
\<close>

datatype phase = P_creates | P_updates | P_deletes

type_synonym 'db trx = "'db \<times> json list"

type_synonym accessor = "config_kind \<Rightarrow> access_error + json"

record 'db services =
  sv_readDigest :: "'db \<Rightarrow> config_kind list \<Rightarrow> string list option \<Rightarrow> thrown + string"
  sv_apply :: "phase \<Rightarrow> config_kind \<Rightarrow> json list \<Rightarrow> accessor \<Rightarrow> 'db trx \<Rightarrow> thrown + 'db trx \<times> json"
  sv_dependencyState :: "config_kind \<Rightarrow> accessor \<Rightarrow> 'db trx \<Rightarrow> thrown + json"
  sv_emptyResult :: "config_kind \<Rightarrow> json"
  sv_mergeOutcome :: "config_kind \<Rightarrow> json \<Rightarrow> json \<Rightarrow> json"
  sv_commit :: "'db \<Rightarrow> thrown option"
  sv_flushCachesFails :: bool
  sv_emitFails :: "json \<Rightarrow> bool"

record apply_state =
  as_slices :: "config_kind \<Rightarrow> json option"
  as_published :: "config_kind \<Rightarrow> json option"

definition assertStateUnchanged :: "'db services \<Rightarrow> 'db \<Rightarrow> state_token \<Rightarrow> thrown option" where
  "assertStateUnchanged sv db expected =
     (case sv_readDigest sv db (st_resources expected) (st_extensionSubjects expected) of
        Inl (BaseException code ext) \<Rightarrow>
          Some (if code = ''CONFIG_READ_FAILED'' then ConfigStateChangedException else BaseException code ext)
      | Inl err \<Rightarrow> Some err
      | Inr digest \<Rightarrow> if digest \<noteq> st_digest expected then Some ConfigStateChangedException else None)"

definition run_phase :: "'db services \<Rightarrow> phase \<Rightarrow> config_kind \<Rightarrow> json list \<Rightarrow> 'db trx \<Rightarrow> apply_state \<Rightarrow>
    thrown + 'db trx \<times> apply_state" where
  "run_phase sv ph kind entries t s =
     (if entries = [] then Inr (t, s)
      else
        (case sv_apply sv ph kind entries (makeDependencyAccessor (kind_dependencies kind) (as_published s)) t of
           Inl err \<Rightarrow> Inl err
         | Inr (t', outcome) \<Rightarrow>
             (let slice = (case as_slices s kind of Some v \<Rightarrow> v | None \<Rightarrow> JUndefined) in
              Inr (t', s\<lparr>as_slices := (as_slices s)(kind \<mapsto> sv_mergeOutcome sv kind slice outcome)\<rparr>))))"

fun forward_loop :: "'db services \<Rightarrow> config_plan \<Rightarrow> config_kind list \<Rightarrow> config_kind list \<Rightarrow> 'db trx \<Rightarrow>
    apply_state \<Rightarrow> thrown + 'db trx \<times> apply_state" where
  "forward_loop sv plan active [] t s = Inr (t, s)"
| "forward_loop sv plan active (kind # kinds) t s =
     (case (if kind \<in> set active
            then (case run_phase sv P_creates kind (kp_create (pl_slices plan kind)) t s of
                    Inl err \<Rightarrow> Inl err
                  | Inr (t1, s1) \<Rightarrow> run_phase sv P_updates kind (kp_update (pl_slices plan kind)) t1 s1)
            else Inr (t, s)) of
        Inl err \<Rightarrow> Inl err
      | Inr (t2, s2) \<Rightarrow>
          (case sv_dependencyState sv kind
                  (makeDependencyAccessor (kind_dependencies kind) (as_published s2)) t2 of
             Inl err \<Rightarrow> Inl err
           | Inr state \<Rightarrow>
               forward_loop sv plan active kinds t2
                 (s2\<lparr>as_published := (as_published s2)(kind \<mapsto> state)\<rparr>)))"

fun delete_loop :: "'db services \<Rightarrow> config_plan \<Rightarrow> config_kind list \<Rightarrow> config_kind list \<Rightarrow> 'db trx \<Rightarrow>
    apply_state \<Rightarrow> thrown + 'db trx \<times> apply_state" where
  "delete_loop sv plan active [] t s = Inr (t, s)"
| "delete_loop sv plan active (kind # kinds) t s =
     (case (if kind \<in> set active then run_phase sv P_deletes kind (kp_delete (pl_slices plan kind)) t s
            else Inr (t, s)) of
        Inl err \<Rightarrow> Inl err
      | Inr (t', s') \<Rightarrow> delete_loop sv plan active kinds t' s')"

definition graph_thrown :: thrown where
  "graph_thrown = Other (JObj [])"

definition apply_body :: "'db services \<Rightarrow> config_plan \<Rightarrow> state_token \<Rightarrow> config_kind list \<Rightarrow>
    config_kind list \<Rightarrow> config_kind list \<Rightarrow> 'db trx \<Rightarrow> thrown + 'db trx \<times> apply_state" where
  "apply_body sv plan expected active closure reverseClosure t =
     (case assertStateUnchanged sv (fst t) expected of
        Some err \<Rightarrow> Inl err
      | None \<Rightarrow>
          (case forward_loop sv plan active closure t
                  \<lparr>as_slices = (\<lambda>k. if k \<in> set active then Some (sv_emptyResult sv k) else None),
                   as_published = (\<lambda>_. None)\<rparr> of
             Inl err \<Rightarrow> Inl err
           | Inr (t1, s1) \<Rightarrow> delete_loop sv plan active reverseClosure t1 s1))"

section \<open>The transaction and the whole apply\<close>

text \<open>
  What an apply does to the world: the database afterwards, the action events it delivered, and the
  result or the thrown error. A transaction that throws, or whose commit fails, leaves the database alone.
\<close>

record 'db outcome =
  oc_db :: 'db
  oc_emitted :: "json list"
  oc_result :: "thrown + (config_kind \<Rightarrow> json)"

definition assembleResult :: "'db services \<Rightarrow> (config_kind \<Rightarrow> json option) \<Rightarrow> config_kind \<Rightarrow> json" where
  "assembleResult sv slices kind = (case slices kind of Some v \<Rightarrow> v | None \<Rightarrow> sv_emptyResult sv kind)"

text \<open>Events are emitted in order until one fails.\<close>

fun emit_events :: "('e \<Rightarrow> bool) \<Rightarrow> 'e list \<Rightarrow> 'e list \<times> bool" where
  "emit_events fails [] = ([], False)"
| "emit_events fails (e # es) =
     (if fails e then ([], True)
      else (case emit_events fails es of (sent, failed) \<Rightarrow> (e # sent, failed)))"

definition flush :: "'db services \<Rightarrow> json list \<Rightarrow> json list \<times> thrown option" where
  "flush sv events =
     (case emit_events (sv_emitFails sv) events of
        (sent, actionFailed) \<Rightarrow>
          (sent, if sv_flushCachesFails sv \<or> actionFailed
                 then Some (ConfigPostCommitFailedException (postCommitPhase (sv_flushCachesFails sv) actionFailed))
                 else None))"

definition rethrow :: "thrown \<Rightarrow> thrown" where
  "rethrow err =
     (if isSerializationConflict err then ConfigStateChangedException
      else (case err of BaseException code ext \<Rightarrow> BaseException code ext | _ \<Rightarrow> ConfigApplyFailedException))"

definition applyConfigPlan :: "'db services \<Rightarrow> registry \<Rightarrow> config_plan \<Rightarrow> state_token \<Rightarrow> bool \<Rightarrow> 'db \<Rightarrow> 'db outcome" where
  "applyConfigPlan sv rg plan expected destructive db =
     (let stop = (\<lambda>err. \<lparr>oc_db = db, oc_emitted = [], oc_result = Inl err\<rparr>);
          active = filter (\<lambda>kind. sliceActive (pl_slices plan kind)) CONFIG_KINDS
      in if \<not> sameResourceSet (pl_managedResources plan) (st_resources expected)
         then stop ConfigApplyScopeMismatchException
         else
           (case assertExtensionScopeBound plan expected of
              Some err \<Rightarrow> stop err
            | None \<Rightarrow>
                (case pl_protections plan of
                   ADMIN_CONTINUITY_REQUIRED contributors # _ \<Rightarrow>
                     stop (ConfigProtectedRecordException
                       [(''protection'', JObj [(''code'', JStr ''ADMIN_CONTINUITY_REQUIRED'')]),
                        (''contributors'', JArr (map (\<lambda>c. case c of Contributor operation key \<Rightarrow>
                           JObj [(''kind'', JStr ''roles''),
                             (''operation'', JStr (if operation = Role_update then ''update'' else ''delete'')),
                             (''identity'', JObj [(''key'', JStr key)])]) contributors))])
                 | [] \<Rightarrow>
                     if active = [] then
                       \<lparr>oc_db = db, oc_emitted = [], oc_result = Inr (assembleResult sv (\<lambda>_. None))\<rparr>
                     else if \<not> destructive \<and> planHasDeletions plan
                     then stop (DestructiveChangesRequiredException
                       [(''deletions'', JArr (map (\<lambda>(kind, identity).
                          JObj [(''kind'', JStr (kind_name kind)), (''identity'', identity)]) (planDeletions rg plan)))])
                     else
                       (case plan_closure active of
                          Inl _ \<Rightarrow> stop graph_thrown
                        | Inr closure \<Rightarrow>
                            (case reverseDependencyOrder closure of
                               Inl _ \<Rightarrow> stop (rethrow graph_thrown)
                             | Inr reverseClosure \<Rightarrow>
                                 (case apply_body sv plan expected active closure reverseClosure (db, []) of
                                    Inl err \<Rightarrow> stop (rethrow err)
                                  | Inr ((db', events), s) \<Rightarrow>
                                      (case sv_commit sv db' of
                                         Some err \<Rightarrow> stop (rethrow err)
                                       | None \<Rightarrow>
                                           (case flush sv events of
                                              (sent, failure) \<Rightarrow>
                                                \<lparr>oc_db = db', oc_emitted = sent, oc_result =
                                                   (case failure of
                                                      Some err \<Rightarrow> Inl (rethrow err)
                                                    | None \<Rightarrow> Inr (assembleResult sv (as_slices s)))\<rparr>)))))))) "

section \<open>The status a failure reports\<close>

text \<open>\<open>failureStatus\<close> of \<open>config/apply-steps.ts\<close>; \<open>Array.isArray(err) ? err[0] : err\<close>.\<close>

datatype step_status = Not_run | Skipped | Committed | Rolled_back | Failed | Unknown

fun first_thrown :: "thrown \<Rightarrow> thrown" where
  "first_thrown (ErrorList (e # es)) = e"
| "first_thrown (ErrorList []) = Other JUndefined"
| "first_thrown (Other (JArr (v # vs))) = Other v"
| "first_thrown (Other (JArr [])) = Other JUndefined"
| "first_thrown err = err"

definition failureStatus :: "thrown \<Rightarrow> step_status" where
  "failureStatus err =
     (case first_thrown err of
        BaseException code ext \<Rightarrow>
          (if code = ''SCHEMA_POST_COMMIT_FAILED'' \<or> code = ''CONFIG_POST_COMMIT_FAILED'' then Committed
           else if code = ''SCHEMA_APPLY_FAILED''
           then (if js_get ext ''persisted'' = JStr ''unknown'' then Unknown else Failed)
           else if code \<in> {''CONFIG_APPLY_FAILED'', ''SCHEMA_STATE_CHANGED'', ''CONFIG_STATE_CHANGED''}
           then Rolled_back else Failed)
      | _ \<Rightarrow> Failed)"

section \<open>An apply is atomic\<close>

lemma failureStatus_rethrow:
  "failureStatus (rethrow err) = Committed \<Longrightarrow>
     \<exists>code ext. err = BaseException code ext \<and>
       (code = ''SCHEMA_POST_COMMIT_FAILED'' \<or> code = ''CONFIG_POST_COMMIT_FAILED'')"
  by (cases err) (auto simp: rethrow_def failureStatus_def split: if_splits)

lemma rethrow_post_commit: "rethrow (ConfigPostCommitFailedException ph) = ConfigPostCommitFailedException ph"
  by (simp add: rethrow_def isSerializationConflict_def ConfigPostCommitFailedException_def Let_def)

definition no_early_commit_error :: "'db services \<Rightarrow> bool" where
  "no_early_commit_error sv \<longleftrightarrow>
     (\<forall>err. failureStatus (rethrow err) = Committed \<longrightarrow>
        (\<forall>db r x. sv_readDigest sv db r x \<noteq> Inl err) \<and> (\<forall>ph k es acc t. sv_apply sv ph k es acc t \<noteq> Inl err) \<and>
        (\<forall>k acc t. sv_dependencyState sv k acc t \<noteq> Inl err) \<and> (\<forall>db. sv_commit sv db \<noteq> Some err))"

lemma run_phase_error:
  "run_phase sv ph k es t s = Inl err \<Longrightarrow> \<exists>acc. sv_apply sv ph k es acc t = Inl err"
  by (auto simp: run_phase_def Let_def split: if_splits sum.splits)

lemma forward_loop_error:
  "forward_loop sv plan active ks t s = Inl err \<Longrightarrow>
     (\<exists>ph k es acc t. sv_apply sv ph k es acc t = Inl err) \<or> (\<exists>k acc t. sv_dependencyState sv k acc t = Inl err)"
proof (induction ks arbitrary: t s)
  case (Cons k ks)
  let ?first = "if k \<in> set active
      then (case run_phase sv P_creates k (kp_create (pl_slices plan k)) t s of
              Inl err \<Rightarrow> Inl err
            | Inr (t1, s1) \<Rightarrow> run_phase sv P_updates k (kp_update (pl_slices plan k)) t1 s1)
      else Inr (t, s)"
  show ?case
  proof (cases ?first)
    case (Inl e)
    with Cons.prems have "e = err" by simp
    with Inl have "(\<exists>t s es. run_phase sv P_creates k es t s = Inl err) \<or> (\<exists>t s es. run_phase sv P_updates k es t s = Inl err)"
    proof (cases "run_phase sv P_creates k (kp_create (pl_slices plan k)) t s")
      case (Inl e')
      with \<open>?first = Inl e\<close> \<open>e = err\<close> have "run_phase sv P_creates k (kp_create (pl_slices plan k)) t s = Inl err"
        by (simp split: if_splits)
      then show ?thesis by blast
    next
      case (Inr r)
      obtain t1 s1 where "r = (t1, s1)" by (cases r)
      with Inr \<open>?first = Inl e\<close> \<open>e = err\<close>
      have "run_phase sv P_updates k (kp_update (pl_slices plan k)) t1 s1 = Inl err" by (simp split: if_splits)
      then show ?thesis by blast
    qed
    then show ?thesis by (blast dest: run_phase_error)
  next
    case (Inr r)
    with Cons show ?thesis by (cases r) (auto split: sum.splits)
  qed
qed simp

lemma delete_loop_error:
  "delete_loop sv plan active ks t s = Inl err \<Longrightarrow> \<exists>ph k es acc t. sv_apply sv ph k es acc t = Inl err"
proof (induction ks arbitrary: t s)
  case (Cons k ks)
  show ?case
  proof (cases "if k \<in> set active then run_phase sv P_deletes k (kp_delete (pl_slices plan k)) t s else Inr (t, s)")
    case (Inl e)
    with Cons.prems have "run_phase sv P_deletes k (kp_delete (pl_slices plan k)) t s = Inl err"
      by (auto split: if_splits)
    then show ?thesis by (blast dest: run_phase_error)
  next
    case (Inr r)
    with Cons show ?thesis by (cases r) auto
  qed
qed simp

lemma apply_body_error:
  assumes "no_early_commit_error sv" "apply_body sv plan expected active closure rev_closure t = Inl err"
  shows "failureStatus (rethrow err) \<noteq> Committed"
proof
  assume bad: "failureStatus (rethrow err) = Committed"
  with assms(1) have none: "\<forall>ph k es acc t. sv_apply sv ph k es acc t \<noteq> Inl err"
    "\<forall>k acc t. sv_dependencyState sv k acc t \<noteq> Inl err" "\<forall>db r x. sv_readDigest sv db r x \<noteq> Inl err"
    unfolding no_early_commit_error_def by blast+
  show False
  proof (cases "assertStateUnchanged sv (fst t) expected")
    case None
    with assms(2) none show False
      by (auto simp: apply_body_def split: sum.splits dest!: forward_loop_error delete_loop_error)
  next
    case (Some e)
    with assms(2) have "e = err" by (simp add: apply_body_def)
    moreover have "failureStatus (rethrow ConfigStateChangedException) \<noteq> Committed"
      by (simp add: rethrow_def isSerializationConflict_def failureStatus_def Let_def)
    ultimately show False using Some bad none(3)
      by (auto simp: assertStateUnchanged_def split: sum.splits thrown.splits if_splits)
  qed
qed

lemma guard_statuses:
  "failureStatus ConfigApplyScopeMismatchException \<noteq> Committed"
  "failureStatus (ConfigProtectedRecordException x) \<noteq> Committed"
  "failureStatus (DestructiveChangesRequiredException x) \<noteq> Committed"
  "failureStatus graph_thrown \<noteq> Committed" "failureStatus (rethrow graph_thrown) \<noteq> Committed"
  by (simp_all add: failureStatus_def graph_thrown_def rethrow_def isSerializationConflict_def Let_def)

text \<open>The three ways an apply ends: untouched, committed, or nothing to do.\<close>

lemma applyConfigPlan_cases:
  fixes sv :: "'db services" and rg plan expected destructive and db :: 'db
  assumes "no_early_commit_error sv"
  defines "oc \<equiv> applyConfigPlan sv rg plan expected destructive db"
  obtains (stopped) err where "oc = \<lparr>oc_db = db, oc_emitted = [], oc_result = Inl err\<rparr>" "failureStatus err \<noteq> Committed"
    | (nothing) "oc = \<lparr>oc_db = db, oc_emitted = [], oc_result = Inr (assembleResult sv (\<lambda>_. None))\<rparr>"
        "\<forall>k. \<not> sliceActive (pl_slices plan k)"
        "sameResourceSet (pl_managedResources plan) (st_resources expected)" "pl_protections plan = []"
    | (committed) closure rc events s where
        "apply_body sv plan expected (filter (\<lambda>kind. sliceActive (pl_slices plan kind)) CONFIG_KINDS) closure rc (db, []) =
           Inr ((oc_db oc, events), s)" "sv_commit sv (oc_db oc) = None"
        "plan_closure (filter (\<lambda>kind. sliceActive (pl_slices plan kind)) CONFIG_KINDS) = Inr closure"
        "reverseDependencyOrder closure = Inr rc"
        "oc_emitted oc = fst (flush sv events)"
        "oc_result oc = (case snd (flush sv events) of Some err \<Rightarrow> Inl (rethrow err)
           | None \<Rightarrow> Inr (assembleResult sv (as_slices s)))"
        "sameResourceSet (pl_managedResources plan) (st_resources expected)" "pl_protections plan = []"
        "destructive \<or> \<not> planHasDeletions plan"
proof -
  let ?active = "filter (\<lambda>kind. sliceActive (pl_slices plan kind)) CONFIG_KINDS"
  show ?thesis
  proof (cases "sameResourceSet (pl_managedResources plan) (st_resources expected)")
    case False
    then show ?thesis
      by (intro stopped[of ConfigApplyScopeMismatchException])
        (simp_all add: oc_def applyConfigPlan_def failureStatus_def)
  next
    case same: True
    show ?thesis
    proof (cases "assertExtensionScopeBound plan expected")
      case (Some err)
      then have "err = ConfigApplyScopeMismatchException"
        by (auto simp: assertExtensionScopeBound_def Let_def split: if_splits option.splits)
      with Some same show ?thesis
        by (intro stopped[of err]) (simp_all add: oc_def applyConfigPlan_def failureStatus_def)
    next
      case scope: None
      show ?thesis
      proof (cases "pl_protections plan")
        case (Cons pr prs)
        with same scope show ?thesis
          by (cases pr) (rule stopped, simp add: oc_def applyConfigPlan_def, simp add: failureStatus_def)
      next
        case prot: Nil
        show ?thesis
        proof (cases "?active = []")
          case True
          then have "\<forall>k. \<not> sliceActive (pl_slices plan k)" by (simp add: filter_empty_conv)
          with True same scope prot show ?thesis
            by - (rule nothing, simp_all add: oc_def applyConfigPlan_def)
        next
          case some: False
          show ?thesis
          proof (cases "\<not> destructive \<and> planHasDeletions plan")
            case True
            with some same scope prot show ?thesis
              by - (rule stopped, simp add: oc_def applyConfigPlan_def, simp add: failureStatus_def)
          next
            case allowed: False
            obtain closure where closure: "plan_closure ?active = Inr closure" using plan_closure_eq by blast
            obtain rc where rc: "reverseDependencyOrder closure = Inr rc" by (simp add: reverseDependencyOrder_eq)
            note run = oc_def applyConfigPlan_def same scope prot some allowed closure rc
            show ?thesis
            proof (cases "apply_body sv plan expected ?active closure rc (db, [])")
              case (Inl err)
              with apply_body_error[OF assms(1) this] show ?thesis
                by - (rule stopped[of "rethrow err"], simp_all add: run Let_def)
            next
              case (Inr r)
              obtain db' events s where r: "r = ((db', events), s)" by (metis prod.exhaust)
              show ?thesis
              proof (cases "sv_commit sv db'")
                case (Some err)
                with assms(1) have "failureStatus (rethrow err) \<noteq> Committed"
                  unfolding no_early_commit_error_def by blast
                with Some Inr r show ?thesis
                  by - (rule stopped[of "rethrow err"], simp_all add: run Let_def)
              next
                case None
                obtain sent failure where fl: "flush sv events = (sent, failure)" by (metis prod.exhaust)
                have oc: "oc = \<lparr>oc_db = db', oc_emitted = sent, oc_result =
                    (case failure of Some err \<Rightarrow> Inl (rethrow err) | None \<Rightarrow> Inr (assembleResult sv (as_slices s)))\<rparr>"
                  using None Inr r fl by (simp add: run Let_def)
                show ?thesis
                  by (rule committed[of closure rc events s])
                    (use oc None Inr r fl closure rc same prot allowed in simp_all)
              qed
            qed
          qed
        qed
      qed
    qed
  qed
qed

section \<open>Properties\<close>

text \<open>
  C9: an apply is atomic and its failure says the truth. When the parameters never throw a post-commit
  error before the commit, the thrown error's status is \<open>committed\<close> exactly when the transaction was
  committed; otherwise the database is unchanged and no event was delivered.
\<close>

theorem applyConfigPlan_atomic:
  assumes "no_early_commit_error sv"
  shows "case oc_result (applyConfigPlan sv rg plan expected destructive db) of
      Inl err \<Rightarrow>
        (if failureStatus err = Committed
         then \<exists>active closure rc events s.
           apply_body sv plan expected active closure rc (db, []) =
             Inr ((oc_db (applyConfigPlan sv rg plan expected destructive db), events), s) \<and>
           sv_commit sv (oc_db (applyConfigPlan sv rg plan expected destructive db)) = None
         else oc_db (applyConfigPlan sv rg plan expected destructive db) = db \<and>
           oc_emitted (applyConfigPlan sv rg plan expected destructive db) = [])
    | Inr _ \<Rightarrow> True"
  using assms
proof (cases rule: applyConfigPlan_cases[where rg = rg and plan = plan and expected = expected
      and destructive = destructive and db = db])
  case (committed closure rc events s)
  have status: "failureStatus err = Committed" if "snd (flush sv events) = Some e" "err = rethrow e" for e err
    using that by (auto simp: flush_def rethrow_post_commit split: prod.splits if_splits)
      (auto simp: failureStatus_def ConfigPostCommitFailedException_def)
  show ?thesis
  proof (cases "snd (flush sv events)")
    case None
    with committed(6) show ?thesis by simp
  next
    case (Some e)
    with committed(6) have res: "oc_result (applyConfigPlan sv rg plan expected destructive db) = Inl (rethrow e)" by simp
    have "\<exists>active closure rc events s. apply_body sv plan expected active closure rc (db, []) =
        Inr ((oc_db (applyConfigPlan sv rg plan expected destructive db), events), s) \<and>
        sv_commit sv (oc_db (applyConfigPlan sv rg plan expected destructive db)) = None"
      using committed(1,2) by blast
    with status[OF Some refl] show ?thesis unfolding res sum.case by (simp only: if_True simp_thms)
  qed
qed simp_all


text \<open>A database that counts its writes, for the concrete applies.\<close>

definition demo_services :: "nat services" where
  "demo_services = \<lparr>sv_readDigest = (\<lambda>_ _ _. Inr ''d''),
     sv_apply = (\<lambda>ph k es acc t. Inr ((fst t + 1, snd t @ [JNull]), JUndefined)),
     sv_dependencyState = (\<lambda>_ _ _. Inr JUndefined), sv_emptyResult = (\<lambda>_. JUndefined),
     sv_mergeOutcome = (\<lambda>_ _ o'. o'), sv_commit = (\<lambda>_. None), sv_flushCachesFails = True,
     sv_emitFails = (\<lambda>_. False)\<rparr>"

definition demo_plan :: config_plan where
  "demo_plan = \<lparr>pl_slices = (\<lambda>_. emptyKindPlan)(K_roles :=
       \<lparr>kp_create = [demo_role ''a'' False], kp_update = [], kp_delete = []\<rparr>),
     pl_managedResources = [K_roles], pl_protections = []\<rparr>"

definition demo_token :: state_token where
  "demo_token = \<lparr>st_resources = [K_roles], st_digest = ''d'', st_extensionSubjects = None\<rparr>"

lemma demo_services_quiet: "no_early_commit_error demo_services"
  by (simp add: no_early_commit_error_def demo_services_def)

lemma demo_apply:
  "oc_db (applyConfigPlan demo_services demo_registry demo_plan demo_token False 0) = 1"
  "case oc_result (applyConfigPlan demo_services demo_registry demo_plan demo_token False 0) of
     Inl err \<Rightarrow> failureStatus err = Committed | Inr _ \<Rightarrow> False"
  by code_simp+

lemma applyConfigPlan_atomic_witness:
  "\<exists>active closure rc events s.
     apply_body demo_services demo_plan demo_token active closure rc (0, []) = Inr ((1, events), s)"
proof -
  obtain err where "oc_result (applyConfigPlan demo_services demo_registry demo_plan demo_token False 0) = Inl err"
    "failureStatus err = Committed"
    using demo_apply(2) by (auto split: sum.splits)
  with applyConfigPlan_atomic[OF demo_services_quiet, where rg = demo_registry and plan = demo_plan
      and expected = demo_token and destructive = False and db = 0]
  show ?thesis by (auto simp: demo_apply(1))
qed


section \<open>The order of an apply\<close>

text \<open>Handlers that append what they were called with to the database: the trace of an apply.\<close>

type_synonym call_log = "(phase \<times> config_kind \<times> json list) list"

definition logs_calls :: "call_log services \<Rightarrow> bool" where
  "logs_calls sv \<longleftrightarrow>
     (\<forall>ph k es acc t t' out. sv_apply sv ph k es acc t = Inr (t', out) \<longrightarrow> fst t' = fst t @ [(ph, k, es)])"

definition phase_call :: "phase \<Rightarrow> config_kind \<Rightarrow> json list \<Rightarrow> call_log" where
  "phase_call ph k es = (if es = [] then [] else [(ph, k, es)])"

definition forward_calls :: "config_plan \<Rightarrow> config_kind \<Rightarrow> call_log" where
  "forward_calls plan k = phase_call P_creates k (kp_create (pl_slices plan k)) @
     phase_call P_updates k (kp_update (pl_slices plan k))"

definition delete_calls :: "config_plan \<Rightarrow> config_kind \<Rightarrow> call_log" where
  "delete_calls plan k = phase_call P_deletes k (kp_delete (pl_slices plan k))"

lemma run_phase_log:
  assumes "logs_calls sv" "run_phase sv ph k es t s = Inr (t', s')"
  shows "fst t' = fst t @ phase_call ph k es"
proof (cases "es = []")
  case True
  with assms(2) show ?thesis by (simp add: run_phase_def phase_call_def)
next
  case False
  with assms(2) obtain acc out where "sv_apply sv ph k es acc t = Inr (t', out)"
    by (auto simp: run_phase_def Let_def split: sum.splits)
  with assms(1) have "fst t' = fst t @ [(ph, k, es)]" unfolding logs_calls_def by blast
  with False show ?thesis by (simp add: phase_call_def)
qed

lemma forward_loop_log:
  assumes "logs_calls sv" "forward_loop sv plan active ks t s = Inr (t', s')"
  shows "fst t' = fst t @ concat (map (forward_calls plan) (filter (\<lambda>k. k \<in> set active) ks))"
  using assms(2)
proof (induction ks arbitrary: t s)
  case (Cons k ks)
  show ?case
  proof (cases "k \<in> set active")
    case True
    with Cons.prems obtain t1 s1 t2 s2 s3 where
      steps: "run_phase sv P_creates k (kp_create (pl_slices plan k)) t s = Inr (t1, s1)"
      "run_phase sv P_updates k (kp_update (pl_slices plan k)) t1 s1 = Inr (t2, s2)"
      "forward_loop sv plan active ks t2 s3 = Inr (t', s')"
      by (auto split: sum.splits)
    from Cons.IH[OF steps(3)] run_phase_log[OF assms(1) steps(2)] run_phase_log[OF assms(1) steps(1)] True
    show ?thesis by (simp add: forward_calls_def)
  next
    case False
    with Cons.prems obtain s3 where "forward_loop sv plan active ks t s3 = Inr (t', s')"
      by (auto split: sum.splits)
    from Cons.IH[OF this] False show ?thesis by simp
  qed
qed simp

lemma delete_loop_log:
  assumes "logs_calls sv" "delete_loop sv plan active ks t s = Inr (t', s')"
  shows "fst t' = fst t @ concat (map (delete_calls plan) (filter (\<lambda>k. k \<in> set active) ks))"
  using assms(2)
proof (induction ks arbitrary: t s)
  case (Cons k ks)
  show ?case
  proof (cases "k \<in> set active")
    case True
    with Cons.prems obtain t1 s1 where
      steps: "run_phase sv P_deletes k (kp_delete (pl_slices plan k)) t s = Inr (t1, s1)"
      "delete_loop sv plan active ks t1 s1 = Inr (t', s')"
      by (auto split: sum.splits)
    from Cons.IH[OF steps(2)] run_phase_log[OF assms(1) steps(1)] True
    show ?thesis by (simp add: delete_calls_def)
  next
    case False
    with Cons show ?thesis by simp
  qed
qed simp

lemma calls_inactive:
  assumes "\<And>k. \<not> sliceActive (pl_slices plan k) \<Longrightarrow> f k = []"
  shows "concat (map f (filter (\<lambda>k. sliceActive (pl_slices plan k)) ks)) = concat (map f ks)"
  using assms by (induction ks) auto

lemma inactive_calls:
  "\<not> sliceActive (pl_slices plan k) \<Longrightarrow> forward_calls plan k = []"
  "\<not> sliceActive (pl_slices plan k) \<Longrightarrow> delete_calls plan k = []"
  by (simp_all add: sliceActive_def forward_calls_def delete_calls_def phase_call_def)

text \<open>
  An apply that returns called the handlers in dependency order: for each kind, in the order in
  which dependencies come first, its creates and then its updates; after all of them the deletes, in the reverse order. Every
  nonempty part of the plan was passed to its handler once, and nothing else was.
\<close>

lemma applyConfigPlan_order:
  assumes "no_early_commit_error sv" "logs_calls sv"
    and "oc_result (applyConfigPlan sv rg plan expected destructive db) = Inr res"
  shows "oc_db (applyConfigPlan sv rg plan expected destructive db) =
      db @ concat (map (forward_calls plan) CONFIG_KINDS) @ concat (map (delete_calls plan) (rev CONFIG_KINDS)) \<and>
    deps_first kind_dependencies CONFIG_KINDS"
  using assms(1)
proof (cases rule: applyConfigPlan_cases[where rg = rg and plan = plan and expected = expected
      and destructive = destructive and db = db])
  case (stopped err)
  with assms(3) show ?thesis by simp
next
  case empty: nothing
  then have "forward_calls plan k = []" "delete_calls plan k = []" for k
    by (simp_all add: inactive_calls)
  with empty(1) deps_first_kinds show ?thesis by simp
next
  case (committed closure rc events s)
  let ?active = "filter (\<lambda>kind. sliceActive (pl_slices plan kind)) CONFIG_KINDS"
  obtain cl where cl: "plan_closure ?active = Inr cl" "set ?active \<subseteq> set cl"
    "cl = filter (\<lambda>k. k \<in> set cl) CONFIG_KINDS" using plan_closure_eq by blast
  with committed(3) have same: "cl = closure" by simp
  have all: "filter (\<lambda>k. k \<in> set ?active) closure = ?active"
    unfolding same[symmetric] by (subst cl(3)) (use cl(2) in \<open>auto intro!: filter_cong\<close>)
  have rc: "rc = rev closure" using committed(4) cl(3) same by (simp add: reverseDependencyOrder_eq)
  from committed(1) obtain t1 s1 s0 where
    "forward_loop sv plan ?active closure (db, []) s0 = Inr (t1, s1)"
    "delete_loop sv plan ?active rc t1 s1 =
      Inr ((oc_db (applyConfigPlan sv rg plan expected destructive db), events), s)"
    by (auto simp: apply_body_def split: option.splits sum.splits)
  from forward_loop_log[OF assms(2) this(1)] delete_loop_log[OF assms(2) this(2)]
  have "oc_db (applyConfigPlan sv rg plan expected destructive db) =
      db @ concat (map (forward_calls plan) ?active) @ concat (map (delete_calls plan) (rev ?active))"
    by (simp only: rc rev_filter[symmetric] all fst_conv append_assoc)
  with deps_first_kinds show ?thesis
    by (simp add: rev_filter calls_inactive inactive_calls)
qed

definition logging_services :: "call_log services" where
  "logging_services = \<lparr>sv_readDigest = (\<lambda>_ _ _. Inr ''d''),
     sv_apply = (\<lambda>ph k es acc t. Inr ((fst t @ [(ph, k, es)], snd t), JUndefined)),
     sv_dependencyState = (\<lambda>_ _ _. Inr JUndefined), sv_emptyResult = (\<lambda>_. JUndefined),
     sv_mergeOutcome = (\<lambda>_ _ o'. o'), sv_commit = (\<lambda>_. None), sv_flushCachesFails = False,
     sv_emitFails = (\<lambda>_. False)\<rparr>"

lemma applyConfigPlan_order_witness:
  "oc_db (applyConfigPlan logging_services demo_registry demo_plan demo_token False []) =
     [(P_creates, K_roles, [demo_role ''a'' False])]"
proof -
  have quiet: "no_early_commit_error logging_services" "logs_calls logging_services"
    by (simp_all add: no_early_commit_error_def logs_calls_def logging_services_def)
  have "case oc_result (applyConfigPlan logging_services demo_registry demo_plan demo_token False []) of
      Inl _ \<Rightarrow> False | Inr _ \<Rightarrow> True" by code_simp
  then obtain r where
    "oc_result (applyConfigPlan logging_services demo_registry demo_plan demo_token False []) = Inr r"
    by (auto split: sum.splits)
  from applyConfigPlan_order[OF quiet this] show ?thesis
    by (simp add: CONFIG_KINDS_def forward_calls_def delete_calls_def phase_call_def demo_plan_def emptyKindPlan_def)
qed

end
