(* ===== verification/Config_Run.thy ===== *)
theory Config_Run
  imports Config_Apply Js_Text Complex_Main
begin

text \<open>
  \<open>api/src/utils/config/run-record.ts\<close> with the failure reporting of \<open>config/apply-steps.ts\<close>,
  \<open>is-valid-uuid.ts\<close> and \<open>safe-log-fragment.ts\<close>: what a configuration run logs about itself. The values
  that reach the record come from callers and from thrown errors and are untyped, so they are JSON values here; the
  logger, the clock and the \<open>LOG_STYLE\<close> of the environment are parameters.
\<close>

section \<open>Text\<close>

definition hex_digit :: "char \<Rightarrow> bool" where
  "hex_digit c \<longleftrightarrow> (case digit_value c of None \<Rightarrow> False | Some d \<Rightarrow> d < 16)"

text \<open>The groups of the UUID pattern are separated by dashes, which are not hexadecimal digits.\<close>

definition isValidUuid :: "string \<Rightarrow> bool" where
  "isValidUuid value \<longleftrightarrow>
     map length (js_split CHR ''-'' value) = [8, 4, 4, 4, 12] \<and>
     (\<forall>g\<in>set (js_split CHR ''-'' value). \<forall>c\<in>set g. hex_digit c)"

text \<open>The conversion \<open>String(value)\<close> is used on strings only.\<close>

definition is_control :: "char \<Rightarrow> bool" where
  "is_control c \<longleftrightarrow> (let code = of_char c :: nat in code < 0x20 \<or> (code \<ge> 0x7f \<and> code \<le> 0x9f))"

definition replaceControlCharacters :: "string \<Rightarrow> string" where
  "replaceControlCharacters text = map (\<lambda>c. if is_control c then CHR ''?'' else c) text"

definition safeLogFragment :: "string \<Rightarrow> nat \<Rightarrow> string" where
  "safeLogFragment value maxLength =
     (let sanitized = replaceControlCharacters value in
      if length sanitized > maxLength then take maxLength sanitized @ ''...'' else sanitized)"

section \<open>Failure details\<close>

definition SCHEMA_OPERATIONS :: "string list" where
  "SCHEMA_OPERATIONS = [''create'', ''update'', ''delete'']"

definition SCHEMA_CHANGE_OUTCOMES :: "string list" where
  "SCHEMA_CHANGE_OUTCOMES = [''applied'', ''reverted'', ''unknown'', ''not_applicable'']"

definition POST_COMMIT_PHASES :: "string list" where
  "POST_COMMIT_PHASES = [''cache'', ''actions'', ''cache_and_actions'', ''foreign_keys'', ''foreign_keys_and_cache'']"

fun isRecord :: "json \<Rightarrow> bool" where
  "isRecord (JObj _) = True"
| "isRecord (JArr _) = True"
| "isRecord (JDate _) = True"
| "isRecord _ = False"

definition outcomeOf :: "json \<Rightarrow> json" where
  "outcomeOf value =
     (case value of JStr s \<Rightarrow> if s \<in> set SCHEMA_CHANGE_OUTCOMES then JStr s else JStr ''unknown''
      | _ \<Rightarrow> JStr ''unknown'')"

fun project_entry_list :: "(json \<Rightarrow> json option) \<Rightarrow> json list \<Rightarrow> json list" where
  "project_entry_list project [] = []"
| "project_entry_list project (entry # rest) =
     (if \<not> isRecord entry then project_entry_list project rest
      else (case js_prop entry ''operation'' of
              JStr op \<Rightarrow>
                if op \<notin> set SCHEMA_OPERATIONS then project_entry_list project rest
                else (case project entry of
                        Some result \<Rightarrow> result # project_entry_list project rest
                      | None \<Rightarrow> project_entry_list project rest)
            | _ \<Rightarrow> project_entry_list project rest))"

definition projectEntries :: "json \<Rightarrow> (json \<Rightarrow> json option) \<Rightarrow> json" where
  "projectEntries value project =
     (case value of JArr es \<Rightarrow> JArr (project_entry_list project es) | _ \<Rightarrow> JArr [])"

definition project_collection :: "json \<Rightarrow> json option" where
  "project_collection entry =
     (case js_prop entry ''collection'' of
        JStr c \<Rightarrow> Some (JObj [(''collection'', JStr c), (''operation'', js_prop entry ''operation''),
          (''table'', outcomeOf (js_prop entry ''table'')), (''metadata'', outcomeOf (js_prop entry ''metadata''))])
      | _ \<Rightarrow> None)"

definition project_field :: "json \<Rightarrow> json option" where
  "project_field entry =
     (case (js_prop entry ''collection'', js_prop entry ''field'') of
        (JStr c, JStr f) \<Rightarrow> Some (JObj [(''collection'', JStr c), (''field'', JStr f),
          (''operation'', js_prop entry ''operation''), (''column'', outcomeOf (js_prop entry ''column'')),
          (''metadata'', outcomeOf (js_prop entry ''metadata''))])
      | _ \<Rightarrow> None)"

definition project_relation :: "json \<Rightarrow> json option" where
  "project_relation entry =
     (case (js_prop entry ''collection'', js_prop entry ''field'') of
        (JStr c, JStr f) \<Rightarrow> Some (JObj [(''collection'', JStr c), (''field'', JStr f),
          (''operation'', js_prop entry ''operation''), (''foreignKey'', JStr ''unknown''),
          (''metadata'', outcomeOf (js_prop entry ''metadata''))])
      | _ \<Rightarrow> None)"

definition projectPersistedState :: "json \<Rightarrow> json" where
  "projectPersistedState value =
     (if \<not> isRecord value then JStr ''unknown''
      else JObj [(''collections'', projectEntries (js_prop value ''collections'') project_collection),
        (''fields'', projectEntries (js_prop value ''fields'') project_field),
        (''relations'', projectEntries (js_prop value ''relations'') project_relation)])"

definition failureDetail :: "thrown \<Rightarrow> json option" where
  "failureDetail err =
     (case first_thrown err of
        BaseException code ext \<Rightarrow>
          if code = ''SCHEMA_APPLY_FAILED'' then
            (let persisted = js_get ext ''persisted'' in
             Some (JObj ((''persisted'', if persisted = JStr ''unknown'' then JStr ''unknown''
                            else projectPersistedState persisted) #
               (if js_get ext ''foreignKeysRestored'' = JBool False
                then [(''foreignKeysRestored'', JBool False)] else []))))
          else if code = ''SCHEMA_POST_COMMIT_FAILED'' \<or> code = ''CONFIG_POST_COMMIT_FAILED'' then
            (case js_get ext ''phase'' of
               JStr phase \<Rightarrow> if phase \<in> set POST_COMMIT_PHASES then Some (JObj [(''phase'', JStr phase)]) else None
             | _ \<Rightarrow> None)
          else None
      | _ \<Rightarrow> None)"

definition stepFailure :: "string \<Rightarrow> thrown \<Rightarrow> json" where
  "stepFailure step err =
     (case failureDetail err of
        Some detail \<Rightarrow> JObj [(''step'', JStr step), (''detail'', detail)]
      | None \<Rightarrow> JObj [(''step'', JStr step)])"

section \<open>Codes, callers and classification\<close>

definition UNEXPECTED_ERROR_CODE :: string where
  "UNEXPECTED_ERROR_CODE = ''UNEXPECTED''"

definition RUN_RECORD_ERROR_CODES :: "string list" where
  "RUN_RECORD_ERROR_CODES =
     [''CONFIG_INVALID'', ''CONFIG_IDENTITY_CONFLICT'', ''CONFIG_UNSUPPORTED_VERSION'',
      ''CONFIG_PLACEHOLDER_UNRESOLVED'', ''CONFIG_PROTECTED_RECORD'', ''CONFIG_FOLDER_IN_USE'',
      ''CONFIG_SCHEMA_SOURCE'', ''DESTRUCTIVE_CHANGES_REQUIRED'', ''CONFIG_STATE_CHANGED'', ''CONFIG_READ_FAILED'',
      ''CONFIG_APPLY_FAILED'', ''CONFIG_POST_COMMIT_FAILED'', ''CONFIG_APPLY_SCOPE_MISMATCH'',
      ''ADMIN_MUTATION_UNVERIFIED_TRANSACTION'', ''CONCURRENCY_CONFLICT'', ''SCHEMA_STATE_CHANGED'',
      ''SCHEMA_APPLY_FAILED'', ''SCHEMA_POST_COMMIT_FAILED'']"

definition normalizeErrorCode :: "json \<Rightarrow> string" where
  "normalizeErrorCode code =
     (case code of JStr s \<Rightarrow> if s \<in> set RUN_RECORD_ERROR_CODES then s else UNEXPECTED_ERROR_CODE
      | _ \<Rightarrow> UNEXPECTED_ERROR_CODE)"

definition CONFIG_APPLY_ORIGIN :: string where
  "CONFIG_APPLY_ORIGIN = ''config-cli''"

definition systemCaller :: json where
  "systemCaller = JObj [(''kind'', JStr ''system''), (''origin'', JStr CONFIG_APPLY_ORIGIN)]"

definition normalizeCaller :: "json \<Rightarrow> json" where
  "normalizeCaller caller =
     (let request = JObj [(''kind'', JStr ''request'')] in
      if \<not> isRecord caller then request
      else if js_prop caller ''kind'' = JStr ''system'' \<and> js_prop caller ''origin'' = JStr CONFIG_APPLY_ORIGIN
      then systemCaller
      else (case (js_prop caller ''user'', js_prop caller ''role'') of
              (JStr user, JStr role) \<Rightarrow>
                if js_prop caller ''kind'' = JStr ''user'' \<and> isValidUuid user \<and> isValidUuid role
                then JObj [(''kind'', JStr ''user''), (''user'', JStr user), (''role'', JStr role)] else request
            | _ \<Rightarrow> request))"

text \<open>\<open>accountability?.user\<close> is \<open>undefined\<close> on a missing accountability.\<close>

definition callerFromAccountability :: "json \<Rightarrow> json" where
  "callerFromAccountability accountability =
     normalizeCaller (JObj [(''kind'', JStr ''user''), (''user'', js_prop accountability ''user''),
       (''role'', js_prop accountability ''role'')])"

definition userAgentFrom :: "json \<Rightarrow> string option" where
  "userAgentFrom header =
     (case header of JStr s \<Rightarrow> if length s = 0 then None else Some (safeLogFragment s 64) | _ \<Rightarrow> None)"

definition normalizeRunId :: "json \<Rightarrow> string option" where
  "normalizeRunId runId = (case runId of JStr s \<Rightarrow> if isValidUuid s then Some s else None | _ \<Rightarrow> None)"

definition normalizeManagedKinds :: "json \<Rightarrow> json" where
  "normalizeManagedKinds kinds =
     (case kinds of JArr ks \<Rightarrow> JArr (filter (\<lambda>k. k \<in> set (map (JStr \<circ> kind_name) CONFIG_KINDS)) ks) | _ \<Rightarrow> JArr [])"

definition classifyConfigError :: "thrown \<Rightarrow> string \<times> string" where
  "classifyConfigError err =
     (case first_thrown err of
        BaseException code ext \<Rightarrow>
          (let errorCode = normalizeErrorCode (JStr code) in
           if errorCode \<in> {''CONFIG_INVALID'', ''CONFIG_IDENTITY_CONFLICT''} then (''invalid'', errorCode)
           else if errorCode \<in> {''CONFIG_PROTECTED_RECORD'', ''CONFIG_FOLDER_IN_USE'', ''CONFIG_SCHEMA_SOURCE'',
               ''DESTRUCTIVE_CHANGES_REQUIRED''} then (''refused'', errorCode)
           else if errorCode \<in> {''CONFIG_STATE_CHANGED'', ''SCHEMA_STATE_CHANGED''} then (''state_changed'', errorCode)
           else if errorCode \<in> {''CONFIG_POST_COMMIT_FAILED'', ''SCHEMA_POST_COMMIT_FAILED''}
           then (''post_apply_failed'', errorCode)
           else (''failed'', errorCode))
      | _ \<Rightarrow> (''failed'', UNEXPECTED_ERROR_CODE))"

section \<open>A run\<close>

text \<open>
  What a body calls on its run, in order, and how it ends. The state of a run is what \<open>planned\<close> and
  \<open>outcome\<close> recorded last, \<open>JUndefined\<close> when never called.
\<close>

datatype run_call = Planned json | Outcome json json

record run_state =
  rs_changes :: json
  rs_steps :: json
  rs_failure :: json

fun run_step :: "run_state \<Rightarrow> run_call \<Rightarrow> run_state" where
  "run_step s (Planned summary) =
     s\<lparr>rs_changes := JObj [(''create'', js_prop summary ''create''), (''update'', js_prop summary ''update''),
       (''delete'', js_prop summary ''delete'')]\<rparr>"
| "run_step s (Outcome steps failure) = s\<lparr>rs_steps := steps, rs_failure := failure\<rparr>"

record config_run_start =
  cs_source :: json
  cs_caller :: json
  cs_userAgent :: json
  cs_runId :: json
  cs_dryRun :: json
  cs_destructive :: json
  cs_manifestVersion :: json
  cs_managedKinds :: json
  cs_emit :: json

record run_env =
  re_log_style :: json
  re_logger_fails :: bool
  re_elapsed :: rat

definition shouldEmit :: "json \<Rightarrow> json \<Rightarrow> bool" where
  "shouldEmit log_style policy \<longleftrightarrow> policy = JStr ''always'' \<or> log_style = JStr ''raw''"

definition emitConfigRunRecord :: "bool \<Rightarrow> json_object \<Rightarrow> json_object list" where
  "emitConfigRunRecord logger_fails rec = (if logger_fails then [] else [rec])"

definition opt_entry :: "string \<Rightarrow> json \<Rightarrow> json_object" where
  "opt_entry name v = (if v = JUndefined then [] else [(name, v)])"

definition opt_text :: "string option \<Rightarrow> json" where
  "opt_text v = (case v of None \<Rightarrow> JUndefined | Some s \<Rightarrow> JStr s)"

text \<open>
  The record of a run; a finished run is the object of its result, error code, steps and failure.
  \<open>Math.round\<close> rounds halves up.
\<close>

definition run_record :: "run_env \<Rightarrow> config_run_start \<Rightarrow> run_state \<Rightarrow> json_object \<Rightarrow> json_object" where
  "run_record env start s finished =
     (let steps = js_or (rs_steps s) (js_get finished ''steps'');
          failure = js_or (rs_failure s) (js_get finished ''failure'')
      in [(''event'', JStr ''config.run.finished'')] @
         opt_entry ''runId'' (opt_text (normalizeRunId (cs_runId start))) @
         [(''source'', JStr (if cs_source start = JStr ''http'' then ''http'' else ''cli'')),
          (''caller'', normalizeCaller (cs_caller start))] @
         opt_entry ''userAgent'' (opt_text (userAgentFrom (cs_userAgent start))) @
         [(''dryRun'', JBool (cs_dryRun start = JBool True)),
          (''destructive'', JBool (cs_destructive start = JBool True)),
          (''manifestVersion'', cs_manifestVersion start),
          (''managedKinds'', normalizeManagedKinds (cs_managedKinds start))] @
         opt_entry ''changes'' (rs_changes s) @
         [(''result'', js_get finished ''result'')] @
         (if js_has ''errorCode'' finished
          then [(''errorCode'', JStr (normalizeErrorCode (js_get finished ''errorCode'')))] else []) @
         opt_entry ''steps'' steps @ opt_entry ''failure'' failure @
         [(''durationMs'', JInt (max 0 \<lfloor>re_elapsed env + 1 / 2\<rfloor>))])"

definition run_finish :: "run_env \<Rightarrow> config_run_start \<Rightarrow> run_state \<Rightarrow> json_object \<Rightarrow> json_object list" where
  "run_finish env start s finished =
     (if \<not> shouldEmit (re_log_style env) (cs_emit start) then []
      else emitConfigRunRecord (re_logger_fails env) (run_record env start s finished))"

definition withConfigRun :: "run_env \<Rightarrow> config_run_start \<Rightarrow> run_call list \<times> (thrown + json_object) \<Rightarrow>
    json_object list \<times> (thrown + json_object)" where
  "withConfigRun env start body =
     (let s = foldl run_step \<lparr>rs_changes = JUndefined, rs_steps = JUndefined, rs_failure = JUndefined\<rparr> (fst body)
      in case snd body of
           Inl err \<Rightarrow>
             (case classifyConfigError err of
                (result, errorCode) \<Rightarrow>
                  (run_finish env start s [(''result'', JStr result), (''errorCode'', JStr errorCode)], Inl err))
         | Inr finished \<Rightarrow> (run_finish env start s finished, Inr finished))"

text \<open>
  \<open>attachRunOutcome\<close>: the steps and failure go into the extensions of the thrown object, or of the first of
  a thrown list. Only plain objects and exceptions carry extensions here.
\<close>

definition outcome_entries :: "json \<Rightarrow> json \<Rightarrow> json_object" where
  "outcome_entries steps failure = (''steps'', steps) # opt_entry ''failure'' failure"

fun attach_to :: "json_object \<Rightarrow> thrown \<Rightarrow> thrown" where
  "attach_to entries (BaseException code ext) = BaseException code (fold (\<lambda>(k, v). js_set k v) entries ext)"
| "attach_to entries (Other (JObj r)) =
     Other (JObj (js_set ''extensions''
       (JObj (fold (\<lambda>(k, v). js_set k v) entries
          (case js_get r ''extensions'' of JObj ext \<Rightarrow> ext | _ \<Rightarrow> []))) r))"
| "attach_to entries err = err"

fun attachRunOutcome :: "thrown \<Rightarrow> json \<Rightarrow> json \<Rightarrow> thrown" where
  "attachRunOutcome (ErrorList (e # es)) steps failure = ErrorList (attach_to (outcome_entries steps failure) e # es)"
| "attachRunOutcome (ErrorList []) steps failure = ErrorList []"
| "attachRunOutcome err steps failure = attach_to (outcome_entries steps failure) err"

section \<open>Lemmas\<close>

text \<open>A persisted state in its declared shape.\<close>

definition outcome_ok :: "json \<Rightarrow> bool" where
  "outcome_ok v \<longleftrightarrow> v \<in> set (map JStr SCHEMA_CHANGE_OUTCOMES)"

definition operation_ok :: "json \<Rightarrow> bool" where
  "operation_ok v \<longleftrightarrow> v \<in> set (map JStr SCHEMA_OPERATIONS)"

definition collection_entry_ok :: "json \<Rightarrow> bool" where
  "collection_entry_ok e \<longleftrightarrow> (\<exists>c op t md. operation_ok op \<and> outcome_ok t \<and> outcome_ok md \<and>
     e = JObj [(''collection'', JStr c), (''operation'', op), (''table'', t), (''metadata'', md)])"

definition field_entry_ok :: "json \<Rightarrow> bool" where
  "field_entry_ok e \<longleftrightarrow> (\<exists>c f op t md. operation_ok op \<and> outcome_ok t \<and> outcome_ok md \<and>
     e = JObj [(''collection'', JStr c), (''field'', JStr f), (''operation'', op), (''column'', t), (''metadata'', md)])"

definition relation_entry_ok :: "json \<Rightarrow> bool" where
  "relation_entry_ok e \<longleftrightarrow> (\<exists>c f op md. operation_ok op \<and> outcome_ok md \<and>
     e = JObj [(''collection'', JStr c), (''field'', JStr f), (''operation'', op),
       (''foreignKey'', JStr ''unknown''), (''metadata'', md)])"

definition persisted_ok :: "json \<Rightarrow> bool" where
  "persisted_ok v \<longleftrightarrow> (\<exists>cs fs rs. list_all collection_entry_ok cs \<and> list_all field_entry_ok fs \<and>
     list_all relation_entry_ok rs \<and>
     v = JObj [(''collections'', JArr cs), (''fields'', JArr fs), (''relations'', JArr rs)])"

lemma outcomeOf_ok [simp]: "outcome_ok (outcomeOf v)" "outcome_ok v \<Longrightarrow> outcomeOf v = v"
  by (auto simp: outcome_ok_def outcomeOf_def SCHEMA_CHANGE_OUTCOMES_def split: json.splits)

lemma project_entry_list_all:
  assumes "\<And>e r op. js_prop e ''operation'' = JStr op \<Longrightarrow> op \<in> set SCHEMA_OPERATIONS \<Longrightarrow> project e = Some r \<Longrightarrow> P r"
  shows "list_all P (project_entry_list project es)"
  using assms by (induction project es rule: project_entry_list.induct) (simp_all split: json.split option.split)

lemma project_entry_list_id:
  assumes "\<And>e. P e \<Longrightarrow> isRecord e \<and> operation_ok (js_prop e ''operation'') \<and> project e = Some e"
  shows "list_all P es \<Longrightarrow> project_entry_list project es = es"
proof (induction es)
  case (Cons e es)
  with assms[of e] obtain op where "js_prop e ''operation'' = JStr op" "op \<in> set SCHEMA_OPERATIONS" "isRecord e"
    "project e = Some e" by (auto simp: operation_ok_def)
  with Cons show ?case by simp
qed simp

lemma project_ok:
  assumes "js_prop e ''operation'' = JStr op" "op \<in> set SCHEMA_OPERATIONS"
  shows "project_collection e = Some r \<Longrightarrow> collection_entry_ok r"
    and "project_field e = Some r \<Longrightarrow> field_entry_ok r" and "project_relation e = Some r \<Longrightarrow> relation_entry_ok r"
  using assms
  by (auto simp: project_collection_def collection_entry_ok_def project_field_def field_entry_ok_def
      project_relation_def relation_entry_ok_def operation_ok_def split: json.splits)

lemma project_fixed:
  "collection_entry_ok e \<Longrightarrow> isRecord e \<and> operation_ok (js_prop e ''operation'') \<and> project_collection e = Some e"
  "field_entry_ok e \<Longrightarrow> isRecord e \<and> operation_ok (js_prop e ''operation'') \<and> project_field e = Some e"
  "relation_entry_ok e \<Longrightarrow> isRecord e \<and> operation_ok (js_prop e ''operation'') \<and> project_relation e = Some e"
  by (auto simp: project_collection_def collection_entry_ok_def project_field_def field_entry_ok_def
      project_relation_def relation_entry_ok_def)

lemma projectPersistedState_ok:
  "projectPersistedState v = JStr ''unknown'' \<or> persisted_ok (projectPersistedState v)"
proof (cases "isRecord v")
  case True
  have "\<exists>cs. list_all collection_entry_ok cs \<and> projectEntries w project_collection = JArr cs"
    "\<exists>fs. list_all field_entry_ok fs \<and> projectEntries w project_field = JArr fs"
    "\<exists>rs. list_all relation_entry_ok rs \<and> projectEntries w project_relation = JArr rs" for w
    by (cases w; auto simp: projectEntries_def intro!: project_entry_list_all intro: project_ok)+
  with True show ?thesis unfolding projectPersistedState_def persisted_ok_def by auto metis
qed (simp add: projectPersistedState_def)

lemma projectPersistedState_id: "persisted_ok v \<Longrightarrow> projectPersistedState v = v"
  unfolding persisted_ok_def projectPersistedState_def
  by (auto simp: projectEntries_def project_entry_list_id[OF project_fixed(1)]
      project_entry_list_id[OF project_fixed(2)] project_entry_list_id[OF project_fixed(3)])

lemma js_get_append: "js_get (a @ b) f = (if js_has f a then js_get a f else js_get b f)"
  by (simp add: js_get_def js_has_iff map_add_def split: option.split)

lemma js_has_Cons [simp]: "js_has f ((k, v) # r) \<longleftrightarrow> f = k \<or> js_has f r"
  by (simp add: js_has_def)

lemma js_has_Nil [simp]: "\<not> js_has f []"
  by (simp add: js_has_def)

lemma opt_entry_simps [simp]:
  "js_has f (opt_entry k v) \<longleftrightarrow> f = k \<and> v \<noteq> JUndefined"
  "js_get (opt_entry k v) f = (if f = k then v else JUndefined)"
  by (simp_all add: opt_entry_def)

lemma run_record_entries:
  "js_get (run_record env start s fin) ''caller'' = normalizeCaller (cs_caller start)"
  "js_get (run_record env start s fin) ''userAgent'' = opt_text (userAgentFrom (cs_userAgent start))"
  "js_get (run_record env start s fin) ''result'' = js_get fin ''result''"
  "js_has ''errorCode'' fin \<Longrightarrow>
     js_get (run_record env start s fin) ''errorCode'' = JStr (normalizeErrorCode (js_get fin ''errorCode''))"
  "js_get (run_record env start s fin) ''steps'' = js_or (rs_steps s) (js_get fin ''steps'')"
  by (simp_all add: run_record_def Let_def js_get_append)

definition caller_ok :: "json \<Rightarrow> bool" where
  "caller_ok c \<longleftrightarrow> c = systemCaller \<or> c = JObj [(''kind'', JStr ''request'')] \<or>
     (\<exists>u r. isValidUuid u \<and> isValidUuid r \<and>
        c = JObj [(''kind'', JStr ''user''), (''user'', JStr u), (''role'', JStr r)])"

lemma normalizeCaller_ok: "caller_ok (normalizeCaller c)"
  by (auto simp: normalizeCaller_def caller_ok_def Let_def split: json.splits)

lemma normalizeCaller_fixed: "caller_ok c \<Longrightarrow> normalizeCaller c = c"
  by (auto simp: normalizeCaller_def caller_ok_def Let_def systemCaller_def)

definition log_text_ok :: "string \<Rightarrow> bool" where
  "log_text_ok s \<longleftrightarrow> length s \<le> 67 \<and> (\<forall>c\<in>set s. \<not> is_control c)"

lemma replaceControlCharacters_clean: "\<forall>c\<in>set (replaceControlCharacters s). \<not> is_control c"
  by (auto simp: replaceControlCharacters_def is_control_def)

lemma safeLogFragment_ok: "log_text_ok (safeLogFragment s 64)"
  using replaceControlCharacters_clean[of s]
  by (auto simp: log_text_ok_def safeLogFragment_def Let_def is_control_def dest: in_set_takeD)

lemma userAgentFrom_ok: "opt_text (userAgentFrom h) = JStr ua \<Longrightarrow> log_text_ok ua"
  by (auto simp: userAgentFrom_def opt_text_def safeLogFragment_ok split: json.splits option.splits if_splits)

lemma normalizeErrorCode_range: "normalizeErrorCode c \<in> insert UNEXPECTED_ERROR_CODE (set RUN_RECORD_ERROR_CODES)"
  by (auto simp: normalizeErrorCode_def split: json.splits)

lemma normalizeErrorCode_fixed:
  "c \<in> insert UNEXPECTED_ERROR_CODE (set RUN_RECORD_ERROR_CODES) \<Longrightarrow> normalizeErrorCode (JStr c) = c"
  by (auto simp: normalizeErrorCode_def)

lemma classify_range: "snd (classifyConfigError err) \<in> insert UNEXPECTED_ERROR_CODE (set RUN_RECORD_ERROR_CODES)"
proof (cases "first_thrown err")
  case (BaseException code ext)
  then have "snd (classifyConfigError err) = normalizeErrorCode (JStr code)"
    by (simp add: classifyConfigError_def Let_def)
  then show ?thesis by (simp only: normalizeErrorCode_range)
qed (simp_all add: classifyConfigError_def)

lemma normalizeErrorCode_post_commit:
  "c \<in> {''CONFIG_POST_COMMIT_FAILED'', ''SCHEMA_POST_COMMIT_FAILED''} \<Longrightarrow>
     normalizeErrorCode (JStr code) = c \<longleftrightarrow> code = c"
  by (auto simp: normalizeErrorCode_def RUN_RECORD_ERROR_CODES_def UNEXPECTED_ERROR_CODE_def)

lemma classify_committed:
  "fst (classifyConfigError err) = ''post_apply_failed'' \<longleftrightarrow> failureStatus err = Committed"
proof (cases "first_thrown err")
  case (BaseException code ext)
  show ?thesis
  proof (cases "code \<in> {''CONFIG_POST_COMMIT_FAILED'', ''SCHEMA_POST_COMMIT_FAILED''}")
    case True
    with normalizeErrorCode_post_commit[OF this] have "normalizeErrorCode (JStr code) = code" by simp
    with True BaseException show ?thesis
      by (elim insertE) (simp_all add: classifyConfigError_def failureStatus_def)
  next
    case False
    obtain n where n: "normalizeErrorCode (JStr code) = n" by simp
    with False normalizeErrorCode_post_commit
    have no: "n \<noteq> ''CONFIG_POST_COMMIT_FAILED''" "n \<noteq> ''SCHEMA_POST_COMMIT_FAILED''" by blast+
    have "fst (classifyConfigError err) \<noteq> ''post_apply_failed''"
      using no by (simp add: classifyConfigError_def BaseException n Let_def split del: if_split cong: if_cong)
        (simp split: if_split)
    moreover have "failureStatus err \<noteq> Committed"
      using False by (simp add: failureStatus_def BaseException)
    ultimately show ?thesis by simp
  qed
qed (simp_all add: classifyConfigError_def failureStatus_def)

text \<open>Attaching the outcome to an error does not change what is reported about it.\<close>

lemma attach_first:
  "first_thrown (attachRunOutcome err steps failure) = first_thrown err \<or>
   first_thrown (attachRunOutcome err steps failure) = attach_to (outcome_entries steps failure) (first_thrown err)"
proof (cases err)
  case (Other v)
  then show ?thesis
  proof (cases v)
    case (JArr vs)
    with Other show ?thesis by (cases vs) simp_all
  qed simp_all
next
  case (ErrorList es)
  then show ?thesis by (cases es) simp_all
qed simp

lemma attach_entries [simp]:
  "k \<noteq> ''steps'' \<Longrightarrow> k \<noteq> ''failure'' \<Longrightarrow>
     js_get (fold (\<lambda>(k, v). js_set k v) (outcome_entries steps failure) ext) k = js_get ext k"
  by (simp add: outcome_entries_def opt_entry_def)

lemma attach_to_same:
  "(\<exists>code ext. t = BaseException code ext \<and> attach_to es t = BaseException code (fold (\<lambda>(k, v). js_set k v) es ext)) \<or>
   (\<exists>v w. t = Other v \<and> attach_to es t = Other w) \<or> attach_to es t = t"
  by (cases "(es, t)" rule: attach_to.cases) auto

lemma attachRunOutcome_same:
  "failureStatus (attachRunOutcome err steps failure) = failureStatus err"
  "classifyConfigError (attachRunOutcome err steps failure) = classifyConfigError err"
  "failureDetail (attachRunOutcome err steps failure) = failureDetail err"
  using attach_first[of err steps failure]
    attach_to_same[of "first_thrown err" "outcome_entries steps failure"]
  unfolding failureStatus_def classifyConfigError_def failureDetail_def
  by (elim disjE exE conjE; simp only: thrown.case attach_entries Let_def list.inject char.inject simp_thms; fail)+

section \<open>Properties\<close>

definition detail_ok :: "json \<Rightarrow> bool" where
  "detail_ok d \<longleftrightarrow> (\<exists>phase. phase \<in> set POST_COMMIT_PHASES \<and> d = JObj [(''phase'', JStr phase)]) \<or>
     (\<exists>p rest. (p = JStr ''unknown'' \<or> persisted_ok p) \<and>
        (rest = [] \<or> rest = [(''foreignKeysRestored'', JBool False)]) \<and> d = JObj ((''persisted'', p) # rest))"

text \<open>
  C26: whatever was thrown, the failure detail relayed to the log and the caller has its declared shape:
  a known phase, or a persisted state whose entries hold names and known operations and outcomes only. A
  persisted state that has this shape is relayed unchanged.
\<close>

theorem failureDetail_sanitized:
  assumes "failureDetail err = Some d"
  shows "detail_ok d \<and>
    (\<forall>p ext. first_thrown err = BaseException ''SCHEMA_APPLY_FAILED'' ext \<and> js_get ext ''persisted'' = p \<and>
       persisted_ok p \<longrightarrow> js_prop d ''persisted'' = p)"
proof
  show "detail_ok d"
    using assms projectPersistedState_ok
    by (auto simp: failureDetail_def detail_ok_def Let_def split: thrown.splits if_splits json.splits)
  show "\<forall>p ext. first_thrown err = BaseException ''SCHEMA_APPLY_FAILED'' ext \<and> js_get ext ''persisted'' = p \<and>
      persisted_ok p \<longrightarrow> js_prop d ''persisted'' = p"
  proof (intro allI impI, elim conjE)
    fix p ext
    assume p: "first_thrown err = BaseException ''SCHEMA_APPLY_FAILED'' ext" "js_get ext ''persisted'' = p" "persisted_ok p"
    then have "p \<noteq> JStr ''unknown''" by (auto simp: persisted_ok_def)
    with p assms show "js_prop d ''persisted'' = p"
      by (auto simp: failureDetail_def Let_def projectPersistedState_id)
  qed
qed

definition demo_persisted :: json where
  "demo_persisted = JObj [(''collections'', JArr [JObj [(''collection'', JStr ''c''), (''operation'', JStr ''create''),
     (''table'', JStr ''applied''), (''metadata'', JStr ''reverted'')]]), (''fields'', JArr []), (''relations'', JArr [])]"

definition demo_failed :: thrown where
  "demo_failed = ErrorList [BaseException ''SCHEMA_APPLY_FAILED'' [(''secret'', JStr ''x''), (''persisted'', demo_persisted)]]"

lemma failureDetail_sanitized_witness:
  "\<exists>d. failureDetail demo_failed = Some d \<and> detail_ok d \<and> js_prop d ''persisted'' = demo_persisted"
proof -
  have "persisted_ok demo_persisted"
    by (simp add: persisted_ok_def demo_persisted_def collection_entry_ok_def operation_ok_def outcome_ok_def
        SCHEMA_OPERATIONS_def SCHEMA_CHANGE_OUTCOMES_def)
  moreover obtain d where "failureDetail demo_failed = Some d"
    by (simp add: failureDetail_def demo_failed_def Let_def)
  ultimately show ?thesis using failureDetail_sanitized[of demo_failed d] by (simp add: demo_failed_def)
qed

text \<open>
  C27: a run emits one record when its policy or the log style asks for it and the logger does not
  throw, and never more; its result or error is the body's. The record names only a system caller, a user with valid
  identifiers or a bare request, and only log-safe user agents. The record of a thrown error has a known error code,
  and says that the run failed after the commit exactly when the error's status is \<open>committed\<close>, also when the
  outcome was attached to the error.
\<close>

theorem withConfigRun_reports:
  "snd (withConfigRun env start body) = snd body \<and>
   length (fst (withConfigRun env start body)) =
     (if shouldEmit (re_log_style env) (cs_emit start) \<and> \<not> re_logger_fails env then 1 else 0) \<and>
   list_all (\<lambda>r. caller_ok (js_get r ''caller'') \<and>
      (case js_get r ''userAgent'' of JStr ua \<Rightarrow> log_text_ok ua | _ \<Rightarrow> True) \<and>
      (case snd body of
         Inl err \<Rightarrow>
           (js_get r ''result'' = JStr ''post_apply_failed'') = (failureStatus err = Committed) \<and>
           js_get r ''errorCode'' \<in> JStr ` insert UNEXPECTED_ERROR_CODE (set RUN_RECORD_ERROR_CODES) \<and>
           classifyConfigError (attachRunOutcome err steps failure) = classifyConfigError err
       | Inr finished \<Rightarrow> js_get r ''result'' = js_get finished ''result''))
     (fst (withConfigRun env start body))"
proof (cases "snd body")
  case (Inl err)
  obtain res code where c: "classifyConfigError err = (res, code)" by (cases "classifyConfigError err")
  then have code: "code \<in> insert UNEXPECTED_ERROR_CODE (set RUN_RECORD_ERROR_CODES)"
    using classify_range[of err] by simp
  have ua: "case opt_text (userAgentFrom h) of JStr ua \<Rightarrow> log_text_ok ua | _ \<Rightarrow> True" for h
    using userAgentFrom_ok by (simp split: json.split)
  from code have json_code: "JStr code \<in> JStr ` insert UNEXPECTED_ERROR_CODE (set RUN_RECORD_ERROR_CODES)"
    by (rule imageI)
  from classify_committed[of err] c have res: "(res = ''post_apply_failed'') = (failureStatus err = Committed)" by simp
  show ?thesis
    using Inl c res code ua normalizeErrorCode_fixed[OF code] normalizeCaller_ok
    by (simp add: withConfigRun_def run_finish_def emitConfigRunRecord_def Let_def run_record_entries
        attachRunOutcome_same json_code del: insert_iff image_insert)
next
  case (Inr fin)
  have ua: "case opt_text (userAgentFrom h) of JStr ua \<Rightarrow> log_text_ok ua | _ \<Rightarrow> True" for h
    using userAgentFrom_ok by (simp split: json.split)
  with Inr show ?thesis
    by (simp add: withConfigRun_def run_finish_def emitConfigRunRecord_def Let_def run_record_entries normalizeCaller_ok)
qed

end
