(* ===== verification/Config_Folders.thy ===== *)
theory Config_Folders
  imports Config_Kinds "HOL-Library.Multiset"
begin

text \<open>
  \<open>api/src/utils/config/handlers/folders.ts\<close> and \<open>folder-preparation.ts\<close>: validation of the desired folder
  tree and the order in which folders are created, moved and deleted. Validated trees have no parent
  cycle, a create never misses its parent, moves and deletes follow the tree. Folders are named by their
  keys, which validation makes distinct; the folder service is a parameter.
\<close>

section \<open>Validation\<close>

datatype folder_failure =
    DuplicateFolder string
  | OwnParent string
  | UnmanagedParent string string
  | ParentCycle "string list"

datatype folder_error = CurrentParentsMissing | FolderWalkFuel

text \<open>\<open>context.references\<close>, with the current parents a target read gives.\<close>

datatype folder_references = Current_state "(string \<Rightarrow> string option option) option" | Server_snapshot

definition parent_of_json :: "json \<Rightarrow> string option" where
  "parent_of_json v = (case v of JStr s \<Rightarrow> Some s | _ \<Rightarrow> None)"

definition declaresParent :: "json \<Rightarrow> bool" where
  "declaresParent document = (case document of JObj es \<Rightarrow> js_has ''parent'' es | _ \<Rightarrow> False)"

definition effectiveParent :: "folder_references \<Rightarrow> json \<Rightarrow> string option" where
  "effectiveParent references document =
     (if declaresParent document then parent_of_json (js_prop document ''parent'')
      else (case references of
              Current_state (Some parents) \<Rightarrow> (case parents (prop_text document ''key'') of Some p \<Rightarrow> p | None \<Rightarrow> None)
            | _ \<Rightarrow> None))"

fun duplicate_failures :: "json list \<Rightarrow> string list \<Rightarrow> folder_failure list" where
  "duplicate_failures [] keys = []"
| "duplicate_failures (document # ds) keys =
     (let key = prop_text document ''key'' in
      (if key \<in> set keys then [DuplicateFolder key] else []) @ duplicate_failures ds (js_add key keys))"

definition parent_failures :: "folder_references \<Rightarrow> string list \<Rightarrow> json \<Rightarrow> folder_failure list" where
  "parent_failures references keys document =
     (let key = prop_text document ''key''; parent = effectiveParent references document in
      if parent = Some key then [OwnParent key]
      else (case parent of
              Some p \<Rightarrow> if declaresParent document \<and> p \<notin> set keys then [UnmanagedParent key p] else []
            | None \<Rightarrow> []))"

text \<open>
  The walk up the parents from one document: \<open>None\<close> when the fuel runs out, otherwise the members of a
  new cycle, empty when the walk leaves the tree or joins a known cycle.
\<close>

fun cycle_walk :: "nat \<Rightarrow> (string \<Rightarrow> string option option) \<Rightarrow> string list \<Rightarrow> string list \<Rightarrow>
    string option \<Rightarrow> string list option" where
  "cycle_walk 0 parentByKey inCycle path cursor = None"
| "cycle_walk (Suc n) parentByKey inCycle path cursor =
     (case cursor of
        None \<Rightarrow> Some []
      | Some c \<Rightarrow>
          (case parentByKey c of
             None \<Rightarrow> Some []
           | Some parent \<Rightarrow>
               if c \<in> set inCycle then Some []
               else if c \<in> set path then Some (dropWhile (\<lambda>k. k \<noteq> c) path)
               else cycle_walk n parentByKey inCycle (path @ [c]) parent))"

fun cycle_failures :: "nat \<Rightarrow> (string \<Rightarrow> string option option) \<Rightarrow> string list \<Rightarrow> json list \<Rightarrow>
    folder_failure list option" where
  "cycle_failures n parentByKey inCycle [] = Some []"
| "cycle_failures n parentByKey inCycle (document # ds) =
     (let key = prop_text document ''key'' in
      if key \<in> set inCycle then cycle_failures n parentByKey inCycle ds
      else (case cycle_walk n parentByKey inCycle [] (Some key) of
              None \<Rightarrow> None
            | Some cycle \<Rightarrow>
                map_option (\<lambda>fs. (if length cycle > 1 then [ParentCycle cycle] else []) @ fs)
                  (cycle_failures n parentByKey (inCycle @ cycle) ds)))"

definition parent_map :: "folder_references \<Rightarrow> json list \<Rightarrow> string \<Rightarrow> string option option" where
  "parent_map references documents =
     map_of (rev (map (\<lambda>d. (prop_text d ''key'', effectiveParent references d)) documents))"

definition validate_folders :: "folder_references \<Rightarrow> json list \<Rightarrow> folder_error + folder_failure list" where
  "validate_folders references documents =
     (let keys = map (\<lambda>d. prop_text d ''key'') documents in
      if (case references of Current_state None \<Rightarrow> True | _ \<Rightarrow> False) \<and>
        (\<exists>d\<in>set documents. \<not> declaresParent d)
      then Inl CurrentParentsMissing
      else
        (case cycle_failures (Suc (length documents)) (parent_map references documents) [] documents of
           None \<Rightarrow> Inl FolderWalkFuel
         | Some cycles \<Rightarrow>
             Inr (duplicate_failures documents [] @
                  concat (map (parent_failures references keys) documents) @ cycles)))"

section \<open>Creates\<close>

text \<open>\<open>folder.parent\<close> when it is itself created; \<open>byKey\<close> is the map of the creates.\<close>

definition created_parent :: "json list \<Rightarrow> string \<Rightarrow> string list" where
  "created_parent creates key =
     (case map_of (rev (map (\<lambda>f. (prop_text f ''key'', f)) creates)) key of
        None \<Rightarrow> []
      | Some f \<Rightarrow>
          (case parent_of_json (js_prop f ''parent'') of
             None \<Rightarrow> []
           | Some p \<Rightarrow> if p \<in> set (map (\<lambda>f. prop_text f ''key'') creates) then [p] else []))"

definition topoSortCreates :: "json list \<Rightarrow> string list option" where
  "topoSortCreates creates =
     walk_all (created_parent creates) (length creates) (map (\<lambda>f. prop_text f ''key'') creates)"

datatype folder_apply_error =
    ParentNotFound string string
  | FolderNotFound string
  | FolderService string
  | FolderOrderFuel

text \<open>The create loop: \<open>createOne\<close> is the service, which takes the folder and its parent's id.\<close>

fun create_folders :: "(string \<Rightarrow> string option \<Rightarrow> string + string) \<Rightarrow> (string \<Rightarrow> string option) \<Rightarrow>
    string list \<Rightarrow> (string \<Rightarrow> string option) \<Rightarrow> folder_apply_error + string list" where
  "create_folders createOne parentKeyOf [] folderIdByKey = Inr []"
| "create_folders createOne parentKeyOf (key # ks) folderIdByKey =
     (let parentKey = parentKeyOf key;
          parentId = (case parentKey of None \<Rightarrow> None | Some p \<Rightarrow> folderIdByKey p)
      in case (parentKey, parentId) of
           (Some p, None) \<Rightarrow> Inl (ParentNotFound p key)
         | _ \<Rightarrow>
             (case createOne key parentId of
                Inl e \<Rightarrow> Inl (FolderService e)
              | Inr newId \<Rightarrow>
                  map_sum (\<lambda>e. e) (\<lambda>created. key # created)
                    (create_folders createOne parentKeyOf ks (folderIdByKey(key \<mapsto> newId)))))"

definition folder_parent :: "json list \<Rightarrow> string \<Rightarrow> string option" where
  "folder_parent creates key =
     (case map_of (rev (map (\<lambda>f. (prop_text f ''key'', f)) creates)) key of
        None \<Rightarrow> None | Some f \<Rightarrow> parent_of_json (js_prop f ''parent''))"

definition apply_folder_creates :: "(string \<Rightarrow> string option \<Rightarrow> string + string) \<Rightarrow> json list \<Rightarrow>
    (string \<Rightarrow> string option) \<Rightarrow> folder_apply_error + string list" where
  "apply_folder_creates createOne creates folderIdByKey =
     (if creates = [] then Inr []
      else (case topoSortCreates creates of
              None \<Rightarrow> Inl FolderOrderFuel
            | Some order \<Rightarrow> create_folders createOne (folder_parent creates) order folderIdByKey))"

section \<open>Moves\<close>

text \<open>
  \<open>depthOf\<close>: the number of parents above a folder in the desired tree; \<open>seen\<close> stops a cycle. The walk
  takes at most one step per listed folder and one more.
\<close>

definition desired_parent :: "(string \<times> string option) list \<Rightarrow> string \<Rightarrow> string option" where
  "desired_parent desiredParentByKey key =
     (case map_of desiredParentByKey key of None \<Rightarrow> None | Some p \<Rightarrow> p)"

fun depth_walk :: "nat \<Rightarrow> (string \<Rightarrow> string option) \<Rightarrow> string list \<Rightarrow> string option \<Rightarrow> nat \<Rightarrow> nat option" where
  "depth_walk 0 parentOf seen cursor depth = None"
| "depth_walk (Suc n) parentOf seen cursor depth =
     (case cursor of
        None \<Rightarrow> Some depth
      | Some c \<Rightarrow>
          if c \<in> set seen then Some depth
          else depth_walk n parentOf (js_add c seen) (parentOf c) (depth + 1))"

definition depthOf :: "(string \<times> string option) list \<Rightarrow> string \<Rightarrow> nat option" where
  "depthOf desiredParentByKey key =
     depth_walk (length desiredParentByKey + 2) (desired_parent desiredParentByKey) [key]
       (desired_parent desiredParentByKey key) 0"

text \<open>\<open>sort\<close> is stable; \<open>reparents\<close> are set on top of the stored parents first.\<close>

definition orderReparents :: "json list \<Rightarrow> (string \<times> string option) list \<Rightarrow> json list" where
  "orderReparents reparents desiredParentByKey =
     sort_key (\<lambda>u. case depthOf desiredParentByKey (prop_text u ''key'') of None \<Rightarrow> 0 | Some d \<Rightarrow> d) reparents"

definition new_parent :: "json \<Rightarrow> string option" where
  "new_parent u = parent_of_json (js_prop (js_prop (js_prop u ''changes'') ''parent'') ''after'')"

definition reparented_tree :: "json list \<Rightarrow> (string \<times> string option) list \<Rightarrow> (string \<times> string option) list" where
  "reparented_tree reparents rows = fold (\<lambda>u. js_set (prop_text u ''key'') (new_parent u)) reparents rows"

text \<open>The update order: renames first, then the moves.\<close>

definition folder_update_order :: "json list \<Rightarrow> (string \<times> string option) list \<Rightarrow> json list" where
  "folder_update_order updates rows =
     (let moves = (\<lambda>u. js_prop (js_prop u ''changes'') ''parent'' \<noteq> JUndefined);
          nameOnly = filter (\<lambda>u. \<not> moves u) updates; reparents = filter moves updates
      in nameOnly @ orderReparents reparents (reparented_tree reparents rows))"

section \<open>Deletes\<close>

text \<open>
  \<open>childrenOf\<close>: the deleted children of a deleted folder, in row order. A row is a key with its parent's
  key.
\<close>

definition deleted_children :: "string list \<Rightarrow> (string \<times> string option) list \<Rightarrow> string \<Rightarrow> string list" where
  "deleted_children deletes rows key =
     (if key \<in> set deletes
      then map fst (filter (\<lambda>(k, parent). parent = Some key \<and> k \<in> set deletes) rows)
      else [])"

definition folder_delete_order :: "string list \<Rightarrow> (string \<times> string option) list \<Rightarrow> string list option" where
  "folder_delete_order deletes rows = walk_all (deleted_children deletes rows) (length deletes) deletes"

section \<open>Validated trees have no cycle\<close>

definition parent_edges :: "(string \<Rightarrow> string option option) \<Rightarrow> (string \<times> string) set" where
  "parent_edges m = {(k, p). m k = Some (Some p) \<and> m p \<noteq> None}"

inductive leaves_tree :: "(string \<Rightarrow> string option option) \<Rightarrow> string option \<Rightarrow> bool" for m where
  "leaves_tree m None"
| "m c = None \<Longrightarrow> leaves_tree m (Some c)"
| "m c = Some p \<Longrightarrow> leaves_tree m p \<Longrightarrow> leaves_tree m (Some c)"

lemma leaves_tree_acyclic: "leaves_tree m x \<Longrightarrow> x = Some c \<Longrightarrow> (c, c) \<notin> (parent_edges m)\<^sup>+"
proof (induction arbitrary: c rule: leaves_tree.induct)
  case (2 k)
  have "\<And>b. (k, b) \<notin> (parent_edges m)\<^sup>+"
  proof
    fix b assume "(k, b) \<in> (parent_edges m)\<^sup>+"
    then obtain z where "(k, z) \<in> parent_edges m" by (meson tranclD)
    with 2 show False by (simp add: parent_edges_def)
  qed
  with 2 show ?case by simp
next
  case (3 k p)
  show ?case
  proof
    assume "(c, c) \<in> (parent_edges m)\<^sup>+"
    with 3 have cyc: "(k, k) \<in> (parent_edges m)\<^sup>+" by simp
    then obtain z where z: "(k, z) \<in> parent_edges m" "(z, k) \<in> (parent_edges m)\<^sup>*" by (meson tranclD)
    with 3 have "p = Some z" by (simp add: parent_edges_def)
    moreover have "(z, z) \<in> (parent_edges m)\<^sup>+" using z by (meson rtrancl_into_trancl1)
    ultimately show False using "3.IH" by simp
  qed
qed simp

lemma cycle_walk_empty:
  "cycle_walk n m [] path cursor = Some [] \<Longrightarrow> leaves_tree m cursor"
proof (induction n m "[] :: string list" path cursor rule: cycle_walk.induct)
  case (2 n m path cursor)
  then show ?case
    by (auto intro: leaves_tree.intros split: option.splits if_splits simp: dropWhile_eq_Nil_conv)
qed simp

lemma cycle_walk_total:
  "distinct path \<Longrightarrow> set path \<subseteq> dom m \<Longrightarrow> finite (dom m) \<Longrightarrow> card (dom m) - length path < n \<Longrightarrow>
     cycle_walk n m inc path cursor \<noteq> None"
proof (induction n m inc path cursor rule: cycle_walk.induct)
  case (2 n m inc path cursor)
  show ?case
  proof (cases cursor)
    case (Some c)
    show ?thesis
    proof (cases "m c")
      case (Some parent)
      have "cycle_walk n m inc (path @ [c]) parent \<noteq> None" if "c \<notin> set inc" "c \<notin> set path"
      proof (rule "2.IH"[OF \<open>cursor = Some c\<close> Some that])
        have "insert c (set path) \<subseteq> dom m" using Some "2.prems"(2) by auto
        from card_mono[OF "2.prems"(3) this] have "Suc (length path) \<le> card (dom m)"
          using "2.prems"(1) that(2) by (simp add: distinct_card)
        then show "card (dom m) - length (path @ [c]) < n" using "2.prems"(4) by simp
      qed (use "2.prems" Some that in auto)
      with Some \<open>cursor = Some c\<close> show ?thesis by simp
    qed (simp add: Some)
  qed simp
qed simp

lemma cycle_walk_single:
  "cycle_walk n m inc path cursor = Some [c] \<Longrightarrow> path = [] \<or> m (last path) = Some cursor \<Longrightarrow>
     m c = Some (Some c)"
proof (induction n m inc path cursor rule: cycle_walk.induct)
  case (2 n m inc path cursor)
  from 2(2) obtain k where k: "cursor = Some k" by (auto split: option.splits)
  with 2(2) obtain parent where parent: "m k = Some parent" by (auto split: option.splits)
  show ?case
  proof (cases "k \<in> set path")
    case True
    with 2(2) k parent have drop: "dropWhile (\<lambda>x. x \<noteq> k) path = [c]" by (auto split: if_splits)
    then have "c = k" using hd_dropWhile[of "\<lambda>x. x \<noteq> k" path] by simp
    moreover have "path = takeWhile (\<lambda>x. x \<noteq> k) path @ [c]"
      using takeWhile_dropWhile_id[of "\<lambda>x. x \<noteq> k" path] by (simp only: drop)
    then have "last path = c" by (metis last_snoc)
    ultimately show ?thesis using 2(3) k True by auto
  next
    case False
    with 2(2) k parent have "k \<notin> set inc" "cycle_walk n m inc (path @ [k]) parent = Some [c]"
      by (auto split: if_splits)
    from "2.IH"[OF k parent this(1) False this(2)] parent show ?thesis by simp
  qed
qed simp

lemma cycle_failures_none:
  "cycle_failures n m [] ds = Some [] \<Longrightarrow> \<forall>k. m k \<noteq> Some (Some k) \<Longrightarrow>
     \<forall>d\<in>set ds. leaves_tree m (Some (prop_text d ''key''))"
proof (induction ds)
  case (Cons d ds)
  from Cons.prems(1) obtain cycle fs where walk: "cycle_walk n m [] [] (Some (prop_text d ''key'')) = Some cycle"
    and rest: "cycle_failures n m cycle ds = Some fs" and short: "\<not> length cycle > 1" "fs = []"
    by (auto simp: Let_def split: option.splits if_splits)
  have "length cycle \<noteq> 1"
  proof
    assume "length cycle = 1"
    then obtain c where "cycle = [c]" by (auto simp: length_Suc_conv)
    with cycle_walk_single[of n m "[]" "[]"] walk Cons.prems(2) show False by auto
  qed
  with short have "cycle = []" by (cases cycle) auto
  with walk rest short Cons show ?case by (auto intro: cycle_walk_empty)
qed simp

lemma cycle_failures_total:
  "finite (dom m) \<Longrightarrow> card (dom m) < n \<Longrightarrow> cycle_failures n m inc ds \<noteq> None"
proof (induction ds arbitrary: inc)
  case (Cons d ds)
  have "cycle_walk n m inc [] (Some (prop_text d ''key'')) \<noteq> None"
    using cycle_walk_total[of "[]" m n] Cons.prems by simp
  with Cons show ?case by (auto simp: Let_def)
qed simp

lemma parent_map_dom: "dom (parent_map refs ds) = set (map (\<lambda>d. prop_text d ''key'') ds)"
  by (auto simp: parent_map_def dom_map_of_conv_image_fst image_image)

lemma duplicate_failures_none:
  "duplicate_failures ds keys = [] \<longleftrightarrow>
     distinct (map (\<lambda>d. prop_text d ''key'') ds) \<and> set (map (\<lambda>d. prop_text d ''key'') ds) \<inter> set keys = {}"
  by (induction ds arbitrary: keys) (auto simp: Let_def)

text \<open>
  C24: validation always returns, and a folder tree it accepts has distinct keys, only managed folders as
  declared parents, and no cycle of effective parents, whether declared or preserved.
\<close>

theorem validate_folders_sound:
  "validate_folders references documents \<noteq> Inl FolderWalkFuel \<and>
   (validate_folders references documents = Inr [] \<longrightarrow>
      distinct (map (\<lambda>d. prop_text d ''key'') documents) \<and>
      (\<forall>d\<in>set documents. \<forall>p. declaresParent d \<and> effectiveParent references d = Some p \<longrightarrow>
         p \<in> set (map (\<lambda>d. prop_text d ''key'') documents)) \<and>
      acyclic (parent_edges (parent_map references documents)))"
proof -
  let ?m = "parent_map references documents"
  have "card (dom ?m) < Suc (length documents)"
    unfolding parent_map_dom using card_length[of "map (\<lambda>d. prop_text d ''key'') documents"] by simp
  then have total: "cycle_failures (Suc (length documents)) ?m [] documents \<noteq> None"
    by (intro cycle_failures_total) (simp_all add: parent_map_dom)
  then have one: "validate_folders references documents \<noteq> Inl FolderWalkFuel"
    by (auto simp: validate_folders_def Let_def split: option.splits)
  have two: "distinct (map (\<lambda>d. prop_text d ''key'') documents) \<and>
      (\<forall>d\<in>set documents. \<forall>p. declaresParent d \<and> effectiveParent references d = Some p \<longrightarrow>
         p \<in> set (map (\<lambda>d. prop_text d ''key'') documents)) \<and> acyclic (parent_edges ?m)"
    if ok: "validate_folders references documents = Inr []"
  proof -
    from ok have cyc: "cycle_failures (Suc (length documents)) ?m [] documents = Some []"
      and dup: "duplicate_failures documents [] = []"
      and par: "\<forall>d\<in>set documents. parent_failures references (map (\<lambda>d. prop_text d ''key'') documents) d = []"
      by (auto simp: validate_folders_def Let_def split: option.splits if_splits)
    from par have own: "effectiveParent references d \<noteq> Some (prop_text d ''key'')" if "d \<in> set documents" for d
      using that by (force simp: parent_failures_def Let_def)
    have "?m k \<noteq> Some (Some k)" for k
    proof
      assume "?m k = Some (Some k)"
      then have "(k, Some k) \<in> set (map (\<lambda>d. (prop_text d ''key'', effectiveParent references d)) documents)"
        unfolding parent_map_def by (auto dest!: map_of_SomeD)
      then obtain d where "d \<in> set documents" "prop_text d ''key'' = k" "effectiveParent references d = Some k"
        by auto
      with own[of d] show False by simp
    qed
    with cycle_failures_none[OF cyc]
    have leaves: "\<forall>d\<in>set documents. leaves_tree ?m (Some (prop_text d ''key''))" by blast
    have "acyclic (parent_edges ?m)"
    proof (rule acyclicI, rule allI, rule notI)
      fix k assume k: "(k, k) \<in> (parent_edges ?m)\<^sup>+"
      then obtain z where "(k, z) \<in> parent_edges ?m" by (meson tranclD)
      then have "k \<in> dom ?m" by (auto simp: parent_edges_def)
      then obtain d where "d \<in> set documents" "prop_text d ''key'' = k" unfolding parent_map_dom by auto
      with leaves leaves_tree_acyclic k show False by blast
    qed
    moreover have "p \<in> set (map (\<lambda>d. prop_text d ''key'') documents)"
      if "d \<in> set documents" "declaresParent d" "effectiveParent references d = Some p" for d p
    proof (rule ccontr)
      assume "p \<notin> set (map (\<lambda>d. prop_text d ''key'') documents)"
      with that par own[OF that(1)] show False by (auto simp: parent_failures_def Let_def)
    qed
    ultimately show ?thesis using dup by (auto simp: duplicate_failures_none)
  qed
  from one two show ?thesis by blast
qed

definition demo_folder :: "string \<Rightarrow> string \<Rightarrow> json" where
  "demo_folder key parent = JObj [(''key'', JStr key), (''name'', JStr key),
     (''parent'', if parent = [] then JNull else JStr parent)]"

lemma validate_folders_sound_witness:
  "acyclic (parent_edges (parent_map Server_snapshot [demo_folder ''a'' [], demo_folder ''b'' ''a'']))"
proof -
  have "validate_folders Server_snapshot [demo_folder ''a'' [], demo_folder ''b'' ''a''] = Inr []" by code_simp
  with validate_folders_sound[of Server_snapshot "[demo_folder ''a'' [], demo_folder ''b'' ''a'']"]
  show ?thesis by blast
qed

section \<open>Creates find their parents\<close>

lemma create_folders_parents:
  "\<forall>ys k zs. ks = ys @ k # zs \<longrightarrow> (\<forall>p. parentKeyOf k = Some p \<longrightarrow> p \<in> set ys \<or> ids p \<noteq> None) \<Longrightarrow>
     (\<exists>e. create_folders createOne parentKeyOf ks ids = Inl (FolderService e)) \<or>
     create_folders createOne parentKeyOf ks ids = Inr ks"
proof (induction ks arbitrary: ids)
  case (Cons k ks)
  let ?pid = "case parentKeyOf k of None \<Rightarrow> None | Some p \<Rightarrow> ids p"
  have found: "\<forall>p. parentKeyOf k = Some p \<longrightarrow> ids p \<noteq> None"
    using Cons.prems by (metis append_Nil list.set(1) empty_iff)
  have later: "\<forall>ys k' zs. ks = ys @ k' # zs \<longrightarrow>
      (\<forall>p. parentKeyOf k' = Some p \<longrightarrow> p \<in> set ys \<or> (ids(k \<mapsto> v)) p \<noteq> None)" for v
  proof (intro allI impI)
    fix ys k' zs p assume "ks = ys @ k' # zs" "parentKeyOf k' = Some p"
    then have "k # ks = (k # ys) @ k' # zs" by simp
    with Cons.prems \<open>parentKeyOf k' = Some p\<close> have "p \<in> set (k # ys) \<or> ids p \<noteq> None" by blast
    then show "p \<in> set ys \<or> (ids(k \<mapsto> v)) p \<noteq> None" by auto
  qed
  show ?case
  proof (cases "createOne k ?pid")
    case (Inl e)
    with found show ?thesis by (auto simp: Let_def split: option.splits)
  next
    case (Inr v)
    with found Cons.IH[of "ids(k \<mapsto> v)", OF later[of v]] show ?thesis
      by (auto simp: Let_def fun_upd_def split: option.splits)
  qed
qed simp

lemma created_parent_known: "set (created_parent creates k) \<subseteq> set (map (\<lambda>f. prop_text f ''key'') creates)"
  by (auto simp: created_parent_def split: option.splits if_splits)

lemma topoSortCreates_total:
  "\<exists>order. topoSortCreates creates = Some order \<and> distinct order \<and>
     set order = set (map (\<lambda>f. prop_text f ''key'') creates) \<and>
     (acyclic (dep_rel (created_parent creates)) \<longrightarrow> deps_first (created_parent creates) order)"
proof -
  let ?keys = "map (\<lambda>f. prop_text f ''key'') creates"
  from walk_all_total[of ?keys ?keys "created_parent creates" "length creates"] created_parent_known
  obtain order where order: "topoSortCreates creates = Some order" "distinct order"
    "set order = (dep_rel (created_parent creates))\<^sup>* `` set ?keys"
    "acyclic (dep_rel (created_parent creates)) \<longrightarrow> deps_first (created_parent creates) order"
    unfolding topoSortCreates_def by auto
  have "(s, b) \<in> (dep_rel (created_parent creates))\<^sup>* \<Longrightarrow> s \<in> set ?keys \<Longrightarrow> b \<in> set ?keys" for s b
    by (induction rule: rtrancl_induct) (use created_parent_known in \<open>auto simp: dep_rel_def\<close>)
  then have "(dep_rel (created_parent creates))\<^sup>* `` set ?keys = set ?keys" by auto
  with order show ?thesis by auto
qed

lemma created_parent_folder:
  "folder_parent creates k = Some p \<Longrightarrow> p \<in> set (map (\<lambda>f. prop_text f ''key'') creates) \<Longrightarrow>
     p \<in> set (created_parent creates k)"
  by (auto simp: folder_parent_def created_parent_def split: option.splits)

text \<open>
  When the parents among the created folders form no cycle and every other parent already exists, the
  create step misses no parent: it creates every folder once, in some order, or reports the folder
  service's own failure.
\<close>

lemma apply_folder_creates_complete:
  assumes "acyclic (dep_rel (created_parent creates))"
    and "\<forall>k p. folder_parent creates k = Some p \<longrightarrow>
      p \<in> set (map (\<lambda>f. prop_text f ''key'') creates) \<or> folderIdByKey p \<noteq> None"
  shows "(\<exists>e. apply_folder_creates createOne creates folderIdByKey = Inl (FolderService e)) \<or>
    (\<exists>created. apply_folder_creates createOne creates folderIdByKey = Inr created \<and> distinct created \<and>
       set created = set (map (\<lambda>f. prop_text f ''key'') creates))"
proof (cases "creates = []")
  case False
  from topoSortCreates_total[of creates] assms(1) obtain order
    where order: "topoSortCreates creates = Some order" "distinct order"
      "set order = set (map (\<lambda>f. prop_text f ''key'') creates)" "deps_first (created_parent creates) order"
    by blast
  have "\<forall>ys k zs. order = ys @ k # zs \<longrightarrow>
      (\<forall>p. folder_parent creates k = Some p \<longrightarrow> p \<in> set ys \<or> folderIdByKey p \<noteq> None)"
    using order(4) assms(2) created_parent_folder unfolding deps_first_def by blast
  from create_folders_parents[OF this, of createOne] order False show ?thesis
    by (auto simp: apply_folder_creates_def)
qed (simp add: apply_folder_creates_def)

lemma apply_folder_creates_complete_witness:
  "\<exists>created. apply_folder_creates (\<lambda>k _. Inr k) [demo_folder ''b'' ''a'', demo_folder ''a'' []] (\<lambda>_. None) = Inr created \<and>
     set created = {''a'', ''b''}"
proof -
  let ?c = "[demo_folder ''b'' ''a'', demo_folder ''a'' []]"
  have succs: "created_parent ?c k = (if k = ''b'' then [''a''] else [])"
    and par: "folder_parent ?c k = (if k = ''b'' then Some ''a'' else None)" for k
    by (simp_all add: created_parent_def folder_parent_def demo_folder_def parent_of_json_def)
  have "dep_rel (created_parent ?c) = {(''b'', ''a'')}" by (auto simp: dep_rel_def succs split: if_splits)
  then have "acyclic (dep_rel (created_parent ?c))" by (simp add: acyclic_insert) (simp add: acyclic_def)
  moreover have "\<forall>k p. folder_parent ?c k = Some p \<longrightarrow> p \<in> set (map (\<lambda>f. prop_text f ''key'') ?c) \<or> (\<lambda>_. None) p \<noteq> None"
    unfolding par by (simp add: demo_folder_def)
  moreover have "apply_folder_creates (\<lambda>k _. Inr k) ?c (\<lambda>_. None) = Inr [''a'', ''b'']" by code_simp
  ultimately show ?thesis
    using apply_folder_creates_complete[of ?c "\<lambda>_. None" "\<lambda>k _. Inr k"] by (auto simp: demo_folder_def)
qed

section \<open>Moves go top down\<close>

inductive chain_length :: "(string \<Rightarrow> string option) \<Rightarrow> string option \<Rightarrow> nat \<Rightarrow> bool" for d where
  chain_root: "chain_length d None 0"
| chain_up: "chain_length d (d c) n \<Longrightarrow> chain_length d (Some c) (Suc n)"

inductive_cases chain_lengthE: "chain_length d None n" "chain_length d (Some c) n"

lemma chain_length_unique: "chain_length d x n \<Longrightarrow> chain_length d x n' \<Longrightarrow> n = n'"
proof (induction arbitrary: n' rule: chain_length.induct)
  case (chain_up c n)
  from chain_up.prems obtain k where "n' = Suc k" "chain_length d (d c) k" by (rule chain_lengthE(2))
  with chain_up.IH show ?case by simp
qed (auto elim: chain_lengthE(1))

lemma chain_length_exists:
  assumes "acyclic {(k, p). d k = Some p}" "finite {(k, p). d k = Some p}"
  shows "\<exists>n. chain_length d (Some c) n"
proof -
  have "wf ({(k, p). d k = Some p}\<inverse>)" by (rule finite_acyclic_wf_converse[OF assms(2,1)])
  then show ?thesis
  proof (induction c rule: wf_induct_rule)
    case (less c)
    show ?case
    proof (cases "d c")
      case None
      with chain_root[of d] show ?thesis by (metis chain_up)
    next
      case (Some p)
      with less[of p] obtain n where "chain_length d (Some p) n" by auto
      with Some show ?thesis by (metis chain_up)
    qed
  qed
qed

lemma chain_length_bound:
  "chain_length d x n \<Longrightarrow> finite U \<Longrightarrow> \<forall>k p. d k = Some p \<longrightarrow> k \<in> U \<Longrightarrow>
     \<exists>xs. length xs = n - 1 \<and> distinct xs \<and> set xs \<subseteq> U \<and>
       (\<forall>y\<in>set xs. \<exists>m\<le>n. chain_length d (Some y) m)"
proof (induction rule: chain_length.induct)
  case (chain_up c n)
  from chain_up.IH[OF chain_up.prems] obtain xs where xs: "length xs = n - 1" "distinct xs" "set xs \<subseteq> U"
    "\<forall>y\<in>set xs. \<exists>m\<le>n. chain_length d (Some y) m" by blast
  have c: "chain_length d (Some c) (Suc n)" using chain_up.hyps by (rule chain_length.chain_up)
  show ?case
  proof (cases n)
    case 0
    with xs show ?thesis by auto
  next
    case (Suc k)
    with chain_up.hyps obtain p where "d c = Some p" by (cases "d c") (auto elim: chain_lengthE)
    with chain_up.prems(2) have "c \<in> U" by blast
    moreover have "c \<notin> set xs"
    proof
      assume "c \<in> set xs"
      with xs(4) obtain m where "m \<le> n" "chain_length d (Some c) m" by blast
      with chain_length_unique[OF c, of m] show False by simp
    qed
    moreover have "\<forall>y\<in>set (c # xs). \<exists>m\<le>Suc n. chain_length d (Some y) m"
      using xs(4) c by (auto intro: le_SucI)
    ultimately show ?thesis using xs Suc by (intro exI[of _ "c # xs"]) auto
  qed
qed auto

lemma depth_walk_chain:
  "chain_length d cursor n \<Longrightarrow> n < fuel \<Longrightarrow> \<forall>s\<in>set seen. \<exists>m>n. chain_length d (Some s) m \<Longrightarrow>
     depth_walk fuel d seen cursor depth = Some (depth + n)"
proof (induction arbitrary: fuel seen depth rule: chain_length.induct)
  case chain_root
  then show ?case by (cases fuel) auto
next
  case (chain_up c n)
  have c: "chain_length d (Some c) (Suc n)" using chain_up.hyps by (rule chain_length.chain_up)
  from chain_up.prems obtain f where f: "fuel = Suc f" by (cases fuel) auto
  have "c \<notin> set seen"
  proof
    assume "c \<in> set seen"
    with chain_up.prems(2) obtain m where "m > Suc n" "chain_length d (Some c) m" by blast
    with chain_length_unique[OF c] show False by auto
  qed
  moreover have "\<forall>s\<in>set (js_add c seen). \<exists>m>n. chain_length d (Some s) m"
    using chain_up.prems(2) c by (auto intro: Suc_lessD)
  then have "depth_walk f d (js_add c seen) (d c) (depth + 1) = Some (depth + 1 + n)"
    using chain_up.prems(1) f by (intro chain_up.IH) auto
  ultimately show ?case by (simp add: f)
qed

lemma depthOf_chain:
  assumes "acyclic {(k, p). desired_parent m k = Some p}"
  shows "\<exists>n. depthOf m key = Some n \<and> chain_length (desired_parent m) (desired_parent m key) n"
proof -
  let ?d = "desired_parent m"
  have keys: "\<forall>k p. ?d k = Some p \<longrightarrow> k \<in> set (map fst m)"
    by (auto simp: desired_parent_def split: option.splits dest: map_of_SomeD) (metis fst_conv image_eqI map_of_SomeD)
  have "{(k, p). ?d k = Some p} \<subseteq> (\<lambda>k. (k, the (?d k))) ` set (map fst m)"
  proof clarify
    fix k p assume "?d k = Some p"
    with keys show "(k, p) \<in> (\<lambda>k. (k, the (?d k))) ` set (map fst m)"
      by (intro image_eqI[of _ _ k]) auto
  qed
  then have "finite {(k, p). ?d k = Some p}" by (rule finite_subset) simp
  from chain_length_exists[OF assms this] obtain n where "chain_length ?d (Some key) n" by blast
  then obtain k where n: "n = Suc k" and k: "chain_length ?d (?d key) k" by (rule chain_lengthE(2))
  from chain_length_bound[OF k _ keys] obtain xs where "length xs = k - 1" "distinct xs" "set xs \<subseteq> set (map fst m)"
    by auto
  then have "k - 1 \<le> card (set (map fst m))" using card_mono[of "set (map fst m)" "set xs"] by (simp add: distinct_card)
  also have "\<dots> \<le> length m" using card_length[of "map fst m"] by simp
  finally have "k - 1 \<le> length m" .
  then have "k < length m + 2" by simp
  moreover have "\<forall>s\<in>set [key]. \<exists>j>k. chain_length ?d (Some s) j"
    using chain_up[OF k] by auto
  ultimately have "depthOf m key = Some k"
    unfolding depthOf_def using depth_walk_chain[OF k, of "length m + 2" "[key]" 0] by simp
  with k show ?thesis by blast
qed

lemma split_after:
  "u \<notin> set A \<Longrightarrow> A @ B = ys @ u # zs \<Longrightarrow> \<exists>ys'. ys = A @ ys' \<and> B = ys' @ u # zs"
proof (induction A arbitrary: ys)
  case (Cons a A)
  then show ?case by (cases ys) auto
qed simp

text \<open>
  Renames keep their order and come first, and when the desired tree has no cycle the moves are
  ordered from the root down: a folder is never moved under one that is still to be moved.
\<close>

lemma moves_top_down:
  assumes "acyclic {(k, p). desired_parent (reparented_tree moves rows) k = Some p}"
    and "moves = filter (\<lambda>u. js_prop (js_prop u ''changes'') ''parent'' \<noteq> JUndefined) updates"
    and "u \<in> set moves" "v \<in> set moves"
    and "desired_parent (reparented_tree moves rows) (prop_text u ''key'') = Some (prop_text v ''key'')"
  shows "mset (folder_update_order updates rows) = mset updates \<and>
    (\<forall>ys zs. folder_update_order updates rows = ys @ u # zs \<longrightarrow> v \<in> set ys)"
proof -
  let ?m = "reparented_tree moves rows"
  let ?key = "\<lambda>u. case depthOf ?m (prop_text u ''key'') of None \<Rightarrow> 0 | Some d \<Rightarrow> d"
  let ?names = "filter (\<lambda>u. \<not> js_prop (js_prop u ''changes'') ''parent'' \<noteq> JUndefined) updates"
  have order: "folder_update_order updates rows = ?names @ sort_key ?key moves"
    by (simp add: folder_update_order_def orderReparents_def assms(2) Let_def)
  from depthOf_chain[OF assms(1)] obtain n where n: "depthOf ?m (prop_text v ''key'') = Some n"
    "chain_length (desired_parent ?m) (desired_parent ?m (prop_text v ''key'')) n" by blast
  have "chain_length (desired_parent ?m) (desired_parent ?m (prop_text u ''key'')) (Suc n)"
    unfolding assms(5) by (rule chain_up[OF n(2)])
  moreover from depthOf_chain[OF assms(1)] obtain k where k: "depthOf ?m (prop_text u ''key'') = Some k"
    "chain_length (desired_parent ?m) (desired_parent ?m (prop_text u ''key'')) k" by blast
  ultimately have less: "?key v < ?key u" using n k chain_length_unique by fastforce
  have "v \<in> set ys" if split: "?names @ sort_key ?key moves = ys @ u # zs" for ys zs
  proof -
    have "u \<notin> set ?names" using assms(2,3) by auto
    from split_after[OF this split]
    obtain ys' where ys: "ys = ?names @ ys'" "sort_key ?key moves = ys' @ u # zs" by blast
    have "sorted (map ?key (ys' @ u # zs))" using ys(2) sorted_sort_key[of ?key moves] by simp
    then have "\<forall>w\<in>set (u # zs). ?key u \<le> ?key w" by (auto simp: sorted_append)
    with less have "v \<notin> set (u # zs)" by fastforce
    moreover have "v \<in> set (ys' @ u # zs)" using ys(2) assms(4) by (metis set_sort)
    ultimately show ?thesis using ys(1) by auto
  qed
  then show ?thesis unfolding order by (auto simp: assms(2))
qed

definition demo_move :: "string \<Rightarrow> string \<Rightarrow> json" where
  "demo_move key parent = JObj [(''key'', JStr key), (''changes'', JObj [(''parent'',
     JObj [(''before'', JNull), (''after'', JStr parent)])])]"

section \<open>Deletes go bottom up\<close>

lemma deleted_children_known: "set (deleted_children deletes rows k) \<subseteq> set deletes"
  by (auto simp: deleted_children_def)

text \<open>
  The delete order always exists and lists every deleted folder once; when the stored parents of the
  deleted folders form no cycle, every deleted folder comes after all its deleted children.
\<close>

lemma deletes_bottom_up:
  "\<exists>order. folder_delete_order deletes rows = Some order \<and> distinct order \<and> set order = set deletes \<and>
     (acyclic {(k, c). k \<in> set deletes \<and> c \<in> set deletes \<and> (c, Some k) \<in> set rows} \<longrightarrow>
        (\<forall>ys k zs c. order = ys @ k # zs \<and> c \<in> set deletes \<and> (c, Some k) \<in> set rows \<longrightarrow> c \<in> set ys))"
proof -
  have rel: "dep_rel (deleted_children deletes rows) =
      {(k, c). k \<in> set deletes \<and> c \<in> set deletes \<and> (c, Some k) \<in> set rows}"
    by (auto simp: dep_rel_def deleted_children_def image_iff split: if_splits)
  obtain order where order: "folder_delete_order deletes rows = Some order" "distinct order"
    "set order = (dep_rel (deleted_children deletes rows))\<^sup>* `` set deletes"
    "acyclic (dep_rel (deleted_children deletes rows)) \<longrightarrow> deps_first (deleted_children deletes rows) order"
    using walk_all_total[of deletes deletes "deleted_children deletes rows" "length deletes"]
      deleted_children_known[of deletes rows] by (auto simp: folder_delete_order_def)
  have "(s, b) \<in> (dep_rel (deleted_children deletes rows))\<^sup>* \<Longrightarrow> s \<in> set deletes \<Longrightarrow> b \<in> set deletes" for s b
    by (induction rule: rtrancl_induct) (auto simp: rel)
  then have all: "set order = set deletes" using order(3) by auto
  have "c \<in> set ys" if "deps_first (deleted_children deletes rows) order" "order = ys @ k # zs"
    "c \<in> set deletes" "(c, Some k) \<in> set rows" for ys k zs c
  proof -
    have "k \<in> set deletes" using all that(2) by auto
    then have "(k, c) \<in> dep_rel (deleted_children deletes rows)" using that by (simp add: rel)
    with that(1,2) show ?thesis by (auto simp: deps_first_def dep_rel_def)
  qed
  with order all show ?thesis unfolding rel by blast
qed

text \<open>
  C25: renames keep their order and come first, and when the desired tree has no cycle the moves are ordered from the
  root down: a folder is never moved under one that is still to be moved. The delete order always exists and lists every
  deleted folder once; when the stored parents of the deleted folders form no cycle, every deleted folder comes after all
  its deleted children.
\<close>

theorem folder_order_safe:
  "(acyclic {(k, p). desired_parent (reparented_tree moves rows) k = Some p} \<and>
      moves = filter (\<lambda>u. js_prop (js_prop u ''changes'') ''parent'' \<noteq> JUndefined) updates \<and> u \<in> set moves \<and> v \<in> set moves \<and>
      desired_parent (reparented_tree moves rows) (prop_text u ''key'') = Some (prop_text v ''key'') \<longrightarrow>
    mset (folder_update_order updates rows) = mset updates \<and>
    (\<forall>ys zs. folder_update_order updates rows = ys @ u # zs \<longrightarrow> v \<in> set ys)) \<and>
   (\<exists>order. folder_delete_order deletes rows = Some order \<and> distinct order \<and> set order = set deletes \<and>
     (acyclic {(k, c). k \<in> set deletes \<and> c \<in> set deletes \<and> (c, Some k) \<in> set rows} \<longrightarrow>
        (\<forall>ys k zs c. order = ys @ k # zs \<and> c \<in> set deletes \<and> (c, Some k) \<in> set rows \<longrightarrow> c \<in> set ys)))"
  using moves_top_down[of moves rows updates u v] deletes_bottom_up[of deletes rows] by blast

lemma folder_order_safe_witness:
  "mset (folder_update_order [demo_move ''c'' ''b'', demo_move ''b'' ''a'']
      [(''a'', None), (''b'', None), (''c'', None)]) = mset [demo_move ''c'' ''b'', demo_move ''b'' ''a''] \<and>
   (\<exists>order. folder_delete_order [''a'', ''b''] [(''a'', None), (''b'', None), (''c'', None)] = Some order \<and> distinct order)"
proof -
  let ?u = "demo_move ''c'' ''b''" and ?v = "demo_move ''b'' ''a''"
  let ?rows = "[(''a'', None), (''b'', None), (''c'', None)] :: (string \<times> string option) list"
  have tree: "reparented_tree [?u, ?v] ?rows = [(''a'', None), (''b'', Some ''a''), (''c'', Some ''b'')]" by code_simp
  have "{(k, p). desired_parent [(''a'', None), (''b'', Some ''a''), (''c'', Some ''b'')] k = Some p} =
      {(''c'', ''b''), (''b'', ''a'')}"
    by (auto simp: desired_parent_def split: if_splits)
  then have acy: "acyclic {(k, p). desired_parent (reparented_tree [?u, ?v] ?rows) k = Some p}"
    unfolding tree by (auto simp: acyclic_insert acyclic_def[of "{}"] elim: converse_rtranclE)
  have moves: "[?u, ?v] = filter (\<lambda>u. js_prop (js_prop u ''changes'') ''parent'' \<noteq> JUndefined) [?u, ?v]"
    by (simp add: demo_move_def)
  have up: "desired_parent (reparented_tree [?u, ?v] ?rows) (prop_text ?u ''key'') = Some (prop_text ?v ''key'')"
    unfolding tree by (simp add: desired_parent_def demo_move_def)
  show ?thesis
    using folder_order_safe[of "[?u, ?v]" ?rows "[?u, ?v]" ?u ?v "[''a'', ''b'']"] acy moves up by auto
qed

end
