(* ===== verification/Subscriptions.thy ===== *)
theory Subscriptions
  imports Js_Text
begin

text \<open>
  \<open>api/src/websocket/subscriptions.ts\<close>: the registry of realtime subscriptions. The reservations and the
  waits on them are mutable objects that closures share, so they live in two stores of the state, and a reservation
  or wait is named by its place there. The three maps of sets hold the names of reservations.
\<close>

section \<open>Maps of sets\<close>

definition addTo :: "'k \<Rightarrow> nat \<Rightarrow> ('k \<times> nat list) list \<Rightarrow> ('k \<times> nat list) list" where
  "addTo key r m = (let reservations = (case map_of m key of None \<Rightarrow> [] | Some rs \<Rightarrow> rs) in
     js_set key (js_add r reservations) m)"

definition deleteFrom :: "'k \<Rightarrow> nat \<Rightarrow> ('k \<times> nat list) list \<Rightarrow> ('k \<times> nat list) list" where
  "deleteFrom key r m =
     (case map_of m key of
        None \<Rightarrow> m
      | Some rs \<Rightarrow> (let rest = filter (\<lambda>x. x \<noteq> r) rs in if rest = [] then js_delete key m else js_set key rest m))"

definition members :: "('k \<times> nat list) list \<Rightarrow> 'k \<Rightarrow> nat list" where
  "members m key = (case map_of m key of None \<Rightarrow> [] | Some rs \<Rightarrow> rs)"

definition sets_ok :: "('k \<times> nat list) list \<Rightarrow> bool" where
  "sets_ok m \<longleftrightarrow> distinct (map fst m) \<and> (\<forall>k rs. map_of m k = Some rs \<longrightarrow> rs \<noteq> [] \<and> distinct rs)"

lemma members_addTo [simp]:
  "members (addTo k r m) j = (if j = k then js_add r (members m k) else members m j)"
  by (simp add: members_def addTo_def Let_def)

lemma members_deleteFrom [simp]:
  "members (deleteFrom k r m) j = (if j = k then filter (\<lambda>x. x \<noteq> r) (members m k) else members m j)"
  by (auto simp: members_def deleteFrom_def Let_def split: option.splits)

lemma members_ok: "sets_ok m \<Longrightarrow> distinct (members m k)"
  by (auto simp: sets_ok_def members_def split: option.split)

lemma members_Nil_iff: "sets_ok m \<Longrightarrow> members m k = [] \<longleftrightarrow> k \<notin> set (map fst m)"
  using map_of_eq_None_iff[of m k] by (auto simp: sets_ok_def members_def split: option.split)

lemma sets_ok_Nil [simp]: "sets_ok []"
  by (simp add: sets_ok_def)

lemma sets_ok_addTo: "sets_ok m \<Longrightarrow> sets_ok (addTo k r m)"
  using members_ok[of m k]
  by (auto simp: sets_ok_def addTo_def Let_def members_def js_add_def split: option.splits)

lemma sets_ok_deleteFrom: "sets_ok m \<Longrightarrow> sets_ok (deleteFrom k r m)"
  by (auto simp: sets_ok_def deleteFrom_def Let_def simp del: map_of_eq_Some_iff split: option.splits if_splits)

section \<open>State\<close>

record subscription =
  sb_client :: nat
  sb_collection :: string
  sb_query :: json
  sb_uid :: "string option"
  sb_event :: "string option"
  sb_item :: "string option"
  sb_sink :: bool

datatype reservation_status = Initializing | Active | Removed

record reservation =
  rv_subscription :: subscription
  rv_generation :: int
  rv_status :: reservation_status
  rv_settled :: bool
  rv_listeners :: "nat list"

text \<open>A call of \<open>waitForSettled\<close>: what it was given, its signal, its counter, where its listener is registered.\<close>

record settle_wait =
  wt_reservations :: "nat list"
  wt_aborted :: bool
  wt_remaining :: int
  wt_disposers :: "nat list"
  wt_resolved :: bool

record registry_state =
  sr_lastGeneration :: int
  sr_totalCount :: int
  sr_overloaded :: bool
  sr_unavailable :: bool
  sr_byClient :: "(nat \<times> nat list) list"
  sr_active :: "(string \<times> nat list) list"
  sr_initializing :: "(string \<times> nat list) list"
  sr_store :: "reservation list"
  sr_waits :: "settle_wait list"

definition new_registry :: registry_state where
  "new_registry = \<lparr>sr_lastGeneration = 0, sr_totalCount = 0, sr_overloaded = False, sr_unavailable = False,
     sr_byClient = [], sr_active = [], sr_initializing = [], sr_store = [], sr_waits = []\<rparr>"

definition SUBSCRIPTIONS_PER_CONNECTION :: nat where
  "SUBSCRIPTIONS_PER_CONNECTION = 100"

definition SUBSCRIPTIONS_PER_PROCESS :: int where
  "SUBSCRIPTIONS_PER_PROCESS = 10000"

text \<open>\<open>String(key)\<close> of a string or integer key.\<close>

definition canonicalItemKey :: "string + int \<Rightarrow> string" where
  "canonicalItemKey key = (case key of Inl s \<Rightarrow> s | Inr n \<Rightarrow> to_radix 10 n)"

section \<open>Settling\<close>

definition upd_reservation :: "nat \<Rightarrow> (reservation \<Rightarrow> reservation) \<Rightarrow> registry_state \<Rightarrow> registry_state" where
  "upd_reservation r f s = s\<lparr>sr_store := (sr_store s)[r := f (sr_store s ! r)]\<rparr>"

definition upd_wait :: "nat \<Rightarrow> (settle_wait \<Rightarrow> settle_wait) \<Rightarrow> registry_state \<Rightarrow> registry_state" where
  "upd_wait w f s = s\<lparr>sr_waits := (sr_waits s)[w := f (sr_waits s ! w)]\<rparr>"

definition dispose :: "nat \<Rightarrow> nat \<Rightarrow> registry_state \<Rightarrow> registry_state" where
  "dispose w r = upd_reservation r (\<lambda>v. v\<lparr>rv_listeners := filter (\<lambda>x. x \<noteq> w) (rv_listeners v)\<rparr>)"

definition finish_wait :: "nat \<Rightarrow> registry_state \<Rightarrow> registry_state" where
  "finish_wait w s =
     upd_wait w (\<lambda>v. v\<lparr>wt_resolved := True\<rparr>) (fold (dispose w) (wt_disposers (sr_waits s ! w)) s)"

definition settle_listener :: "nat \<Rightarrow> registry_state \<Rightarrow> registry_state" where
  "settle_listener w s =
     (let s1 = upd_wait w (\<lambda>v. v\<lparr>wt_remaining := wt_remaining v - 1\<rparr>) s in
      if wt_remaining (sr_waits s1 ! w) = 0 then finish_wait w s1 else s1)"

definition notifySettled :: "nat \<Rightarrow> registry_state \<Rightarrow> registry_state" where
  "notifySettled r s =
     (if rv_settled (sr_store s ! r) then s
      else
        (let s1 = upd_reservation r (\<lambda>v. v\<lparr>rv_settled := True\<rparr>) s;
             s2 = fold settle_listener (rv_listeners (sr_store s1 ! r)) s1
         in upd_reservation r (\<lambda>v. v\<lparr>rv_listeners := []\<rparr>) s2))"

text \<open>
  \<open>waitForSettled\<close>: the pending reservations are those that have not settled when it is called. Every pending
  one registers the listener of the new wait.
\<close>

definition onSettled :: "nat \<Rightarrow> nat \<Rightarrow> registry_state \<Rightarrow> registry_state" where
  "onSettled w r s =
     (if rv_settled (sr_store s ! r) then settle_listener w s
      else upd_reservation r (\<lambda>v. v\<lparr>rv_listeners := js_add w (rv_listeners v)\<rparr>) s)"

definition waitForSettled :: "nat list \<Rightarrow> bool \<Rightarrow> registry_state \<Rightarrow> registry_state" where
  "waitForSettled reservations aborted s =
     (let pending = filter (\<lambda>r. \<not> rv_settled (sr_store s ! r)) reservations;
          immediate = (pending = [] \<or> aborted);
          w = \<lparr>wt_reservations = reservations, wt_aborted = aborted, wt_remaining = int (length pending),
               wt_disposers = (if immediate then [] else pending), wt_resolved = immediate\<rparr>;
          s1 = s\<lparr>sr_waits := sr_waits s @ [w]\<rparr>
      in if immediate then s1 else fold (onSettled (length (sr_waits s))) pending s1)"

text \<open>The abort event of a wait's signal; its listener is removed when the wait has finished.\<close>

definition abort_wait :: "nat \<Rightarrow> registry_state \<Rightarrow> registry_state" where
  "abort_wait w s =
     (let s1 = upd_wait w (\<lambda>v. v\<lparr>wt_aborted := True\<rparr>) s in
      if wt_resolved (sr_waits s ! w) then s1 else finish_wait w s1)"

section \<open>Operations\<close>

definition enterOverload :: "registry_state \<Rightarrow> registry_state" where
  "enterOverload s = s\<lparr>sr_overloaded := True\<rparr>"

definition exitOverload :: "registry_state \<Rightarrow> registry_state" where
  "exitOverload s = s\<lparr>sr_overloaded := False\<rparr>"

definition markUnavailable :: "registry_state \<Rightarrow> registry_state" where
  "markUnavailable s = s\<lparr>sr_unavailable := True\<rparr>"

definition addToClient :: "nat \<Rightarrow> nat \<Rightarrow> (nat \<times> nat list) list \<Rightarrow> (nat \<times> nat list) list" where
  "addToClient client r m = addTo client r m"

definition deleteFromClient :: "nat \<Rightarrow> nat \<Rightarrow> (nat \<times> nat list) list \<Rightarrow> (nat \<times> nat list) list" where
  "deleteFromClient client r m = deleteFrom client r m"

datatype reserve_refusal = Reserve_limit | Reserve_unavailable

definition reserve_subscription :: "subscription \<Rightarrow> registry_state \<Rightarrow> (reserve_refusal + nat) \<times> registry_state" where
  "reserve_subscription sub s =
     (if sr_overloaded s \<or> sr_unavailable s then (Inl Reserve_unavailable, s)
      else if length (members (sr_byClient s) (sb_client sub)) \<ge> SUBSCRIPTIONS_PER_CONNECTION then (Inl Reserve_limit, s)
      else if sr_totalCount s \<ge> SUBSCRIPTIONS_PER_PROCESS then (Inl Reserve_limit, s)
      else
        (let generation = sr_lastGeneration s + 1;
             r = length (sr_store s);
             reservation = \<lparr>rv_subscription = sub, rv_generation = generation, rv_status = Initializing,
                            rv_settled = False, rv_listeners = []\<rparr>
         in (Inr r, s\<lparr>sr_lastGeneration := generation, sr_store := sr_store s @ [reservation],
               sr_byClient := addToClient (sb_client sub) r (sr_byClient s),
               sr_initializing := addTo (sb_collection sub) r (sr_initializing s),
               sr_totalCount := sr_totalCount s + 1\<rparr>)))"

definition isActive :: "nat \<Rightarrow> registry_state \<Rightarrow> bool" where
  "isActive r s \<longleftrightarrow> rv_status (sr_store s ! r) = Active"

abbreviation rv_collection :: "reservation \<Rightarrow> string" where
  "rv_collection v \<equiv> sb_collection (rv_subscription v)"

abbreviation rv_client :: "reservation \<Rightarrow> nat" where
  "rv_client v \<equiv> sb_client (rv_subscription v)"

definition activate :: "nat \<Rightarrow> registry_state \<Rightarrow> registry_state" where
  "activate r s =
     (let v = sr_store s ! r in
      if rv_status v \<noteq> Initializing then s
      else
        (let s1 = upd_reservation r (\<lambda>v. v\<lparr>rv_status := Active\<rparr>) s;
             s2 = s1\<lparr>sr_initializing := deleteFrom (rv_collection v) r (sr_initializing s1)\<rparr>;
             s3 = s2\<lparr>sr_active := addTo (rv_collection v) r (sr_active s2)\<rparr>
         in notifySettled r s3))"

definition remove_reservation :: "nat \<Rightarrow> registry_state \<Rightarrow> registry_state" where
  "remove_reservation r s =
     (let v = sr_store s ! r in
      if rv_status v = Removed then s
      else
        (let s1 = (if rv_status v = Active
                   then s\<lparr>sr_active := deleteFrom (rv_collection v) r (sr_active s)\<rparr>
                   else s\<lparr>sr_initializing := deleteFrom (rv_collection v) r (sr_initializing s)\<rparr>);
             s2 = upd_reservation r (\<lambda>v. v\<lparr>rv_status := Removed\<rparr>) s1;
             s3 = s2\<lparr>sr_byClient := deleteFromClient (rv_client v) r (sr_byClient s2)\<rparr>;
             s4 = s3\<lparr>sr_totalCount := sr_totalCount s3 - 1\<rparr>
         in notifySettled r s4))"

text \<open>The generation and the reservations the barrier of a context waits for.\<close>

definition captureDispatchContext :: "string \<Rightarrow> registry_state \<Rightarrow> int \<times> nat list" where
  "captureDispatchContext collection s = (sr_lastGeneration s, members (sr_initializing s) collection)"

definition getActiveByCollection :: "string \<Rightarrow> int \<Rightarrow> registry_state \<Rightarrow> nat list" where
  "getActiveByCollection collection maxGeneration s =
     filter (\<lambda>r. rv_generation (sr_store s ! r) \<le> maxGeneration) (members (sr_active s) collection)"

definition getSubscribedOwners :: "registry_state \<Rightarrow> nat list" where
  "getSubscribedOwners s = map fst (sr_byClient s)"

definition removeByUid :: "nat \<Rightarrow> string \<Rightarrow> registry_state \<Rightarrow> registry_state" where
  "removeByUid client uid s =
     (case filter (\<lambda>r. sb_uid (rv_subscription (sr_store s ! r)) = Some uid) (members (sr_byClient s) client) of
        [] \<Rightarrow> s
      | r # _ \<Rightarrow> remove_reservation r s)"

definition removeAllForClient :: "nat \<Rightarrow> registry_state \<Rightarrow> registry_state" where
  "removeAllForClient client s = fold remove_reservation (members (sr_byClient s) client) s"

section \<open>The invariant\<close>

text \<open>The sets hold what their names say, and the counter counts.\<close>

definition live :: "reservation \<Rightarrow> bool" where
  "live v \<longleftrightarrow> rv_status v \<noteq> Removed"

definition indexed :: "('k \<times> nat list) list \<Rightarrow> (reservation \<Rightarrow> 'k) \<Rightarrow> (reservation \<Rightarrow> bool) \<Rightarrow> reservation list \<Rightarrow> bool" where
  "indexed m key P store \<longleftrightarrow> sets_ok m \<and>
     (\<forall>k. set (members m k) = {r. r < length store \<and> key (store ! r) = k \<and> P (store ! r)})"

definition sets_inv :: "registry_state \<Rightarrow> bool" where
  "sets_inv s \<longleftrightarrow>
     indexed (sr_byClient s) rv_client live (sr_store s) \<and>
     indexed (sr_active s) rv_collection (\<lambda>v. rv_status v = Active) (sr_store s) \<and>
     indexed (sr_initializing s) rv_collection (\<lambda>v. rv_status v = Initializing) (sr_store s) \<and>
     sr_totalCount s = count_if live (sr_store s) \<and> sr_totalCount s \<le> SUBSCRIPTIONS_PER_PROCESS \<and>
     (\<forall>c. length (members (sr_byClient s) c) \<le> SUBSCRIPTIONS_PER_CONNECTION) \<and>
     sr_lastGeneration s = int (length (sr_store s)) \<and>
     (\<forall>r<length (sr_store s). rv_generation (sr_store s ! r) = int r + 1)"

text \<open>
  What the waits rely on. \<open>ws\<close> are the waits that still have to hear that reservation \<open>x\<close> has settled, when
  that is being announced.
\<close>

definition unsettled :: "registry_state \<Rightarrow> settle_wait \<Rightarrow> nat" where
  "unsettled s v = length (filter (\<lambda>r. \<not> rv_settled (sr_store s ! r)) (wt_disposers v))"

definition wait_inv :: "nat option \<Rightarrow> nat list \<Rightarrow> registry_state \<Rightarrow> nat \<Rightarrow> bool" where
  "wait_inv x ws s w \<longleftrightarrow>
     (let v = sr_waits s ! w in
      distinct (wt_disposers v) \<and> set (wt_disposers v) \<subseteq> {..<length (sr_store s)} \<and>
      set (wt_reservations v) \<subseteq> {..<length (sr_store s)} \<and>
      (wt_resolved v \<longrightarrow> w \<notin> set ws \<and>
         (wt_aborted v \<or> (\<forall>r\<in>set (wt_reservations v). rv_settled (sr_store s ! r)))) \<and>
      (\<not> wt_resolved v \<longrightarrow> wt_remaining v = int (unsettled s v) + of_bool (w \<in> set ws) \<and> 0 < wt_remaining v \<and>
         \<not> wt_aborted v \<and> set (wt_disposers v) \<subseteq> set (wt_reservations v) \<and>
         (\<forall>r\<in>set (wt_reservations v) - set (wt_disposers v). rv_settled (sr_store s ! r))) \<and>
      (\<forall>r<length (sr_store s). x \<noteq> Some r \<longrightarrow>
         (w \<in> set (rv_listeners (sr_store s ! r)) \<longleftrightarrow>
            \<not> wt_resolved v \<and> r \<in> set (wt_disposers v) \<and> \<not> rv_settled (sr_store s ! r))))"

definition listeners_inv :: "registry_state \<Rightarrow> bool" where
  "listeners_inv s \<longleftrightarrow>
     (\<forall>r<length (sr_store s). distinct (rv_listeners (sr_store s ! r)) \<and>
        set (rv_listeners (sr_store s ! r)) \<subseteq> {..<length (sr_waits s)})"

definition waits_inv :: "nat option \<Rightarrow> nat list \<Rightarrow> registry_state \<Rightarrow> bool" where
  "waits_inv x ws s \<longleftrightarrow> listeners_inv s \<and> (\<forall>w<length (sr_waits s). wait_inv x ws s w)"

definition settled_inv :: "registry_state \<Rightarrow> bool" where
  "settled_inv s \<longleftrightarrow>
     (\<forall>r<length (sr_store s). rv_settled (sr_store s ! r) \<longleftrightarrow> rv_status (sr_store s ! r) \<noteq> Initializing)"

definition registry_inv :: "registry_state \<Rightarrow> bool" where
  "registry_inv s \<longleftrightarrow> sets_inv s \<and> settled_inv s \<and> waits_inv None [] s"

section \<open>Settling keeps the sets\<close>

text \<open>The part of a state that settling does not touch, and the part of a reservation.\<close>

definition core :: "registry_state \<Rightarrow> _" where
  "core s = (sr_lastGeneration s, sr_totalCount s, sr_overloaded s, sr_unavailable s, sr_byClient s, sr_active s,
     sr_initializing s, map (\<lambda>v. (rv_subscription v, rv_generation v, rv_status v)) (sr_store s))"

lemma core_length: "core s = core t \<Longrightarrow> length (sr_store s) = length (sr_store t)"
  unfolding core_def prod.inject by (elim conjE map_eq_imp_length_eq)

lemma core_nth:
  assumes "core s = core t" "r < length (sr_store t)"
  shows "rv_subscription (sr_store s ! r) = rv_subscription (sr_store t ! r)"
    "rv_generation (sr_store s ! r) = rv_generation (sr_store t ! r)"
    "rv_status (sr_store s ! r) = rv_status (sr_store t ! r)"
proof -
  let ?p = "\<lambda>v. (rv_subscription v, rv_generation v, rv_status v)"
  from assms(1) have "map ?p (sr_store s) = map ?p (sr_store t)" by (simp add: core_def)
  then have "map ?p (sr_store s) ! r = map ?p (sr_store t) ! r" by simp
  then have "?p (sr_store s ! r) = ?p (sr_store t ! r)" using assms core_length[OF assms(1)] by simp
  then show "rv_subscription (sr_store s ! r) = rv_subscription (sr_store t ! r)"
    "rv_generation (sr_store s ! r) = rv_generation (sr_store t ! r)"
    "rv_status (sr_store s ! r) = rv_status (sr_store t ! r)" by simp_all
qed

lemma core_upd_wait [simp]: "core (upd_wait w f s) = core s"
  by (simp add: core_def upd_wait_def)

lemma core_upd_reservation:
  assumes "\<And>v. rv_subscription (f v) = rv_subscription v \<and> rv_generation (f v) = rv_generation v \<and> rv_status (f v) = rv_status v"
  shows "core (upd_reservation r f s) = core s"
  using assms by (cases "r < length (sr_store s)")
    (simp_all add: core_def upd_reservation_def map_update list_update_beyond list_update_same_conv)

lemma core_fold: "(\<And>x t. core (f x t) = core t) \<Longrightarrow> core (fold f xs s) = core s"
  by (induction xs arbitrary: s) simp_all

lemma core_dispose [simp]: "core (dispose w r s) = core s"
  by (simp add: dispose_def core_upd_reservation)

lemma core_finish_wait [simp]: "core (finish_wait w s) = core s"
  by (simp add: finish_wait_def core_fold)

lemma core_settle_listener [simp]: "core (settle_listener w s) = core s"
  by (simp add: settle_listener_def Let_def)

lemma core_notifySettled [simp]: "core (notifySettled r s) = core s"
  by (simp add: notifySettled_def Let_def core_upd_reservation core_fold)

lemma core_onSettled [simp]: "core (onSettled w r s) = core s"
  by (simp add: onSettled_def core_upd_reservation)

lemma core_waitForSettled [simp]: "core (waitForSettled rs a s) = core s"
  by (simp add: waitForSettled_def Let_def core_fold) (simp add: core_def)

lemma core_abort_wait [simp]: "core (abort_wait w s) = core s"
  by (simp add: abort_wait_def Let_def)

lemma indexed_core:
  assumes "core s = core t" "\<And>v u. rv_subscription v = rv_subscription u \<Longrightarrow> rv_status v = rv_status u \<Longrightarrow>
      key v = key u \<and> P v = P u"
  shows "indexed m key P (sr_store s) = indexed m key P (sr_store t)"
proof -
  have "key (sr_store s ! r) = key (sr_store t ! r) \<and> P (sr_store s ! r) = P (sr_store t ! r)"
    if "r < length (sr_store t)" for r
    using core_nth[OF assms(1) that] by (intro assms(2))
  then have "{r. r < length (sr_store s) \<and> key (sr_store s ! r) = k \<and> P (sr_store s ! r)} =
      {r. r < length (sr_store t) \<and> key (sr_store t ! r) = k \<and> P (sr_store t ! r)}" for k
    using core_length[OF assms(1)] by auto
  then show ?thesis by (simp add: indexed_def)
qed

lemma count_core:
  assumes "core s = core t"
  shows "count_if live (sr_store s) = count_if live (sr_store t)"
proof -
  let ?p = "\<lambda>v. (rv_subscription v, rv_generation v, rv_status v)"
  have "count_if live xs = count_if (\<lambda>(_, _, st). st \<noteq> Removed) (map ?p xs)" for xs
    by (induction xs) (simp_all add: count_if_Cons live_def)
  moreover from assms have "map ?p (sr_store s) = map ?p (sr_store t)" by (simp add: core_def)
  ultimately show ?thesis by simp
qed

lemma sets_inv_core:
  assumes "core s = core t" shows "sets_inv s \<longleftrightarrow> sets_inv t"
proof -
  from assms have same: "sr_byClient s = sr_byClient t" "sr_active s = sr_active t"
    "sr_initializing s = sr_initializing t" "sr_totalCount s = sr_totalCount t"
    "sr_lastGeneration s = sr_lastGeneration t" by (simp_all add: core_def)
  have gens: "(\<forall>r<length (sr_store t). rv_generation (sr_store s ! r) = int r + 1) \<longleftrightarrow>
      (\<forall>r<length (sr_store t). rv_generation (sr_store t ! r) = int r + 1)"
    using core_nth(2)[OF assms] by simp
  have ix: "indexed (sr_byClient t) rv_client live (sr_store s) = indexed (sr_byClient t) rv_client live (sr_store t)"
    "indexed (sr_active t) rv_collection (\<lambda>v. rv_status v = Active) (sr_store s) =
     indexed (sr_active t) rv_collection (\<lambda>v. rv_status v = Active) (sr_store t)"
    "indexed (sr_initializing t) rv_collection (\<lambda>v. rv_status v = Initializing) (sr_store s) =
     indexed (sr_initializing t) rv_collection (\<lambda>v. rv_status v = Initializing) (sr_store t)"
    by (intro indexed_core[OF assms]; simp add: live_def)+
  show ?thesis
    unfolding sets_inv_def same ix count_core[OF assms] core_length[OF assms] gens ..
qed

section \<open>Settling keeps the waits\<close>

lemma upd_wait_simps [simp]:
  "sr_store (upd_wait w f s) = sr_store s" "length (sr_waits (upd_wait w f s)) = length (sr_waits s)"
  "w' < length (sr_waits s) \<Longrightarrow> sr_waits (upd_wait w f s) ! w' = (if w' = w then f (sr_waits s ! w) else sr_waits s ! w')"
  by (simp_all add: upd_wait_def)

lemma upd_reservation_simps [simp]:
  "sr_waits (upd_reservation r f s) = sr_waits s" "length (sr_store (upd_reservation r f s)) = length (sr_store s)"
  "i < length (sr_store s) \<Longrightarrow> sr_store (upd_reservation r f s) ! i = (if i = r then f (sr_store s ! r) else sr_store s ! i)"
  by (simp_all add: upd_reservation_def)

lemma fold_dispose_simps [simp]:
  "sr_waits (fold (dispose w) ds s) = sr_waits s"
  "length (sr_store (fold (dispose w) ds s)) = length (sr_store s)"
  by (induction ds arbitrary: s) (simp_all add: dispose_def)

lemma fold_dispose_nth:
  "i < length (sr_store s) \<Longrightarrow> sr_store (fold (dispose w) ds s) ! i =
     (if i \<in> set ds then (sr_store s ! i)\<lparr>rv_listeners := filter (\<lambda>x. x \<noteq> w) (rv_listeners (sr_store s ! i))\<rparr>
      else sr_store s ! i)"
proof (induction ds arbitrary: s)
  case (Cons d ds)
  have len: "length (sr_store (dispose w d s)) = length (sr_store s)" by (simp add: dispose_def)
  from Cons show ?case by (auto simp: len dispose_def)
qed simp

lemma finish_wait_simps [simp]:
  "length (sr_store (finish_wait w s)) = length (sr_store s)"
  "length (sr_waits (finish_wait w s)) = length (sr_waits s)"
  "w' < length (sr_waits s) \<Longrightarrow> sr_waits (finish_wait w s) ! w' =
     (if w' = w then (sr_waits s ! w)\<lparr>wt_resolved := True\<rparr> else sr_waits s ! w')"
  by (simp_all add: finish_wait_def)

lemma finish_wait_nth:
  "i < length (sr_store s) \<Longrightarrow> sr_store (finish_wait w s) ! i =
     (if i \<in> set (wt_disposers (sr_waits s ! w))
      then (sr_store s ! i)\<lparr>rv_listeners := filter (\<lambda>x. x \<noteq> w) (rv_listeners (sr_store s ! i))\<rparr>
      else sr_store s ! i)"
  by (simp add: finish_wait_def fold_dispose_nth)

text \<open>An invariant of a wait only reads its own fields, the settled flags and where its listener is.\<close>

lemma wait_inv_cong:
  assumes "wait_inv x ws s w" "sr_waits t ! w = sr_waits s ! w" "length (sr_store t) = length (sr_store s)"
    and "\<And>r. r < length (sr_store s) \<Longrightarrow> rv_settled (sr_store t ! r) = rv_settled (sr_store s ! r)"
    and "\<And>r. r < length (sr_store s) \<Longrightarrow> x \<noteq> Some r \<Longrightarrow>
      w \<in> set (rv_listeners (sr_store t ! r)) \<longleftrightarrow> w \<in> set (rv_listeners (sr_store s ! r))"
    and "w \<in> set us \<longleftrightarrow> w \<in> set ws"
  shows "wait_inv x us t w"
proof -
  have disp: "set (wt_disposers (sr_waits s ! w)) \<subseteq> {..<length (sr_store s)}"
    "set (wt_reservations (sr_waits s ! w)) \<subseteq> {..<length (sr_store s)}"
    using assms(1) by (simp_all add: wait_inv_def Let_def)
  then have "unsettled t (sr_waits s ! w) = unsettled s (sr_waits s ! w)"
    unfolding unsettled_def using assms(4) by (intro arg_cong[of _ _ length] filter_cong) auto
  with assms disp show ?thesis unfolding wait_inv_def Let_def by (auto simp: subset_iff)
qed

lemma listeners_inv_cong:
  assumes "listeners_inv s" "length (sr_store t) = length (sr_store s)" "length (sr_waits s) \<le> length (sr_waits t)"
    and "\<And>r. r < length (sr_store s) \<Longrightarrow> distinct (rv_listeners (sr_store s ! r)) \<Longrightarrow>
      distinct (rv_listeners (sr_store t ! r)) \<and>
      set (rv_listeners (sr_store t ! r)) \<subseteq> set (rv_listeners (sr_store s ! r)) \<union> {..<length (sr_waits t)}"
  shows "listeners_inv t"
  unfolding listeners_inv_def
proof (intro allI impI)
  fix r assume "r < length (sr_store t)"
  with assms(2) have r: "r < length (sr_store s)" by simp
  with assms(1) have "distinct (rv_listeners (sr_store s ! r))" "set (rv_listeners (sr_store s ! r)) \<subseteq> {..<length (sr_waits s)}"
    by (simp_all add: listeners_inv_def)
  with assms(4)[OF r] assms(3) show "distinct (rv_listeners (sr_store t ! r)) \<and>
      set (rv_listeners (sr_store t ! r)) \<subseteq> {..<length (sr_waits t)}" by fastforce
qed

lemma unsettled_zero: "unsettled s v = 0 \<longleftrightarrow> (\<forall>r\<in>set (wt_disposers v). rv_settled (sr_store s ! r))"
  by (simp add: unsettled_def filter_empty_conv)

lemma settle_listener_shape:
  assumes "w < length (sr_waits s)"
  shows "length (sr_store (settle_listener w s)) = length (sr_store s)"
    "length (sr_waits (settle_listener w s)) = length (sr_waits s)"
    "r < length (sr_store s) \<Longrightarrow> rv_settled (sr_store (settle_listener w s) ! r) = rv_settled (sr_store s ! r)"
    "r < length (sr_store s) \<Longrightarrow> w' \<noteq> w \<Longrightarrow>
       w' \<in> set (rv_listeners (sr_store (settle_listener w s) ! r)) \<longleftrightarrow> w' \<in> set (rv_listeners (sr_store s ! r))"
    "r < length (sr_store s) \<Longrightarrow> set (rv_listeners (sr_store (settle_listener w s) ! r)) \<subseteq> set (rv_listeners (sr_store s ! r))"
    "r < length (sr_store s) \<Longrightarrow> distinct (rv_listeners (sr_store s ! r)) \<Longrightarrow>
       distinct (rv_listeners (sr_store (settle_listener w s) ! r))"
    "w' < length (sr_waits s) \<Longrightarrow> w' \<noteq> w \<Longrightarrow> sr_waits (settle_listener w s) ! w' = sr_waits s ! w'"
  using assms by (auto simp: settle_listener_def Let_def finish_wait_nth)

lemma settle_listener_inv:
  assumes inv: "waits_inv (Some x) (w # ws) s" and "distinct (w # ws)" and w: "w < length (sr_waits s)"
  shows "waits_inv (Some x) ws (settle_listener w s)"
proof -
  note shape = settle_listener_shape[OF w]
  let ?t = "settle_listener w s" and ?v = "sr_waits s ! w"
  from inv have wi: "wait_inv (Some x) (w # ws) s w" and li: "listeners_inv s" using w by (simp_all add: waits_inv_def)
  from wi have v: "\<not> wt_resolved ?v" "wt_remaining ?v = int (unsettled s ?v) + 1" "distinct (wt_disposers ?v)"
    "set (wt_disposers ?v) \<subseteq> {..<length (sr_store s)}" "set (wt_reservations ?v) \<subseteq> {..<length (sr_store s)}"
    "\<not> wt_aborted ?v" "set (wt_disposers ?v) \<subseteq> set (wt_reservations ?v)"
    "\<forall>r\<in>set (wt_reservations ?v) - set (wt_disposers ?v). rv_settled (sr_store s ! r)"
    "\<forall>r<length (sr_store s). Some x \<noteq> Some r \<longrightarrow> (w \<in> set (rv_listeners (sr_store s ! r)) \<longleftrightarrow>
        r \<in> set (wt_disposers ?v) \<and> \<not> rv_settled (sr_store s ! r))"
    by (auto simp: wait_inv_def Let_def)
  have own: "wait_inv (Some x) ws ?t w"
  proof (cases "unsettled s ?v = 0")
    case True
    then have fin: "\<forall>r\<in>set (wt_disposers ?v). rv_settled (sr_store s ! r)" by (simp add: unsettled_zero)
    let ?s1 = "upd_wait w (\<lambda>v. v\<lparr>wt_remaining := wt_remaining v - 1\<rparr>) s"
    have t: "?t = finish_wait w ?s1" using True v(2) w by (simp add: settle_listener_def Let_def)
    have tv: "sr_waits ?t ! w = ?v\<lparr>wt_remaining := wt_remaining ?v - 1, wt_resolved := True\<rparr>"
      unfolding t using w by simp
    have "w \<notin> set (rv_listeners (sr_store ?t ! r))" if "r < length (sr_store s)" "x \<noteq> r" for r
      using v(9) fin that shape(5)[of r] by auto
    moreover have "rv_settled (sr_store ?t ! r)" if "r \<in> set (wt_reservations ?v)" for r
      using that v(5,8) fin shape(3)[of r] by (cases "r \<in> set (wt_disposers ?v)") auto
    ultimately show ?thesis using v(3-5) assms(2) by (simp add: wait_inv_def Let_def tv shape(1))
  next
    case False
    then have t: "?t = upd_wait w (\<lambda>v. v\<lparr>wt_remaining := wt_remaining v - 1\<rparr>) s"
      using v(2) w by (simp add: settle_listener_def Let_def)
    have "unsettled ?t (?v\<lparr>wt_remaining := wt_remaining ?v - 1\<rparr>) = unsettled s ?v"
      by (simp add: unsettled_def t)
    with False v assms(2) w show ?thesis by (simp add: wait_inv_def Let_def t)
  qed
  have "wait_inv (Some x) ws ?t w'" if w': "w' < length (sr_waits s)" for w'
  proof (cases "w' = w")
    case False
    from inv w' have "wait_inv (Some x) (w # ws) s w'" by (simp add: waits_inv_def)
    then show ?thesis by (rule wait_inv_cong) (use shape w' False in simp_all)
  qed (use own in simp)
  moreover have "listeners_inv ?t"
  proof (rule listeners_inv_cong[OF li])
    fix r assume "r < length (sr_store s)" "distinct (rv_listeners (sr_store s ! r))"
    with shape(5,6) show "distinct (rv_listeners (sr_store ?t ! r)) \<and>
        set (rv_listeners (sr_store ?t ! r)) \<subseteq> set (rv_listeners (sr_store s ! r)) \<union> {..<length (sr_waits ?t)}" by blast
  qed (simp_all add: shape)
  ultimately show ?thesis by (simp add: waits_inv_def shape(2))
qed

lemma settle_listeners_inv:
  "waits_inv (Some x) ws s \<Longrightarrow> distinct ws \<Longrightarrow> set ws \<subseteq> {..<length (sr_waits s)} \<Longrightarrow>
     waits_inv (Some x) [] (fold settle_listener ws s) \<and>
     length (sr_store (fold settle_listener ws s)) = length (sr_store s) \<and>
     length (sr_waits (fold settle_listener ws s)) = length (sr_waits s) \<and>
     (\<forall>r<length (sr_store s). rv_settled (sr_store (fold settle_listener ws s) ! r) = rv_settled (sr_store s ! r))"
proof (induction ws arbitrary: s)
  case (Cons w ws)
  then have w: "w < length (sr_waits s)" by simp
  note shape = settle_listener_shape[OF w]
  have "waits_inv (Some x) ws (settle_listener w s)" using Cons.prems w by (intro settle_listener_inv) simp_all
  from Cons.IH[OF this] Cons.prems show ?case by (simp add: shape)
qed simp

lemma notifySettled_inv:
  assumes inv: "waits_inv None [] s" and r: "r < length (sr_store s)"
  shows "waits_inv None [] (notifySettled r s) \<and> length (sr_store (notifySettled r s)) = length (sr_store s) \<and>
    length (sr_waits (notifySettled r s)) = length (sr_waits s) \<and>
    (\<forall>i<length (sr_store s). rv_settled (sr_store (notifySettled r s) ! i) \<longleftrightarrow> i = r \<or> rv_settled (sr_store s ! i))"
proof (cases "rv_settled (sr_store s ! r)")
  case True
  with inv show ?thesis by (auto simp: notifySettled_def)
next
  case False
  let ?s1 = "upd_reservation r (\<lambda>v. v\<lparr>rv_settled := True\<rparr>) s"
  let ?ws = "rv_listeners (sr_store s ! r)"
  let ?s2 = "fold settle_listener ?ws ?s1"
  from inv r have li: "listeners_inv s" "distinct ?ws" "set ?ws \<subseteq> {..<length (sr_waits s)}"
    by (simp_all add: waits_inv_def listeners_inv_def)
  have "wait_inv (Some r) ?ws ?s1 w" if w: "w < length (sr_waits s)" for w
  proof -
    let ?v = "sr_waits s ! w"
    from inv w have wi: "wait_inv None [] s w" by (simp add: waits_inv_def)
    then have at: "w \<in> set ?ws \<longleftrightarrow> \<not> wt_resolved ?v \<and> r \<in> set (wt_disposers ?v)"
      and d: "distinct (wt_disposers ?v)" "set (wt_disposers ?v) \<subseteq> {..<length (sr_store s)}"
      using r False by (auto simp: wait_inv_def Let_def)
    have "filter (\<lambda>i. \<not> rv_settled (sr_store ?s1 ! i)) (wt_disposers ?v) =
        removeAll r (filter (\<lambda>i. \<not> rv_settled (sr_store s ! i)) (wt_disposers ?v))"
      unfolding removeAll_filter_not_eq filter_filter using d(2) r False
      by (intro filter_cong refl) (simp add: subset_iff)
    moreover have "length (removeAll r xs) = length xs - of_bool (r \<in> set xs)" if "distinct xs" for xs :: "nat list"
      using that by (simp add: distinct_remove1_removeAll[symmetric] length_remove1)
    ultimately have un: "unsettled ?s1 ?v = unsettled s ?v - of_bool (r \<in> set (wt_disposers ?v))"
      using d(1) False by (simp add: unsettled_def)
    have "r \<in> set (wt_disposers ?v) \<Longrightarrow> 0 < unsettled s ?v"
      using False by (auto simp: unsettled_def length_greater_0_conv filter_empty_conv)
    with un have "int (unsettled s ?v) = int (unsettled ?s1 ?v) + of_bool (r \<in> set (wt_disposers ?v))" by auto
    with wi at show ?thesis unfolding wait_inv_def Let_def
      by (auto simp: subset_iff)
  qed
  moreover have "listeners_inv ?s1" by (rule listeners_inv_cong[OF li(1)]) auto
  ultimately have "waits_inv (Some r) ?ws ?s1" by (simp add: waits_inv_def)
  from settle_listeners_inv[OF this li(2)] li(3)
  have two: "waits_inv (Some r) [] ?s2" "length (sr_store ?s2) = length (sr_store s)"
    "length (sr_waits ?s2) = length (sr_waits s)"
    "\<forall>i<length (sr_store s). rv_settled (sr_store ?s2 ! i) \<longleftrightarrow> i = r \<or> rv_settled (sr_store s ! i)" by auto
  let ?t = "upd_reservation r (\<lambda>v. v\<lparr>rv_listeners := []\<rparr>) ?s2"
  have t: "notifySettled r s = ?t" using False r by (simp add: notifySettled_def Let_def)
  have "wait_inv None [] ?t w" if w: "w < length (sr_waits s)" for w
  proof -
    let ?v = "sr_waits ?s2 ! w"
    from two w have wi: "wait_inv (Some r) [] ?s2 w" by (simp add: waits_inv_def)
    have same: "rv_settled (sr_store ?t ! i) = rv_settled (sr_store ?s2 ! i)" if "i < length (sr_store s)" for i
      using that two(2) by simp
    have "set (wt_disposers ?v) \<subseteq> {..<length (sr_store s)}" using wi two(2) by (simp add: wait_inv_def Let_def)
    then have "unsettled ?t ?v = unsettled ?s2 ?v"
      unfolding unsettled_def using same by (intro arg_cong[of _ _ length] filter_cong) auto
    with wi two r show ?thesis unfolding wait_inv_def Let_def by (auto simp: subset_iff)
  qed
  moreover have "listeners_inv ?t"
  proof (rule listeners_inv_cong)
    show "listeners_inv ?s2" using two(1) by (simp add: waits_inv_def)
  qed auto
  ultimately show ?thesis unfolding t using two by (auto simp: waits_inv_def)
qed

lemma fold_onSettled:
  "\<forall>r\<in>set ps. r < length (sr_store s) \<and> \<not> rv_settled (sr_store s ! r) \<Longrightarrow> distinct ps \<Longrightarrow>
     sr_waits (fold (onSettled w) ps s) = sr_waits s \<and>
     length (sr_store (fold (onSettled w) ps s)) = length (sr_store s) \<and>
     (\<forall>i<length (sr_store s). sr_store (fold (onSettled w) ps s) ! i =
        (if i \<in> set ps then (sr_store s ! i)\<lparr>rv_listeners := js_add w (rv_listeners (sr_store s ! i))\<rparr>
         else sr_store s ! i))"
proof (induction ps arbitrary: s)
  case (Cons p ps)
  have p: "onSettled w p s = upd_reservation p (\<lambda>v. v\<lparr>rv_listeners := js_add w (rv_listeners v)\<rparr>) s"
    using Cons.prems by (simp add: onSettled_def)
  from Cons.prems have "\<forall>r\<in>set ps. r < length (sr_store (onSettled w p s)) \<and> \<not> rv_settled (sr_store (onSettled w p s) ! r)"
    by (simp add: p)
  from Cons.IH[OF this] Cons.prems show ?case by (simp add: p)
qed simp

lemma waitForSettled_inv:
  assumes inv: "waits_inv None [] s" and rs: "distinct rs" "set rs \<subseteq> {..<length (sr_store s)}"
  shows "waits_inv None [] (waitForSettled rs aborted s)"
proof -
  let ?pending = "filter (\<lambda>r. \<not> rv_settled (sr_store s ! r)) rs"
  let ?imm = "?pending = [] \<or> aborted" and ?n = "length (sr_waits s)" and ?t = "waitForSettled rs aborted s"
  define v where "v = \<lparr>wt_reservations = rs, wt_aborted = aborted, wt_remaining = int (length ?pending),
    wt_disposers = (if ?imm then [] else ?pending), wt_resolved = ?imm\<rparr>"
  let ?s1 = "s\<lparr>sr_waits := sr_waits s @ [v]\<rparr>"
  have t: "?t = (if ?imm then ?s1 else fold (onSettled ?n) ?pending ?s1)"
    by (simp add: waitForSettled_def Let_def v_def)
  have disp: "wt_disposers v = (if ?imm then [] else ?pending)" by (simp add: v_def)
  have reg: "sr_waits (fold (onSettled ?n) ?pending ?s1) = sr_waits s @ [v] \<and>
      length (sr_store (fold (onSettled ?n) ?pending ?s1)) = length (sr_store s) \<and>
      (\<forall>i<length (sr_store s). sr_store (fold (onSettled ?n) ?pending ?s1) ! i =
        (if i \<in> set ?pending then (sr_store s ! i)\<lparr>rv_listeners := js_add ?n (rv_listeners (sr_store s ! i))\<rparr>
         else sr_store s ! i))"
  proof -
    have p: "\<forall>r\<in>set ?pending. r < length (sr_store ?s1) \<and> \<not> rv_settled (sr_store ?s1 ! r)" using rs(2) by auto
    have d: "distinct ?pending" using rs(1) by simp
    have same: "sr_store ?s1 = sr_store s" "sr_waits ?s1 = sr_waits s @ [v]" by simp_all
    show ?thesis using fold_onSettled[OF p d, of ?n] unfolding same .
  qed
  have shape0: "sr_waits ?t = sr_waits s @ [v] \<and> length (sr_store ?t) = length (sr_store s) \<and>
      (\<forall>i<length (sr_store s). sr_store ?t ! i =
        (if i \<in> set (wt_disposers v) then (sr_store s ! i)\<lparr>rv_listeners := js_add ?n (rv_listeners (sr_store s ! i))\<rparr>
         else sr_store s ! i))"
    proof (cases ?imm)
      case True
      show ?thesis unfolding t disp if_P[OF True] by simp
    next
      case False
      show ?thesis unfolding t disp if_not_P[OF False] by (rule reg)
    qed
  note shape = conjunct1[OF shape0] conjunct1[OF conjunct2[OF shape0]] conjunct2[OF conjunct2[OF shape0]]
  from inv have li: "listeners_inv s" by (simp add: waits_inv_def)
  then have fresh: "?n \<notin> set (rv_listeners (sr_store s ! i))" if "i < length (sr_store s)" for i
    using that by (auto simp: listeners_inv_def)
  have settled: "rv_settled (sr_store ?t ! i) = rv_settled (sr_store s ! i)" if "i < length (sr_store s)" for i
    using that shape(3) by simp
  have "wait_inv None [] ?t ?n"
  proof -
    have at: "sr_waits ?t ! ?n = v" by (simp add: shape nth_append)
    have fields_v: "wt_reservations v = rs" "wt_aborted v = aborted" "wt_resolved v = ?imm"
      "wt_remaining v = int (length ?pending)" by (simp_all add: v_def)
    have in_rs: "set (wt_disposers v) \<subseteq> set rs" "distinct (wt_disposers v)" using rs(1) by (auto simp: disp)
    have un: "unsettled ?t v = unsettled s v"
      unfolding unsettled_def using settled in_rs rs(2) by (intro arg_cong[of _ _ length] filter_cong) auto
    have reg_at: "?n \<in> set (rv_listeners (sr_store ?t ! i)) \<longleftrightarrow> i \<in> set (wt_disposers v)"
      if "i < length (sr_store s)" for i using fresh[OF that] shape(3) that by simp
    have set_rs: "rv_settled (sr_store ?t ! r) = rv_settled (sr_store s ! r)" if "r \<in> set rs" for r
      using that settled rs(2) by auto
    show ?thesis
    proof (cases ?imm)
      case True
      then have "wt_disposers v = []" unfolding disp by (rule if_P)
      moreover have "aborted \<or> (\<forall>r\<in>set rs. rv_settled (sr_store ?t ! r))"
        using True set_rs by (auto simp: filter_empty_conv)
      ultimately show ?thesis
        using True rs(2) reg_at unfolding wait_inv_def Let_def at shape(2) fields_v by auto
    next
      case False
      then have d: "wt_disposers v = ?pending" unfolding disp by (rule if_not_P)
      have "unsettled s v = length ?pending" unfolding unsettled_def d by (simp add: filter_filter)
      moreover have "0 < int (length ?pending)" using False by simp
      moreover have "\<forall>r\<in>set rs - set ?pending. rv_settled (sr_store ?t ! r)" using set_rs by simp
      moreover have "i \<in> set ?pending \<longrightarrow> \<not> rv_settled (sr_store ?t ! i)" for i using set_rs by simp
      ultimately show ?thesis
        using False rs in_rs reg_at un unfolding wait_inv_def Let_def at shape(2) fields_v d
        by (intro conjI impI allI) (simp_all only: list.set empty_iff simp_thms of_bool_eq add_0_right, blast+)
    qed
  qed
  moreover have "wait_inv None [] ?t w" if w: "w < ?n" for w
  proof (rule wait_inv_cong)
    show "wait_inv None [] s w" using inv w by (simp add: waits_inv_def)
  qed (use w shape settled in \<open>simp_all add: nth_append\<close>)
  moreover have "listeners_inv ?t"
    by (rule listeners_inv_cong[OF li]) (use shape in simp_all)
  ultimately show ?thesis by (auto simp: waits_inv_def shape less_Suc_eq)
qed

lemma abort_wait_inv:
  assumes inv: "waits_inv None [] s" and w: "w < length (sr_waits s)"
  shows "waits_inv None [] (abort_wait w s)"
proof -
  let ?t = "abort_wait w s" and ?v = "sr_waits s ! w"
  from inv w have wi: "wait_inv None [] s w" and li: "listeners_inv s" by (simp_all add: waits_inv_def)
  have shape: "length (sr_store ?t) = length (sr_store s)" "length (sr_waits ?t) = length (sr_waits s)"
    "sr_waits ?t ! w = ?v\<lparr>wt_aborted := True, wt_resolved := True\<rparr>"
    "\<And>w'. w' < length (sr_waits s) \<Longrightarrow> w' \<noteq> w \<Longrightarrow> sr_waits ?t ! w' = sr_waits s ! w'"
    "\<forall>i<length (sr_store s). sr_store ?t ! i = (if \<not> wt_resolved ?v \<and> i \<in> set (wt_disposers ?v)
      then (sr_store s ! i)\<lparr>rv_listeners := filter (\<lambda>x. x \<noteq> w) (rv_listeners (sr_store s ! i))\<rparr> else sr_store s ! i)"
    using w by (simp_all add: abort_wait_def Let_def finish_wait_nth)
  have "wait_inv None [] ?t w"
    using wi unfolding wait_inv_def Let_def by (auto simp: shape)
  moreover have "wait_inv None [] ?t w'" if w': "w' < length (sr_waits s)" "w' \<noteq> w" for w'
  proof (rule wait_inv_cong)
    show "wait_inv None [] s w'" using inv w' by (simp add: waits_inv_def)
  qed (use w' shape in simp_all)
  moreover have "listeners_inv ?t"
    by (rule listeners_inv_cong[OF li]) (use shape in auto)
  ultimately show ?thesis unfolding waits_inv_def shape(2) by blast
qed

section \<open>Registering, activating and removing keep the sets\<close>

lemma indexed_ok: "indexed m key P store \<Longrightarrow> sets_ok m"
  by (simp add: indexed_def)

lemma indexed_new:
  assumes "indexed m key P store"
  shows "P v \<Longrightarrow> indexed (addTo (key v) (length store) m) key P (store @ [v])"
    and "\<not> P v \<Longrightarrow> indexed m key P (store @ [v])"
  using assms by (auto simp: indexed_def sets_ok_addTo nth_append less_Suc_eq)

lemma indexed_update:
  assumes ix: "indexed m key P store" and r: "r < length store" and key: "key v = key (store ! r)"
  shows "P v \<Longrightarrow> P (store ! r) \<Longrightarrow> indexed m key P (store[r := v])"
    and "\<not> P v \<Longrightarrow> \<not> P (store ! r) \<Longrightarrow> indexed m key P (store[r := v])"
    and "P v \<Longrightarrow> indexed (addTo (key (store ! r)) r m) key P (store[r := v])"
    and "\<not> P v \<Longrightarrow> indexed (deleteFrom (key (store ! r)) r m) key P (store[r := v])"
  using ix r key
  by (auto simp: indexed_def sets_ok_addTo sets_ok_deleteFrom nth_list_update split: if_splits)

lemma sets_inv_reserve:
  assumes "sets_inv s" shows "sets_inv (snd (reserve_subscription sub s))"
proof (cases "fst (reserve_subscription sub s)")
  case (Inl e)
  with assms show ?thesis by (auto simp: reserve_subscription_def Let_def split: if_splits)
next
  case (Inr r)
  let ?v = "\<lparr>rv_subscription = sub, rv_generation = sr_lastGeneration s + 1, rv_status = Initializing,
    rv_settled = False, rv_listeners = []\<rparr>"
  let ?n = "length (sr_store s)"
  from Inr have ok: "length (members (sr_byClient s) (sb_client sub)) < SUBSCRIPTIONS_PER_CONNECTION"
    "sr_totalCount s < SUBSCRIPTIONS_PER_PROCESS"
    and t: "snd (reserve_subscription sub s) = s\<lparr>sr_lastGeneration := sr_lastGeneration s + 1, sr_store := sr_store s @ [?v],
       sr_byClient := addTo (sb_client sub) ?n (sr_byClient s),
       sr_initializing := addTo (sb_collection sub) ?n (sr_initializing s), sr_totalCount := sr_totalCount s + 1\<rparr>"
    by (auto simp: reserve_subscription_def Let_def addToClient_def split: if_splits)
  from assms have ix: "indexed (sr_byClient s) rv_client live (sr_store s)"
    "indexed (sr_active s) rv_collection (\<lambda>v. rv_status v = Active) (sr_store s)"
    "indexed (sr_initializing s) rv_collection (\<lambda>v. rv_status v = Initializing) (sr_store s)"
    by (simp_all add: sets_inv_def)
  from indexed_new(1)[OF ix(1), of ?v] indexed_new(2)[OF ix(2), of ?v] indexed_new(1)[OF ix(3), of ?v]
  have "indexed (addTo (sb_client sub) ?n (sr_byClient s)) rv_client live (sr_store s @ [?v])"
    "indexed (sr_active s) rv_collection (\<lambda>v. rv_status v = Active) (sr_store s @ [?v])"
    "indexed (addTo (sb_collection sub) ?n (sr_initializing s)) rv_collection (\<lambda>v. rv_status v = Initializing) (sr_store s @ [?v])"
    by (simp_all add: live_def)
  moreover have "length (members (addTo (sb_client sub) ?n (sr_byClient s)) c) \<le> SUBSCRIPTIONS_PER_CONNECTION" for c
    using assms ok(1) by (auto simp: sets_inv_def js_add_def)
  ultimately show ?thesis using assms ok(2) unfolding t
    by (simp add: sets_inv_def live_def nth_append less_Suc_eq all_conj_distrib)
qed

lemma activate_shape:
  assumes "r < length (sr_store s)" "rv_status (sr_store s ! r) = Initializing"
  shows "activate r s = notifySettled r (s\<lparr>sr_store := (sr_store s)[r := (sr_store s ! r)\<lparr>rv_status := Active\<rparr>],
     sr_initializing := deleteFrom (rv_collection (sr_store s ! r)) r (sr_initializing s),
     sr_active := addTo (rv_collection (sr_store s ! r)) r (sr_active s)\<rparr>)"
  using assms by (simp add: activate_def Let_def upd_reservation_def)

lemma sets_inv_activate:
  assumes inv: "sets_inv s" and r: "r < length (sr_store s)"
  shows "sets_inv (activate r s)"
proof (cases "rv_status (sr_store s ! r) = Initializing")
  case False
  with inv show ?thesis by (simp add: activate_def)
next
  case True
  let ?v = "(sr_store s ! r)\<lparr>rv_status := Active\<rparr>"
  from inv have ix: "indexed (sr_byClient s) rv_client live (sr_store s)"
    "indexed (sr_active s) rv_collection (\<lambda>v. rv_status v = Active) (sr_store s)"
    "indexed (sr_initializing s) rv_collection (\<lambda>v. rv_status v = Initializing) (sr_store s)"
    by (simp_all add: sets_inv_def)
  from indexed_update(1)[OF ix(1) r, of ?v] indexed_update(3)[OF ix(2) r, of ?v] indexed_update(4)[OF ix(3) r, of ?v] True
  have "indexed (sr_byClient s) rv_client live ((sr_store s)[r := ?v])"
    "indexed (addTo (rv_collection (sr_store s ! r)) r (sr_active s)) rv_collection (\<lambda>v. rv_status v = Active) ((sr_store s)[r := ?v])"
    "indexed (deleteFrom (rv_collection (sr_store s ! r)) r (sr_initializing s)) rv_collection (\<lambda>v. rv_status v = Initializing) ((sr_store s)[r := ?v])"
    by (simp_all add: live_def)
  with inv r True show ?thesis
    unfolding activate_shape[OF r True] sets_inv_core[OF core_notifySettled]
    by (simp add: sets_inv_def live_def nth_list_update)
qed

lemma remove_shape:
  assumes "r < length (sr_store s)" "live (sr_store s ! r)"
  shows "remove_reservation r s = notifySettled r (s\<lparr>
     sr_store := (sr_store s)[r := (sr_store s ! r)\<lparr>rv_status := Removed\<rparr>],
     sr_active := (if rv_status (sr_store s ! r) = Active
       then deleteFrom (rv_collection (sr_store s ! r)) r (sr_active s) else sr_active s),
     sr_initializing := (if rv_status (sr_store s ! r) = Active
       then sr_initializing s else deleteFrom (rv_collection (sr_store s ! r)) r (sr_initializing s)),
     sr_byClient := deleteFrom (rv_client (sr_store s ! r)) r (sr_byClient s),
     sr_totalCount := sr_totalCount s - 1\<rparr>)"
  using assms
  by (cases s) (simp add: remove_reservation_def live_def Let_def upd_reservation_def deleteFromClient_def)

lemma sets_inv_remove:
  assumes inv: "sets_inv s" and r: "r < length (sr_store s)"
  shows "sets_inv (remove_reservation r s)"
proof (cases "live (sr_store s ! r)")
  case False
  with inv show ?thesis by (simp add: remove_reservation_def live_def)
next
  case True
  let ?v = "(sr_store s ! r)\<lparr>rv_status := Removed\<rparr>"
  from inv have ix: "indexed (sr_byClient s) rv_client live (sr_store s)"
    "indexed (sr_active s) rv_collection (\<lambda>v. rv_status v = Active) (sr_store s)"
    "indexed (sr_initializing s) rv_collection (\<lambda>v. rv_status v = Initializing) (sr_store s)"
    by (simp_all add: sets_inv_def)
  have dead: "\<not> live ?v" by (simp add: live_def)
  have other: "rv_status (sr_store s ! r) \<noteq> Active \<Longrightarrow> rv_status (sr_store s ! r) = Initializing"
    using True by (cases "rv_status (sr_store s ! r)") (simp_all add: live_def)
  have "indexed (deleteFrom (rv_client (sr_store s ! r)) r (sr_byClient s)) rv_client live ((sr_store s)[r := ?v])"
    using indexed_update(4)[OF ix(1) r, of ?v] dead by simp
  moreover have "indexed (if rv_status (sr_store s ! r) = Active
      then deleteFrom (rv_collection (sr_store s ! r)) r (sr_active s) else sr_active s)
      rv_collection (\<lambda>v. rv_status v = Active) ((sr_store s)[r := ?v])"
    using indexed_update(2,4)[OF ix(2) r, of ?v] by simp
  moreover have "indexed (if rv_status (sr_store s ! r) = Active
      then sr_initializing s else deleteFrom (rv_collection (sr_store s ! r)) r (sr_initializing s))
      rv_collection (\<lambda>v. rv_status v = Initializing) ((sr_store s)[r := ?v])"
    using indexed_update(2,4)[OF ix(3) r, of ?v] other by simp
  moreover have "length (members (deleteFrom (rv_client (sr_store s ! r)) r (sr_byClient s)) c) \<le> SUBSCRIPTIONS_PER_CONNECTION" for c
    using inv by (auto simp: sets_inv_def intro: le_trans[OF length_filter_le])
  ultimately show ?thesis using inv r True dead
    unfolding remove_shape[OF r True] sets_inv_core[OF core_notifySettled]
    by (simp add: sets_inv_def nth_list_update)
qed

section \<open>Every operation keeps the invariant\<close>

lemma waits_inv_cong:
  assumes inv: "waits_inv x ws s" and "sr_waits t = sr_waits s" "length (sr_store t) = length (sr_store s)"
    and "\<And>r. r < length (sr_store s) \<Longrightarrow> rv_settled (sr_store t ! r) = rv_settled (sr_store s ! r) \<and>
      rv_listeners (sr_store t ! r) = rv_listeners (sr_store s ! r)"
  shows "waits_inv x ws t"
proof -
  have "listeners_inv t" by (rule listeners_inv_cong[of s]) (use assms in \<open>simp_all add: waits_inv_def\<close>)
  moreover have "wait_inv x ws t w" if "w < length (sr_waits s)" for w
    by (rule wait_inv_cong[of x ws s]) (use assms that in \<open>simp_all add: waits_inv_def\<close>)
  ultimately show ?thesis using assms(2) by (simp add: waits_inv_def)
qed

lemma subscribe_inv [step_inv]:
  assumes "registry_inv s" shows "registry_inv (snd (reserve_subscription sub s))"
proof -
  let ?t = "snd (reserve_subscription sub s)"
  have "sets_inv ?t" using assms by (simp add: registry_inv_def sets_inv_reserve)
  moreover have "settled_inv ?t" using assms
    by (auto simp: registry_inv_def settled_inv_def reserve_subscription_def Let_def nth_append less_Suc_eq)
  moreover have "waits_inv None [] ?t"
  proof -
    have "?t = s \<or> (\<exists>v. sr_store ?t = sr_store s @ [v] \<and> sr_waits ?t = sr_waits s \<and> \<not> rv_settled v \<and> rv_listeners v = [])"
      by (auto simp: reserve_subscription_def Let_def)
    then show ?thesis
    proof (elim disjE exE conjE)
      fix v assume 2: "sr_store ?t = sr_store s @ [v]" "sr_waits ?t = sr_waits s" "\<not> rv_settled v" "rv_listeners v = []"
      from assms have old: "waits_inv None [] s" by (simp add: registry_inv_def)
      have "wait_inv None [] ?t w" if "w < length (sr_waits s)" for w
      proof -
        from old that have wi: "wait_inv None [] s w" by (simp add: waits_inv_def)
        then have "set (wt_disposers (sr_waits s ! w)) \<subseteq> {..<length (sr_store s)}" by (simp add: wait_inv_def Let_def)
        then have "unsettled ?t (sr_waits s ! w) = unsettled s (sr_waits s ! w)"
          unfolding unsettled_def using 2 by (intro arg_cong[of _ _ length] filter_cong) (auto simp: nth_append)
        with wi 2 show ?thesis unfolding wait_inv_def Let_def
          by (auto simp: nth_append less_Suc_eq subset_iff)
      qed
      moreover have "listeners_inv ?t"
        using old 2 by (auto simp: waits_inv_def listeners_inv_def nth_append less_Suc_eq)
      ultimately show ?thesis using 2 by (simp add: waits_inv_def)
    qed (use assms in \<open>simp add: registry_inv_def\<close>)
  qed
  ultimately show ?thesis by (simp add: registry_inv_def)
qed

text \<open>Activating and removing both change one status and announce that the reservation has settled.\<close>

lemma settle_step:
  assumes inv: "registry_inv s" and r: "r < length (sr_store s)" and st: "st \<noteq> Initializing"
    and u: "sr_store u = (sr_store s)[r := (sr_store s ! r)\<lparr>rv_status := st\<rparr>]" "sr_waits u = sr_waits s"
  shows "settled_inv (notifySettled r u) \<and> waits_inv None [] (notifySettled r u)"
proof -
  have "waits_inv None [] u"
    by (rule waits_inv_cong[of None "[]" s]) (use inv u r in \<open>simp_all add: registry_inv_def nth_list_update\<close>)
  moreover have len: "length (sr_store u) = length (sr_store s)" by (simp add: u)
  ultimately have n: "waits_inv None [] (notifySettled r u)" "length (sr_store (notifySettled r u)) = length (sr_store s)"
    "\<forall>i<length (sr_store s). rv_settled (sr_store (notifySettled r u) ! i) \<longleftrightarrow> i = r \<or> rv_settled (sr_store u ! i)"
    using notifySettled_inv[of u r] r by simp_all
  have "rv_status (sr_store (notifySettled r u) ! i) = rv_status (sr_store u ! i)" if "i < length (sr_store s)" for i
    using core_nth(3)[OF core_notifySettled, of i u] that len by simp
  with n inv r st u show ?thesis
    by (auto simp: settled_inv_def registry_inv_def nth_list_update)
qed

lemma activate_inv [step_inv]:
  assumes "registry_inv s" "r < length (sr_store s)" shows "registry_inv (activate r s)"
proof (cases "rv_status (sr_store s ! r) = Initializing")
  case True
  have "settled_inv (activate r s) \<and> waits_inv None [] (activate r s)"
    unfolding activate_shape[OF assms(2) True] by (rule settle_step[OF assms, of Active]) simp_all
  with assms sets_inv_activate[of s r] show ?thesis by (simp add: registry_inv_def)
qed (use assms in \<open>simp add: activate_def\<close>)

lemma remove_inv [step_inv]:
  assumes "registry_inv s" "r < length (sr_store s)" shows "registry_inv (remove_reservation r s)"
proof (cases "live (sr_store s ! r)")
  case True
  have "settled_inv (remove_reservation r s) \<and> waits_inv None [] (remove_reservation r s)"
    unfolding remove_shape[OF assms(2) True] by (rule settle_step[OF assms, of Removed]) simp_all
  with assms sets_inv_remove[of s r] show ?thesis by (simp add: registry_inv_def)
qed (use assms in \<open>simp add: remove_reservation_def live_def\<close>)

lemma members_in_store: "sets_inv s \<Longrightarrow> r \<in> set (members (sr_byClient s) c) \<Longrightarrow> r < length (sr_store s)"
  by (auto simp: sets_inv_def indexed_def)

lemma length_remove [simp]: "length (sr_store (remove_reservation r s)) = length (sr_store s)"
proof -
  have "length (sr_store (notifySettled r u)) = length (sr_store u)" for u
    using core_length[OF core_notifySettled] .
  then show ?thesis by (simp add: remove_reservation_def Let_def)
qed

lemma removeAll_inv [step_inv]:
  assumes "registry_inv s" shows "registry_inv (removeAllForClient c s)"
proof -
  have "registry_inv s \<Longrightarrow> set rs \<subseteq> {..<length (sr_store s)} \<Longrightarrow> registry_inv (fold remove_reservation rs s)" for rs s
    by (induction rs arbitrary: s) (simp_all add: remove_inv)
  moreover have "set (members (sr_byClient s) c) \<subseteq> {..<length (sr_store s)}"
    using assms members_in_store by (auto simp: registry_inv_def)
  ultimately show ?thesis using assms by (simp add: removeAllForClient_def)
qed

lemma removeByUid_inv [step_inv]:
  assumes "registry_inv s" shows "registry_inv (removeByUid c uid s)"
proof (cases "filter (\<lambda>r. sb_uid (rv_subscription (sr_store s ! r)) = Some uid) (members (sr_byClient s) c)")
  case (Cons r rs)
  then have "r \<in> set (filter (\<lambda>r. sb_uid (rv_subscription (sr_store s ! r)) = Some uid) (members (sr_byClient s) c))" by simp
  then have "r \<in> set (members (sr_byClient s) c)" by simp
  with assms have "r < length (sr_store s)" by (auto simp: registry_inv_def intro: members_in_store)
  with Cons assms show ?thesis by (simp add: removeByUid_def remove_inv)
qed (use assms in \<open>simp add: removeByUid_def\<close>)

lemma registry_inv_cong:
  assumes "registry_inv s" "sr_store t = sr_store s" "sr_waits t = sr_waits s" "sr_byClient t = sr_byClient s"
    "sr_active t = sr_active s" "sr_initializing t = sr_initializing s" "sr_totalCount t = sr_totalCount s"
    "sr_lastGeneration t = sr_lastGeneration s"
  shows "registry_inv t"
proof -
  have "waits_inv None [] t"
    by (rule waits_inv_cong[of None "[]" s]) (use assms in \<open>simp_all add: registry_inv_def\<close>)
  with assms show ?thesis by (simp add: registry_inv_def sets_inv_def settled_inv_def)
qed

lemma flag_inv [step_inv]:
  assumes "registry_inv s"
  shows "registry_inv (enterOverload s)" "registry_inv (exitOverload s)" "registry_inv (markUnavailable s)"
  by (rule registry_inv_cong[OF assms], simp_all add: enterOverload_def exitOverload_def markUnavailable_def)+

lemma settled_inv_wait:
  assumes "settled_inv s" "core t = core s"
    "\<And>r. r < length (sr_store s) \<Longrightarrow> rv_settled (sr_store t ! r) = rv_settled (sr_store s ! r)"
  shows "settled_inv t"
  using assms core_nth(3)[OF assms(2)] core_length[OF assms(2)] by (simp add: settled_inv_def)

lemma wait_settled:
  "r < length (sr_store s) \<Longrightarrow> rv_settled (sr_store (finish_wait w s) ! r) = rv_settled (sr_store s ! r)"
  by (simp add: finish_wait_nth)

lemma waitForSettled_settled:
  assumes "distinct rs" "set rs \<subseteq> {..<length (sr_store s)}" "r < length (sr_store s)"
  shows "rv_settled (sr_store (waitForSettled rs aborted s) ! r) = rv_settled (sr_store s ! r)"
proof -
  let ?pending = "filter (\<lambda>r. \<not> rv_settled (sr_store s ! r)) rs"
  have "rv_settled (sr_store (fold (onSettled w) ?pending (s\<lparr>sr_waits := ws\<rparr>)) ! r) = rv_settled (sr_store s ! r)" for w ws
  proof -
    have "\<forall>r\<in>set ?pending. r < length (sr_store (s\<lparr>sr_waits := ws\<rparr>)) \<and> \<not> rv_settled (sr_store (s\<lparr>sr_waits := ws\<rparr>) ! r)"
      using assms(2) by auto
    from fold_onSettled[OF this, of w] assms show ?thesis by simp
  qed
  then show ?thesis by (simp add: waitForSettled_def Let_def)
qed

lemma wait_step_inv [step_inv]:
  assumes inv: "registry_inv s"
  shows "distinct rs \<Longrightarrow> set rs \<subseteq> {..<length (sr_store s)} \<Longrightarrow> registry_inv (waitForSettled rs aborted s)"
    and "w < length (sr_waits s) \<Longrightarrow> registry_inv (abort_wait w s)"
proof -
  from inv have parts: "sets_inv s" "settled_inv s" "waits_inv None [] s" by (simp_all add: registry_inv_def)
  show "registry_inv (waitForSettled rs aborted s)" if "distinct rs" "set rs \<subseteq> {..<length (sr_store s)}"
    using parts that waitForSettled_inv[OF parts(3) that] sets_inv_core[OF core_waitForSettled]
      settled_inv_wait[OF parts(2) core_waitForSettled] waitForSettled_settled[OF that]
    by (simp add: registry_inv_def)
  show "registry_inv (abort_wait w s)" if "w < length (sr_waits s)"
  proof -
    have "settled_inv (abort_wait w s)"
      by (rule settled_inv_wait[OF parts(2) core_abort_wait]) (simp add: abort_wait_def Let_def wait_settled)
    with parts abort_wait_inv[OF parts(3) that] sets_inv_core[OF core_abort_wait] show ?thesis
      by (simp add: registry_inv_def)
  qed
qed

section \<open>The system\<close>

inductive registry_step :: "registry_state \<Rightarrow> registry_state \<Rightarrow> bool" where
  Reserve: "registry_step s (snd (reserve_subscription sub s))"
| Activate: "r < length (sr_store s) \<Longrightarrow> registry_step s (activate r s)"
| Remove: "r < length (sr_store s) \<Longrightarrow> registry_step s (remove_reservation r s)"
| RemoveByUid: "registry_step s (removeByUid client uid s)"
| RemoveAll: "registry_step s (removeAllForClient client s)"
| Enter: "registry_step s (enterOverload s)"
| Exit: "registry_step s (exitOverload s)"
| Unavailable: "registry_step s (markUnavailable s)"
| Wait: "distinct rs \<Longrightarrow> set rs \<subseteq> {..<length (sr_store s)} \<Longrightarrow> registry_step s (waitForSettled rs aborted s)"
| Abort: "w < length (sr_waits s) \<Longrightarrow> registry_step s (abort_wait w s)"

inductive_cases registry_stepE: "registry_step s t"

lemma registry_inv_new: "registry_inv new_registry"
  by (simp add: registry_inv_def new_registry_def sets_inv_def settled_inv_def waits_inv_def listeners_inv_def
      indexed_def members_def SUBSCRIPTIONS_PER_PROCESS_def)

interpretation registry_system: invariant_system new_registry registry_step registry_inv
proof unfold_locales
  fix s t assume "registry_inv s" "registry_step s t"
  from this(2,1) show "registry_inv t" by cases (simp_all add: step_inv)
qed (rule registry_inv_new)

text \<open>How reservations evolve: none is forgotten, none becomes initializing again.\<close>

definition evolves :: "registry_state \<Rightarrow> registry_state \<Rightarrow> bool" where
  "evolves s t \<longleftrightarrow> length (sr_store s) \<le> length (sr_store t) \<and>
     (\<forall>r<length (sr_store s). rv_subscription (sr_store t ! r) = rv_subscription (sr_store s ! r) \<and>
        (rv_status (sr_store t ! r) = Initializing \<longrightarrow> rv_status (sr_store s ! r) = Initializing))"

lemma evolves_refl: "evolves s s"
  by (simp add: evolves_def)

lemma evolves_trans: "evolves s t \<Longrightarrow> evolves t u \<Longrightarrow> evolves s u"
  by (simp add: evolves_def)

lemma evolves_core: "core t = core u \<Longrightarrow> evolves s u \<Longrightarrow> evolves s t"
  using core_nth[of t u] core_length[of t u] by (simp add: evolves_def)

lemma evolves_core_refl: "core t = core s \<Longrightarrow> evolves s t"
  by (erule evolves_core) (rule evolves_refl)

lemma evolves_activate:
  assumes "r < length (sr_store s)" shows "evolves s (activate r s)"
proof (cases "rv_status (sr_store s ! r) = Initializing")
  case True
  show ?thesis unfolding activate_shape[OF assms True]
    by (rule evolves_core[OF core_notifySettled]) (auto simp: evolves_def nth_list_update assms split: if_splits)
qed (simp add: activate_def evolves_refl)

lemma evolves_remove:
  assumes "r < length (sr_store s)" shows "evolves s (remove_reservation r s)"
proof (cases "live (sr_store s ! r)")
  case True
  show ?thesis unfolding remove_shape[OF assms True]
    by (rule evolves_core[OF core_notifySettled]) (auto simp: evolves_def nth_list_update assms split: if_splits)
qed (simp add: remove_reservation_def live_def evolves_refl)

lemma evolves_fold_remove: "set rs \<subseteq> {..<length (sr_store s)} \<Longrightarrow> evolves s (fold remove_reservation rs s)"
proof (induction rs arbitrary: s)
  case (Cons r rs)
  then have "evolves (remove_reservation r s) (fold remove_reservation rs (remove_reservation r s))" by simp
  with Cons.prems evolves_remove[of r s] show ?case by (auto intro: evolves_trans)
qed (simp add: evolves_refl)

lemma evolves_step:
  assumes "registry_inv s" "registry_step s t" shows "evolves s t"
  using assms(2)
proof cases
  case (RemoveByUid client uid)
  from assms(1) have "set (members (sr_byClient s) client) \<subseteq> {..<length (sr_store s)}"
    using members_in_store by (auto simp: registry_inv_def)
  moreover have "set (filter P xs) \<subseteq> set xs" for P and xs :: "nat list" by auto
  ultimately show ?thesis unfolding RemoveByUid removeByUid_def
    by (auto simp: evolves_refl split: list.split intro!: evolves_remove dest!: filter_eq_ConsD)
next
  case (RemoveAll client)
  from assms(1) have "set (members (sr_byClient s) client) \<subseteq> {..<length (sr_store s)}"
    using members_in_store by (auto simp: registry_inv_def)
  then show ?thesis by (simp add: RemoveAll removeAllForClient_def evolves_fold_remove)
next
  case (Reserve sub)
  then show ?thesis by (auto simp: reserve_subscription_def Let_def evolves_def nth_append)
next
  case Enter
  then show ?thesis by (simp add: enterOverload_def evolves_def)
next
  case Exit
  then show ?thesis by (simp add: exitOverload_def evolves_def)
next
  case Unavailable
  then show ?thesis by (simp add: markUnavailable_def evolves_def)
qed (simp_all add: evolves_activate evolves_remove evolves_core_refl)

lemma evolves_reach:
  "reach s registry_step t \<Longrightarrow> registry_inv s \<Longrightarrow> registry_inv t \<and> evolves s t"
  by (induction rule: reach.induct) (auto simp: evolves_refl intro: evolves_trans evolves_step registry_system.inv_step)

section \<open>Properties\<close>

text \<open>
  C28: in every reachable state of the registry, a client owns exactly its live reservations, the active and the
  initializing set of a collection hold exactly its active and initializing reservations, no set is empty, the total
  is the number of live reservations, and neither the limit of a connection nor that of the process is exceeded.
\<close>

theorem subscription_accounting:
  assumes "reach new_registry registry_step s"
  shows "set (members (sr_byClient s) client) =
      {r. r < length (sr_store s) \<and> rv_client (sr_store s ! r) = client \<and> live (sr_store s ! r)} \<and>
    set (members (sr_active s) collection) =
      {r. r < length (sr_store s) \<and> rv_collection (sr_store s ! r) = collection \<and> isActive r s} \<and>
    set (members (sr_initializing s) collection) =
      {r. r < length (sr_store s) \<and> rv_collection (sr_store s ! r) = collection \<and>
          rv_status (sr_store s ! r) = Initializing} \<and>
    set (getSubscribedOwners s) = {rv_client v |v. v \<in> set (sr_store s) \<and> live v} \<and>
    sr_totalCount s = count_if live (sr_store s) \<and> sr_totalCount s \<le> SUBSCRIPTIONS_PER_PROCESS \<and>
    length (members (sr_byClient s) client) \<le> SUBSCRIPTIONS_PER_CONNECTION"
proof -
  from registry_system.inv_reach[OF assms] have inv: "sets_inv s" by (simp add: registry_inv_def)
  have sets: "set (members (sr_byClient s) c) = {r. r < length (sr_store s) \<and> rv_client (sr_store s ! r) = c \<and> live (sr_store s ! r)}"
    and ok: "sets_ok (sr_byClient s)" for c
    using inv by (simp_all add: sets_inv_def indexed_def)
  have "c \<in> set (getSubscribedOwners s) \<longleftrightarrow> (\<exists>r. r \<in> set (members (sr_byClient s) c))" for c
    using members_Nil_iff[OF ok, of c] by (cases "members (sr_byClient s) c") (auto simp: getSubscribedOwners_def)
  then have "set (getSubscribedOwners s) = {rv_client v |v. v \<in> set (sr_store s) \<and> live v}"
    unfolding sets by (force simp: in_set_conv_nth)
  with inv sets show ?thesis by (simp add: sets_inv_def indexed_def isActive_def)
qed

definition demo_subscription :: subscription where
  "demo_subscription = \<lparr>sb_client = 7, sb_collection = ''c'', sb_query = JObj [], sb_uid = Some ''u'', sb_event = None,
     sb_item = None, sb_sink = False\<rparr>"

definition demo_registry_1 :: registry_state where
  "demo_registry_1 = snd (reserve_subscription demo_subscription new_registry)"

lemma demo_registry_1_reach: "reach new_registry registry_step demo_registry_1"
  unfolding demo_registry_1_def by (rule reach_one, rule registry_step.Reserve)

lemma demo_registry_1_simps:
  "sr_store demo_registry_1 = [\<lparr>rv_subscription = demo_subscription, rv_generation = 1, rv_status = Initializing,
     rv_settled = False, rv_listeners = []\<rparr>]" "sr_waits demo_registry_1 = []"
  by code_simp+

lemma subscription_accounting_witness: "set (members (sr_initializing demo_registry_1) ''c'') = {0}"
  using subscription_accounting[OF demo_registry_1_reach, of 0 "''c''"]
  by (auto simp: demo_registry_1_simps demo_subscription_def)

text \<open>
  A wait for settled reservations has resolved exactly when its signal was aborted or every reservation it was
  given has been activated or removed. It never hangs when nothing is left to wait for, and never returns early.
\<close>

lemma wait_resolves_exactly:
  assumes "reach new_registry registry_step s" "w < length (sr_waits s)"
  shows "wt_resolved (sr_waits s ! w) \<longleftrightarrow>
    wt_aborted (sr_waits s ! w) \<or>
    (\<forall>r\<in>set (wt_reservations (sr_waits s ! w)). rv_status (sr_store s ! r) \<noteq> Initializing)"
proof -
  from registry_system.inv_reach[OF assms(1)] assms(2)
  have wi: "wait_inv None [] s w" and st: "settled_inv s" by (simp_all add: registry_inv_def waits_inv_def)
  let ?v = "sr_waits s ! w"
  from wi st have settled: "rv_settled (sr_store s ! r) \<longleftrightarrow> rv_status (sr_store s ! r) \<noteq> Initializing"
    if "r \<in> set (wt_reservations ?v)" for r
    using that by (auto simp: wait_inv_def Let_def settled_inv_def)
  show ?thesis
  proof (cases "wt_resolved ?v")
    case False
    with wi have "0 < unsettled s ?v" "\<not> wt_aborted ?v" "set (wt_disposers ?v) \<subseteq> set (wt_reservations ?v)"
      by (auto simp: wait_inv_def Let_def)
    then obtain r where "r \<in> set (wt_reservations ?v)" "\<not> rv_settled (sr_store s ! r)"
      using unsettled_zero[of s ?v] by auto
    with False \<open>\<not> wt_aborted ?v\<close> settled show ?thesis by auto
  qed (use wi settled in \<open>auto simp: wait_inv_def Let_def\<close>)
qed

definition demo_registry_2 :: registry_state where
  "demo_registry_2 = activate 0 (waitForSettled [0] False demo_registry_1)"

lemma demo_registry_2_reach: "reach demo_registry_1 registry_step demo_registry_2"
proof -
  have "registry_step demo_registry_1 (waitForSettled [0] False demo_registry_1)"
    by (rule registry_step.Wait) (simp_all add: demo_registry_1_simps)
  moreover have "length (sr_store (waitForSettled [0] False demo_registry_1)) = 1" by code_simp
  then have "registry_step (waitForSettled [0] False demo_registry_1) demo_registry_2"
    unfolding demo_registry_2_def by (intro registry_step.Activate) simp
  ultimately show ?thesis by (blast intro: reach_init reach_step)
qed

lemma reach_trans: "reach t step u \<Longrightarrow> reach s step t \<Longrightarrow> reach s step u"
  by (induction rule: reach.induct) (auto intro: reach_step)

lemma demo_registry_2_simps:
  "sr_store demo_registry_2 = [\<lparr>rv_subscription = demo_subscription, rv_generation = 1, rv_status = Active,
     rv_settled = True, rv_listeners = []\<rparr>]"
  "sr_waits demo_registry_2 = [\<lparr>wt_reservations = [0], wt_aborted = False, wt_remaining = 0, wt_disposers = [0],
     wt_resolved = True\<rparr>]"
  by code_simp+

lemma wait_resolves_exactly_witness: "wt_resolved (sr_waits demo_registry_2 ! 0)"
  using wait_resolves_exactly[OF reach_trans[OF demo_registry_2_reach demo_registry_1_reach], of 0]
  by (simp add: demo_registry_2_simps)

text \<open>
  No subscriber misses an event. When a context was captured for a collection, and later the wait on its
  barrier resolved without being aborted, the reservations an event is delivered to are exactly those of the
  collection that existed at the capture and have not been removed; none is listed twice.
\<close>

lemma barrier_complete:
  assumes "reach new_registry registry_step s" "reach s registry_step t"
    and "captureDispatchContext collection s = (generation, pending)"
    and "w < length (sr_waits t)" "wt_reservations (sr_waits t ! w) = pending"
    and "wt_resolved (sr_waits t ! w)" "\<not> wt_aborted (sr_waits t ! w)"
  shows "set (getActiveByCollection collection generation t) =
      {r. r < length (sr_store s) \<and> rv_collection (sr_store s ! r) = collection \<and> live (sr_store t ! r)} \<and>
    distinct (getActiveByCollection collection generation t)"
proof -
  from assms(1) have inv_s: "registry_inv s" by (rule registry_system.inv_reach)
  with evolves_reach[OF assms(2)] have inv_t: "registry_inv t" and ev: "evolves s t" by simp_all
  from assms(3) inv_s have gen: "generation = int (length (sr_store s))"
    and pend: "set pending = {r. r < length (sr_store s) \<and> rv_collection (sr_store s ! r) = collection \<and>
      rv_status (sr_store s ! r) = Initializing}"
    by (auto simp: captureDispatchContext_def registry_inv_def sets_inv_def indexed_def)
  have wi: "wait_inv None [] t w" and st: "settled_inv t" using inv_t assms(4) by (simp_all add: registry_inv_def waits_inv_def)
  then have none: "rv_status (sr_store t ! r) \<noteq> Initializing" if "r \<in> set pending" for r
    using that assms(4-7) by (auto simp: wait_inv_def Let_def settled_inv_def)
  have act: "set (members (sr_active t) collection) = {r. r < length (sr_store t) \<and>
      rv_collection (sr_store t ! r) = collection \<and> rv_status (sr_store t ! r) = Active}"
    and gens: "\<forall>r<length (sr_store t). rv_generation (sr_store t ! r) = int r + 1"
    and ok: "sets_ok (sr_active t)"
    using inv_t by (simp_all add: registry_inv_def sets_inv_def indexed_def)
  have "r \<in> set (getActiveByCollection collection generation t) \<longleftrightarrow>
      r < length (sr_store s) \<and> rv_collection (sr_store s ! r) = collection \<and> live (sr_store t ! r)" for r
  proof (cases "r < length (sr_store s)")
    case True
    with ev have same: "rv_subscription (sr_store t ! r) = rv_subscription (sr_store s ! r)" "r < length (sr_store t)"
      and back_i: "rv_status (sr_store t ! r) = Initializing \<longrightarrow> rv_status (sr_store s ! r) = Initializing"
      by (simp_all add: evolves_def)
    have "rv_collection (sr_store s ! r) = collection \<Longrightarrow> rv_status (sr_store t ! r) \<noteq> Initializing"
      using True back_i none pend by blast
    then have "rv_collection (sr_store s ! r) = collection \<Longrightarrow> live (sr_store t ! r) \<longleftrightarrow> rv_status (sr_store t ! r) = Active"
      by (cases "rv_status (sr_store t ! r)") (simp_all add: live_def)
    with True same gens gen act show ?thesis by (auto simp: getActiveByCollection_def)
  next
    case False
    have "rv_generation (sr_store t ! r) = int r + 1" if "r \<in> set (members (sr_active t) collection)"
      using that gens unfolding act by simp
    with False have "r \<notin> set (getActiveByCollection collection generation t)"
      unfolding gen getActiveByCollection_def by auto
    with False show ?thesis by simp
  qed
  with members_ok[OF ok] show ?thesis by (auto simp: getActiveByCollection_def)
qed

lemma barrier_complete_witness: "set (getActiveByCollection ''c'' 1 demo_registry_2) = {0}"
proof -
  have "captureDispatchContext ''c'' demo_registry_1 = (1, [0])" by code_simp
  note at = barrier_complete[OF demo_registry_1_reach demo_registry_2_reach this, of 0]
  have "set (getActiveByCollection ''c'' 1 demo_registry_2) = {r. r < length (sr_store demo_registry_1) \<and>
      rv_collection (sr_store demo_registry_1 ! r) = ''c'' \<and> live (sr_store demo_registry_2 ! r)}"
    by (rule conjunct1, rule at) (simp_all add: demo_registry_2_simps)
  also have "\<dots> = {0}" by (auto simp: demo_registry_2_simps demo_registry_1_simps demo_subscription_def live_def)
  finally show ?thesis .
qed

end
