(* ===== verification/Dispatch.thy ===== *)
theory Dispatch
  imports Subscriptions
begin

text \<open>
  \<open>api/src/websocket/dispatch.ts\<close>: the coordinator that queues item events per collection, one worker per queue,
  waits until the reservations of the collection have settled and fans an event out to the subscribers. The
  subscription registry is part of the state. Parsing and encoding of a message, the connections, and the delivery
  itself are parameters.
\<close>

section \<open>The semaphore\<close>

text \<open>An \<open>acquire\<close> is named by its place in the list of results; \<open>None\<close> is a promise that is pending.\<close>

record semaphore =
  sm_permits :: int
  sm_waiters :: "nat list"
  sm_results :: "bool option list"

definition new_semaphore :: "int \<Rightarrow> semaphore" where
  "new_semaphore permits = \<lparr>sm_permits = permits, sm_waiters = [], sm_results = []\<rparr>"

definition sem_acquire :: "bool \<Rightarrow> semaphore \<Rightarrow> semaphore" where
  "sem_acquire aborted s =
     (if aborted then s\<lparr>sm_results := sm_results s @ [Some False]\<rparr>
      else if sm_permits s > 0
      then s\<lparr>sm_permits := sm_permits s - 1, sm_results := sm_results s @ [Some True]\<rparr>
      else s\<lparr>sm_waiters := sm_waiters s @ [length (sm_results s)], sm_results := sm_results s @ [None]\<rparr>)"

text \<open>The abort event of the waiter's signal.\<close>

definition sem_abort :: "nat \<Rightarrow> semaphore \<Rightarrow> semaphore" where
  "sem_abort n s =
     (if sm_results s ! n \<noteq> None then s
      else s\<lparr>sm_waiters := removeAll n (sm_waiters s), sm_results := (sm_results s)[n := Some False]\<rparr>)"

definition sem_release :: "semaphore \<Rightarrow> semaphore" where
  "sem_release s =
     (case sm_waiters s of
        [] \<Rightarrow> s\<lparr>sm_permits := sm_permits s + 1\<rparr>
      | w # ws \<Rightarrow> s\<lparr>sm_waiters := ws, sm_results := (sm_results s)[w := Some True]\<rparr>)"

text \<open>A use of the semaphore: who holds a permit is who was granted one and has not given it back.\<close>

record gate =
  gt_sem :: semaphore
  gt_released :: "nat list"

definition holders :: "gate \<Rightarrow> nat list" where
  "holders g = filter (\<lambda>n. sm_results (gt_sem g) ! n = Some True \<and> n \<notin> set (gt_released g))
     [0..<length (sm_results (gt_sem g))]"

inductive gate_step :: "gate \<Rightarrow> gate \<Rightarrow> bool" where
  Gate_acquire: "gate_step g (g\<lparr>gt_sem := sem_acquire aborted (gt_sem g)\<rparr>)"
| Gate_abort: "n < length (sm_results (gt_sem g)) \<Longrightarrow> gate_step g (g\<lparr>gt_sem := sem_abort n (gt_sem g)\<rparr>)"
| Gate_release: "n \<in> set (holders g) \<Longrightarrow>
    gate_step g (g\<lparr>gt_sem := sem_release (gt_sem g), gt_released := n # gt_released g\<rparr>)"

definition new_gate :: "int \<Rightarrow> gate" where
  "new_gate permits = \<lparr>gt_sem = new_semaphore permits, gt_released = []\<rparr>"

definition gate_inv :: "int \<Rightarrow> gate \<Rightarrow> bool" where
  "gate_inv capacity g \<longleftrightarrow>
     (let s = gt_sem g in
      sm_permits s + int (length (holders g)) = capacity \<and> 0 \<le> sm_permits s \<and>
      (sm_waiters s \<noteq> [] \<longrightarrow> sm_permits s = 0) \<and> sorted_wrt (<) (sm_waiters s) \<and>
      set (sm_waiters s) = {n. n < length (sm_results s) \<and> sm_results s ! n = None} \<and>
      (\<forall>n\<in>set (gt_released g). n < length (sm_results s) \<and> sm_results s ! n = Some True))"

lemma set_holders: "set (holders g) = {n. n < length (sm_results (gt_sem g)) \<and>
    sm_results (gt_sem g) ! n = Some True \<and> n \<notin> set (gt_released g)}"
  by (auto simp: holders_def)

lemma length_holders: "length (holders g) = card (set (holders g))"
  unfolding holders_def by (rule distinct_card[symmetric]) simp

lemma gate_new: "0 \<le> n \<Longrightarrow> gate_inv n (new_gate n)"
  by (simp add: gate_inv_def new_gate_def new_semaphore_def holders_def)

lemma gate_acquire:
  assumes "gate_inv c g" shows "gate_inv c (g\<lparr>gt_sem := sem_acquire aborted (gt_sem g)\<rparr>)"
proof -
  let ?s = "gt_sem g" and ?n = "length (sm_results (gt_sem g))"
  have "set (holders (g\<lparr>gt_sem := sem_acquire aborted ?s\<rparr>)) =
      (if \<not> aborted \<and> sm_permits ?s > 0 then insert ?n (set (holders g)) else set (holders g))"
    using assms unfolding set_holders
    by (auto simp: gate_inv_def Let_def sem_acquire_def nth_append less_Suc_eq)
  moreover have "?n \<notin> set (holders g)" by (simp add: set_holders)
  ultimately have "int (length (holders (g\<lparr>gt_sem := sem_acquire aborted ?s\<rparr>))) =
      int (length (holders g)) + of_bool (\<not> aborted \<and> sm_permits ?s > 0)" by (simp add: length_holders)
  with assms show ?thesis
    by (auto simp: gate_inv_def Let_def sem_acquire_def nth_append less_Suc_eq sorted_wrt_append)
qed

lemma gate_abort:
  assumes "gate_inv c g" "n < length (sm_results (gt_sem g))"
  shows "gate_inv c (g\<lparr>gt_sem := sem_abort n (gt_sem g)\<rparr>)"
proof (cases "sm_results (gt_sem g) ! n")
  case None
  have "set (holders (g\<lparr>gt_sem := sem_abort n (gt_sem g)\<rparr>)) = set (holders g)"
    using None assms(2) by (auto simp: set_holders sem_abort_def nth_list_update)
  moreover have "sorted_wrt (<) (removeAll n xs)" if "sorted_wrt (<) xs" for xs :: "nat list"
    using that by (simp add: removeAll_filter_not_eq sorted_wrt_filter)
  ultimately show ?thesis using assms None
    by (auto simp: gate_inv_def Let_def sem_abort_def length_holders nth_list_update split: if_splits)
qed (use assms in \<open>simp add: sem_abort_def\<close>)

lemma gate_release:
  assumes inv: "gate_inv c g" and n: "n \<in> set (holders g)"
  shows "gate_inv c (g\<lparr>gt_sem := sem_release (gt_sem g), gt_released := n # gt_released g\<rparr>)"
proof -
  let ?s = "gt_sem g" and ?g = "g\<lparr>gt_sem := sem_release (gt_sem g), gt_released := n # gt_released g\<rparr>"
  from n have nn: "n < length (sm_results ?s)" "sm_results ?s ! n = Some True" "n \<notin> set (gt_released g)"
    by (simp_all add: set_holders)
  from n have pos: "card (set (holders g)) > 0" by (metis card_gt_0_iff empty_iff List.finite_set)
  show ?thesis
  proof (cases "sm_waiters ?s")
    case Nil
    then have "set (holders ?g) = set (holders g) - {n}" by (auto simp: set_holders sem_release_def)
    with n pos have "int (length (holders ?g)) = int (length (holders g)) - 1"
      by (simp add: length_holders card_Diff_singleton of_nat_diff Suc_leI)
    with inv nn Nil show ?thesis by (auto simp: gate_inv_def Let_def sem_release_def)
  next
    case (Cons w ws)
    with inv have w: "w < length (sm_results ?s)" "sm_results ?s ! w = None" "sm_permits ?s = 0" "w \<notin> set ws"
      by (auto simp: gate_inv_def Let_def)
    with inv have "w \<notin> set (gt_released g)" by (auto simp: gate_inv_def Let_def)
    with w nn Cons have "set (holders ?g) = insert w (set (holders g) - {n})"
      by (auto simp: set_holders sem_release_def nth_list_update)
    moreover have "w \<notin> set (holders g)" using w by (simp add: set_holders)
    ultimately have "length (holders ?g) = length (holders g)"
      using n pos by (simp add: length_holders card_Diff_singleton)
    moreover have "set ws = {i. i < length (sm_results ?s) \<and> (sm_results ?s)[w := Some True] ! i = None}"
    proof -
      have "insert w (set ws) = {i. i < length (sm_results ?s) \<and> sm_results ?s ! i = None}"
        using inv Cons by (simp add: gate_inv_def Let_def)
      with w(4) have "set ws = {i. i < length (sm_results ?s) \<and> sm_results ?s ! i = None} - {w}" by blast
      also have "\<dots> = {i. i < length (sm_results ?s) \<and> (sm_results ?s)[w := Some True] ! i = None}"
        by (rule set_eqI) (simp add: nth_list_update conj_commute w(1))
      finally show ?thesis .
    qed
    ultimately show ?thesis using inv nn w Cons
      by (auto simp: gate_inv_def Let_def sem_release_def nth_list_update)
  qed
qed

interpretation semaphore_gate: invariant_system "new_gate (int capacity)" gate_step "gate_inv (int capacity)" for capacity
proof unfold_locales
  show "gate_inv (int capacity) (new_gate (int capacity))" by (rule gate_new) simp
  fix g h assume "gate_inv (int capacity) g" "gate_step g h"
  from this(2,1) show "gate_inv (int capacity) h" by cases (simp_all add: gate_acquire gate_abort gate_release)
qed

text \<open>
  However acquires, aborts and releases interleave, a semaphore never has more holders than permits, an acquire
  waits only while every permit is held, and the waiting acquires are exactly those that have not been answered, in the
  order they were made.
\<close>

lemma semaphore_correct:
  assumes "reach (new_gate (int capacity)) gate_step g"
  shows "length (holders g) \<le> capacity \<and>
    (sm_waiters (gt_sem g) \<noteq> [] \<longrightarrow> length (holders g) = capacity) \<and>
    sm_waiters (gt_sem g) = filter (\<lambda>n. sm_results (gt_sem g) ! n = None) [0..<length (sm_results (gt_sem g))]"
proof -
  from semaphore_gate.inv_reach[OF assms] have inv: "gate_inv (int capacity) g" .
  have "sm_waiters (gt_sem g) = filter (\<lambda>n. sm_results (gt_sem g) ! n = None) [0..<length (sm_results (gt_sem g))]"
    by (rule sorted_distinct_set_unique)
      (use inv in \<open>auto simp: gate_inv_def Let_def strict_sorted_iff intro: sorted_wrt_filter\<close>)
  with inv show ?thesis by (auto simp: gate_inv_def Let_def)
qed

definition demo_gate :: gate where
  "demo_gate = (new_gate 1)\<lparr>gt_sem := sem_acquire False (sem_acquire False (gt_sem (new_gate 1)))\<rparr>"

lemma semaphore_correct_witness: "sm_waiters (gt_sem demo_gate) = [1] \<and> length (holders demo_gate) = 1"
proof -
  have "gate_step (new_gate (int 1)) ((new_gate 1)\<lparr>gt_sem := sem_acquire False (gt_sem (new_gate 1))\<rparr>)" (is "gate_step _ ?g")
    using Gate_acquire[of "new_gate 1" False] by simp
  moreover have "gate_step ?g demo_gate" using Gate_acquire[of ?g False] by (simp add: demo_gate_def)
  ultimately have "reach (new_gate (int 1)) gate_step demo_gate" by (blast intro: reach_init reach_step)
  from semaphore_correct[OF this] show ?thesis
    by (simp add: demo_gate_def new_gate_def new_semaphore_def sem_acquire_def nth_append)
qed

section \<open>The coordinator\<close>

type_synonym item_key = "string + int"

datatype ws_event =
    Ev_create string item_key
  | Ev_update string "item_key list"
  | Ev_delete string "item_key list"

fun ev_collection :: "ws_event \<Rightarrow> string" where
  "ev_collection (Ev_create c _) = c"
| "ev_collection (Ev_update c _) = c"
| "ev_collection (Ev_delete c _) = c"

definition SOURCE_EVENT_QUEUE_COUNT :: int where
  "SOURCE_EVENT_QUEUE_COUNT = 1000"

definition SOURCE_EVENT_QUEUE_BYTES :: int where
  "SOURCE_EVENT_QUEUE_BYTES = 8388608"

text \<open>
  An entry keeps the generation and the barrier (the reservations it waits for) of its context. A token is a number.
  A worker runs on the queue of its collection; \<open>wk_wait\<close> names its wait on the barrier of the first entry. A
  worker that has left its loop is settled and waits for its \<open>finally\<close> handler.
\<close>

record queue_entry =
  qe_generation :: int
  qe_barrier :: "nat list"
  qe_encoded :: string
  qe_bytes :: int
  qe_token :: nat

record worker =
  wk_collection :: string
  wk_wait :: nat
  wk_running :: bool

record dispatch_state =
  dp_registry :: registry_state
  dp_queues :: "(string \<times> queue_entry list) list"
  dp_workers :: "(nat \<times> worker) list"
  dp_nextWorker :: nat
  dp_queueCount :: int
  dp_queueBytes :: int
  dp_token :: nat
  dp_cancelled :: "nat list"
  dp_overloaded :: bool
  dp_stopped :: bool
  dp_subscribed :: bool
  dp_closed :: "(nat \<times> int) list"

definition new_dispatch :: dispatch_state where
  "new_dispatch = \<lparr>dp_registry = new_registry, dp_queues = [], dp_workers = [], dp_nextWorker = 0, dp_queueCount = 0,
     dp_queueBytes = 0, dp_token = 0, dp_cancelled = [], dp_overloaded = False, dp_stopped = False,
     dp_subscribed = False, dp_closed = []\<rparr>"

definition start_dispatch :: "dispatch_state \<Rightarrow> dispatch_state" where
  "start_dispatch d = d\<lparr>dp_subscribed := True\<rparr>"

definition queue_of :: "dispatch_state \<Rightarrow> string \<Rightarrow> queue_entry list" where
  "queue_of d c = (case map_of (dp_queues d) c of None \<Rightarrow> [] | Some q \<Rightarrow> q)"

text \<open>The start of an iteration of \<open>runWorker\<close>: the barrier of the first entry is awaited.\<close>

definition begin_entry :: "string \<Rightarrow> dispatch_state \<Rightarrow> dispatch_state \<times> nat" where
  "begin_entry c d =
     (let entry = hd (queue_of d c) in
      (d\<lparr>dp_registry := waitForSettled (qe_barrier entry) (qe_token entry \<in> set (dp_cancelled d)) (dp_registry d)\<rparr>,
       length (sr_waits (dp_registry d))))"

definition spawnWorker :: "string \<Rightarrow> dispatch_state \<Rightarrow> dispatch_state" where
  "spawnWorker c d =
     (case begin_entry c d of
        (d', w) \<Rightarrow> d'\<lparr>dp_workers := dp_workers d' @ [(dp_nextWorker d', \<lparr>wk_collection = c, wk_wait = w, wk_running = True\<rparr>)],
          dp_nextWorker := dp_nextWorker d' + 1\<rparr>)"

definition maybeRecover :: "dispatch_state \<Rightarrow> dispatch_state" where
  "maybeRecover d =
     (if \<not> dp_overloaded d \<or> dp_stopped d then d
      else if dp_workers d \<noteq> [] \<or> dp_queueCount d > 0 then d
      else d\<lparr>dp_overloaded := False, dp_token := dp_token d + 1, dp_registry := exitOverload (dp_registry d)\<rparr>)"

text \<open>Cancelling a token fires the abort event of the waits that were given its signal.\<close>

definition token_waits :: "nat \<Rightarrow> dispatch_state \<Rightarrow> nat list" where
  "token_waits token d =
     map (\<lambda>(_, w). wk_wait w) (filter (\<lambda>(_, w). wk_running w \<and> qe_token (hd (queue_of d (wk_collection w))) = token)
       (dp_workers d))"

definition cancel_token :: "nat \<Rightarrow> dispatch_state \<Rightarrow> dispatch_state" where
  "cancel_token token d =
     (if token \<in> set (dp_cancelled d) then d
      else d\<lparr>dp_cancelled := token # dp_cancelled d,
             dp_registry := fold abort_wait (token_waits token d) (dp_registry d)\<rparr>)"

definition dispatch_enterOverload :: "dispatch_state \<Rightarrow> dispatch_state" where
  "dispatch_enterOverload d =
     (if dp_overloaded d then d
      else
        (let d1 = d\<lparr>dp_overloaded := True, dp_registry := enterOverload (dp_registry d)\<rparr>;
             d2 = d1\<lparr>dp_closed := dp_closed d1 @ map (\<lambda>client. (client, 1013)) (getSubscribedOwners (dp_registry d1))\<rparr>
         in maybeRecover (cancel_token (dp_token d2) d2)))"

definition admit :: "(json \<Rightarrow> ws_event option) \<Rightarrow> (ws_event \<Rightarrow> string) \<Rightarrow> json \<Rightarrow> dispatch_state \<Rightarrow> dispatch_state" where
  "admit parse_event encode_event message d =
     (if dp_stopped d \<or> dp_overloaded d then d
      else
        (case parse_event message of
           None \<Rightarrow> d
         | Some event \<Rightarrow>
             (let encoded = encode_event event; bytes = int (length encoded) in
              if dp_queueCount d + 1 > SOURCE_EVENT_QUEUE_COUNT \<or> dp_queueBytes d + bytes > SOURCE_EVENT_QUEUE_BYTES
              then dispatch_enterOverload d
              else
                (case captureDispatchContext (ev_collection event) (dp_registry d) of
                   (generation, barrier) \<Rightarrow>
                     (let c = ev_collection event;
                          entry = \<lparr>qe_generation = generation, qe_barrier = barrier, qe_encoded = encoded,
                                   qe_bytes = bytes, qe_token = dp_token d\<rparr>;
                          queue = queue_of d c @ [entry];
                          d1 = d\<lparr>dp_queues := js_set c queue (dp_queues d), dp_queueCount := dp_queueCount d + 1,
                                 dp_queueBytes := dp_queueBytes d + bytes\<rparr>
                      in if length queue = 1 then spawnWorker c d1 else d1)))))"

text \<open>
  The end of an iteration of a worker, with the start of its next one: an entry is released once and leaves the
  queue, and the loop ends when the queue is empty.
\<close>

definition releaseEntry :: "queue_entry \<Rightarrow> dispatch_state \<Rightarrow> dispatch_state" where
  "releaseEntry entry d =
     d\<lparr>dp_queueCount := dp_queueCount d - 1, dp_queueBytes := dp_queueBytes d - qe_bytes entry\<rparr>"

definition finish_entry :: "nat \<Rightarrow> dispatch_state \<Rightarrow> dispatch_state" where
  "finish_entry i d =
     (case map_of (dp_workers d) i of
        None \<Rightarrow> d
      | Some w \<Rightarrow>
          (let c = wk_collection w; entry = hd (queue_of d c); rest = tl (queue_of d c);
               d0 = releaseEntry entry d;
               d1 = d0\<lparr>dp_queues := js_set c rest (dp_queues d0)\<rparr>
           in if rest = []
              then d1\<lparr>dp_queues := js_delete c (dp_queues d1), dp_workers := js_set i (w\<lparr>wk_running := False\<rparr>) (dp_workers d1)\<rparr>
              else (case begin_entry c d1 of
                      (d2, n) \<Rightarrow> d2\<lparr>dp_workers := js_set i (w\<lparr>wk_wait := n\<rparr>) (dp_workers d2)\<rparr>)))"

definition worker_finally :: "nat \<Rightarrow> dispatch_state \<Rightarrow> dispatch_state" where
  "worker_finally i d = maybeRecover (d\<lparr>dp_workers := js_delete i (dp_workers d)\<rparr>)"

definition stop_dispatch :: "dispatch_state \<Rightarrow> dispatch_state" where
  "stop_dispatch d =
     (if dp_stopped d then d
      else
        (let d1 = d\<lparr>dp_registry := markUnavailable (dp_registry d), dp_stopped := True, dp_subscribed := False\<rparr>
         in cancel_token (dp_token d1) d1))"

text \<open>What clients do to the registry.\<close>

inductive client_step :: "registry_state \<Rightarrow> registry_state \<Rightarrow> bool" where
  Client_reserve: "client_step s (snd (reserve_subscription sub s))"
| Client_activate: "r < length (sr_store s) \<Longrightarrow> client_step s (activate r s)"
| Client_remove: "r < length (sr_store s) \<Longrightarrow> client_step s (remove_reservation r s)"
| Client_remove_uid: "client_step s (removeByUid client uid s)"
| Client_remove_all: "client_step s (removeAllForClient client s)"

text \<open>
  The steps of the coordinator with the clients. A worker ends its entry once its wait has resolved; the fan-out in
  between takes its own time.
\<close>

inductive dispatch_step :: "(json \<Rightarrow> ws_event option) \<Rightarrow> (ws_event \<Rightarrow> string) \<Rightarrow> dispatch_state \<Rightarrow> dispatch_state \<Rightarrow> bool"
  for parse_event encode_event where
  Client: "client_step (dp_registry d) r \<Longrightarrow> dispatch_step parse_event encode_event d (d\<lparr>dp_registry := r\<rparr>)"
| Start: "dispatch_step parse_event encode_event d (start_dispatch d)"
| Admit: "dispatch_step parse_event encode_event d (admit parse_event encode_event message d)"
| Finish: "map_of (dp_workers d) i = Some w \<Longrightarrow> wk_running w \<Longrightarrow> wt_resolved (sr_waits (dp_registry d) ! wk_wait w) \<Longrightarrow>
    dispatch_step parse_event encode_event d (finish_entry i d)"
| Finally: "map_of (dp_workers d) i = Some w \<Longrightarrow> \<not> wk_running w \<Longrightarrow>
    dispatch_step parse_event encode_event d (worker_finally i d)"
| Stop: "dispatch_step parse_event encode_event d (stop_dispatch d)"

inductive_cases dispatch_stepE: "dispatch_step parse_event encode_event d e"

section \<open>The coordinator's invariant\<close>

definition queued :: "dispatch_state \<Rightarrow> queue_entry list" where
  "queued d = concat (map snd (dp_queues d))"

definition total :: "(queue_entry list \<Rightarrow> int) \<Rightarrow> (string \<times> queue_entry list) list \<Rightarrow> int" where
  "total g m = sum_list (map (\<lambda>(_, q). g q) m)"

definition queue_bytes :: "queue_entry list \<Rightarrow> int" where
  "queue_bytes q = sum_list (map qe_bytes q)"

abbreviation queue_size :: "queue_entry list \<Rightarrow> int" where
  "queue_size q \<equiv> int (length q)"

definition entry_ok :: "registry_state \<Rightarrow> string \<Rightarrow> queue_entry \<Rightarrow> bool" where
  "entry_ok r c e \<longleftrightarrow> distinct (qe_barrier e) \<and> set (qe_barrier e) \<subseteq> {..<length (sr_store r)} \<and>
     qe_generation e \<le> sr_lastGeneration r \<and> 0 \<le> qe_bytes e \<and>
     (\<forall>i<length (sr_store r). rv_generation (sr_store r ! i) \<le> qe_generation e \<longrightarrow>
        rv_collection (sr_store r ! i) = c \<longrightarrow> rv_status (sr_store r ! i) = Initializing \<longrightarrow> i \<in> set (qe_barrier e))"

definition wait_calls :: "registry_state \<Rightarrow> (nat list \<times> bool) list" where
  "wait_calls r = map (\<lambda>v. (wt_reservations v, wt_aborted v)) (sr_waits r)"

definition worker_ok :: "dispatch_state \<Rightarrow> worker \<Rightarrow> bool" where
  "worker_ok d w \<longleftrightarrow> (wk_running w \<longrightarrow> queue_of d (wk_collection w) \<noteq> [] \<and>
     wk_wait w < length (wait_calls (dp_registry d)) \<and>
     (let e = hd (queue_of d (wk_collection w)) in
      wait_calls (dp_registry d) ! wk_wait w = (qe_barrier e, qe_token e \<in> set (dp_cancelled d))))"

definition running_collections :: "dispatch_state \<Rightarrow> string list" where
  "running_collections d = map (\<lambda>(_, w). wk_collection w) (filter (\<lambda>(_, w). wk_running w) (dp_workers d))"

definition queues_inv :: "dispatch_state \<Rightarrow> bool" where
  "queues_inv d \<longleftrightarrow> distinct (map fst (dp_queues d)) \<and> [] \<notin> set (map snd (dp_queues d)) \<and>
     dp_queueCount d = total queue_size (dp_queues d) \<and> dp_queueBytes d = total queue_bytes (dp_queues d) \<and>
     dp_queueCount d \<le> SOURCE_EVENT_QUEUE_COUNT \<and> dp_queueBytes d \<le> SOURCE_EVENT_QUEUE_BYTES \<and>
     (\<forall>(c, q)\<in>set (dp_queues d). \<forall>e\<in>set q. qe_token e = dp_token d \<and> entry_ok (dp_registry d) c e)"

definition workers_inv :: "dispatch_state \<Rightarrow> bool" where
  "workers_inv d \<longleftrightarrow> distinct (map fst (dp_workers d)) \<and> (\<forall>i\<in>set (map fst (dp_workers d)). i < dp_nextWorker d) \<and>
     distinct (running_collections d) \<and> set (running_collections d) = set (map fst (dp_queues d)) \<and>
     (\<forall>(i, w)\<in>set (dp_workers d). worker_ok d w)"

definition overload_inv :: "dispatch_state \<Rightarrow> bool" where
  "overload_inv d \<longleftrightarrow> (dp_token d \<in> set (dp_cancelled d) \<longleftrightarrow> dp_overloaded d \<or> dp_stopped d) \<and>
     (\<forall>t\<in>set (dp_cancelled d). t \<le> dp_token d) \<and>
     sr_overloaded (dp_registry d) = dp_overloaded d \<and> sr_unavailable (dp_registry d) = dp_stopped d"

definition dispatch_pre :: "dispatch_state \<Rightarrow> bool" where
  "dispatch_pre d \<longleftrightarrow> registry_inv (dp_registry d) \<and> queues_inv d \<and> workers_inv d \<and> overload_inv d"

definition dispatch_inv :: "dispatch_state \<Rightarrow> bool" where
  "dispatch_inv d \<longleftrightarrow> dispatch_pre d \<and> (dp_overloaded d \<and> \<not> dp_stopped d \<longrightarrow> dp_workers d \<noteq> [])"

section \<open>What the registry's steps do to waits and entries\<close>

lemma length_wait_calls [simp]: "length (wait_calls r) = length (sr_waits r)"
  by (simp add: wait_calls_def)

lemma wait_calls_upd_wait:
  "(\<And>v. wt_reservations (f v) = wt_reservations v \<and> wt_aborted (f v) = wt_aborted v) \<Longrightarrow>
     wait_calls (upd_wait w f s) = wait_calls s"
  by (cases "w < length (sr_waits s)")
    (simp_all add: wait_calls_def upd_wait_def map_update list_update_same_conv list_update_beyond)

lemma wait_calls_upd_reservation [simp]: "wait_calls (upd_reservation r f s) = wait_calls s"
  by (simp add: wait_calls_def)

lemma wait_calls_finish [simp]: "wait_calls (finish_wait w s) = wait_calls s"
  unfolding finish_wait_def by (simp add: wait_calls_upd_wait) (simp add: wait_calls_def)

lemma wait_calls_listener [simp]: "wait_calls (settle_listener w s) = wait_calls s"
  by (simp add: settle_listener_def Let_def wait_calls_upd_wait)

lemma wait_calls_fold_listener [simp]: "wait_calls (fold settle_listener ws s) = wait_calls s"
  by (induction ws arbitrary: s) simp_all

lemma wait_calls_notify [simp]: "wait_calls (notifySettled r s) = wait_calls s"
  by (simp add: notifySettled_def Let_def)

lemma wait_calls_registry:
  "sr_waits t = sr_waits s \<Longrightarrow> wait_calls t = wait_calls s"
  by (simp add: wait_calls_def)

lemma wait_calls_activate [simp]: "wait_calls (activate r s) = wait_calls s"
  by (auto simp: activate_def Let_def intro: wait_calls_registry)

lemma wait_calls_remove [simp]: "wait_calls (remove_reservation r s) = wait_calls s"
  by (auto simp: remove_reservation_def Let_def intro: wait_calls_registry)

lemma wait_calls_removes [simp]: "wait_calls (fold remove_reservation rs s) = wait_calls s"
  by (induction rs arbitrary: s) simp_all

lemma wait_calls_wait [simp]: "wait_calls (waitForSettled rs aborted s) = wait_calls s @ [(rs, aborted)]"
proof -
  have "wait_calls (fold (onSettled w) ps t) = wait_calls t" for w ps t
    by (induction ps arbitrary: t) (simp_all add: onSettled_def)
  then show ?thesis by (simp add: waitForSettled_def Let_def) (simp add: wait_calls_def)
qed

lemma wait_calls_abort:
  "w < length (sr_waits s) \<Longrightarrow> wait_calls (abort_wait w s) = (wait_calls s)[w := (fst (wait_calls s ! w), True)]"
  by (simp add: abort_wait_def Let_def) (simp add: wait_calls_def upd_wait_def map_update)

text \<open>The flags are only written by the coordinator.\<close>

lemma core_flags: "core s = core t \<Longrightarrow> sr_overloaded s = sr_overloaded t \<and> sr_unavailable s = sr_unavailable t"
  by (simp add: core_def)

lemmas notify_flags [simp] = core_flags[OF core_notifySettled]

lemma op_flags [simp]:
  "sr_overloaded (activate r s) = sr_overloaded s" "sr_unavailable (activate r s) = sr_unavailable s"
  "sr_overloaded (remove_reservation r s) = sr_overloaded s" "sr_unavailable (remove_reservation r s) = sr_unavailable s"
  by (simp_all add: activate_def remove_reservation_def Let_def upd_reservation_def)

lemma removes_flags [simp]:
  "sr_overloaded (fold remove_reservation rs s) = sr_overloaded s"
  "sr_unavailable (fold remove_reservation rs s) = sr_unavailable s"
  by (induction rs arbitrary: s) simp_all

lemma client_step_registry: "client_step s t \<Longrightarrow> registry_step s t"
  by (induction rule: client_step.induct) (auto intro: registry_step.intros)

lemma client_step_frame:
  "client_step s t \<Longrightarrow> wait_calls t = wait_calls s \<and> sr_overloaded t = sr_overloaded s \<and> sr_unavailable t = sr_unavailable s"
  by (induction rule: client_step.induct)
    (auto simp: reserve_subscription_def Let_def removeByUid_def removeAllForClient_def split: list.split
      intro: wait_calls_registry)

lemma entry_ok_evolves:
  assumes "registry_inv r" "registry_inv r'" "evolves r r'" "entry_ok r c e"
  shows "entry_ok r' c e"
proof -
  from assms(1,2) have gens: "sr_lastGeneration r = int (length (sr_store r))" "sr_lastGeneration r' = int (length (sr_store r'))"
    "\<forall>i<length (sr_store r). rv_generation (sr_store r ! i) = int i + 1"
    "\<forall>i<length (sr_store r'). rv_generation (sr_store r' ! i) = int i + 1"
    by (simp_all add: registry_inv_def sets_inv_def)
  have "i \<in> set (qe_barrier e)" if i: "i < length (sr_store r')" "rv_generation (sr_store r' ! i) \<le> qe_generation e"
      "rv_collection (sr_store r' ! i) = c" "rv_status (sr_store r' ! i) = Initializing" for i
  proof -
    from assms(4) i gens have "i < length (sr_store r)" by (simp add: entry_ok_def)
    with assms(3,4) i gens show ?thesis by (simp add: evolves_def entry_ok_def)
  qed
  with assms(3,4) gens show ?thesis by (auto simp: entry_ok_def evolves_def)
qed

lemma step_frame:
  assumes "registry_inv r" "registry_step r r'"
  shows "registry_inv r' \<and> evolves r r'"
  using assms evolves_step registry_system.inv_step by blast

section \<open>Preservation\<close>

text \<open>A change of the registry alone.\<close>

lemma dispatch_registry_inv:
  assumes inv: "dispatch_inv d" and r: "registry_inv r" "evolves (dp_registry d) r" "wait_calls r = wait_calls (dp_registry d)"
    "sr_overloaded r = sr_overloaded (dp_registry d)" "sr_unavailable r = sr_unavailable (dp_registry d)"
  shows "dispatch_inv (d\<lparr>dp_registry := r\<rparr>)"
proof -
  have "queues_inv (d\<lparr>dp_registry := r\<rparr>)"
    using inv r entry_ok_evolves[OF _ r(1,2)]
    by (fastforce simp: dispatch_inv_def dispatch_pre_def queues_inv_def)
  moreover have "workers_inv (d\<lparr>dp_registry := r\<rparr>)"
    using inv r by (auto simp: dispatch_inv_def dispatch_pre_def workers_inv_def worker_ok_def queue_of_def running_collections_def
        wait_calls_def[symmetric] simp flip: length_wait_calls)
  ultimately show ?thesis using inv r by (simp add: dispatch_inv_def dispatch_pre_def overload_inv_def)
qed

lemma client_inv:
  assumes "dispatch_inv d" "client_step (dp_registry d) r"
  shows "dispatch_inv (d\<lparr>dp_registry := r\<rparr>)"
proof -
  from assms have "registry_inv (dp_registry d)" by (simp add: dispatch_inv_def dispatch_pre_def)
  from step_frame[OF this client_step_registry[OF assms(2)]] client_step_frame[OF assms(2)] assms(1)
  show ?thesis by (intro dispatch_registry_inv) simp_all
qed

text \<open>Totals over the queues, and updating a worker in place.\<close>

lemma total_queued:
  "total queue_size (dp_queues d) = int (length (queued d))" "total queue_bytes (dp_queues d) = sum_list (map qe_bytes (queued d))"
proof -
  have "total queue_size m = int (length (concat (map snd m)))" "total queue_bytes m = sum_list (map qe_bytes (concat (map snd m)))" for m
    by (induction m) (auto simp: total_def queue_bytes_def)
  then show "total queue_size (dp_queues d) = int (length (queued d))"
    "total queue_bytes (dp_queues d) = sum_list (map qe_bytes (queued d))" by (simp_all add: queued_def)
qed

lemma total_js_set:
  "distinct (map fst m) \<Longrightarrow> total g (js_set c q m) = total g m + g q - (case map_of m c of None \<Rightarrow> 0 | Some q0 \<Rightarrow> g q0)"
proof (induction c q m rule: js_set.induct)
  case (2 k v k' v' m)
  have "map_of m k = None" if "k' = k" using "2.prems" that by (simp add: map_of_eq_None_iff)
  with 2 show ?case by (auto simp: total_def)
qed (simp add: total_def)

lemma total_js_delete:
  "distinct (map fst m) \<Longrightarrow> total g (js_delete c m) = total g m - (case map_of m c of None \<Rightarrow> 0 | Some q0 \<Rightarrow> g q0)"
proof (induction m)
  case (Cons p m)
  obtain k q where p: "p = (k, q)" by (cases p)
  have "js_delete c m = m" if "c \<notin> set (map fst m)"
    using that by (induction m) (auto simp: js_delete_def)
  moreover have "map_of m c = None" if "k = c" using Cons.prems that by (simp add: p map_of_eq_None_iff)
  moreover have "js_delete c (p # m) = (if k = c then js_delete c m else p # js_delete c m)" by (simp add: js_delete_def p)
  ultimately show ?case using Cons by (auto simp: total_def p)
qed (simp add: total_def js_delete_def)

lemma js_delete_set [simp]: "js_delete c (js_set c v m) = js_delete c m"
  by (induction c v m rule: js_set.induct) (auto simp: js_delete_def)

lemma set_js_delete: "set (js_delete c m) = {(k, v). (k, v) \<in> set m \<and> k \<noteq> c}"
  by (auto simp: js_delete_def)

lemma set_js_set_sub: "set (js_set k v m) \<subseteq> insert (k, v) (set m)"
  by (induction k v m rule: js_set.induct) auto

lemma js_set_split: "i \<notin> set (map fst xs) \<Longrightarrow> js_set i v (xs @ (i, w) # ys) = xs @ (i, v) # ys"
  by (induction xs) auto

lemma map_of_split:
  assumes "map_of m i = Some w" "distinct (map fst m)"
  obtains xs ys where "m = xs @ (i, w) # ys" "i \<notin> set (map fst xs)" "i \<notin> set (map fst ys)"
proof -
  from map_of_SomeD[OF assms(1)] obtain xs ys where "m = xs @ (i, w) # ys" by (auto dest: split_list)
  with assms(2) that show ?thesis by auto
qed

lemma js_delete_absent: "i \<notin> set (map fst xs) \<Longrightarrow> js_delete i xs = xs"
  by (induction xs) (auto simp: js_delete_def)

lemma js_delete_split:
  assumes "i \<notin> set (map fst xs)" "i \<notin> set (map fst ys)"
  shows "js_delete i (xs @ (i, w) # ys) = xs @ ys"
proof -
  have "js_delete i (xs @ (i, w) # ys) = js_delete i xs @ js_delete i ys" by (simp add: js_delete_def)
  then show ?thesis unfolding js_delete_absent[OF assms(1)] js_delete_absent[OF assms(2)] .
qed

lemma queue_of_Nil_iff:
  "queues_inv d \<Longrightarrow> queue_of d c = [] \<longleftrightarrow> c \<notin> set (map fst (dp_queues d))"
  unfolding queues_inv_def queue_of_def
  by (auto simp: map_of_eq_None_iff[symmetric] simp del: map_of_eq_None_iff split: option.split
      dest!: map_of_SomeD intro: rev_image_eqI)

lemma queue_of_in: "q \<noteq> [] \<Longrightarrow> queue_of d c = q \<Longrightarrow> (c, q) \<in> set (dp_queues d)"
  by (auto simp: queue_of_def split: option.splits dest: map_of_SomeD)

section \<open>Cancelling, overload and recovery\<close>

lemma fold_abort_wait:
  assumes "registry_inv r" "set ws \<subseteq> {..<length (sr_waits r)}"
  shows "registry_inv (fold abort_wait ws r) \<and> evolves r (fold abort_wait ws r) \<and> core (fold abort_wait ws r) = core r \<and>
    length (wait_calls (fold abort_wait ws r)) = length (wait_calls r) \<and>
    (\<forall>w<length (wait_calls r). wait_calls (fold abort_wait ws r) ! w =
       (fst (wait_calls r ! w), w \<in> set ws \<or> snd (wait_calls r ! w)))"
  using assms
proof (induction ws arbitrary: r)
  case (Cons w ws)
  let ?r = "abort_wait w r"
  from Cons.prems have w: "w < length (sr_waits r)" by simp
  from step_frame[OF Cons.prems(1) registry_step.Abort[OF w]] have f: "registry_inv ?r" "evolves r ?r" by simp_all
  have wc: "wait_calls ?r = (wait_calls r)[w := (fst (wait_calls r ! w), True)]" by (rule wait_calls_abort[OF w])
  then have "length (wait_calls ?r) = length (wait_calls r)" by simp
  with Cons.prems have "set ws \<subseteq> {..<length (sr_waits ?r)}" by simp
  from Cons.IH[OF f(1) this] f wc w show ?case
    by (auto simp: nth_list_update intro: evolves_trans simp flip: length_wait_calls)
qed (simp add: evolves_refl)

lemma token_waits_bound: "workers_inv d \<Longrightarrow> set (token_waits t d) \<subseteq> {..<length (sr_waits (dp_registry d))}"
  by (auto simp: token_waits_def workers_inv_def worker_ok_def)

lemma cancel_token_parts:
  assumes inv: "registry_inv (dp_registry d)" "queues_inv d" "workers_inv d" and new: "dp_token d \<notin> set (dp_cancelled d)"
  shows "registry_inv (dp_registry (cancel_token (dp_token d) d)) \<and> queues_inv (cancel_token (dp_token d) d) \<and>
    workers_inv (cancel_token (dp_token d) d) \<and> core (dp_registry (cancel_token (dp_token d) d)) = core (dp_registry d)"
proof -
  let ?ws = "token_waits (dp_token d) d"
  let ?r = "fold abort_wait ?ws (dp_registry d)"
  let ?d = "d\<lparr>dp_cancelled := dp_token d # dp_cancelled d, dp_registry := ?r\<rparr>"
  from fold_abort_wait[OF inv(1) token_waits_bound[OF inv(3)]]
  have r: "registry_inv ?r" "evolves (dp_registry d) ?r" "core ?r = core (dp_registry d)"
    "length (wait_calls ?r) = length (wait_calls (dp_registry d))"
    "\<forall>w<length (wait_calls (dp_registry d)). wait_calls ?r ! w =
       (fst (wait_calls (dp_registry d) ! w), w \<in> set ?ws \<or> snd (wait_calls (dp_registry d) ! w))" by simp_all
  have "queues_inv ?d" using inv(2) entry_ok_evolves[OF inv(1) r(1,2)] by (fastforce simp: queues_inv_def)
  moreover have "worker_ok ?d w" if "(i, w) \<in> set (dp_workers d)" for i w
  proof (cases "wk_running w")
    case True
    let ?q = "queue_of d (wk_collection w)"
    from inv(3) that True have ok: "?q \<noteq> []" "wk_wait w < length (wait_calls (dp_registry d))"
      "wait_calls (dp_registry d) ! wk_wait w = (qe_barrier (hd ?q), qe_token (hd ?q) \<in> set (dp_cancelled d))"
      by (auto simp: workers_inv_def worker_ok_def Let_def)
    from queue_of_in[OF ok(1) refl] inv(2) have tok: "qe_token (hd ?q) = dp_token d"
      using hd_in_set[OF ok(1)] by (fastforce simp: queues_inv_def)
    with that True have "wk_wait w \<in> set ?ws" by (force simp: token_waits_def)
    with r(4,5) ok tok show ?thesis by (simp add: worker_ok_def queue_of_def)
  qed (simp add: worker_ok_def)
  with inv(3) have "workers_inv ?d" by (fastforce simp: workers_inv_def running_collections_def)
  ultimately show ?thesis using r new by (simp add: cancel_token_def)
qed

lemma cancel_token_simps [simp]:
  "dp_overloaded (cancel_token t d) = dp_overloaded d" "dp_stopped (cancel_token t d) = dp_stopped d"
  "dp_token (cancel_token t d) = dp_token d" "dp_workers (cancel_token t d) = dp_workers d"
  "dp_queues (cancel_token t d) = dp_queues d" "dp_queueCount (cancel_token t d) = dp_queueCount d"
  "t \<notin> set (dp_cancelled d) \<Longrightarrow> dp_cancelled (cancel_token t d) = t # dp_cancelled d"
  by (simp_all add: cancel_token_def)

lemma queueCount_pos: "dispatch_pre d \<Longrightarrow> dp_queues d \<noteq> [] \<longleftrightarrow> 0 < dp_queueCount d"
proof -
  assume pre: "dispatch_pre d"
  then have "dp_queueCount d = int (length (queued d))" by (simp add: dispatch_pre_def queues_inv_def total_queued)
  moreover have "queued d = [] \<longleftrightarrow> dp_queues d = []"
    using pre by (cases "dp_queues d") (auto simp: dispatch_pre_def queues_inv_def queued_def)
  ultimately show ?thesis by auto
qed

lemma queues_have_workers: "dispatch_pre d \<Longrightarrow> dp_queues d \<noteq> [] \<Longrightarrow> dp_workers d \<noteq> []"
  by (auto simp: dispatch_pre_def workers_inv_def running_collections_def)

lemma maybeRecover_inv:
  assumes pre: "dispatch_pre d" shows "dispatch_inv (maybeRecover d)"
proof (cases "dp_overloaded d \<and> \<not> dp_stopped d \<and> dp_workers d = [] \<and> \<not> 0 < dp_queueCount d")
  case True
  then have "dp_queues d = []" using queueCount_pos[OF pre] by auto
  with True pre have "dispatch_pre (d\<lparr>dp_overloaded := False, dp_token := dp_token d + 1, dp_registry := exitOverload (dp_registry d)\<rparr>)"
    by (auto simp: dispatch_pre_def queues_inv_def workers_inv_def overload_inv_def flag_inv running_collections_def)
      (auto simp: exitOverload_def)
  with True show ?thesis by (simp add: maybeRecover_def dispatch_inv_def)
next
  case False
  then have "maybeRecover d = d" by (auto simp: maybeRecover_def)
  with False pre queueCount_pos[OF pre] queues_have_workers[OF pre] show ?thesis by (auto simp: dispatch_inv_def)
qed

lemma enterOverload_inv:
  assumes inv: "dispatch_inv d" and "\<not> dp_overloaded d" "\<not> dp_stopped d"
  shows "dispatch_inv (dispatch_enterOverload d)"
proof -
  let ?r = "enterOverload (dp_registry d)"
  let ?d = "d\<lparr>dp_overloaded := True, dp_registry := ?r, dp_closed := dp_closed d @ map (\<lambda>client. (client, 1013)) (getSubscribedOwners ?r)\<rparr>"
  from inv have pre: "registry_inv (dp_registry d)" "queues_inv d" "workers_inv d" "overload_inv d"
    by (simp_all add: dispatch_inv_def dispatch_pre_def)
  have frame: "registry_inv ?r" "evolves (dp_registry d) ?r" "wait_calls ?r = wait_calls (dp_registry d)"
    using flag_inv(1)[OF pre(1)] by (simp_all add: enterOverload_def evolves_def wait_calls_def)
  have parts: "registry_inv (dp_registry ?d)" "queues_inv ?d" "workers_inv ?d"
  proof -
    show "registry_inv (dp_registry ?d)" using frame by simp
    show "queues_inv ?d" using pre(2) entry_ok_evolves[OF pre(1) frame(1,2)] by (fastforce simp: queues_inv_def)
    show "workers_inv ?d" using pre(3) frame(3)
      by (auto simp: workers_inv_def worker_ok_def running_collections_def queue_of_def simp flip: length_wait_calls)
  qed
  have new: "dp_token ?d \<notin> set (dp_cancelled ?d)" using pre(4) assms(2,3) by (simp add: overload_inv_def)
  note c = cancel_token_parts[OF parts new]
  have "core (dp_registry (cancel_token (dp_token ?d) ?d)) = core (dp_registry ?d)" using c by blast
  from core_flags[OF this] pre(4) assms(3)
  have "sr_overloaded (dp_registry (cancel_token (dp_token ?d) ?d)) = True"
    "sr_unavailable (dp_registry (cancel_token (dp_token ?d) ?d)) = False"
    by (simp_all add: enterOverload_def overload_inv_def)
  with c new pre(4) assms have "dispatch_pre (cancel_token (dp_token ?d) ?d)"
    by (simp add: dispatch_pre_def overload_inv_def)
  from maybeRecover_inv[OF this] show ?thesis using assms(2) by (simp add: dispatch_enterOverload_def Let_def)
qed

section \<open>Workers\<close>

lemma begin_frame:
  assumes "registry_inv r" "entry_ok r c e"
  shows "registry_inv (waitForSettled (qe_barrier e) a r) \<and> evolves r (waitForSettled (qe_barrier e) a r) \<and>
    core (waitForSettled (qe_barrier e) a r) = core r"
proof -
  from assms(2) have "registry_step r (waitForSettled (qe_barrier e) a r)"
    by (auto simp: entry_ok_def intro: registry_step.Wait)
  with step_frame[OF assms(1)] show ?thesis by simp
qed

text \<open>
  The one argument behind spawning a worker and starting its next entry: the queues and the other workers are in
  order, and the first entry of \<open>c\<close> gets a new wait, which is the last one.
\<close>

lemma begin_parts:
  assumes reg: "registry_inv (dp_registry d)" and q: "queues_inv d" and c: "queue_of d c \<noteq> []"
    and ov: "overload_inv d"
    and others: "\<forall>(i, w)\<in>set ws. worker_ok d w"
  defines "b \<equiv> begin_entry c d"
  shows "registry_inv (dp_registry (fst b)) \<and> queues_inv (fst b) \<and> overload_inv (fst b) \<and>
    (\<forall>(i, w)\<in>set ws. worker_ok (fst b) w) \<and>
    worker_ok (fst b) \<lparr>wk_collection = c, wk_wait = snd b, wk_running = True\<rparr> \<and>
    (\<exists>r. fst b = d\<lparr>dp_registry := r\<rparr>)"
proof -
  let ?e = "hd (queue_of d c)"
  let ?a = "qe_token ?e \<in> set (dp_cancelled d)"
  let ?r = "waitForSettled (qe_barrier ?e) ?a (dp_registry d)"
  have b: "b = (d\<lparr>dp_registry := ?r\<rparr>, length (sr_waits (dp_registry d)))"
    by (simp add: b_def begin_entry_def Let_def)
  from queue_of_in[OF c refl] q have e: "entry_ok (dp_registry d) c ?e" using hd_in_set[OF c] by (fastforce simp: queues_inv_def)
  note f = begin_frame[OF reg e, of ?a]
  then have r: "registry_inv ?r" "evolves (dp_registry d) ?r" by simp_all
  have "core ?r = core (dp_registry d)" using f by blast
  from core_flags[OF this] have ov': "overload_inv (d\<lparr>dp_registry := ?r\<rparr>)"
    using ov by (simp add: overload_inv_def)
  have q': "queues_inv (d\<lparr>dp_registry := ?r\<rparr>)" using q entry_ok_evolves[OF reg r] by (fastforce simp: queues_inv_def)
  have same: "worker_ok (d\<lparr>dp_registry := ?r\<rparr>) w" if "worker_ok d w" for w
    using that by (auto simp: worker_ok_def queue_of_def Let_def nth_append simp flip: length_wait_calls)
  have new: "worker_ok (d\<lparr>dp_registry := ?r\<rparr>) \<lparr>wk_collection = c, wk_wait = length (sr_waits (dp_registry d)), wk_running = True\<rparr>"
    using c by (simp add: worker_ok_def queue_of_def Let_def nth_append flip: length_wait_calls)
  have others': "\<forall>(i, w)\<in>set ws. worker_ok (d\<lparr>dp_registry := ?r\<rparr>) w" using others same by blast
  show ?thesis unfolding b fst_conv snd_conv
    by (intro conjI exI[where x = ?r] others' new q' ov' refl) (simp add: r(1))
qed

lemma running_collections_split:
  "dp_workers d = xs @ (i, w) # ys \<Longrightarrow>
     running_collections d = map (\<lambda>(_, w). wk_collection w) (filter (\<lambda>(_, w). wk_running w) xs) @
       (if wk_running w then [wk_collection w] else []) @
       map (\<lambda>(_, w). wk_collection w) (filter (\<lambda>(_, w). wk_running w) ys)"
  by (simp add: running_collections_def)

lemma worker_ok_workers [simp]: "worker_ok (d\<lparr>dp_workers := ws\<rparr>) w = worker_ok d w"
  by (simp add: worker_ok_def queue_of_def)

lemma worker_ok_queue:
  "worker_ok d w \<Longrightarrow> queue_of d' (wk_collection w) = queue_of d (wk_collection w) \<or> \<not> wk_running w \<Longrightarrow>
     dp_registry d' = dp_registry d \<Longrightarrow> dp_cancelled d' = dp_cancelled d \<Longrightarrow> worker_ok d' w"
  by (auto simp: worker_ok_def)

section \<open>Admitting a message\<close>

lemma entry_ok_new:
  assumes "registry_inv r"
  shows "entry_ok r c \<lparr>qe_generation = fst (captureDispatchContext c r), qe_barrier = snd (captureDispatchContext c r),
    qe_encoded = s, qe_bytes = int (length s), qe_token = t\<rparr>"
proof -
  from assms have "sets_ok (sr_initializing r)"
    "set (members (sr_initializing r) c) = {i. i < length (sr_store r) \<and> rv_collection (sr_store r ! i) = c \<and>
       rv_status (sr_store r ! i) = Initializing}"
    by (simp_all add: registry_inv_def sets_inv_def indexed_def)
  with members_ok show ?thesis by (auto simp: entry_ok_def captureDispatchContext_def)
qed

lemma queue_of_js_set: "queue_of (d\<lparr>dp_queues := js_set c q (dp_queues d)\<rparr>) k = (if k = c then q else queue_of d k)"
  by (simp add: queue_of_def)

lemma queues_inv_push:
  assumes inv: "queues_inv d" and e: "entry_ok (dp_registry d) c e" "qe_token e = dp_token d"
    and room: "dp_queueCount d + 1 \<le> SOURCE_EVENT_QUEUE_COUNT" "dp_queueBytes d + qe_bytes e \<le> SOURCE_EVENT_QUEUE_BYTES"
  shows "queues_inv (d\<lparr>dp_queues := js_set c (queue_of d c @ [e]) (dp_queues d), dp_queueCount := dp_queueCount d + 1,
    dp_queueBytes := dp_queueBytes d + qe_bytes e\<rparr>)"
proof -
  let ?q = "queue_of d c @ [e]" and ?m = "js_set c (queue_of d c @ [e]) (dp_queues d)"
  have dist: "distinct (map fst (dp_queues d))" using inv by (simp add: queues_inv_def)
  have sub: "set ?m \<subseteq> insert (c, ?q) (set (dp_queues d))" by (rule set_js_set_sub)
  have "total queue_size ?m = total queue_size (dp_queues d) + 1"
    "total queue_bytes ?m = total queue_bytes (dp_queues d) + qe_bytes e"
    using total_js_set[OF dist, of queue_size c ?q] total_js_set[OF dist, of queue_bytes c ?q]
    by (auto simp: queue_of_def queue_bytes_def split: option.splits)
  moreover have "\<forall>(k, q)\<in>set ?m. q \<noteq> [] \<and> (\<forall>x\<in>set q. qe_token x = dp_token d \<and> entry_ok (dp_registry d) k x)"
  proof -
    have old: "\<forall>(k, q)\<in>set (dp_queues d). q \<noteq> [] \<and> (\<forall>x\<in>set q. qe_token x = dp_token d \<and> entry_ok (dp_registry d) k x)"
      using inv by (force simp: queues_inv_def)
    moreover have "\<forall>x\<in>set (queue_of d c). qe_token x = dp_token d \<and> entry_ok (dp_registry d) c x"
      using old queue_of_in[of "queue_of d c" d c] by (cases "queue_of d c = []") auto
    ultimately show ?thesis using sub e by fastforce
  qed
  ultimately show ?thesis using inv room by (force simp: queues_inv_def)
qed

lemma push_inv:
  assumes inv: "dispatch_inv d" and idle: "\<not> dp_overloaded d" "\<not> dp_stopped d"
    and e: "entry_ok (dp_registry d) c e" "qe_token e = dp_token d"
    and room: "dp_queueCount d + 1 \<le> SOURCE_EVENT_QUEUE_COUNT" "dp_queueBytes d + qe_bytes e \<le> SOURCE_EVENT_QUEUE_BYTES"
  defines "d1 \<equiv> d\<lparr>dp_queues := js_set c (queue_of d c @ [e]) (dp_queues d), dp_queueCount := dp_queueCount d + 1,
    dp_queueBytes := dp_queueBytes d + qe_bytes e\<rparr>"
  shows "dispatch_inv (if length (queue_of d c @ [e]) = 1 then spawnWorker c d1 else d1)"
proof -
  from inv have pre: "registry_inv (dp_registry d)" "queues_inv d" "workers_inv d" "overload_inv d"
    by (simp_all add: dispatch_inv_def dispatch_pre_def)
  have q1: "queues_inv d1" unfolding d1_def by (rule queues_inv_push[OF pre(2) e room])
  have o1: "overload_inv d1" and r1: "registry_inv (dp_registry d1)"
    using pre by (simp_all add: d1_def overload_inv_def)
  have qof: "queue_of d1 k = (if k = c then queue_of d c @ [e] else queue_of d k)" for k
    by (simp add: d1_def queue_of_def)
  have ok1: "\<forall>(i, w)\<in>set (dp_workers d). worker_ok d1 w"
  proof (intro ballI, clarify)
    fix i w assume "(i, w) \<in> set (dp_workers d)"
    with pre(3) have w: "worker_ok d w" by (auto simp: workers_inv_def)
    then have "queue_of d (wk_collection w) \<noteq> []" if "wk_running w" using that by (simp add: worker_ok_def)
    then have "wk_running w \<Longrightarrow> hd (queue_of d1 (wk_collection w)) = hd (queue_of d (wk_collection w)) \<and> queue_of d1 (wk_collection w) \<noteq> []"
      by (auto simp: qof hd_append)
    with w show "worker_ok d1 w" by (simp add: worker_ok_def Let_def d1_def)
  qed
  have keys: "map fst (dp_queues d1) = js_add c (map fst (dp_queues d))" by (simp add: d1_def keys_js_set)
  show ?thesis
  proof (cases "queue_of d c = []")
    case False
    then have "c \<in> set (map fst (dp_queues d))" using queue_of_Nil_iff[OF pre(2)] by blast
    with keys have "map fst (dp_queues d1) = map fst (dp_queues d)" by (simp add: js_add_def)
    with pre(3) ok1 have "workers_inv d1" by (simp add: workers_inv_def d1_def running_collections_def)
    with q1 o1 r1 idle False show ?thesis by (simp add: dispatch_inv_def dispatch_pre_def d1_def)
  next
    case True
    then have new: "c \<notin> set (map fst (dp_queues d))" using queue_of_Nil_iff[OF pre(2)] by blast
    obtain b n where bn: "begin_entry c d1 = (b, n)" by (cases "begin_entry c d1")
    let ?w = "\<lparr>wk_collection = c, wk_wait = n, wk_running = True\<rparr>"
    have "queue_of d1 c \<noteq> []" by (simp add: qof)
    from begin_parts[OF r1 q1 this o1 ok1] bn obtain r where
      b: "registry_inv (dp_registry b)" "queues_inv b" "overload_inv b" "\<forall>(i, w)\<in>set (dp_workers d). worker_ok b w"
      "worker_ok b ?w" "b = d1\<lparr>dp_registry := r\<rparr>" by auto
    let ?d = "b\<lparr>dp_workers := dp_workers b @ [(dp_nextWorker b, ?w)], dp_nextWorker := dp_nextWorker b + 1\<rparr>"
    have spawn: "spawnWorker c d1 = ?d" by (simp add: spawnWorker_def bn)
    have same: "dp_workers b = dp_workers d" "dp_nextWorker b = dp_nextWorker d" "dp_queues b = dp_queues d1"
      by (simp_all add: b(6) d1_def)
    have run: "running_collections ?d = running_collections d @ [c]" by (simp add: running_collections_def same)
    have keys': "set (map fst (dp_queues ?d)) = insert c (set (map fst (dp_queues d)))" using keys same by simp
    have okb: "worker_ok ?d w" if "worker_ok b w" for w using that by (simp add: worker_ok_def queue_of_def)
    have "workers_inv ?d"
      using pre(3) b(4,5) okb new unfolding workers_inv_def run keys' by (fastforce simp: same)
    moreover have "queues_inv ?d" "overload_inv ?d" using b(2,3) by (simp_all add: queues_inv_def overload_inv_def)
    ultimately show ?thesis using b(1) True by (simp add: spawn dispatch_inv_def dispatch_pre_def)
  qed
qed

lemma admit_inv:
  assumes inv: "dispatch_inv d"
  shows "dispatch_inv (admit parse_event encode_event message d)"
proof (cases "dp_stopped d \<or> dp_overloaded d \<or> parse_event message = None")
  case True
  with inv show ?thesis by (auto simp: admit_def)
next
  case False
  then obtain event where ev: "parse_event message = Some event" by auto
  from False have idle: "\<not> dp_overloaded d" "\<not> dp_stopped d" by simp_all
  let ?enc = "encode_event event" and ?c = "ev_collection event"
  let ?full = "dp_queueCount d + 1 > SOURCE_EVENT_QUEUE_COUNT \<or> dp_queueBytes d + int (length ?enc) > SOURCE_EVENT_QUEUE_BYTES"
  show ?thesis
  proof (cases ?full)
    case True
    then have "admit parse_event encode_event message d = dispatch_enterOverload d"
      using idle ev by (simp add: admit_def Let_def)
    with enterOverload_inv[OF inv idle] show ?thesis by simp
  next
    case room: False
    have reg: "registry_inv (dp_registry d)" using inv by (simp add: dispatch_inv_def dispatch_pre_def)
    note e = entry_ok_new[OF reg, of ?c ?enc "dp_token d"]
    have run: "admit parse_event encode_event message d =
      (let e = \<lparr>qe_generation = fst (captureDispatchContext ?c (dp_registry d)),
          qe_barrier = snd (captureDispatchContext ?c (dp_registry d)), qe_encoded = ?enc,
          qe_bytes = int (length ?enc), qe_token = dp_token d\<rparr>;
        d1 = d\<lparr>dp_queues := js_set ?c (queue_of d ?c @ [e]) (dp_queues d), dp_queueCount := dp_queueCount d + 1,
          dp_queueBytes := dp_queueBytes d + qe_bytes e\<rparr>
       in if length (queue_of d ?c @ [e]) = 1 then spawnWorker ?c d1 else d1)"
      using idle ev room by (simp add: admit_def Let_def split_beta)
    show ?thesis unfolding run Let_def
      by (rule push_inv[OF inv idle e]) (use room in simp_all)
  qed
qed

section \<open>The end of an entry, of a worker, of the coordinator\<close>

lemma queues_inv_shift:
  assumes inv: "queues_inv d" and q: "queue_of d c = e # rest"
  shows "queues_inv (d\<lparr>dp_queueCount := dp_queueCount d - 1, dp_queueBytes := dp_queueBytes d - qe_bytes e,
    dp_queues := (if rest = [] then js_delete c (dp_queues d) else js_set c rest (dp_queues d))\<rparr>)"
proof -
  let ?m = "if rest = [] then js_delete c (dp_queues d) else js_set c rest (dp_queues d)"
  have dist: "distinct (map fst (dp_queues d))" using inv by (simp add: queues_inv_def)
  have at: "map_of (dp_queues d) c = Some (e # rest)" using q by (simp add: queue_of_def split: option.splits)
  have sub: "set ?m \<subseteq> (if rest = [] then {} else {(c, rest)}) \<union> set (dp_queues d)"
    using set_js_set_sub[of c rest "dp_queues d"] by (auto simp: set_js_delete)
  have old: "\<forall>(k, q)\<in>set (dp_queues d). q \<noteq> [] \<and> (\<forall>x\<in>set q. qe_token x = dp_token d \<and> entry_ok (dp_registry d) k x)"
    using inv by (force simp: queues_inv_def)
  then have here: "\<forall>x\<in>set (e # rest). qe_token x = dp_token d \<and> entry_ok (dp_registry d) c x"
    using map_of_SomeD[OF at] by auto
  have "total queue_size ?m = total queue_size (dp_queues d) - 1"
    "total queue_bytes ?m = total queue_bytes (dp_queues d) - qe_bytes e"
    using total_js_set[OF dist, of queue_size c rest] total_js_set[OF dist, of queue_bytes c rest]
      total_js_delete[OF dist, of queue_size c] total_js_delete[OF dist, of queue_bytes c] at
    by (auto simp: queue_bytes_def)
  moreover have "\<forall>(k, q)\<in>set ?m. q \<noteq> [] \<and> (\<forall>x\<in>set q. qe_token x = dp_token d \<and> entry_ok (dp_registry d) k x)"
    using sub old here by (fastforce split: if_splits)
  moreover have "distinct (map fst ?m)" using dist by simp
  moreover have "0 \<le> qe_bytes e" using here by (simp add: entry_ok_def)
  ultimately show ?thesis using inv by (force simp: queues_inv_def)
qed

lemma finish_inv:
  assumes inv: "dispatch_inv d" and i: "map_of (dp_workers d) i = Some w" and run: "wk_running w"
  shows "dispatch_inv (finish_entry i d)"
proof -
  let ?c = "wk_collection w"
  from inv have pre: "registry_inv (dp_registry d)" "queues_inv d" "workers_inv d" "overload_inv d"
    by (simp_all add: dispatch_inv_def dispatch_pre_def)
  have wdist: "distinct (map fst (dp_workers d))" using pre(3) by (simp add: workers_inv_def)
  obtain xs ys where ws: "dp_workers d = xs @ (i, w) # ys" "i \<notin> set (map fst xs)" "i \<notin> set (map fst ys)"
    using map_of_split[OF i wdist] .
  let ?R = "\<lambda>zs. map (\<lambda>(_, w). wk_collection w) (filter (\<lambda>(_, w). wk_running w) zs)"
  have runs: "running_collections d = ?R xs @ [?c] @ ?R ys" using running_collections_split[OF ws(1)] run by simp
  have here: "?c \<notin> set (?R xs) \<union> set (?R ys)" using pre(3) unfolding workers_inv_def runs by auto
  have w_ok: "worker_ok d w" using pre(3) ws(1) by (auto simp: workers_inv_def)
  with run obtain e rest where q: "queue_of d ?c = e # rest" by (cases "queue_of d ?c") (auto simp: worker_ok_def)
  let ?d1 = "d\<lparr>dp_queueCount := dp_queueCount d - 1, dp_queueBytes := dp_queueBytes d - qe_bytes e,
    dp_queues := (if rest = [] then js_delete ?c (dp_queues d) else js_set ?c rest (dp_queues d))\<rparr>"
  have q1: "queues_inv ?d1" by (rule queues_inv_shift[OF pre(2) q])
  have parts: "registry_inv (dp_registry ?d1)" "overload_inv ?d1" using pre by (simp_all add: overload_inv_def)
  have qof: "queue_of ?d1 k = (if k = ?c then rest else queue_of d k)" for k
    by (simp add: queue_of_def)
  have in_keys: "?c \<in> set (map fst (dp_queues d))" using pre(3) unfolding workers_inv_def runs by auto
  have other_ok: "\<forall>(j, u)\<in>set (xs @ ys). worker_ok ?d1 u"
  proof (intro ballI, clarify)
    fix j u assume ju: "(j, u) \<in> set (xs @ ys)"
    with pre(3) ws(1) have "worker_ok d u" by (auto simp: workers_inv_def)
    moreover have "wk_running u \<Longrightarrow> wk_collection u \<noteq> ?c" using here ju by force
    ultimately show "worker_ok ?d1 u" by (intro worker_ok_queue[of d u ?d1]) (auto simp: qof)
  qed
  show ?thesis
  proof (cases "rest = []")
    case True
    let ?w = "w\<lparr>wk_running := False\<rparr>"
    have fin: "finish_entry i d = ?d1\<lparr>dp_workers := xs @ (i, ?w) # ys\<rparr>" (is "_ = ?d")
      using i q True ws js_set_split[OF ws(2)] by (simp add: finish_entry_def Let_def releaseEntry_def)
    have keys: "set (map fst (dp_queues ?d)) = set (map fst (dp_queues d)) - {?c}"
      using True by (auto simp: js_delete_def)
    have run': "running_collections ?d = ?R xs @ ?R ys"
      using running_collections_split[of ?d xs i ?w ys] by simp
    have "worker_ok ?d1 ?w" by (simp add: worker_ok_def)
    with other_ok have "\<forall>(j, u)\<in>set (dp_workers ?d). worker_ok ?d u" by (simp add: split_beta)
    moreover have "distinct (?R xs @ ?R ys)" "set (?R xs @ ?R ys) = set (map fst (dp_queues d)) - {?c}"
      using pre(3) here unfolding workers_inv_def runs by auto
    moreover have "distinct (map fst (dp_workers ?d))" "\<forall>j\<in>set (map fst (dp_workers ?d)). j < dp_nextWorker ?d"
      using pre(3) by (simp_all add: workers_inv_def ws(1))
    ultimately have "workers_inv ?d" unfolding workers_inv_def run' keys by (simp only: simp_thms)
    moreover have "queues_inv ?d" "overload_inv ?d" "registry_inv (dp_registry ?d)"
      using q1 parts by (simp_all add: queues_inv_def overload_inv_def)
    ultimately show ?thesis unfolding fin by (simp add: dispatch_inv_def dispatch_pre_def)
  next
    case False
    obtain b n where bn: "begin_entry ?c ?d1 = (b, n)" by (cases "begin_entry ?c ?d1")
    have "queue_of ?d1 ?c \<noteq> []" unfolding qof using False by simp
    from begin_parts[OF parts(1) q1 this parts(2) other_ok] bn obtain r where
      b: "registry_inv (dp_registry b)" "queues_inv b" "overload_inv b" "\<forall>(i, w)\<in>set (xs @ ys). worker_ok b w"
      "worker_ok b \<lparr>wk_collection = ?c, wk_wait = n, wk_running = True\<rparr>" "b = ?d1\<lparr>dp_registry := r\<rparr>" by auto
    let ?w = "w\<lparr>wk_wait := n\<rparr>"
    have same: "dp_workers b = xs @ (i, w) # ys" "dp_nextWorker b = dp_nextWorker d" "dp_queues b = js_set ?c rest (dp_queues d)"
      using False by (simp_all add: b(6) ws(1))
    have fin: "finish_entry i d = b\<lparr>dp_workers := xs @ (i, ?w) # ys\<rparr>" (is "_ = ?d")
      using i q False bn js_set_split[OF ws(2)] same(1) by (simp add: finish_entry_def Let_def releaseEntry_def)
    have keys: "set (map fst (dp_queues ?d)) = set (map fst (dp_queues d))"
      using in_keys by (simp add: same keys_js_set js_add_def)
    have run': "running_collections ?d = running_collections d"
      using running_collections_split[of ?d xs i ?w ys] runs run by simp
    have okb: "worker_ok ?d u" if "worker_ok b u" for u using that by (simp add: worker_ok_def queue_of_def)
    have "worker_ok ?d ?w" using b(5) run by (simp add: worker_ok_def queue_of_def)
    with okb b(4) have "\<forall>(j, u)\<in>set (xs @ (i, ?w) # ys). worker_ok ?d u" by auto
    with pre(3) have "workers_inv ?d" unfolding workers_inv_def run' keys by (simp add: ws(1) same split_beta)
    moreover have "queues_inv ?d" "overload_inv ?d" "registry_inv (dp_registry ?d)"
      using b(1-3) by (simp_all add: queues_inv_def overload_inv_def)
    ultimately show ?thesis unfolding fin by (simp add: dispatch_inv_def dispatch_pre_def)
  qed
qed

lemma finally_inv:
  assumes inv: "dispatch_inv d" and i: "map_of (dp_workers d) i = Some w" and stopped: "\<not> wk_running w"
  shows "dispatch_inv (worker_finally i d)"
proof -
  from inv have pre: "registry_inv (dp_registry d)" "queues_inv d" "workers_inv d" "overload_inv d"
    by (simp_all add: dispatch_inv_def dispatch_pre_def)
  have wdist: "distinct (map fst (dp_workers d))" using pre(3) by (simp add: workers_inv_def)
  obtain xs ys where ws: "dp_workers d = xs @ (i, w) # ys" "i \<notin> set (map fst xs)" "i \<notin> set (map fst ys)"
    using map_of_split[OF i wdist] .
  let ?d = "d\<lparr>dp_workers := js_delete i (dp_workers d)\<rparr>"
  have del: "dp_workers ?d = xs @ ys" using js_delete_split[OF ws(2,3)] by (simp add: ws(1))
  have run: "running_collections ?d = running_collections d"
    using running_collections_split[OF ws(1)] stopped del by (simp add: running_collections_def)
  have "\<forall>(j, u)\<in>set (xs @ ys). worker_ok d u" "distinct (map fst (xs @ ys))" "\<forall>j\<in>set (map fst (xs @ ys)). j < dp_nextWorker d"
    using pre(3) by (simp_all add: workers_inv_def ws(1))
  with pre(3) have "workers_inv ?d" unfolding workers_inv_def run del by (simp add: split_beta)
  with pre have "dispatch_pre ?d" by (simp add: dispatch_pre_def queues_inv_def overload_inv_def)
  from maybeRecover_inv[OF this] show ?thesis by (simp add: worker_finally_def)
qed

lemma stop_inv:
  assumes inv: "dispatch_inv d" shows "dispatch_inv (stop_dispatch d)"
proof (cases "dp_stopped d")
  case False
  from inv have pre: "registry_inv (dp_registry d)" "queues_inv d" "workers_inv d" "overload_inv d"
    by (simp_all add: dispatch_inv_def dispatch_pre_def)
  let ?r = "markUnavailable (dp_registry d)"
  let ?d = "d\<lparr>dp_registry := ?r, dp_stopped := True, dp_subscribed := False\<rparr>"
  have frame: "registry_inv ?r" "evolves (dp_registry d) ?r" "wait_calls ?r = wait_calls (dp_registry d)"
    using flag_inv(3)[OF pre(1)] by (simp_all add: markUnavailable_def evolves_def wait_calls_def)
  have parts: "registry_inv (dp_registry ?d)" "queues_inv ?d" "workers_inv ?d"
  proof -
    show "registry_inv (dp_registry ?d)" using frame by simp
    show "queues_inv ?d" using pre(2) entry_ok_evolves[OF pre(1) frame(1,2)] by (fastforce simp: queues_inv_def)
    show "workers_inv ?d" using pre(3) frame(3)
      by (auto simp: workers_inv_def worker_ok_def running_collections_def queue_of_def simp flip: length_wait_calls)
  qed
  have stop: "stop_dispatch d = cancel_token (dp_token ?d) ?d" using False by (simp add: stop_dispatch_def Let_def)
  show ?thesis
  proof (cases "dp_token ?d \<in> set (dp_cancelled ?d)")
    case True
    then have "stop_dispatch d = ?d" unfolding stop by (simp add: cancel_token_def)
    with True parts pre(4) show ?thesis by (auto simp: dispatch_inv_def dispatch_pre_def overload_inv_def markUnavailable_def)
  next
    case new: False
    note c = cancel_token_parts[OF parts new]
    have "core (dp_registry (cancel_token (dp_token ?d) ?d)) = core (dp_registry ?d)" using c by blast
    from core_flags[OF this] pre(4)
    have "sr_overloaded (dp_registry (cancel_token (dp_token ?d) ?d)) = dp_overloaded d"
      "sr_unavailable (dp_registry (cancel_token (dp_token ?d) ?d)) = True"
      by (simp_all add: markUnavailable_def overload_inv_def)
    with c new pre(4) show ?thesis
      unfolding stop by (simp add: dispatch_inv_def dispatch_pre_def overload_inv_def)
  qed
qed (use inv in \<open>simp add: stop_dispatch_def\<close>)

lemma start_inv: "dispatch_inv d \<Longrightarrow> dispatch_inv (start_dispatch d)"
  by (simp add: dispatch_inv_def dispatch_pre_def queues_inv_def workers_inv_def overload_inv_def start_dispatch_def
      worker_ok_def queue_of_def running_collections_def)

lemma dispatch_inv_new: "dispatch_inv new_dispatch"
  by (simp add: dispatch_inv_def dispatch_pre_def queues_inv_def workers_inv_def overload_inv_def new_dispatch_def
      registry_inv_new running_collections_def total_def SOURCE_EVENT_QUEUE_COUNT_def SOURCE_EVENT_QUEUE_BYTES_def)
    (simp add: new_registry_def)

interpretation dispatch_system: invariant_system new_dispatch "dispatch_step parse_event encode_event" dispatch_inv
  for parse_event encode_event
proof unfold_locales
  fix d e assume "dispatch_inv d" "dispatch_step parse_event encode_event d e"
  from this(2,1) show "dispatch_inv e"
    by cases (simp_all add: client_inv start_inv admit_inv finish_inv finally_inv stop_inv)
qed (rule dispatch_inv_new)

section \<open>Properties of the coordinator\<close>

text \<open>
  C29: in every reachable state the queue counters are the number and the bytes of the queued entries and stay within
  their limits, no queue is empty, every queue has exactly one running worker, and a queued entry is cancelled exactly
  while the coordinator is overloaded or stopped.
\<close>

theorem dispatch_queue_accounting:
  assumes "reach new_dispatch (dispatch_step parse_event encode_event) d"
  shows "dp_queueCount d = int (length (queued d)) \<and> dp_queueBytes d = sum_list (map qe_bytes (queued d)) \<and>
    dp_queueCount d \<le> SOURCE_EVENT_QUEUE_COUNT \<and> dp_queueBytes d \<le> SOURCE_EVENT_QUEUE_BYTES \<and>
    [] \<notin> set (map snd (dp_queues d)) \<and>
    distinct (running_collections d) \<and> set (running_collections d) = set (map fst (dp_queues d)) \<and>
    (\<forall>e\<in>set (queued d). (qe_token e \<in> set (dp_cancelled d)) = (dp_overloaded d \<or> dp_stopped d))"
proof -
  from dispatch_system.inv_reach[OF assms] have inv: "queues_inv d" "workers_inv d" "overload_inv d"
    by (simp_all add: dispatch_inv_def dispatch_pre_def)
  have "\<forall>e\<in>set (queued d). qe_token e = dp_token d" using inv(1) by (fastforce simp: queued_def queues_inv_def)
  with inv show ?thesis by (simp add: queues_inv_def workers_inv_def overload_inv_def total_queued)
qed

definition demo_message :: json where
  "demo_message = JObj [(''action'', JStr ''delete'')]"

definition demo_parse :: "json \<Rightarrow> ws_event option" where
  "demo_parse m = Some (Ev_delete ''c'' [Inr 1])"

definition demo_encode :: "ws_event \<Rightarrow> string" where
  "demo_encode e = ''event''"

definition demo_dispatch :: dispatch_state where
  "demo_dispatch = admit demo_parse demo_encode demo_message new_dispatch"

lemma demo_dispatch_reach: "reach new_dispatch (dispatch_step demo_parse demo_encode) demo_dispatch"
  unfolding demo_dispatch_def by (rule reach_one, rule dispatch_step.Admit)

lemma dispatch_queue_accounting_witness: "dp_queueBytes demo_dispatch = 5 \<and> running_collections demo_dispatch = [''c'']"
proof -
  have "dp_queues demo_dispatch = [(''c'', [\<lparr>qe_generation = 0, qe_barrier = [], qe_encoded = ''event'', qe_bytes = 5, qe_token = 0\<rparr>])]"
    "running_collections demo_dispatch = [''c'']" by code_simp+
  with dispatch_queue_accounting[OF demo_dispatch_reach] show ?thesis by (simp add: queued_def)
qed



lemma finish_entry_frame:
  assumes "dispatch_inv d" "map_of (dp_workers d) i = Some w" "wk_running w"
  shows "dp_overloaded (finish_entry i d) = dp_overloaded d" "dp_stopped (finish_entry i d) = dp_stopped d"
    "length (dp_workers (finish_entry i d)) = length (dp_workers d)" "dp_queueCount (finish_entry i d) = dp_queueCount d - 1"
proof -
  have "distinct (map fst (dp_workers d))" using assms(1) by (simp add: dispatch_inv_def dispatch_pre_def workers_inv_def)
  from map_of_split[OF assms(2) this] obtain xs ys where ws: "dp_workers d = xs @ (i, w) # ys" "i \<notin> set (map fst xs)" .
  have len: "length (js_set i v (dp_workers d)) = length (dp_workers d)" for v
    using js_set_split[OF ws(2)] by (simp add: ws(1))
  show "dp_overloaded (finish_entry i d) = dp_overloaded d" "dp_stopped (finish_entry i d) = dp_stopped d"
    "length (dp_workers (finish_entry i d)) = length (dp_workers d)" "dp_queueCount (finish_entry i d) = dp_queueCount d - 1"
    using len by (simp_all add: finish_entry_def assms(2) Let_def releaseEntry_def begin_entry_def)
qed

lemma overload_progress:
  assumes inv: "dispatch_inv d" and ov: "dp_overloaded d" "\<not> dp_stopped d"
  shows "\<exists>e. dispatch_step parse_event encode_event d e \<and> \<not> dp_stopped e \<and>
    (dp_overloaded e \<longrightarrow> nat (dp_queueCount e) + length (dp_workers e) < nat (dp_queueCount d) + length (dp_workers d))"
proof (cases "\<exists>(i, w)\<in>set (dp_workers d). wk_running w")
  case True
  from inv have parts: "registry_inv (dp_registry d)" "queues_inv d" "workers_inv d" "overload_inv d"
    by (simp_all add: dispatch_inv_def dispatch_pre_def)
  from True obtain i w where iw: "(i, w) \<in> set (dp_workers d)" "wk_running w" by auto
  with parts(3) have i: "map_of (dp_workers d) i = Some w" by (simp add: workers_inv_def)
  from iw parts(3) have w: "queue_of d (wk_collection w) \<noteq> []" "wk_wait w < length (sr_waits (dp_registry d))"
    "snd (wait_calls (dp_registry d) ! wk_wait w) = (qe_token (hd (queue_of d (wk_collection w))) \<in> set (dp_cancelled d))"
    by (auto simp: workers_inv_def worker_ok_def Let_def)
  from queue_of_in[OF w(1) refl] parts(2) have e: "qe_token (hd (queue_of d (wk_collection w))) = dp_token d"
    "dp_queues d \<noteq> []" using hd_in_set[OF w(1)] by (fastforce simp: queues_inv_def)+
  with w parts(4) ov have "wt_aborted (sr_waits (dp_registry d) ! wk_wait w)"
    by (simp add: overload_inv_def wait_calls_def)
  with parts(1) w(2) have "wt_resolved (sr_waits (dp_registry d) ! wk_wait w)"
    by (auto simp: registry_inv_def waits_inv_def wait_inv_def Let_def)
  then have "dispatch_step parse_event encode_event d (finish_entry i d)" by (rule dispatch_step.Finish[OF i iw(2)])
  moreover have "0 < dp_queueCount d" using queueCount_pos[of d] e(2) inv by (simp add: dispatch_inv_def)
  ultimately show ?thesis using finish_entry_frame[OF inv i iw(2)] ov
    by (intro exI[of _ "finish_entry i d"]) simp
next
  case False
  from inv ov obtain i w where iw: "(i, w) \<in> set (dp_workers d)" by (cases "dp_workers d") (auto simp: dispatch_inv_def)
  with False have off: "\<not> wk_running w" by auto
  have dist: "distinct (map fst (dp_workers d))" using inv by (simp add: dispatch_inv_def dispatch_pre_def workers_inv_def)
  with iw have i: "map_of (dp_workers d) i = Some w" by simp
  from map_of_split[OF i dist] obtain xs ys where ws: "dp_workers d = xs @ (i, w) # ys" "i \<notin> set (map fst xs)" "i \<notin> set (map fst ys)" .
  have "js_delete i (dp_workers d) = xs @ ys" unfolding ws(1) by (rule js_delete_split[OF ws(2,3)])
  then have "dp_overloaded (worker_finally i d) \<Longrightarrow> dp_queueCount (worker_finally i d) = dp_queueCount d \<and>
      length (dp_workers (worker_finally i d)) < length (dp_workers d)" "\<not> dp_stopped (worker_finally i d)"
    using ov ws(1) by (auto simp: worker_finally_def maybeRecover_def split: if_splits)
  moreover have "dispatch_step parse_event encode_event d (worker_finally i d)" by (rule dispatch_step.Finally[OF i off])
  ultimately show ?thesis by (intro exI[of _ "worker_finally i d"]) auto
qed


definition big_text :: string where
  "big_text = replicate 8388609 CHR ''x''"

lemma length_big_text: "length big_text = 8388609"
  by (simp only: big_text_def length_replicate)

definition demo_parse_text :: "json \<Rightarrow> ws_event option" where
  "demo_parse_text m = (case m of JStr c \<Rightarrow> Some (Ev_delete c []) | _ \<Rightarrow> None)"

definition demo_encode_big :: "ws_event \<Rightarrow> string" where
  "demo_encode_big e = (if e = Ev_delete ''big'' [] then big_text else ''event'')"

definition demo_busy :: dispatch_state where
  "demo_busy = admit demo_parse_text demo_encode_big (JStr ''c'') new_dispatch"

definition demo_overloaded :: dispatch_state where
  "demo_overloaded = admit demo_parse_text demo_encode_big (JStr ''big'') demo_busy"

lemma demo_overloaded_facts: "dp_overloaded demo_overloaded" "\<not> dp_stopped demo_overloaded"
proof -
  have busy: "\<not> dp_overloaded demo_busy" "\<not> dp_stopped demo_busy" "dp_queueBytes demo_busy = 5" "dp_workers demo_busy \<noteq> []"
    by code_simp+
  have run: "demo_overloaded = dispatch_enterOverload demo_busy"
    by (simp add: demo_overloaded_def admit_def busy demo_parse_text_def demo_encode_big_def Let_def
        length_big_text SOURCE_EVENT_QUEUE_BYTES_def)
  show "dp_overloaded demo_overloaded" "\<not> dp_stopped demo_overloaded"
    unfolding run by (simp_all add: dispatch_enterOverload_def Let_def maybeRecover_def busy)
qed


end
