(* ===== verification/Fan_Out.thy ===== *)
theory Fan_Out
  imports Dispatch Config_Kinds "HOL-Library.Sublist"
begin

text \<open>
  The delivery half of \<open>api/src/websocket/dispatch.ts\<close> with \<open>utils/removal.ts\<close> and \<open>utils/message.ts\<close>: which
  subscribers an event is offered to and what they are sent. What happens elsewhere while a fan-out waits is a
  parameter: for every recipient the answers it gets are given.
\<close>

section \<open>Matching\<close>

fun ev_action :: "ws_event \<Rightarrow> string" where
  "ev_action (Ev_create _ _) = ''create''"
| "ev_action (Ev_update _ _) = ''update''"
| "ev_action (Ev_delete _ _) = ''delete''"

fun ev_keys :: "ws_event \<Rightarrow> item_key list" where
  "ev_keys (Ev_create _ k) = [k]"
| "ev_keys (Ev_update _ ks) = ks"
| "ev_keys (Ev_delete _ ks) = ks"

definition matchesItem :: "ws_event \<Rightarrow> string \<Rightarrow> bool" where
  "matchesItem event item =
     (case event of
        Ev_create _ key \<Rightarrow> canonicalItemKey key = item
      | Ev_update _ keys \<Rightarrow> (\<exists>key\<in>set keys. canonicalItemKey key = item)
      | Ev_delete _ keys \<Rightarrow> (\<exists>key\<in>set keys. canonicalItemKey key = item))"

section \<open>The loop over the recipients\<close>

text \<open>
  The answers one recipient gets: whether the token was cancelled and the reservation active before and after the
  semaphore, whether the semaphore granted a permit, and what \<open>getSchema\<close> gives when it is asked, \<open>None\<close> when it throws.
\<close>

record probe =
  pb_cancelled_before :: bool
  pb_active_before :: bool
  pb_acquired :: bool
  pb_cancelled_after :: bool
  pb_active_after :: bool
  pb_schema :: "json option"

datatype delivery = To_sink nat | To_items nat json | To_removal nat json

fun delivery_reservation :: "delivery \<Rightarrow> nat" where
  "delivery_reservation (To_sink r) = r"
| "delivery_reservation (To_items r _) = r"
| "delivery_reservation (To_removal r _) = r"

text \<open>The schema is asked for once; \<open>None\<close> before, \<open>Some None\<close> when it could not be resolved.\<close>

type_synonym schema_cache = "json option option"

record fan_result =
  fr_deliveries :: "delivery list"
  fr_acquired :: nat
  fr_released :: nat

definition skips :: "ws_event \<Rightarrow> subscription \<Rightarrow> bool" where
  "skips event sub \<longleftrightarrow>
     (sb_event sub \<noteq> None \<and> sb_event sub \<noteq> Some (ev_action event)) \<or>
     (ev_action event = ''delete'' \<and> sb_event sub \<noteq> Some ''delete'') \<or>
     (case sb_item sub of None \<Rightarrow> False | Some item \<Rightarrow> \<not> matchesItem event item)"

definition attempt :: "ws_event \<Rightarrow> nat \<Rightarrow> subscription \<Rightarrow> probe \<Rightarrow> schema_cache \<Rightarrow> delivery list \<times> schema_cache" where
  "attempt event r sub p cache =
     (if sb_sink sub then ([To_sink r], cache)
      else
        (let cache' = (case cache of None \<Rightarrow> Some (pb_schema p) | Some c \<Rightarrow> Some c) in
         (case cache' of
            Some (Some schema) \<Rightarrow>
              ([if ev_action event = ''delete'' then To_removal r schema else To_items r schema], cache')
          | _ \<Rightarrow> ([], cache'))))"

fun fan_out_loop :: "ws_event \<Rightarrow> (nat \<times> subscription \<times> probe) list \<Rightarrow> schema_cache \<Rightarrow> fan_result" where
  "fan_out_loop event [] cache = \<lparr>fr_deliveries = [], fr_acquired = 0, fr_released = 0\<rparr>"
| "fan_out_loop event ((r, sub, p) # rest) cache =
     (if pb_cancelled_before p then \<lparr>fr_deliveries = [], fr_acquired = 0, fr_released = 0\<rparr>
      else if \<not> pb_active_before p \<or> skips event sub then fan_out_loop event rest cache
      else if \<not> pb_acquired p then \<lparr>fr_deliveries = [], fr_acquired = 0, fr_released = 0\<rparr>
      else if pb_cancelled_after p then \<lparr>fr_deliveries = [], fr_acquired = 1, fr_released = 1\<rparr>
      else if \<not> pb_active_after p
      then (let res = fan_out_loop event rest cache in
            res\<lparr>fr_acquired := fr_acquired res + 1, fr_released := fr_released res + 1\<rparr>)
      else (case attempt event r sub p cache of
              (ds, cache') \<Rightarrow>
                (let res = fan_out_loop event rest cache' in
                 \<lparr>fr_deliveries = ds @ fr_deliveries res, fr_acquired = fr_acquired res + 1,
                  fr_released = fr_released res + 1\<rparr>)))"

section \<open>Messages\<close>

definition fmtMessage :: "string \<Rightarrow> json_object \<Rightarrow> string option \<Rightarrow> json_object" where
  "fmtMessage type data uid =
     (let message = js_spread [(''type'', JStr type)] data in
      case uid of None \<Rightarrow> message | Some u \<Rightarrow> js_set ''uid'' (JStr u) message)"

definition getMessageType :: "(json \<Rightarrow> string) \<Rightarrow> json \<Rightarrow> string" where
  "getMessageType to_string message =
     (if \<not> isObjectLike message \<or> isArray message then []
      else to_string (js_prop message ''type''))"

text \<open>\<open>safeSend\<close>: whether the frame is handed to the socket, and the code the connection is closed with at once.\<close>

record outbound_limits =
  ol_frameCap :: int
  ol_queueByteBound :: int

definition safeSend :: "bool \<Rightarrow> int \<Rightarrow> int \<Rightarrow> outbound_limits \<Rightarrow> bool \<times> int option" where
  "safeSend is_open bufferedAmount bytes limits =
     (if \<not> is_open then (False, None)
      else if bytes > ol_frameCap limits then (False, Some 1009)
      else if bufferedAmount + bytes > ol_queueByteBound limits then (False, Some 1013)
      else (True, None))"

definition OUTBOUND_LIMITS :: outbound_limits where
  "OUTBOUND_LIMITS = \<lparr>ol_frameCap = 1048576, ol_queueByteBound = 1048576\<rparr>"

text \<open>
  \<open>deliver\<close>: the message an item event sends, if any. The accountability, whether the target has a service, and
  the payload are answers of code elsewhere; \<open>still_active\<close> is read at the end.
\<close>

definition deliver :: "subscription \<Rightarrow> json option \<Rightarrow> bool \<Rightarrow> json_object \<Rightarrow> bool \<Rightarrow> json_object option" where
  "deliver sub accountability has_service payload still_active =
     (case accountability of
        None \<Rightarrow> None
      | Some _ \<Rightarrow>
          if \<not> has_service then None
          else if js_get payload ''data'' = JArr [] then None
          else if \<not> still_active then None
          else Some (fmtMessage ''subscription'' payload (sb_uid sub)))"

definition find_read :: "string \<Rightarrow> json \<Rightarrow> json option" where
  "find_read collection accountability =
     (case js_prop accountability ''permissions'' of
        JArr ps \<Rightarrow> List.find (\<lambda>p. js_prop p ''collection'' = JStr collection \<and> js_prop p ''action'' = JStr ''read'') ps
      | _ \<Rightarrow> None)"

text \<open>\<open>primary_of\<close> gives the primary key of a collection of the schema.\<close>

definition isDeleteFeedEligible :: "string \<Rightarrow> json \<Rightarrow> (string \<Rightarrow> string option) \<Rightarrow> bool" where
  "isDeleteFeedEligible collection accountability primary_of =
     (case primary_of collection of
        None \<Rightarrow> False
      | Some primary \<Rightarrow>
          if js_prop accountability ''admin'' = JBool True then True
          else (case find_read collection accountability of
                  None \<Rightarrow> False
                | Some read \<Rightarrow>
                    if length (object_keys (js_or (js_prop read ''permissions'') (JObj []))) > 0 then False
                    else (let fs = array_items (js_or (js_prop read ''fields'') (JArr [])) in
                          JStr ''*'' \<in> set fs \<or> JStr primary \<in> set fs \<or> length fs = 0)))"

definition hasCollectionReadAccess :: "string \<Rightarrow> json \<Rightarrow> bool" where
  "hasCollectionReadAccess collection accountability \<longleftrightarrow>
     js_prop accountability ''admin'' = JBool True \<or> find_read collection accountability \<noteq> None"

definition isDeleteFeedQueryAllowed :: "json \<Rightarrow> bool" where
  "isDeleteFeedQueryAllowed rawQuery \<longleftrightarrow> rawQuery = JUndefined \<or> length (object_keys rawQuery) = 0"

definition deletableKeys :: "string option \<Rightarrow> item_key list \<Rightarrow> item_key list" where
  "deletableKeys item keys =
     (case item of None \<Rightarrow> keys | Some i \<Rightarrow> filter (\<lambda>key. canonicalItemKey key = i) keys)"

datatype removal_outcome = Removal_nothing | Removal_unsubscribe | Removal_send json_object

definition key_json :: "item_key \<Rightarrow> json" where
  "key_json key = (case key of Inl s \<Rightarrow> JStr s | Inr n \<Rightarrow> JInt n)"

definition deliverRemoval :: "subscription \<Rightarrow> json option \<Rightarrow> (string \<Rightarrow> string option) \<Rightarrow> item_key list \<Rightarrow> bool \<Rightarrow> removal_outcome" where
  "deliverRemoval sub accountability primary_of event_keys still_active =
     (case accountability of
        None \<Rightarrow> Removal_nothing
      | Some acc \<Rightarrow>
          if \<not> isDeleteFeedEligible (sb_collection sub) acc primary_of
          then (if still_active then Removal_unsubscribe else Removal_nothing)
          else
            (let keys = deletableKeys (sb_item sub) event_keys in
             if length keys = 0 then Removal_nothing
             else if \<not> still_active then Removal_nothing
             else Removal_send (fmtMessage ''subscription''
                    [(''event'', JStr ''delete''), (''data'', JArr (map key_json keys))] (sb_uid sub))))"

section \<open>Who an event is offered to\<close>

definition calm :: "probe \<Rightarrow> bool" where
  "calm p \<longleftrightarrow> \<not> pb_cancelled_before p \<and> pb_active_before p \<and> pb_acquired p \<and> \<not> pb_cancelled_after p \<and> pb_active_after p \<and>
     pb_schema p \<noteq> None"

lemma attempt_reservation: "set (map delivery_reservation (fst (attempt event r sub p cache))) \<subseteq> {r}"
  by (auto simp: attempt_def Let_def split: option.splits if_splits)

lemma attempt_calm:
  "pb_schema p \<noteq> None \<Longrightarrow> cache \<noteq> Some None \<Longrightarrow>
     map delivery_reservation (fst (attempt event r sub p cache)) = [r] \<and> snd (attempt event r sub p cache) \<noteq> Some None"
  by (auto simp: attempt_def Let_def split: option.splits)

fun kind_ok :: "ws_event \<Rightarrow> delivery \<Rightarrow> bool" where
  "kind_ok event (To_sink _) = True"
| "kind_ok event (To_items _ _) = (ev_action event \<noteq> ''delete'')"
| "kind_ok event (To_removal _ _) = (ev_action event = ''delete'')"

lemma attempt_kind: "\<forall>d\<in>set (fst (attempt event r sub p cache)). kind_ok event d"
  by (auto simp: attempt_def Let_def split: option.splits)

definition offered :: "ws_event \<Rightarrow> (nat \<times> subscription \<times> probe) list \<Rightarrow> nat list" where
  "offered event rs = map fst (filter (\<lambda>(r, sub, p). \<not> skips event sub) rs)"

lemma fan_out_subseq:
  "subseq (map delivery_reservation (fr_deliveries (fan_out_loop event rs cache))) (offered event rs) \<and>
   fr_acquired (fan_out_loop event rs cache) = fr_released (fan_out_loop event rs cache)"
proof (induction event rs cache rule: fan_out_loop.induct)
  case (2 event r sub p rest cache)
  obtain ds cache' where at: "attempt event r sub p cache = (ds, cache')" by (cases "attempt event r sub p cache")
  have ds: "map delivery_reservation ds = [] \<or> map delivery_reservation ds = [r]"
    using at by (auto simp: attempt_def Let_def split: option.splits if_splits)
  show ?case
  proof (cases "pb_cancelled_before p \<or> \<not> pb_active_before p \<or> skips event sub \<or> \<not> pb_acquired p \<or> pb_cancelled_after p \<or>
      \<not> pb_active_after p")
    case True
    with 2 show ?thesis by (auto simp: Let_def offered_def)
  next
    case False
    with 2(3)[OF _ _ _ _ _ at[symmetric]] ds at show ?thesis by (auto simp: Let_def offered_def)
  qed
qed (simp add: offered_def)

lemma fan_out_active:
  "d \<in> set (fr_deliveries (fan_out_loop event rs cache)) \<Longrightarrow>
     kind_ok event d \<and>
     (\<exists>sub p. (delivery_reservation d, sub, p) \<in> set rs \<and> \<not> skips event sub \<and> pb_active_after p \<and> \<not> pb_cancelled_after p)"
proof (induction event rs cache rule: fan_out_loop.induct)
  case (2 event r sub p rest cache)
  obtain ds cache' where at: "attempt event r sub p cache = (ds, cache')" by (cases "attempt event r sub p cache")
  with attempt_reservation[of event r sub p cache] attempt_kind[of event r sub p cache]
  have ds: "\<forall>x\<in>set ds. delivery_reservation x = r \<and> kind_ok event x" by auto
  show ?case
  proof (cases "pb_cancelled_before p \<or> \<not> pb_active_before p \<or> skips event sub \<or> \<not> pb_acquired p \<or> pb_cancelled_after p \<or>
      \<not> pb_active_after p")
    case True
    with 2 show ?thesis by (fastforce simp: Let_def split: if_splits)
  next
    case False
    with "2.prems" at have "d \<in> set ds \<or> d \<in> set (fr_deliveries (fan_out_loop event rest cache'))" by (simp add: Let_def)
    with ds False 2(3)[OF _ _ _ _ _ at[symmetric]] show ?thesis by fastforce
  qed
qed simp

lemma fan_out_calm:
  "\<forall>(r, sub, p)\<in>set rs. calm p \<Longrightarrow> cache \<noteq> Some None \<Longrightarrow>
     map delivery_reservation (fr_deliveries (fan_out_loop event rs cache)) = offered event rs"
proof (induction event rs cache rule: fan_out_loop.induct)
  case (2 event r sub p rest cache)
  obtain ds cache' where at: "attempt event r sub p cache = (ds, cache')" by (cases "attempt event r sub p cache")
  from "2.prems" have p: "calm p" by simp
  with attempt_calm[of p cache event r sub] "2.prems"(2) at
  have ds: "map delivery_reservation ds = [r]" "cache' \<noteq> Some None" by (simp_all add: calm_def)
  show ?case
  proof (cases "skips event sub")
    case True
    with 2(1) "2.prems" p show ?thesis by (simp add: calm_def offered_def)
  next
    case False
    with 2(3)[OF _ _ _ _ _ at[symmetric]] "2.prems" p ds at show ?thesis by (simp add: calm_def offered_def Let_def)
  qed
qed (simp add: offered_def)

section \<open>Properties\<close>

text \<open>
  C32: a fan-out offers an event only to reservations whose event and item filters match it, that are still active, in
  their order and each at most once, and gives back every permit it took. A delete event goes to subscribers of
  deletes only, and never through the item service. When nothing is cancelled, refused or removed meanwhile and the
  schema resolves, every matching recipient is offered the event.
\<close>

theorem fan_out_exact:
  "subseq (map delivery_reservation (fr_deliveries (fan_out_loop event rs None))) (offered event rs) \<and>
   fr_acquired (fan_out_loop event rs None) = fr_released (fan_out_loop event rs None) \<and>
   (\<forall>d\<in>set (fr_deliveries (fan_out_loop event rs None)).
      (\<exists>sub p. (delivery_reservation d, sub, p) \<in> set rs \<and> pb_active_after p \<and>
         (sb_event sub = None \<and> ev_action event \<noteq> ''delete'' \<or> sb_event sub = Some (ev_action event)) \<and>
         (\<forall>item. sb_item sub = Some item \<longrightarrow> item \<in> canonicalItemKey ` set (ev_keys event))) \<and>
      kind_ok event d) \<and>
   ((\<forall>(r, sub, p)\<in>set rs. calm p) \<longrightarrow>
      map delivery_reservation (fr_deliveries (fan_out_loop event rs None)) = offered event rs)"
proof -
  have "(\<exists>sub p. (delivery_reservation d, sub, p) \<in> set rs \<and> pb_active_after p \<and>
         (sb_event sub = None \<and> ev_action event \<noteq> ''delete'' \<or> sb_event sub = Some (ev_action event)) \<and>
         (\<forall>item. sb_item sub = Some item \<longrightarrow> item \<in> canonicalItemKey ` set (ev_keys event)))"
    if d: "d \<in> set (fr_deliveries (fan_out_loop event rs None))" for d
  proof -
    from fan_out_active[OF d] obtain sub p where p: "(delivery_reservation d, sub, p) \<in> set rs" "\<not> skips event sub"
      "pb_active_after p" by blast
    have "matchesItem event item \<longleftrightarrow> item \<in> canonicalItemKey ` set (ev_keys event)" for item
      by (cases event) (auto simp: matchesItem_def)
    with p show ?thesis by (intro exI[of _ sub] exI[of _ p]) (auto simp: skips_def)
  qed
  moreover have "kind_ok event d" if "d \<in> set (fr_deliveries (fan_out_loop event rs None))" for d
    using fan_out_active[OF that] by blast
  ultimately show ?thesis using fan_out_subseq fan_out_calm[of rs None event] by blast
qed

definition demo_probe :: probe where
  "demo_probe = \<lparr>pb_cancelled_before = False, pb_active_before = True, pb_acquired = True, pb_cancelled_after = False,
     pb_active_after = True, pb_schema = Some (JObj [])\<rparr>"

lemma fan_out_exact_witness:
  "map delivery_reservation (fr_deliveries (fan_out_loop (Ev_update ''c'' [Inr 1])
     [(0, demo_subscription, demo_probe), (1, demo_subscription\<lparr>sb_event := Some ''delete''\<rparr>, demo_probe)] None)) = [0]"
  using fan_out_exact[of "Ev_update ''c'' [Inr 1]"
      "[(0, demo_subscription, demo_probe), (1, demo_subscription\<lparr>sb_event := Some ''delete''\<rparr>, demo_probe)]"]
  by (simp add: calm_def demo_probe_def offered_def skips_def demo_subscription_def)

text \<open>
  C17: the removal feed tells no one more than reading would. A removal message is sent only to an administrator or to
  a caller that may read the collection without an item filter and may read its primary key (by name, by \<open>*\<close> or by an
  empty field list), it carries only keys of the event, a subscription of one item only that item, and never none. A
  caller that is not eligible loses the subscription instead.
\<close>

theorem removal_feed_safe:
  assumes "deliverRemoval sub accountability primary_of event_keys still_active = Removal_send msg"
  shows "\<exists>acc primary keys. accountability = Some acc \<and> primary_of (sb_collection sub) = Some primary \<and> still_active \<and>
    (js_prop acc ''admin'' = JBool True \<or>
       (\<exists>read. find_read (sb_collection sub) acc = Some read \<and>
          object_keys (js_or (js_prop read ''permissions'') (JObj [])) = [] \<and>
          (let fs = array_items (js_or (js_prop read ''fields'') (JArr [])) in
           fs = [] \<or> JStr ''*'' \<in> set fs \<or> JStr primary \<in> set fs))) \<and>
    js_get msg ''data'' = JArr (map key_json keys) \<and> keys \<noteq> [] \<and> set keys \<subseteq> set event_keys \<and>
    (\<forall>item. sb_item sub = Some item \<longrightarrow> (\<forall>key\<in>set keys. canonicalItemKey key = item))"
proof -
  from assms obtain acc where acc: "accountability = Some acc" by (auto simp: deliverRemoval_def split: option.splits)
  let ?keys = "deletableKeys (sb_item sub) event_keys"
  from assms acc have el: "isDeleteFeedEligible (sb_collection sub) acc primary_of" "?keys \<noteq> []" "still_active"
    and msg: "msg = fmtMessage ''subscription'' [(''event'', JStr ''delete''), (''data'', JArr (map key_json ?keys))] (sb_uid sub)"
    by (auto simp: deliverRemoval_def Let_def split: if_splits)
  from msg have data: "js_get msg ''data'' = JArr (map key_json ?keys)"
    by (simp add: fmtMessage_def js_spread_def js_has_def Let_def split: option.split)
  have keys: "set ?keys \<subseteq> set event_keys" "\<forall>item. sb_item sub = Some item \<longrightarrow> (\<forall>key\<in>set ?keys. canonicalItemKey key = item)"
    by (auto simp: deletableKeys_def split: option.splits)
  from el(1) obtain primary where pr: "primary_of (sb_collection sub) = Some primary"
    by (auto simp: isDeleteFeedEligible_def split: option.splits)
  with el(1) have "js_prop acc ''admin'' = JBool True \<or>
      (\<exists>read. find_read (sb_collection sub) acc = Some read \<and>
          object_keys (js_or (js_prop read ''permissions'') (JObj [])) = [] \<and>
          (let fs = array_items (js_or (js_prop read ''fields'') (JArr [])) in
           fs = [] \<or> JStr ''*'' \<in> set fs \<or> JStr primary \<in> set fs))"
    by (auto simp: isDeleteFeedEligible_def Let_def split: option.splits if_splits)
  with acc pr el data keys show ?thesis by blast
qed

definition demo_reader :: json where
  "demo_reader = JObj [(''permissions'', JArr [JObj [(''collection'', JStr ''c''), (''action'', JStr ''read''),
     (''permissions'', JNull), (''fields'', JArr [JStr ''id''])]])]"

definition demo_primary :: "string \<Rightarrow> string option" where
  "demo_primary c = (if c = ''c'' then Some ''id'' else None)"

lemma removal_feed_safe_witness:
  "\<exists>keys. keys \<noteq> [] \<and> set keys \<subseteq> {Inr 1}"
proof -
  have "case deliverRemoval demo_subscription (Some demo_reader) demo_primary [Inr 1] True of
      Removal_send m \<Rightarrow> True | _ \<Rightarrow> False" by code_simp
  then obtain m where "deliverRemoval demo_subscription (Some demo_reader) demo_primary [Inr 1] True = Removal_send m"
    by (auto split: removal_outcome.splits)
  from removal_feed_safe[OF this] show ?thesis by auto
qed

end
