(* ===== verification/Access.thy ===== *)
theory Access
  imports Cairn_Prelude
begin

text \<open>
  Access rules: \<open>api/src/utils/merge-permissions.ts\<close>, \<open>reduce-schema.ts\<close> and \<open>merge-permissions-for-share.ts\<close>.
  lodash's \<open>merge\<close> and \<open>set\<close> and the permissions of the system data are parameters. Filters are JSON values; their
  meaning is the reference semantics below, for one item, given which conditions on single fields hold of it.
\<close>

section \<open>The meaning of a filter\<close>

text \<open>The entries of a filter object are all required; \<open>_and\<close> requires all of a list and \<open>_or\<close> one of them.\<close>

fun sat :: "(string \<Rightarrow> json \<Rightarrow> bool) \<Rightarrow> json \<Rightarrow> bool"
  and sat_entries :: "(string \<Rightarrow> json \<Rightarrow> bool) \<Rightarrow> (string \<times> json) list \<Rightarrow> bool"
  and sat_entry :: "(string \<Rightarrow> json \<Rightarrow> bool) \<Rightarrow> string \<Rightarrow> json \<Rightarrow> bool"
  and sat_all :: "(string \<Rightarrow> json \<Rightarrow> bool) \<Rightarrow> json list \<Rightarrow> bool"
  and sat_any :: "(string \<Rightarrow> json \<Rightarrow> bool) \<Rightarrow> json list \<Rightarrow> bool" where
  "sat holds (JObj entries) = sat_entries holds entries"
| "sat holds JUndefined = True"
| "sat holds JNull = True"
| "sat holds (JBool _) = True"
| "sat holds (JInt _) = True"
| "sat holds (JFloat _) = True"
| "sat holds (JStr _) = True"
| "sat holds (JDate _) = True"
| "sat holds (JArr _) = True"
| "sat_entries holds [] = True"
| "sat_entries holds ((k, v) # rest) = (sat_entry holds k v \<and> sat_entries holds rest)"
| "sat_entry holds k (JArr fs) =
     (if k = ''_and'' then sat_all holds fs else if k = ''_or'' then sat_any holds fs else holds k (JArr fs))"
| "sat_entry holds k v = holds k v"
| "sat_all holds [] = True"
| "sat_all holds (f # fs) = (sat holds f \<and> sat_all holds fs)"
| "sat_any holds [] = False"
| "sat_any holds (f # fs) = (sat holds f \<or> sat_any holds fs)"

lemma sat_all_iff: "sat_all holds fs \<longleftrightarrow> (\<forall>f\<in>set fs. sat holds f)"
  by (induction fs) simp_all

lemma sat_any_iff: "sat_any holds fs \<longleftrightarrow> (\<exists>f\<in>set fs. sat holds f)"
  by (induction fs) simp_all

definition allows :: "string list option \<Rightarrow> string \<Rightarrow> bool" where
  "allows fs field \<longleftrightarrow> (case fs of None \<Rightarrow> False | Some names \<Rightarrow> ''*'' \<in> set names \<or> field \<in> set names)"

section \<open>Merging permissions\<close>

datatype merge_strategy = Merge_and | Merge_or

record permission =
  pm_id :: json
  pm_system :: json
  pm_collection :: string
  pm_action :: string
  pm_role :: "string option"
  pm_permissions :: json
  pm_validation :: json
  pm_fields :: "string list option"
  pm_presets :: json

fun logical_key :: "merge_strategy \<Rightarrow> string" where
  "logical_key Merge_and = ''_and''"
| "logical_key Merge_or = ''_or''"

definition first_key :: "json \<Rightarrow> string option" where
  "first_key v = (case object_keys v of [] \<Rightarrow> None | k # _ \<Rightarrow> Some k)"

definition validationParts :: "json \<Rightarrow> json list" where
  "validationParts validation =
     (if \<not> truthy validation \<or> \<not> isObjectLike validation then []
      else if first_key validation = Some ''_and'' \<and> isArray (js_prop validation ''_and'')
      then array_items (js_prop validation ''_and'')
      else [validation])"

text \<open>The value of a logical key is a list, as the types \<open>LogicalFilterAND\<close> and \<open>LogicalFilterOR\<close> say.\<close>

definition merge_filters :: "merge_strategy \<Rightarrow> json \<Rightarrow> json \<Rightarrow> json" where
  "merge_filters strategy current new =
     (let key = logical_key strategy in
      if \<not> truthy new then current
      else if truthy current \<and> first_key current = Some key
      then JObj [(key, JArr (array_items (js_prop current key) @ [new]))]
      else if truthy current
      then (if strategy = Merge_or \<and> (current = JObj [] \<or> new = JObj []) then JObj []
            else JObj [(key, JArr [current, new])])
      else JObj [(key, JArr [new])])"

definition merge_validation :: "json \<Rightarrow> json \<Rightarrow> json" where
  "merge_validation current new =
     (let newEmpty = (\<not> truthy new \<or> new = JObj []); currentEmpty = (\<not> truthy current \<or> current = JObj []) in
      if \<not> newEmpty
      then (if currentEmpty then new else JObj [(''_and'', JArr (validationParts current @ validationParts new))])
      else current)"

text \<open>lodash's \<open>intersection\<close> keeps the first occurrences of the first list that are in the second.\<close>

definition merge_fields :: "merge_strategy \<Rightarrow> string list option \<Rightarrow> string list option \<Rightarrow> string list option" where
  "merge_fields strategy current new =
     (case new of
        None \<Rightarrow> current
      | Some new_fields \<Rightarrow>
          (let merged = (case current of
                           Some current_fields \<Rightarrow>
                             (case strategy of
                                Merge_or \<Rightarrow> js_uniq (current_fields @ new_fields)
                              | Merge_and \<Rightarrow> js_uniq (filter (\<lambda>f. f \<in> set new_fields) current_fields))
                         | None \<Rightarrow> new_fields)
           in Some (if ''*'' \<in> set merged then [''*''] else merged)))"

definition mergePermission :: "(json \<Rightarrow> json \<Rightarrow> json) \<Rightarrow> merge_strategy \<Rightarrow> permission \<Rightarrow> permission \<Rightarrow> permission" where
  "mergePermission lodash_merge strategy currentPerm newPerm =
     currentPerm\<lparr>pm_permissions := merge_filters strategy (pm_permissions currentPerm) (pm_permissions newPerm),
       pm_validation := merge_validation (pm_validation currentPerm) (pm_validation newPerm),
       pm_fields := merge_fields strategy (pm_fields currentPerm) (pm_fields newPerm),
       pm_presets := (if truthy (pm_presets newPerm) then lodash_merge (pm_presets currentPerm) (pm_presets newPerm)
                      else pm_presets currentPerm),
       pm_id := JUndefined, pm_system := JUndefined\<rparr>"

definition permission_key :: "permission \<Rightarrow> string" where
  "permission_key p = pm_collection p @ ''__'' @ pm_action p @ ''__'' @
     (case pm_role p of None \<Rightarrow> ''null'' | Some r \<Rightarrow> r)"

definition merge_step :: "(json \<Rightarrow> json \<Rightarrow> json) \<Rightarrow> merge_strategy \<Rightarrow> (string \<times> permission) list \<Rightarrow> permission \<Rightarrow>
    (string \<times> permission) list" where
  "merge_step lodash_merge strategy acc val =
     (let key = permission_key val in
      js_set key (case map_of acc key of
                    Some current \<Rightarrow> mergePermission lodash_merge strategy current val
                  | None \<Rightarrow> val) acc)"

definition mergePermissions :: "(json \<Rightarrow> json \<Rightarrow> json) \<Rightarrow> merge_strategy \<Rightarrow> permission list list \<Rightarrow> permission list" where
  "mergePermissions lodash_merge strategy permissions =
     map snd (foldl (merge_step lodash_merge strategy) [] (concat permissions))"

section \<open>Reducing the schema\<close>

record relation_meta =
  rm_one_field :: "string option"
  rm_one_allowed_collections :: "string list option"
  rm_one_collection_field :: "string option"
  rm_sort_field :: "string option"

record relation =
  rl_collection :: string
  rl_field :: string
  rl_related :: "string option"
  rl_meta :: "relation_meta option"

record collection_overview =
  co_primary :: string
  co_rest :: json
  co_fields :: "(string \<times> json) list"

record schema_overview =
  so_collections :: "(string \<times> collection_overview) list"
  so_relations :: "relation list"

text \<open>\<open>relation.related_collection\<close> and \<open>relation.meta?.one_field\<close> as conditions: set and not empty.\<close>

definition set_text :: "string option \<Rightarrow> bool" where
  "set_text v \<longleftrightarrow> (case v of None \<Rightarrow> False | Some s \<Rightarrow> s \<noteq> [])"

definition one_field :: "relation \<Rightarrow> string option" where
  "one_field r = (case rl_meta r of None \<Rightarrow> None | Some meta \<Rightarrow> rm_one_field meta)"

definition one_allowed :: "relation \<Rightarrow> string list option" where
  "one_allowed r = (case rl_meta r of None \<Rightarrow> None | Some meta \<Rightarrow> rm_one_allowed_collections meta)"

definition allowed_step :: "(string \<times> string list) list \<Rightarrow> permission \<Rightarrow> (string \<times> string list) list" where
  "allowed_step acc p =
     (let acc' = (if js_has (pm_collection p) acc then acc else js_set (pm_collection p) [] acc) in
      (case pm_fields p of
         None \<Rightarrow> acc'
       | Some fs \<Rightarrow> js_set (pm_collection p) (js_uniq ((case map_of acc' (pm_collection p) of Some old \<Rightarrow> old | None \<Rightarrow> []) @ fs)) acc'))"

definition allowedFieldsInCollection :: "permission list option \<Rightarrow> string list \<Rightarrow> (string \<times> string list) list" where
  "allowedFieldsInCollection permissions actions =
     (case permissions of
        None \<Rightarrow> []
      | Some ps \<Rightarrow> foldl allowed_step [] (filter (\<lambda>p. pm_action p \<in> set actions) ps))"

definition some_permission :: "permission list option \<Rightarrow> string list \<Rightarrow> string \<Rightarrow> bool" where
  "some_permission permissions actions collection \<longleftrightarrow>
     (case permissions of None \<Rightarrow> False
      | Some ps \<Rightarrow> (\<exists>p\<in>set ps. pm_collection p = collection \<and> pm_action p \<in> set actions))"

definition field_kept :: "schema_overview \<Rightarrow> permission list option \<Rightarrow> string list \<Rightarrow> string \<Rightarrow> string \<Rightarrow> bool" where
  "field_kept schema permissions actions collectionName fieldName =
     (let allowed = map_of (allowedFieldsInCollection permissions actions) collectionName in
      if \<not> allows allowed fieldName then False
      else (case List.find (\<lambda>r. rl_related r = Some collectionName \<and> one_field r = Some fieldName) (so_relations schema) of
              Some o2m \<Rightarrow> some_permission permissions actions (rl_collection o2m)
            | None \<Rightarrow> True))"

definition relation_kept :: "permission list option \<Rightarrow> string list \<Rightarrow> relation \<Rightarrow> bool" where
  "relation_kept permissions actions r =
     (let allowed = allowedFieldsInCollection permissions actions;
          related = (case rl_related r of Some c \<Rightarrow> c | None \<Rightarrow> []);
          collectionsAllowed =
            \<not> (\<not> js_has (rl_collection r) allowed) \<and>
            \<not> (set_text (rl_related r) \<and> (\<not> js_has related allowed \<or> map_of allowed related = Some [])) \<and>
            \<not> (case one_allowed r of None \<Rightarrow> False | Some cs \<Rightarrow> \<not> (\<forall>c\<in>set cs. js_has c allowed));
          fieldsAllowed =
            \<not> (\<not> allows (map_of allowed (rl_collection r)) (rl_field r)) \<and>
            \<not> (set_text (rl_related r) \<and> set_text (one_field r) \<and>
               \<not> allows (map_of allowed related) (case one_field r of Some f \<Rightarrow> f | None \<Rightarrow> []))
      in collectionsAllowed \<and> fieldsAllowed)"

definition reduceSchema :: "schema_overview \<Rightarrow> permission list option \<Rightarrow> string list \<Rightarrow> schema_overview" where
  "reduceSchema schema permissions actions =
     \<lparr>so_collections =
        map (\<lambda>(name, c). (name, c\<lparr>co_fields := filter (\<lambda>(f, _). field_kept schema permissions actions name f) (co_fields c)\<rparr>))
          (filter (\<lambda>(name, c). some_permission permissions actions name) (so_collections schema)),
      so_relations = filter (relation_kept permissions actions) (so_relations schema)\<rparr>"

section \<open>What merging means\<close>

text \<open>A filter object whose logical key, when it comes first, is its only key; merging relies on it.\<close>

definition filter_ok :: "merge_strategy \<Rightarrow> json \<Rightarrow> bool" where
  "filter_ok strategy f \<longleftrightarrow> (\<exists>entries. f = JObj entries \<and>
     (first_key f = Some (logical_key strategy) \<longrightarrow> (\<exists>fs. entries = [(logical_key strategy, JArr fs)])))"

definition combine :: "merge_strategy \<Rightarrow> bool \<Rightarrow> bool \<Rightarrow> bool" where
  "combine strategy a b = (case strategy of Merge_and \<Rightarrow> a \<and> b | Merge_or \<Rightarrow> a \<or> b)"

lemma first_key_JObj [simp]: "first_key (JObj ((k, v) # r)) = Some k" "first_key (JObj []) = None"
  by (simp_all add: first_key_def object_keys_def)

lemma filter_ok_logical [simp]: "filter_ok strategy (JObj [(logical_key strategy, JArr fs)])"
  by (simp add: filter_ok_def)

lemma filter_ok_Nil [simp]: "filter_ok strategy (JObj [])"
  by (simp add: filter_ok_def)

lemma sat_logical:
  "sat holds (JObj [(logical_key strategy, JArr fs)]) =
     (case strategy of Merge_and \<Rightarrow> \<forall>f\<in>set fs. sat holds f | Merge_or \<Rightarrow> \<exists>f\<in>set fs. sat holds f)"
  by (cases strategy) (simp_all add: sat_all_iff sat_any_iff)

lemma merge_filters_ok:
  assumes "filter_ok strategy current" "filter_ok strategy new"
  shows "filter_ok strategy (merge_filters strategy current new)"
    and "sat holds (merge_filters strategy current new) = combine strategy (sat holds current) (sat holds new)"
proof -
  from assms obtain es ns where es: "current = JObj es" and ns: "new = JObj ns" by (auto simp: filter_ok_def)
  show "filter_ok strategy (merge_filters strategy current new)"
    by (simp add: merge_filters_def Let_def es ns)
  show "sat holds (merge_filters strategy current new) = combine strategy (sat holds current) (sat holds new)"
  proof (cases "first_key current = Some (logical_key strategy)")
    case True
    with assms(1) es obtain fs where fs: "current = JObj [(logical_key strategy, JArr fs)]" by (auto simp: filter_ok_def)
    have "merge_filters strategy current new = JObj [(logical_key strategy, JArr (fs @ [new]))]"
      by (simp add: merge_filters_def Let_def fs ns array_items_def)
    then show ?thesis unfolding fs sat_logical
      by (cases strategy) (simp_all add: combine_def sat_all_iff sat_any_iff conj_commute disj_commute)
  next
    case False
    then have "merge_filters strategy current new =
        (if strategy = Merge_or \<and> (current = JObj [] \<or> new = JObj []) then JObj []
         else JObj [(logical_key strategy, JArr [current, new])])"
      by (simp add: merge_filters_def Let_def es ns)
    then show ?thesis
      by (cases strategy) (auto simp: combine_def es ns)
  qed
qed

lemma merge_fields_or: "allows (merge_fields Merge_or current new) f \<longleftrightarrow> allows current f \<or> allows new f"
  by (auto simp: merge_fields_def allows_def Let_def split: option.splits)

lemma merge_fields_and:
  "allows (merge_fields Merge_and current new) f \<Longrightarrow> (current = None \<or> allows current f) \<and> (new = None \<or> allows new f)"
  by (auto simp: merge_fields_def allows_def Let_def split: option.splits if_splits)

lemma merge_fields_None: "merge_fields strategy current new = None \<longleftrightarrow> current = None \<and> new = None"
  by (auto simp: merge_fields_def Let_def split: option.splits)

lemma mergePermission_simps [simp]:
  "permission_key (mergePermission lm st p q) = permission_key p"
  "pm_permissions (mergePermission lm st p q) = merge_filters st (pm_permissions p) (pm_permissions q)"
  "pm_fields (mergePermission lm st p q) = merge_fields st (pm_fields p) (pm_fields q)"
  "pm_collection (mergePermission lm st p q) = pm_collection p" "pm_action (mergePermission lm st p q) = pm_action p"
  by (simp_all add: mergePermission_def permission_key_def)

text \<open>Merging all permissions merges those with the same key, in order.\<close>

definition with_key :: "string \<Rightarrow> permission list \<Rightarrow> permission list" where
  "with_key k ps = filter (\<lambda>p. permission_key p = k) ps"

definition merge_group :: "(json \<Rightarrow> json \<Rightarrow> json) \<Rightarrow> merge_strategy \<Rightarrow> permission list \<Rightarrow> permission option" where
  "merge_group lm st ps = (case ps of [] \<Rightarrow> None | p # qs \<Rightarrow> Some (foldl (mergePermission lm st) p qs))"

lemma merge_group_snoc:
  "merge_group lm st (ps @ [p]) = Some (case merge_group lm st ps of None \<Rightarrow> p | Some m \<Rightarrow> mergePermission lm st m p)"
  by (cases ps) (simp_all add: merge_group_def)

lemma merge_fold:
  "distinct (map fst (foldl (merge_step lm st) [] ps)) \<and>
   (\<forall>k. map_of (foldl (merge_step lm st) [] ps) k = merge_group lm st (with_key k ps))"
proof (induction ps rule: rev_induct)
  case (snoc p ps)
  let ?acc = "foldl (merge_step lm st) [] ps"
  from snoc have acc: "distinct (map fst ?acc)" "\<And>k. map_of ?acc k = merge_group lm st (with_key k ps)" by blast+
  have step: "\<exists>v. merge_step lm st ?acc p = js_set (permission_key p) v ?acc \<and>
      v = (case merge_group lm st (with_key (permission_key p) ps) of Some m \<Rightarrow> mergePermission lm st m p | None \<Rightarrow> p)"
    by (simp only: merge_step_def Let_def acc(2)) blast
  have "map_of (foldl (merge_step lm st) [] (ps @ [p])) k = merge_group lm st (with_key k (ps @ [p]))" for k
  proof (cases "permission_key p = k")
    case True
    with step have "map_of (merge_step lm st ?acc p) k =
        Some (case merge_group lm st (with_key k ps) of Some m \<Rightarrow> mergePermission lm st m p | None \<Rightarrow> p)" by auto
    moreover have "with_key k (ps @ [p]) = with_key k ps @ [p]" using True by (simp add: with_key_def)
    ultimately show ?thesis by (simp add: merge_group_snoc split: option.split)
  next
    case False
    with step acc(2)[of k] have "map_of (merge_step lm st ?acc p) k = merge_group lm st (with_key k ps)" by auto
    with False show ?thesis by (simp add: with_key_def)
  qed
  moreover from step acc(1) have "distinct (map fst (foldl (merge_step lm st) [] (ps @ [p])))" by auto
  ultimately show ?case by blast
qed (simp add: with_key_def merge_group_def)

lemma merge_group_key:
  "merge_group lm st (with_key k ps) = Some m \<Longrightarrow> permission_key m = k"
proof (induction ps arbitrary: m rule: rev_induct)
  case (snoc p ps)
  show ?case
  proof (cases "permission_key p = k")
    case True
    then have m: "m = (case merge_group lm st (with_key k ps) of None \<Rightarrow> p | Some m \<Rightarrow> mergePermission lm st m p)"
      using snoc.prems by (simp add: with_key_def merge_group_snoc)
    show ?thesis
    proof (cases "merge_group lm st (with_key k ps)")
      case None
      with m True show ?thesis by simp
    next
      case (Some n)
      have "permission_key n = k" by (rule snoc.IH[OF Some])
      with Some m show ?thesis by simp
    qed
  next
    case False
    with snoc.prems have "merge_group lm st (with_key k ps) = Some m" by (simp add: with_key_def)
    then show ?thesis by (rule snoc.IH)
  qed
qed (simp add: with_key_def merge_group_def)

lemma mergePermissions_members:
  "m \<in> set (mergePermissions lm st pss) \<longleftrightarrow> merge_group lm st (with_key (permission_key m) (concat pss)) = Some m"
proof -
  let ?acc = "foldl (merge_step lm st) [] (concat pss)"
  have d: "distinct (map fst ?acc)" and mo: "\<And>k. map_of ?acc k = merge_group lm st (with_key k (concat pss))"
    using merge_fold[of lm st "concat pss"] by blast+
  show ?thesis
  proof
    assume "m \<in> set (mergePermissions lm st pss)"
    then obtain k where "(k, m) \<in> set ?acc" by (auto simp: mergePermissions_def)
    with d mo have "merge_group lm st (with_key k (concat pss)) = Some m" by (metis map_of_is_SomeI)
    with merge_group_key show "merge_group lm st (with_key (permission_key m) (concat pss)) = Some m" by blast
  next
    assume "merge_group lm st (with_key (permission_key m) (concat pss)) = Some m"
    with mo have "map_of ?acc (permission_key m) = Some m" by metis
    then have "(permission_key m, m) \<in> set ?acc" by (rule map_of_SomeD)
    then show "m \<in> set (mergePermissions lm st pss)" by (force simp: mergePermissions_def)
  qed
qed

lemma mergePermissions_keys: "map permission_key (mergePermissions lm st pss) = map fst (foldl (merge_step lm st) [] (concat pss))"
proof -
  let ?acc = "foldl (merge_step lm st) [] (concat pss)"
  have "permission_key (snd e) = fst e" if "e \<in> set ?acc" for e
  proof -
    have "(fst e, snd e) \<in> set ?acc" using that by simp
    with merge_fold[of lm st "concat pss"] have "map_of ?acc (fst e) = Some (snd e)" by (intro map_of_is_SomeI) blast+
    with merge_fold[of lm st "concat pss"] merge_group_key show ?thesis by metis
  qed
  then show ?thesis by (simp add: mergePermissions_def)
qed

lemma merge_group_sat:
  "merge_group lm st ps = Some m \<Longrightarrow> \<forall>p\<in>set ps. filter_ok st (pm_permissions p) \<Longrightarrow>
     filter_ok st (pm_permissions m) \<and>
     sat holds (pm_permissions m) = (case st of Merge_and \<Rightarrow> \<forall>p\<in>set ps. sat holds (pm_permissions p)
       | Merge_or \<Rightarrow> \<exists>p\<in>set ps. sat holds (pm_permissions p))"
proof (induction ps arbitrary: m rule: rev_induct)
  case (snoc p ps)
  show ?case
  proof (cases "merge_group lm st ps")
    case None
    then have "ps = []" by (cases ps) (simp_all add: merge_group_def)
    with snoc.prems show ?thesis by (cases st) (simp_all add: merge_group_def)
  next
    case (Some n)
    with snoc have n: "filter_ok st (pm_permissions n)" "filter_ok st (pm_permissions p)" "m = mergePermission lm st n p"
      by (simp_all add: merge_group_snoc)
    from merge_filters_ok[OF n(1,2)] n(3) snoc Some show ?thesis
      by (cases st) (auto simp: combine_def)
  qed
qed (simp add: merge_group_def)

lemma merge_group_fields:
  "merge_group lm st ps = Some m \<Longrightarrow>
     (st = Merge_or \<longrightarrow> (\<forall>f. allows (pm_fields m) f \<longleftrightarrow> (\<exists>p\<in>set ps. allows (pm_fields p) f))) \<and>
     (st = Merge_and \<longrightarrow> (\<forall>f. allows (pm_fields m) f \<longrightarrow> (\<forall>p\<in>set ps. pm_fields p = None \<or> allows (pm_fields p) f)))
     \<and> (pm_fields m = None \<longleftrightarrow> (\<forall>p\<in>set ps. pm_fields p = None))"
proof (induction ps arbitrary: m rule: rev_induct)
  case (snoc p ps)
  show ?case
  proof (cases "merge_group lm st ps")
    case None
    then have "ps = []" by (cases ps) (simp_all add: merge_group_def)
    with snoc.prems show ?thesis by (simp add: merge_group_def)
  next
    case (Some n)
    with snoc have n: "m = mergePermission lm st n p" by (simp add: merge_group_snoc)
    from snoc.IH[OF Some] show ?thesis
      by (auto simp: n merge_fields_or merge_fields_None dest!: merge_fields_and)
  qed
qed (simp add: merge_group_def)

lemma merge_group_eq_None [simp]: "merge_group lm st ps = None \<longleftrightarrow> ps = []"
  by (cases ps) (simp_all add: merge_group_def)

lemma merged_keys:
  "distinct (map permission_key (mergePermissions lm st pss)) \<and>
   set (map permission_key (mergePermissions lm st pss)) = permission_key ` set (concat pss)"
proof -
  let ?acc = "foldl (merge_step lm st) [] (concat pss)"
  have d: "distinct (map fst ?acc)" and mo: "\<And>k. map_of ?acc k = merge_group lm st (with_key k (concat pss))"
    using merge_fold[of lm st "concat pss"] by blast+
  have "k \<in> fst ` set ?acc \<longleftrightarrow> k \<in> permission_key ` set (concat pss)" for k
  proof -
    have "k \<in> fst ` set ?acc \<longleftrightarrow> map_of ?acc k \<noteq> None" by (metis map_of_eq_None_iff)
    also have "\<dots> \<longleftrightarrow> with_key k (concat pss) \<noteq> []" by (simp only: mo merge_group_eq_None not_False_eq_True)
    also have "\<dots> \<longleftrightarrow> k \<in> permission_key ` set (concat pss)"
      by (auto simp: with_key_def filter_empty_conv simp del: set_concat)
    finally show ?thesis .
  qed
  then have "set (map fst ?acc) = permission_key ` set (concat pss)" by (simp add: set_eq_iff del: set_concat)
  with d show ?thesis unfolding mergePermissions_keys by simp
qed

text \<open>
  C33: merging permissions gives one permission for each collection, action and role that occurs. Merged with \<open>and\<close>,
  its filter admits exactly the items every one of them admits, and it grants no field that one of them withholds;
  merged with \<open>or\<close>, its filter admits the items one of them admits and it grants the fields one of them grants.
\<close>

theorem mergePermissions_exact:
  assumes "\<forall>p\<in>set (concat permissions). filter_ok strategy (pm_permissions p)"
  shows "distinct (map permission_key (mergePermissions lodash_merge strategy permissions)) \<and>
    set (map permission_key (mergePermissions lodash_merge strategy permissions)) = permission_key ` set (concat permissions) \<and>
    (\<forall>m\<in>set (mergePermissions lodash_merge strategy permissions).
       let group = with_key (permission_key m) (concat permissions) in
       case strategy of
         Merge_and \<Rightarrow>
           (\<forall>holds. sat holds (pm_permissions m) \<longleftrightarrow> (\<forall>p\<in>set group. sat holds (pm_permissions p))) \<and>
           (\<forall>field. allows (pm_fields m) field \<longrightarrow> (\<forall>p\<in>set group. pm_fields p = None \<or> allows (pm_fields p) field))
       | Merge_or \<Rightarrow>
           (\<forall>holds. sat holds (pm_permissions m) \<longleftrightarrow> (\<exists>p\<in>set group. sat holds (pm_permissions p))) \<and>
           (\<forall>field. allows (pm_fields m) field \<longleftrightarrow> (\<exists>p\<in>set group. allows (pm_fields p) field)))"
proof (intro conjI ballI)
  show "distinct (map permission_key (mergePermissions lodash_merge strategy permissions))"
    and "set (map permission_key (mergePermissions lodash_merge strategy permissions)) = permission_key ` set (concat permissions)"
    using merged_keys by blast+
  fix m assume "m \<in> set (mergePermissions lodash_merge strategy permissions)"
  then have m: "merge_group lodash_merge strategy (with_key (permission_key m) (concat permissions)) = Some m"
    unfolding mergePermissions_members .
  have ok: "\<forall>p\<in>set (with_key (permission_key m) (concat permissions)). filter_ok strategy (pm_permissions p)"
    using assms(1) by (auto simp: with_key_def)
  show "let group = with_key (permission_key m) (concat permissions) in
       case strategy of
         Merge_and \<Rightarrow>
           (\<forall>holds. sat holds (pm_permissions m) \<longleftrightarrow> (\<forall>p\<in>set group. sat holds (pm_permissions p))) \<and>
           (\<forall>field. allows (pm_fields m) field \<longrightarrow> (\<forall>p\<in>set group. pm_fields p = None \<or> allows (pm_fields p) field))
       | Merge_or \<Rightarrow>
           (\<forall>holds. sat holds (pm_permissions m) \<longleftrightarrow> (\<exists>p\<in>set group. sat holds (pm_permissions p))) \<and>
           (\<forall>field. allows (pm_fields m) field \<longleftrightarrow> (\<exists>p\<in>set group. allows (pm_fields p) field))"
    using merge_group_sat[OF m ok] merge_group_fields[OF m] unfolding Let_def by (cases strategy) simp_all
qed

lemma mergePermissions_exact_witness:
  "let perm = (\<lambda>a f fs. \<lparr>pm_id = JInt a, pm_system = JUndefined, pm_collection = ''notes'', pm_action = ''read'',
         pm_role = None, pm_permissions = f, pm_validation = JNull, pm_fields = Some fs, pm_presets = JNull\<rparr>);
       own = JObj [(''owner'', JStr ''me'')]; pub = JObj [(''status'', JStr ''published'')];
       holds = (\<lambda>k v. k = ''owner'');
       merged = mergePermissions (\<lambda>a b. a) Merge_and [[perm 1 own [''id'', ''text'']], [perm 2 pub [''id'']]] in
   map pm_permissions merged = [JObj [(''_and'', JArr [own, pub])]] \<and> map pm_fields merged = [Some [''id'']] \<and>
   filter (\<lambda>m. sat holds (pm_permissions m)) merged = []"
proof -
  let ?perm = "\<lambda>a f fs. \<lparr>pm_id = JInt a, pm_system = JUndefined, pm_collection = ''notes'', pm_action = ''read'',
         pm_role = None, pm_permissions = f, pm_validation = JNull, pm_fields = Some fs, pm_presets = JNull\<rparr>"
  let ?p = "?perm 1 (JObj [(''owner'', JStr ''me'')]) [''id'', ''text'']"
  let ?q = "?perm 2 (JObj [(''status'', JStr ''published'')]) [''id'']"
  obtain p q where p: "p = ?p" and q: "q = ?q" by blast
  have ok: "\<forall>r\<in>set (concat [[p], [q]]). filter_ok Merge_and (pm_permissions r)"
    by (simp add: p q filter_ok_def first_key_def object_keys_def)
  have k: "permission_key p = permission_key q" by (simp add: p q permission_key_def)
  have qsat: "\<not> sat (\<lambda>k v. k = ''owner'') (pm_permissions q)" by (simp add: q)
  have "\<not> sat (\<lambda>k v. k = ''owner'') (pm_permissions m)"
    if m: "m \<in> set (mergePermissions (\<lambda>a b. a) Merge_and [[p], [q]])" for m
  proof -
    have "permission_key m \<in> set (map permission_key (mergePermissions (\<lambda>a b. a) Merge_and [[p], [q]]))"
      using m by (simp only: set_map image_eqI)
    then have "permission_key m = permission_key q"
      using conjunct1[OF conjunct2[OF mergePermissions_exact[OF ok, of "\<lambda>a b. a"]]] by (auto simp: k)
    then have "q \<in> set (with_key (permission_key m) (concat [[p], [q]]))" by (simp add: with_key_def)
    moreover have "\<forall>r\<in>set (with_key (permission_key m) (concat [[p], [q]])).
        sat (\<lambda>k v. k = ''owner'') (pm_permissions m) \<longrightarrow> sat (\<lambda>k v. k = ''owner'') (pm_permissions r)"
      using bspec[OF conjunct2[OF conjunct2[OF mergePermissions_exact[OF ok, of "\<lambda>a b. a"]]] m]
      unfolding Let_def merge_strategy.case by blast
    ultimately show ?thesis using qsat by blast
  qed
  moreover have "map pm_permissions (mergePermissions (\<lambda>a b. a) Merge_and [[?p], [?q]]) =
      [JObj [(''_and'', JArr [JObj [(''owner'', JStr ''me'')], JObj [(''status'', JStr ''published'')]])]] \<and>
      map pm_fields (mergePermissions (\<lambda>a b. a) Merge_and [[?p], [?q]]) = [Some [''id'']]"
    by (simp add: mergePermissions_def merge_step_def Let_def permission_key_def mergePermission_def merge_filters_def merge_fields_def
        first_key_def object_keys_def js_uniq_def js_add_def)
  ultimately show ?thesis unfolding Let_def p q filter_empty_conv by blast
qed

text \<open>
  Merging reads only the first key of a filter: when that is the logical key, the other conditions beside it are lost,
  and the merged permission admits items that one of the two permissions refuses.
\<close>

theorem merge_and_drops_conditions:
  "\<exists>current new holds. first_key current = Some ''_and'' \<and>
     sat holds (merge_filters Merge_and current new) \<and> \<not> sat holds current"
proof -
  let ?cur = "JObj [(''_and'', JArr []), (''status'', JStr ''published'')]"
  let ?holds = "\<lambda>k v. k \<noteq> ''status''"
  have "first_key ?cur = Some ''_and'' \<and> sat ?holds (merge_filters Merge_and ?cur (JObj [(''owner'', JStr ''me'')])) \<and>
      \<not> sat ?holds ?cur"
    by (simp add: merge_filters_def Let_def array_items_def)
  then show ?thesis by blast
qed

section \<open>What a reduced schema keeps\<close>

definition permitted :: "permission list \<Rightarrow> string list \<Rightarrow> string \<Rightarrow> string \<Rightarrow> bool" where
  "permitted ps actions collection field \<longleftrightarrow>
     (\<exists>p\<in>set ps. pm_collection p = collection \<and> pm_action p \<in> set actions \<and> allows (pm_fields p) field)"

definition names :: "string list option \<Rightarrow> string set" where
  "names fs = (case fs of None \<Rightarrow> {} | Some xs \<Rightarrow> set xs)"

lemma allows_names: "allows fs f \<longleftrightarrow> ''*'' \<in> names fs \<or> f \<in> names fs"
  by (cases fs) (simp_all add: allows_def names_def)

lemma allowed_step_spec:
  "map_of (allowed_step acc p) c = None \<longleftrightarrow> map_of acc c = None \<and> pm_collection p \<noteq> c"
  "names (map_of (allowed_step acc p) c) =
     names (map_of acc c) \<union> (if pm_collection p = c then names (pm_fields p) else {})"
  by (auto simp: allowed_step_def Let_def js_has_iff names_def split: option.splits)

lemma allowed_fold:
  "(map_of (foldl allowed_step [] ps) c = None \<longleftrightarrow> (\<forall>p\<in>set ps. pm_collection p \<noteq> c)) \<and>
   names (map_of (foldl allowed_step [] ps) c) = (\<Union>p\<in>{p\<in>set ps. pm_collection p = c}. names (pm_fields p))"
proof (induction ps rule: rev_induct)
  case (snoc p ps)
  then show ?case by (auto simp: allowed_step_spec)
qed (simp add: names_def)

lemma allowed_has:
  "js_has c (allowedFieldsInCollection permissions actions) \<longleftrightarrow> some_permission permissions actions c"
proof (cases permissions)
  case (Some ps)
  show ?thesis using allowed_fold[of "filter (\<lambda>p. pm_action p \<in> set actions) ps" c]
    by (auto simp: js_has_iff Some allowedFieldsInCollection_def some_permission_def)
qed (simp add: allowedFieldsInCollection_def some_permission_def js_has_def)

lemma allowed_allows:
  "allows (map_of (allowedFieldsInCollection (Some ps) actions) c) f \<longleftrightarrow> permitted ps actions c f"
  using allowed_fold[of "filter (\<lambda>p. pm_action p \<in> set actions) ps" c]
  by (auto simp: allowedFieldsInCollection_def allows_names permitted_def)

lemma allows_nonempty: "allows fs f \<Longrightarrow> fs \<noteq> Some []"
  by (auto simp: allows_def)

lemma permitted_some: "permitted ps actions c f \<Longrightarrow> some_permission (Some ps) actions c"
  by (auto simp: permitted_def some_permission_def)

lemma reduce_None: "reduceSchema schema None actions = \<lparr>so_collections = [], so_relations = []\<rparr>"
proof -
  have "relation_kept None actions r = False" for r
    by (simp add: relation_kept_def Let_def allowed_has some_permission_def)
  then show ?thesis by (simp add: reduceSchema_def some_permission_def)
qed

lemma relation_keptD:
  assumes "relation_kept (Some ps) actions r"
  shows "permitted ps actions (rl_collection r) (rl_field r)"
    and "set_text (rl_related r) \<Longrightarrow> some_permission (Some ps) actions (the (rl_related r))"
    and "set_text (rl_related r) \<Longrightarrow> set_text (one_field r) \<Longrightarrow>
      permitted ps actions (the (rl_related r)) (the (one_field r))"
    and "one_allowed r = Some cs \<Longrightarrow> c \<in> set cs \<Longrightarrow> some_permission (Some ps) actions c"
  using assms by (auto simp: relation_kept_def Let_def allowed_has allowed_allows set_text_def split: option.splits)

lemma field_kept_iff:
  "field_kept schema (Some ps) actions c f \<longleftrightarrow> permitted ps actions c f \<and>
     (case List.find (\<lambda>r. rl_related r = Some c \<and> one_field r = Some f) (so_relations schema) of
        Some o2m \<Rightarrow> some_permission (Some ps) actions (rl_collection o2m) | None \<Rightarrow> True)"
  by (simp add: field_kept_def Let_def allowed_allows)

text \<open>Some field of the collection is granted, the condition that excludes the legacy permissions with an empty list.\<close>

definition grants_field :: "permission list \<Rightarrow> string list \<Rightarrow> string \<Rightarrow> bool" where
  "grants_field ps actions collection \<longleftrightarrow>
     (\<exists>p\<in>set ps. pm_collection p = collection \<and> pm_action p \<in> set actions \<and> names (pm_fields p) \<noteq> {})"

lemma grants_iff:
  "js_has c (allowedFieldsInCollection (Some ps) actions) \<and> map_of (allowedFieldsInCollection (Some ps) actions) c \<noteq> Some []
     \<longleftrightarrow> grants_field ps actions c"
proof -
  let ?ps = "filter (\<lambda>p. pm_action p \<in> set actions) ps"
  have a: "allowedFieldsInCollection (Some ps) actions = foldl allowed_step [] ?ps"
    by (simp add: allowedFieldsInCollection_def)
  have "js_has c (foldl allowed_step [] ?ps) \<and> map_of (foldl allowed_step [] ?ps) c \<noteq> Some [] \<longleftrightarrow>
      names (map_of (foldl allowed_step [] ?ps) c) \<noteq> {}"
    by (auto simp: js_has_iff names_def split: option.splits)
  also have "\<dots> \<longleftrightarrow> grants_field ps actions c"
    using allowed_fold[of ?ps c] by (auto simp: grants_field_def)
  finally show ?thesis by (simp only: a)
qed

definition schema_field :: "schema_overview \<Rightarrow> string \<Rightarrow> string \<Rightarrow> json \<Rightarrow> bool" where
  "schema_field s c f v \<longleftrightarrow> (\<exists>co. (c, co) \<in> set (so_collections s) \<and> (f, v) \<in> set (co_fields co))"

text \<open>The alias field of a relation belongs to that relation alone, and is not the field of another.\<close>

definition aliases_ok :: "relation list \<Rightarrow> bool" where
  "aliases_ok rs \<longleftrightarrow> (\<forall>r\<in>set rs. \<forall>r'\<in>set rs. one_field r \<noteq> None \<and> rl_related r \<noteq> None \<longrightarrow>
     (rl_related r = rl_related r' \<and> one_field r = one_field r' \<longrightarrow> r = r') \<and>
     (rl_related r \<noteq> Some (rl_collection r') \<or> one_field r \<noteq> Some (rl_field r')))"

lemma schema_field_reduce:
  "schema_field (reduceSchema schema (Some ps) actions) c f v \<longleftrightarrow>
     schema_field schema c f v \<and> field_kept schema (Some ps) actions c f"
proof -
  have "some_permission (Some ps) actions c" if "field_kept schema (Some ps) actions c f"
    using that by (auto simp: field_kept_iff intro: permitted_some)
  then show ?thesis by (force simp: schema_field_def reduceSchema_def)
qed

lemma relation_kept_iff:
  "relation_kept (Some ps) actions r \<longleftrightarrow>
     permitted ps actions (rl_collection r) (rl_field r) \<and>
     (set_text (rl_related r) \<longrightarrow> grants_field ps actions (the (rl_related r)) \<and>
        (set_text (one_field r) \<longrightarrow> permitted ps actions (the (rl_related r)) (the (one_field r)))) \<and>
     (\<forall>cs. one_allowed r = Some cs \<longrightarrow> (\<forall>c\<in>set cs. some_permission (Some ps) actions c))"
proof -
  have "some_permission (Some ps) actions (rl_collection r)" if "permitted ps actions (rl_collection r) (rl_field r)"
    using that by (rule permitted_some)
  moreover have "js_has c (allowedFieldsInCollection (Some ps) actions) \<and>
      map_of (allowedFieldsInCollection (Some ps) actions) c \<noteq> Some [] \<longleftrightarrow> grants_field ps actions c" for c
    by (rule grants_iff)
  ultimately show ?thesis
    by (cases "rl_related r"; cases "one_field r"; cases "one_allowed r")
      (auto simp: relation_kept_def Let_def allowed_has allowed_allows set_text_def)
qed

lemma field_kept_aliases:
  assumes "aliases_ok (so_relations schema)"
  shows "field_kept schema (Some ps) actions c f \<longleftrightarrow> permitted ps actions c f \<and>
     (\<forall>r\<in>set (so_relations schema). rl_related r = Some c \<and> one_field r = Some f \<longrightarrow>
        some_permission (Some ps) actions (rl_collection r))"
proof (cases "List.find (\<lambda>r. rl_related r = Some c \<and> one_field r = Some f) (so_relations schema)")
  case None
  with None[unfolded find_None_iff] show ?thesis by (auto simp: field_kept_iff)
next
  case (Some o2m)
  then have o2m: "o2m \<in> set (so_relations schema)" "rl_related o2m = Some c" "one_field o2m = Some f"
    by (auto simp: find_Some_iff)
  have uniq: "r = o2m" if "r \<in> set (so_relations schema)" "rl_related r = Some c" "one_field r = Some f" for r
    using that o2m assms unfolding aliases_ok_def by (metis option.distinct(1))
  have "field_kept schema (Some ps) actions c f \<longleftrightarrow> permitted ps actions c f \<and>
      some_permission (Some ps) actions (rl_collection o2m)"
    by (simp only: field_kept_iff Some option.case)
  also have "\<dots> \<longleftrightarrow> permitted ps actions c f \<and>
     (\<forall>r\<in>set (so_relations schema). rl_related r = Some c \<and> one_field r = Some f \<longrightarrow>
        some_permission (Some ps) actions (rl_collection r))" using uniq o2m by blast
  finally show ?thesis .
qed

lemma reduceSchema_parts:
  assumes "aliases_ok (so_relations schema)"
  shows "schema_field (reduceSchema schema (Some ps) actions) c f v \<longleftrightarrow>
      schema_field schema c f v \<and> permitted ps actions c f \<and>
      (\<forall>r\<in>set (so_relations schema). rl_related r = Some c \<and> one_field r = Some f \<longrightarrow>
         some_permission (Some ps) actions (rl_collection r))"
    and "r \<in> set (so_relations (reduceSchema schema (Some ps) actions)) \<longleftrightarrow>
      r \<in> set (so_relations schema) \<and> permitted ps actions (rl_collection r) (rl_field r) \<and>
      (set_text (rl_related r) \<longrightarrow> grants_field ps actions (the (rl_related r)) \<and>
         (set_text (one_field r) \<longrightarrow> permitted ps actions (the (rl_related r)) (the (one_field r)))) \<and>
      (\<forall>cs. one_allowed r = Some cs \<longrightarrow> (\<forall>c\<in>set cs. some_permission (Some ps) actions c))"
    and "r \<in> set (so_relations (reduceSchema schema (Some ps) actions)) \<Longrightarrow>
      schema_field schema (rl_collection r) (rl_field r) v \<Longrightarrow>
      schema_field (reduceSchema schema (Some ps) actions) (rl_collection r) (rl_field r) v"
    and "r \<in> set (so_relations (reduceSchema schema (Some ps) actions)) \<Longrightarrow> rl_related r = Some c \<Longrightarrow>
      one_field r = Some f \<Longrightarrow> set_text (Some c) \<Longrightarrow> set_text (Some f) \<Longrightarrow> schema_field schema c f v \<Longrightarrow>
      schema_field (reduceSchema schema (Some ps) actions) c f v"
proof -
  have kept: "r \<in> set (so_relations (reduceSchema schema (Some ps) actions)) \<longleftrightarrow>
      r \<in> set (so_relations schema) \<and> relation_kept (Some ps) actions r" for r
    by (auto simp: reduceSchema_def)
  show "schema_field (reduceSchema schema (Some ps) actions) c f v \<longleftrightarrow>
      schema_field schema c f v \<and> permitted ps actions c f \<and>
      (\<forall>r\<in>set (so_relations schema). rl_related r = Some c \<and> one_field r = Some f \<longrightarrow>
         some_permission (Some ps) actions (rl_collection r))"
    by (simp only: schema_field_reduce field_kept_aliases[OF assms])
  show "r \<in> set (so_relations (reduceSchema schema (Some ps) actions)) \<longleftrightarrow>
      r \<in> set (so_relations schema) \<and> permitted ps actions (rl_collection r) (rl_field r) \<and>
      (set_text (rl_related r) \<longrightarrow> grants_field ps actions (the (rl_related r)) \<and>
         (set_text (one_field r) \<longrightarrow> permitted ps actions (the (rl_related r)) (the (one_field r)))) \<and>
      (\<forall>cs. one_allowed r = Some cs \<longrightarrow> (\<forall>c\<in>set cs. some_permission (Some ps) actions c))"
    by (simp only: kept relation_kept_iff)
  show "schema_field (reduceSchema schema (Some ps) actions) (rl_collection r) (rl_field r) v"
    if "r \<in> set (so_relations (reduceSchema schema (Some ps) actions))"
      and "schema_field schema (rl_collection r) (rl_field r) v"
    using that assms by (fastforce simp: schema_field_reduce field_kept_aliases[OF assms] kept relation_kept_iff aliases_ok_def)
  show "schema_field (reduceSchema schema (Some ps) actions) c f v"
    if r: "r \<in> set (so_relations (reduceSchema schema (Some ps) actions))" "rl_related r = Some c"
      "one_field r = Some f" "set_text (Some c)" "set_text (Some f)" "schema_field schema c f v"
  proof -
    from r have "permitted ps actions c f" and "some_permission (Some ps) actions (rl_collection r)"
      by (auto simp: kept relation_kept_iff intro: permitted_some)
    moreover have "r' = r" if "r' \<in> set (so_relations schema)" "rl_related r' = Some c" "one_field r' = Some f" for r'
      using that r assms by (auto simp: kept aliases_ok_def)
    ultimately show ?thesis using r(6) by (auto simp: schema_field_reduce field_kept_aliases[OF assms])
  qed
qed

text \<open>
  C34: a reduced schema shows a field exactly when a permission of one of the actions grants it and, for the alias of
  a one-to-many relation, the related collection is granted too. It keeps a relation exactly when its field, its alias
  and every collection it leads to are granted, so a kept relation never refers to a field the reduced schema hides.
\<close>

theorem reduceSchema_exact:
  assumes "aliases_ok (so_relations schema)"
  shows "(\<forall>c f v. schema_field (reduceSchema schema (Some ps) actions) c f v \<longleftrightarrow>
      schema_field schema c f v \<and> permitted ps actions c f \<and>
      (\<forall>r\<in>set (so_relations schema). rl_related r = Some c \<and> one_field r = Some f \<longrightarrow>
         some_permission (Some ps) actions (rl_collection r))) \<and>
    (\<forall>r. r \<in> set (so_relations (reduceSchema schema (Some ps) actions)) \<longleftrightarrow>
      r \<in> set (so_relations schema) \<and> permitted ps actions (rl_collection r) (rl_field r) \<and>
      (set_text (rl_related r) \<longrightarrow> grants_field ps actions (the (rl_related r)) \<and>
         (set_text (one_field r) \<longrightarrow> permitted ps actions (the (rl_related r)) (the (one_field r)))) \<and>
      (\<forall>cs. one_allowed r = Some cs \<longrightarrow> (\<forall>c\<in>set cs. some_permission (Some ps) actions c))) \<and>
    (\<forall>r v. r \<in> set (so_relations (reduceSchema schema (Some ps) actions)) \<longrightarrow>
      (schema_field schema (rl_collection r) (rl_field r) v \<longrightarrow>
         schema_field (reduceSchema schema (Some ps) actions) (rl_collection r) (rl_field r) v) \<and>
      (\<forall>c f. rl_related r = Some c \<and> one_field r = Some f \<and> set_text (Some c) \<and> set_text (Some f) \<and> schema_field schema c f v \<longrightarrow>
         schema_field (reduceSchema schema (Some ps) actions) c f v))"
  using reduceSchema_parts[OF assms] by blast

lemma reduceSchema_exact_witness:
  "let r = \<lparr>rl_collection = ''posts'', rl_field = ''author'', rl_related = Some ''users'', rl_meta = Some
         \<lparr>rm_one_field = Some ''posts'', rm_one_allowed_collections = None, rm_one_collection_field = None, rm_sort_field = None\<rparr>\<rparr>;
       schema = \<lparr>so_collections =
           [(''posts'', \<lparr>co_primary = ''id'', co_rest = JNull, co_fields = [(''id'', JNull), (''author'', JNull)]\<rparr>),
            (''users'', \<lparr>co_primary = ''id'', co_rest = JNull, co_fields = [(''posts'', JNull), (''email'', JNull)]\<rparr>)],
         so_relations = [r]\<rparr>;
       perm = (\<lambda>c fs. \<lparr>pm_id = JNull, pm_system = JUndefined, pm_collection = c, pm_action = ''read'', pm_role = None,
         pm_permissions = JObj [], pm_validation = JNull, pm_fields = Some fs, pm_presets = JNull\<rparr>);
       reduced = reduceSchema schema (Some [perm ''posts'' [''*''], perm ''users'' [''posts'']]) [''read''] in
     schema_field reduced ''users'' ''posts'' JNull \<and> \<not> schema_field reduced ''users'' ''email'' JNull \<and>
     r \<in> set (so_relations reduced) \<and> schema_field reduced ''posts'' ''author'' JNull"
proof -
  obtain r where r: "r = \<lparr>rl_collection = ''posts'', rl_field = ''author'', rl_related = Some ''users'', rl_meta = Some
         \<lparr>rm_one_field = Some ''posts'', rm_one_allowed_collections = None, rm_one_collection_field = None, rm_sort_field = None\<rparr>\<rparr>" by blast
  obtain schema where schema: "schema = \<lparr>so_collections =
           [(''posts'', \<lparr>co_primary = ''id'', co_rest = JNull, co_fields = [(''id'', JNull), (''author'', JNull)]\<rparr>),
            (''users'', \<lparr>co_primary = ''id'', co_rest = JNull, co_fields = [(''posts'', JNull), (''email'', JNull)]\<rparr>)],
         so_relations = [r]\<rparr>" by blast
  obtain perm where perm: "perm = (\<lambda>c fs. \<lparr>pm_id = JNull, pm_system = JUndefined, pm_collection = c,
         pm_action = ''read'', pm_role = None,
         pm_permissions = JObj [], pm_validation = JNull, pm_fields = Some fs, pm_presets = JNull\<rparr>)" by blast
  let ?ps = "[perm ''posts'' [''*''], perm ''users'' [''posts'']]"
  have wf: "aliases_ok (so_relations schema)" by (simp add: aliases_ok_def schema r one_field_def)
  note whole = reduceSchema_exact[OF wf, of ?ps "[''read'']"]
  note exact = whole[THEN conjunct1, rule_format] whole[THEN conjunct2, THEN conjunct1, rule_format]
    whole[THEN conjunct2, THEN conjunct2, rule_format, THEN conjunct1, rule_format]
    whole[THEN conjunct2, THEN conjunct2, rule_format, THEN conjunct2, rule_format]
  have fs: "schema_field schema ''users'' ''posts'' JNull" "schema_field schema ''posts'' ''author'' JNull"
    by (simp_all add: schema_field_def schema)
  have granted: "permitted ?ps [''read''] ''users'' ''posts''" "permitted ?ps [''read''] ''posts'' ''author''"
      "\<not> permitted ?ps [''read''] ''users'' ''email''" "grants_field ?ps [''read''] ''users''"
    by (simp_all add: permitted_def grants_field_def allows_def names_def perm)
  have related: "rl_related r = Some ''users''" "one_field r = Some ''posts''" "one_allowed r = None"
      "rl_collection r = ''posts''" "rl_field r = ''author''" "set_text (Some ''posts'')" "set_text (Some ''users'')"
    by (simp_all add: r one_field_def one_allowed_def set_text_def)
  have rel: "r \<in> set (so_relations (reduceSchema schema (Some ?ps) [''read'']))"
    unfolding exact(2) by (simp add: granted related) (simp add: schema)
  have f1: "schema_field (reduceSchema schema (Some ?ps) [''read'']) ''users'' ''posts'' JNull"
    by (rule exact(4)[OF rel]) (intro conjI related fs)
  have f2: "schema_field (reduceSchema schema (Some ?ps) [''read'']) ''posts'' ''author'' JNull"
    using exact(3)[OF rel] fs(2) by (simp only: related)
  have f3: "\<not> schema_field (reduceSchema schema (Some ?ps) [''read'']) ''users'' ''email'' JNull"
    unfolding exact(1) by (simp add: granted(3))
  show ?thesis unfolding Let_def using rel f1 f2 f3 unfolding schema r perm by blast
qed

definition restrict_fields :: "(string \<Rightarrow> string \<Rightarrow> bool) \<Rightarrow> (string \<Rightarrow> bool) \<Rightarrow> (string \<times> collection_overview) list \<Rightarrow>
    (string \<times> collection_overview) list" where
  "restrict_fields keep shown cs =
     map (\<lambda>(n, c). (n, c\<lparr>co_fields := filter (\<lambda>(f, _). keep n f) (co_fields c)\<rparr>)) (filter (\<lambda>(n, _). shown n) cs)"

lemma reduce_collections: "so_collections (reduceSchema schema permissions actions) =
    restrict_fields (field_kept schema permissions actions) (some_permission permissions actions) (so_collections schema)"
  by (simp add: reduceSchema_def restrict_fields_def)

lemma restrict_twice:
  assumes "\<And>n f. keep n f \<Longrightarrow> keep' n f"
  shows "restrict_fields keep' shown (restrict_fields keep shown cs) = restrict_fields keep shown cs"
proof -
  have "filter (\<lambda>(f, _). keep' n f) (filter (\<lambda>(f, _). keep n f) l) = filter (\<lambda>(f, _). keep n f) l" for n and l :: "(string \<times> json) list"
    using assms by (auto simp: filter_filter intro!: filter_cong)
  then show ?thesis by (induction cs) (auto simp: restrict_fields_def)
qed

text \<open>
  Reducing a schema again by the same permissions and actions changes nothing: the reduced schema is its own
  reduction, so the code may hand a reduced schema on and reduce it once more.
\<close>

lemma reduceSchema_idempotent:
  "reduceSchema (reduceSchema schema permissions actions) permissions actions = reduceSchema schema permissions actions"
proof (cases permissions)
  case None
  then show ?thesis by (simp add: reduce_None)
next
  case (Some ps)
  have "field_kept (reduceSchema schema (Some ps) actions) (Some ps) actions c f"
    if "field_kept schema (Some ps) actions c f" for c f
  proof -
    have "some_permission (Some ps) actions (rl_collection r)"
      if "List.find P (so_relations (reduceSchema schema (Some ps) actions)) = Some r" for P r
    proof -
      from that have "relation_kept (Some ps) actions r" by (auto simp: find_Some_iff reduceSchema_def in_set_conv_nth dest!: nth_mem)
      then show ?thesis by (auto simp: relation_kept_iff intro: permitted_some)
    qed
    with that show ?thesis by (auto simp: field_kept_iff split: option.split)
  qed
  then have "so_collections (reduceSchema (reduceSchema schema (Some ps) actions) (Some ps) actions) =
      so_collections (reduceSchema schema (Some ps) actions)"
    by (simp add: reduce_collections restrict_twice)
  moreover have "so_relations (reduceSchema (reduceSchema schema (Some ps) actions) (Some ps) actions) =
      so_relations (reduceSchema schema (Some ps) actions)"
    by (simp add: reduceSchema_def)
  ultimately show ?thesis by (simp add: Some)
qed

section \<open>Permissions of a share\<close>

datatype relation_kind = O2M | M2O | A2O

text \<open>\<open>lodash_set\<close> is lodash's \<open>set\<close>: the object with the value written at a path.\<close>

definition getFilterForPath :: "(json \<Rightarrow> string list \<Rightarrow> json \<Rightarrow> json) \<Rightarrow> relation_kind \<Rightarrow> string list \<Rightarrow> string \<Rightarrow> json \<Rightarrow> json" where
  "getFilterForPath lodash_set type path rootPrimaryKeyField rootPrimaryKey =
     (if type = M2O \<or> type = A2O
      then lodash_set (JObj []) (rev path) (JObj [(rootPrimaryKeyField, JObj [(''_eq'', rootPrimaryKey)])])
      else lodash_set (JObj []) (rev path) (JObj [(''_eq'', rootPrimaryKey)]))"

definition related_to :: "string \<Rightarrow> relation \<Rightarrow> bool" where
  "related_to collection r \<longleftrightarrow> rl_collection r = collection \<or> rl_related r = Some collection"

definition relation_type :: "string \<Rightarrow> relation \<Rightarrow> relation_kind" where
  "relation_type currentCollection r =
     (if rl_related r = Some currentCollection then O2M else if \<not> set_text (rl_related r) then A2O else M2O)"

definition related_name :: "relation \<Rightarrow> string" where
  "related_name r = (case rl_related r of Some c \<Rightarrow> c | None \<Rightarrow> [])"

definition follow_any :: "relation \<Rightarrow> string" where
  "follow_any r = ''$FOLLOW('' @ rl_collection r @ '','' @ rl_field r @ '','' @
     (case rl_meta r of Some meta \<Rightarrow> (case rm_one_collection_field meta of Some f \<Rightarrow> f | None \<Rightarrow> ''null'') | None \<Rightarrow> ''undefined'') @ '')''"

definition follow_one :: "relation \<Rightarrow> string" where
  "follow_one r = ''$FOLLOW('' @ rl_collection r @ '','' @ rl_field r @ '')''"

text \<open>All the collections the relations name.\<close>

definition relation_names :: "relation list \<Rightarrow> string set" where
  "relation_names rs = rl_collection ` set rs \<union> (\<Union>r\<in>set rs. set_option (rl_related r))"

lemma finite_relation_names [simp]: "finite (relation_names rs)"
  by (simp add: relation_names_def)

function traverse :: "(json \<Rightarrow> string list \<Rightarrow> json \<Rightarrow> json) \<Rightarrow> relation list \<Rightarrow> string \<Rightarrow> json \<Rightarrow> string \<Rightarrow> string list \<Rightarrow>
    string list \<Rightarrow> (string \<times> json) list" where
  "traverse lodash_set relations pkField pk currentCollection parentCollections path =
     (if currentCollection \<in> set parentCollections then []
      else concat (map (\<lambda>r. case relation_type currentCollection r of
           O2M \<Rightarrow> (rl_collection r, getFilterForPath lodash_set O2M (path @ [rl_field r]) pkField pk) #
             traverse lodash_set relations pkField pk (rl_collection r) (parentCollections @ [currentCollection]) (path @ [rl_field r])
         | A2O \<Rightarrow> (case one_allowed r of
               None \<Rightarrow> []
             | Some cs \<Rightarrow> map (\<lambda>c. (c, getFilterForPath lodash_set A2O (path @ [follow_any r]) pkField pk)) cs)
         | M2O \<Rightarrow> (related_name r, getFilterForPath lodash_set M2O (path @ [follow_one r]) pkField pk) #
             (if set_text (one_field r)
              then traverse lodash_set relations pkField pk (related_name r) (parentCollections @ [currentCollection])
                (path @ [the (one_field r)])
              else []))
         (filter (related_to currentCollection) relations)))"
  by pat_completeness auto

lemma traverse_measure:
  assumes "c \<notin> set parents" "r \<in> set (filter (related_to c) relations)"
  shows "card (relation_names relations - set (parents @ [c])) < card (relation_names relations - set parents)"
proof -
  have "c \<in> relation_names relations" using assms(2) by (auto simp: relation_names_def related_to_def)
  then have "relation_names relations - set (parents @ [c]) \<subset> relation_names relations - set parents" using assms(1) by auto
  then show ?thesis by (simp add: psubset_card_mono)
qed

termination traverse
proof (relation "measure (\<lambda>(_, relations, _, _, _, parents, _). card (relation_names relations - set parents))", goal_cases)
  case 1
  show ?case by simp
next
  case (2 _ relations _ _ c parents _ r)
  then show ?case using traverse_measure[of c parents r relations] by simp
next
  case (3 _ relations _ _ c parents _ r)
  then show ?case using traverse_measure[of c parents r relations] by simp
qed

declare traverse.simps [simp del]

definition share_permission :: "string option \<Rightarrow> string \<times> json \<Rightarrow> permission" where
  "share_permission role g = \<lparr>pm_id = JUndefined, pm_system = JUndefined, pm_collection = fst g, pm_action = ''read'',
     pm_role = role, pm_permissions = snd g, pm_validation = JNull, pm_fields = None, pm_presets = JNull\<rparr>"

text \<open>The permissions of the shared item, of what its relations lead to, and of the schema collections.\<close>

definition allGeneratedPermissions :: "(json \<Rightarrow> string list \<Rightarrow> json \<Rightarrow> json) \<Rightarrow> permission list \<Rightarrow> permission list \<Rightarrow>
    string option \<Rightarrow> string \<Rightarrow> json \<Rightarrow> string \<Rightarrow> schema_overview \<Rightarrow> permission list" where
  "allGeneratedPermissions lodash_set schemaPermissions currentPermissions role collection item parentPrimaryKeyField schema =
     (let reducedSchema = reduceSchema schema (Some currentPermissions) [''read''];
          relationalPermissions =
            traverse lodash_set (so_relations reducedSchema) parentPrimaryKeyField item collection [] [];
          parentCollectionPermission =
            share_permission role (collection, JObj [(parentPrimaryKeyField, JObj [(''_eq'', item)])])
      in parentCollectionPermission # map (share_permission role) relationalPermissions @ schemaPermissions)"

definition generatedPermissions :: "(json \<Rightarrow> json \<Rightarrow> json) \<Rightarrow> permission list \<Rightarrow> string list \<Rightarrow> permission list" where
  "generatedPermissions lodash_merge generated allowedCollections =
     concat (map (\<lambda>c. let permissionsForCollection = filter (\<lambda>p. pm_collection p = c) generated in
                       if length permissionsForCollection > 0
                       then mergePermissions lodash_merge Merge_or [permissionsForCollection]
                       else permissionsForCollection) allowedCollections)"

text \<open>\<open>None\<close> is the TypeError of an accountability without a share, or of a shared collection the schema does not have.\<close>

definition mergePermissionsForShare :: "(json \<Rightarrow> string list \<Rightarrow> json \<Rightarrow> json) \<Rightarrow> (json \<Rightarrow> json \<Rightarrow> json) \<Rightarrow> permission list \<Rightarrow>
    permission list \<Rightarrow> string option \<Rightarrow> (string \<times> json) option \<Rightarrow> schema_overview \<Rightarrow> permission list option" where
  "mergePermissionsForShare lodash_set lodash_merge schemaPermissions currentPermissions role share_scope schema =
     (case share_scope of
        None \<Rightarrow> None
      | Some (collection, item) \<Rightarrow>
          (case map_of (so_collections schema) collection of
             None \<Rightarrow> None
           | Some co \<Rightarrow>
               (let generated = allGeneratedPermissions lodash_set schemaPermissions currentPermissions role collection item
                      (co_primary co) schema;
                    allowedCollections = js_uniq (map pm_collection generated);
                    limitedPermissions = filter (\<lambda>p. pm_collection p \<in> set allowedCollections \<and> pm_action p = ''read'')
                      currentPermissions
                in Some (mergePermissions lodash_merge Merge_and
                     [limitedPermissions, generatedPermissions lodash_merge generated allowedCollections]))))"

lemma sat_falsy: "\<not> truthy v \<Longrightarrow> sat holds v"
  by (cases v) simp_all

lemma merge_and_step:
  assumes "filter_ok Merge_and current"
  shows "filter_ok Merge_and (merge_filters Merge_and current new) \<and>
    (sat holds (merge_filters Merge_and current new) \<longrightarrow> sat holds current \<and> sat holds new)"
proof -
  from assms obtain es where es: "current = JObj es" by (auto simp: filter_ok_def)
  consider (falsy) "\<not> truthy new" | (list) fs where "truthy new" "current = JObj [(''_and'', JArr fs)]"
    | (pair) "truthy new" "first_key current \<noteq> Some ''_and''"
    using assms by (auto simp: filter_ok_def)
  then show ?thesis
  proof cases
    case falsy
    then show ?thesis using assms by (simp add: merge_filters_def sat_falsy)
  next
    case list
    then have "merge_filters Merge_and current new = JObj [(''_and'', JArr (fs @ [new]))]"
      by (simp add: merge_filters_def array_items_def)
    then show ?thesis by (simp add: list sat_all_iff filter_ok_def)
  next
    case pair
    then have "merge_filters Merge_and current new = JObj [(''_and'', JArr [current, new])]"
      by (simp add: merge_filters_def es)
    then show ?thesis by (simp add: filter_ok_def)
  qed
qed

lemma merge_and_group:
  assumes "filter_ok Merge_and (pm_permissions p)"
  shows "filter_ok Merge_and (pm_permissions (foldl (mergePermission lm Merge_and) p qs)) \<and>
    (sat holds (pm_permissions (foldl (mergePermission lm Merge_and) p qs)) \<longrightarrow>
       (\<forall>q\<in>set (p # qs). sat holds (pm_permissions q)))"
  using assms
proof (induction qs rule: rev_induct)
  case (snoc q qs)
  let ?m = "foldl (mergePermission lm Merge_and) p qs"
  from snoc have ok: "filter_ok Merge_and (pm_permissions ?m)" by blast
  from merge_and_step[OF ok, of "pm_permissions q" holds] snoc show ?case by auto
qed simp

text \<open>Every generated permission is that of one relation, reached by some path.\<close>

lemma traverse_member:
  assumes "(c, f) \<in> set (traverse ls rs pkf pk cur parents path)"
    and "\<And>r path. r \<in> set rs \<Longrightarrow> P (rl_collection r) (getFilterForPath ls O2M (path @ [rl_field r]) pkf pk)"
    and "\<And>r cs c path. r \<in> set rs \<Longrightarrow> one_allowed r = Some cs \<Longrightarrow> c \<in> set cs \<Longrightarrow>
      P c (getFilterForPath ls A2O (path @ [follow_any r]) pkf pk)"
    and "\<And>r path. r \<in> set rs \<Longrightarrow> set_text (rl_related r) \<Longrightarrow>
      P (related_name r) (getFilterForPath ls M2O (path @ [follow_one r]) pkf pk)"
  shows "P c f"
  using assms
proof (induction ls rs pkf pk cur parents path rule: traverse.induct)
  case (1 ls rs pkf pk cur parents path)
  from "1.prems"(1) obtain r where cur: "cur \<notin> set parents" and r: "r \<in> set (filter (related_to cur) rs)"
    and cf: "(c, f) \<in> set (case relation_type cur r of
           O2M \<Rightarrow> (rl_collection r, getFilterForPath ls O2M (path @ [rl_field r]) pkf pk) #
             traverse ls rs pkf pk (rl_collection r) (parents @ [cur]) (path @ [rl_field r])
         | A2O \<Rightarrow> (case one_allowed r of
               None \<Rightarrow> []
             | Some cs \<Rightarrow> map (\<lambda>c. (c, getFilterForPath ls A2O (path @ [follow_any r]) pkf pk)) cs)
         | M2O \<Rightarrow> (related_name r, getFilterForPath ls M2O (path @ [follow_one r]) pkf pk) #
             (if set_text (one_field r)
              then traverse ls rs pkf pk (related_name r) (parents @ [cur]) (path @ [the (one_field r)])
              else []))"
    by (subst (asm) traverse.simps) (auto split: if_splits)
  from r have rs: "r \<in> set rs" by simp
  show ?case
  proof (cases "relation_type cur r")
    case O2M
    with cf consider "c = rl_collection r" "f = getFilterForPath ls O2M (path @ [rl_field r]) pkf pk"
      | "(c, f) \<in> set (traverse ls rs pkf pk (rl_collection r) (parents @ [cur]) (path @ [rl_field r]))" by auto
    then show ?thesis
    proof cases
      case 1
      with "1.prems"(2)[OF rs] show ?thesis by simp
    next
      case 2
      then show ?thesis by (rule "1.IH"(1)[OF cur r O2M]) (fact "1.prems")+
    qed
  next
    case A2O
    with cf "1.prems"(3)[OF rs] show ?thesis by (cases "one_allowed r") auto
  next
    case M2O
    then have related: "set_text (rl_related r)" by (simp add: relation_type_def split: if_splits)
    from M2O cf consider "c = related_name r" "f = getFilterForPath ls M2O (path @ [follow_one r]) pkf pk"
      | "set_text (one_field r)" "(c, f) \<in> set (traverse ls rs pkf pk (related_name r) (parents @ [cur]) (path @ [the (one_field r)]))"
      by (auto split: if_splits)
    then show ?thesis
    proof cases
      case 1
      with "1.prems"(4)[OF rs related] show ?thesis by simp
    next
      case 2
      from 2(2) show ?thesis by (rule "1.IH"(2)[OF cur r M2O 2(1)]) (fact "1.prems")+
    qed
  qed
qed

lemma traverse_readable:
  assumes "(c, f) \<in> set (traverse ls rs pkf pk cur parents path)" "\<forall>r\<in>set rs. relation_kept (Some ps) [''read''] r"
  shows "some_permission (Some ps) [''read''] c"
  using assms(1)
proof (rule traverse_member)
  fix r :: relation assume "r \<in> set rs"
  with assms(2) have kept: "relation_kept (Some ps) [''read''] r" by blast
  from relation_keptD(1)[OF kept] show "some_permission (Some ps) [''read''] (rl_collection r)" by (rule permitted_some)
  show "some_permission (Some ps) [''read''] c" if "one_allowed r = Some cs" "c \<in> set cs" for cs c
    using relation_keptD(4)[OF kept that] .
  show "some_permission (Some ps) [''read''] (related_name r)" if "set_text (rl_related r)"
    using relation_keptD(2)[OF kept that] that by (auto simp: related_name_def set_text_def split: option.splits)
qed

text \<open>The documented behaviour of lodash's \<open>set\<close> on a fresh object: its only property is the head of the path.\<close>

definition sets_one_property :: "(json \<Rightarrow> string list \<Rightarrow> json \<Rightarrow> json) \<Rightarrow> bool" where
  "sets_one_property lodash_set \<longleftrightarrow> (\<forall>k ks v. \<exists>w. lodash_set (JObj []) (k # ks) v = JObj [(k, w)])"

lemma filter_ok_path:
  assumes "sets_one_property ls" "k \<noteq> logical_key st"
  shows "filter_ok st (getFilterForPath ls type (path @ [k]) pkf pk)"
proof -
  have one: "\<exists>w. ls (JObj []) (k # ks) v = JObj [(k, w)]" for ks v
    using assms(1) unfolding sets_one_property_def by blast
  obtain w where "getFilterForPath ls type (path @ [k]) pkf pk = JObj [(k, w)]"
    using one by (cases type) (simp_all add: getFilterForPath_def, metis+)
  with assms(2) show ?thesis by (simp add: filter_ok_def)
qed

lemma traverse_filters:
  assumes "(c, f) \<in> set (traverse ls rs pkf pk cur parents path)" "sets_one_property ls" "\<forall>r\<in>set rs. rl_field r \<noteq> ''_or''"
  shows "filter_ok Merge_or f"
  using assms(1)
  by (rule traverse_member) (use assms(2,3) in \<open>auto simp: follow_any_def follow_one_def intro!: filter_ok_path\<close>)

lemma generated_member:
  assumes "p \<in> set generated" "c = pm_collection p" "c \<in> set cs"
    "\<forall>g\<in>set generated. filter_ok Merge_or (pm_permissions g)"
  obtains gm where "gm \<in> set (generatedPermissions lm generated cs)" "permission_key gm = permission_key p"
    "\<And>holds. sat holds (pm_permissions gm) \<Longrightarrow>
       \<exists>g\<in>set generated. permission_key g = permission_key p \<and> pm_collection g = c \<and> sat holds (pm_permissions g)"
proof -
  let ?gs = "filter (\<lambda>p. pm_collection p = c) generated"
  have p: "p \<in> set ?gs" using assms(1,2) by simp
  then have "permission_key p \<in> set (map permission_key (mergePermissions lm Merge_or [?gs]))"
    using merged_keys[of lm Merge_or "[?gs]"] by auto
  then obtain gm where gm: "gm \<in> set (mergePermissions lm Merge_or [?gs])" "permission_key gm = permission_key p" by auto
  from p have "length ?gs > 0" by (cases ?gs) auto
  then have "gm \<in> set (generatedPermissions lm generated cs)"
    using gm(1) assms(3) unfolding generatedPermissions_def by (auto simp: Let_def intro!: bexI[of _ c])
  moreover have "\<exists>g\<in>set generated. permission_key g = permission_key p \<and> pm_collection g = c \<and> sat holds (pm_permissions g)"
    if "sat holds (pm_permissions gm)" for holds
  proof -
    from gm(1) have "merge_group lm Merge_or (with_key (permission_key gm) ?gs) = Some gm"
      by (simp add: mergePermissions_members)
    from merge_group_sat[OF this, of holds] assms(4) that gm(2) show ?thesis
      by (auto simp: with_key_def)
  qed
  ultimately show thesis using gm(2) that by blast
qed

lemma generated_filters_ok:
  assumes "sets_one_property ls" "pkf \<noteq> ''_or''" "\<forall>r\<in>set (so_relations schema). rl_field r \<noteq> ''_or''"
    "\<forall>p\<in>set sps. filter_ok Merge_or (pm_permissions p)"
  shows "\<forall>g\<in>set (allGeneratedPermissions ls sps cps role c item pkf schema). filter_ok Merge_or (pm_permissions g)"
proof -
  have "\<forall>r\<in>set (so_relations (reduceSchema schema (Some cps) [''read''])). rl_field r \<noteq> ''_or''"
    using assms(3) by (simp add: reduceSchema_def)
  then have "filter_ok Merge_or f"
    if "(c', f) \<in> set (traverse ls (so_relations (reduceSchema schema (Some cps) [''read''])) pkf item c [] [])" for c' f
    using traverse_filters[OF that assms(1)] by blast
  moreover have "filter_ok Merge_or (JObj [(pkf, JObj [(''_eq'', item)])])"
    using assms(2) by (simp add: filter_ok_def)
  ultimately show ?thesis
    using assms(4) by (auto simp: allGeneratedPermissions_def Let_def share_permission_def)
qed

text \<open>The first of the permissions merged into one decides its collection.\<close>

lemma merge_group_collection:
  "merge_group lm st (p # qs) = Some m \<Longrightarrow> pm_collection m = pm_collection p"
proof -
  have "pm_collection (foldl (mergePermission lm st) p qs) = pm_collection p"
    by (induction qs rule: rev_induct) simp_all
  then show "merge_group lm st (p # qs) = Some m \<Longrightarrow> pm_collection m = pm_collection p"
    by (auto simp: merge_group_def)
qed

lemma generated_collections:
  "q \<in> set (generatedPermissions lm generated (js_uniq (map pm_collection generated))) \<Longrightarrow>
     pm_collection q \<in> pm_collection ` set generated"
proof -
  assume "q \<in> set (generatedPermissions lm generated (js_uniq (map pm_collection generated)))"
  then obtain c where c: "c \<in> set (js_uniq (map pm_collection generated))"
    and q: "q \<in> set (mergePermissions lm Merge_or [filter (\<lambda>p. pm_collection p = c) generated])"
    by (auto simp: generatedPermissions_def Let_def split: if_splits)
  have coll: "pm_collection m = c" if "\<forall>p\<in>set ps. pm_collection p = c" "merge_group lm Merge_or ps = Some m" for ps m
  proof (cases ps)
    case (Cons p qs)
    with merge_group_collection[of lm Merge_or p qs m] that show ?thesis by simp
  qed (use that in \<open>simp add: merge_group_def\<close>)
  from q have "merge_group lm Merge_or (with_key (permission_key q) (filter (\<lambda>p. pm_collection p = c) generated)) = Some q"
    by (simp add: mergePermissions_members)
  then have "pm_collection q = c" by (rule coll[rotated]) (simp add: with_key_def)
  with c show ?thesis by auto
qed

lemma share_parts:
  assumes "mergePermissionsForShare lodash_set lodash_merge schemaPermissions current role (Some (collection, item)) schema = Some perms"
    and "map_of (so_collections schema) collection = Some co"
    and "sets_one_property lodash_set" "co_primary co \<noteq> ''_or''" "\<forall>r\<in>set (so_relations schema). rl_field r \<noteq> ''_or''"
    and "\<forall>p\<in>set schemaPermissions. filter_ok Merge_or (pm_permissions p)"
    and "\<forall>p\<in>set current. filter_ok Merge_and (pm_permissions p)"
    and "m \<in> set perms" "p \<in> set current" "pm_action p = ''read''" "pm_action m = ''read''"
    and "pm_collection p = pm_collection m" "pm_role p = pm_role m"
  shows "sat holds (pm_permissions m) \<longrightarrow> sat holds (pm_permissions p)"
    and "allows (pm_fields m) field \<longrightarrow> pm_fields p = None \<or> allows (pm_fields p) field"
    and "g \<in> set (allGeneratedPermissions lodash_set schemaPermissions current role collection item (co_primary co) schema)
      \<Longrightarrow> permission_key g = permission_key m \<Longrightarrow> pm_collection g = pm_collection m \<Longrightarrow> sat holds (pm_permissions m) \<Longrightarrow>
      \<exists>g\<in>set (allGeneratedPermissions lodash_set schemaPermissions current role collection item (co_primary co) schema).
        permission_key g = permission_key m \<and> sat holds (pm_permissions g)"
    and "g \<in> set (allGeneratedPermissions lodash_set schemaPermissions current role collection item (co_primary co) schema)
      \<Longrightarrow> g \<notin> set schemaPermissions \<Longrightarrow> pm_collection g = collection \<or> some_permission (Some current) [''read''] (pm_collection g)"
proof -
  let ?gen = "allGeneratedPermissions lodash_set schemaPermissions current role collection item (co_primary co) schema"
  let ?cs = "js_uniq (map pm_collection ?gen)"
  let ?lim = "filter (\<lambda>p. pm_collection p \<in> set ?cs \<and> pm_action p = ''read'') current"
  let ?gps = "generatedPermissions lodash_merge ?gen ?cs"
  from assms(1,2) have perms: "perms = mergePermissions lodash_merge Merge_and [?lim, ?gps]"
    by (simp add: mergePermissionsForShare_def Let_def)
  obtain k where k: "k = permission_key m" by blast
  from assms(8) have m: "merge_group lodash_merge Merge_and (with_key k ?lim @ with_key k ?gps) = Some m"
    unfolding perms mergePermissions_members by (simp add: with_key_def k)
  obtain q qs where qs: "with_key k ?lim @ with_key k ?gps = q # qs"
    using m by (cases "with_key k ?lim @ with_key k ?gps") (simp_all add: merge_group_def)
  have coll: "pm_collection m = pm_collection q" using m unfolding qs by (rule merge_group_collection)
  have "q \<in> set (with_key k ?lim @ with_key k ?gps)" by (simp only: qs list.set_intros)
  then have "q \<in> set ?lim \<or> q \<in> set ?gps" unfolding with_key_def by auto
  then have "pm_collection q \<in> set ?cs" using generated_collections[of q lodash_merge ?gen] by auto
  then have "pm_collection p \<in> set ?cs" by (simp only: assms(12) coll)
  then have lim: "p \<in> set ?lim" using assms(9,10) by (simp only: set_filter mem_Collect_eq simp_thms)
  have pk: "permission_key p = k" using assms(10-13) by (simp add: k permission_key_def)
  have inlim: "p \<in> set (with_key k ?lim)" using lim pk by (simp add: with_key_def)
  then have "q \<in> set (with_key k ?lim)" using qs by (cases "with_key k ?lim") auto
  then have okq: "filter_ok Merge_and (pm_permissions q)" using assms(7) by (auto simp: with_key_def)
  have mq: "m = foldl (mergePermission lodash_merge Merge_and) q qs" using m unfolding qs by (simp add: merge_group_def)
  have all: "sat h (pm_permissions m) \<longrightarrow> (\<forall>r\<in>set (with_key k ?lim @ with_key k ?gps). sat h (pm_permissions r))" for h
    using merge_and_group[OF okq, of lodash_merge qs h] unfolding mq qs by blast
  show "sat holds (pm_permissions m) \<longrightarrow> sat holds (pm_permissions p)" using all[of holds] inlim by simp
  have "allows (pm_fields m) field \<longrightarrow> (\<forall>r\<in>set (with_key k ?lim @ with_key k ?gps). pm_fields r = None \<or> allows (pm_fields r) field)"
    using merge_group_fields[OF m] by blast
  then show "allows (pm_fields m) field \<longrightarrow> pm_fields p = None \<or> allows (pm_fields p) field" using inlim by simp
  have ok: "\<forall>g\<in>set ?gen. filter_ok Merge_or (pm_permissions g)" using generated_filters_ok assms(3-6) by blast
  show "\<exists>g\<in>set ?gen. permission_key g = permission_key m \<and> sat holds (pm_permissions g)"
    if g: "g \<in> set ?gen" "permission_key g = permission_key m" and "pm_collection g = pm_collection m" "sat holds (pm_permissions m)" for g
  proof -
    from g(1) have cs: "pm_collection g \<in> set ?cs" by simp
    show ?thesis
    proof (rule generated_member[OF g(1) refl cs ok, where lm = lodash_merge])
      fix gm assume gm: "gm \<in> set ?gps" "permission_key gm = permission_key g"
        "\<And>holds. sat holds (pm_permissions gm) \<Longrightarrow>
           \<exists>g'\<in>set ?gen. permission_key g' = permission_key g \<and> pm_collection g' = pm_collection g \<and> sat holds (pm_permissions g')"
      from gm(1,2) g(2) have "gm \<in> set (with_key k ?gps)" by (simp only: with_key_def k set_filter mem_Collect_eq simp_thms)
      with all[of holds] that(4) have "sat holds (pm_permissions gm)" by simp
      from gm(3)[OF this] show ?thesis unfolding g(2) by blast
    qed
  qed
  show "pm_collection g = collection \<or> some_permission (Some current) [''read''] (pm_collection g)"
    if g: "g \<in> set ?gen" "g \<notin> set schemaPermissions" for g
  proof -
    have "\<forall>r\<in>set (so_relations (reduceSchema schema (Some current) [''read''])). relation_kept (Some current) [''read''] r"
      by (simp add: reduceSchema_def)
    then have "some_permission (Some current) [''read''] c"
      if "(c, f) \<in> set (traverse lodash_set (so_relations (reduceSchema schema (Some current) [''read'']))
            (co_primary co) item collection [] [])" for c f
      using traverse_readable[OF that] by blast
    with g show ?thesis by (auto simp: allGeneratedPermissions_def Let_def share_permission_def)
  qed
qed



end
