(* ===== verification/Operation_Sequencer.thy ===== *)
theory Operation_Sequencer
  imports Cairn_Prelude
begin

text \<open>
  The sequencer of GraphQL subscription operations, \<open>api/src/websocket/controllers/operation-sequencer.ts\<close>. Lanes,
  generations and the asynchronous steps of routed frames are objects, here indices into stores. A promise that only
  marks an event is the flag of that event: \<open>started\<close> of a step, \<open>settled\<close> of a generation. A step waits for races of
  such promises with the stop signal, so it may run from the moment the flags it waits for are set or the sequencer is
  stopped. \<open>deliver\<close> belongs to the environment, which decides whether it throws and when its promise ends.
\<close>

section \<open>State\<close>

record generation =
  gn_settled :: bool
  gn_completed :: bool

record lane =
  ln_tail :: "nat option"
  ln_pending :: int
  ln_current :: "nat option"

text \<open>The closure of a routed frame: what it captured, and whether it has started (and handed off).\<close>

record operation =
  op_call :: nat
  op_id :: string
  op_frame :: string
  op_lane :: nat
  op_prior :: "nat option"
  op_wait :: "nat option"
  op_generation :: "nat option"
  op_started :: bool

text \<open>\<open>sq_log\<close> records the calls of \<open>deliver\<close> with the number of the \<open>route\<close> call they belong to.\<close>

record sequencer =
  sq_lanes :: "(string \<times> nat) list"
  sq_heap :: "lane list"
  sq_steps :: "operation list"
  sq_gens :: "generation list"
  sq_stopped :: bool
  sq_calls :: nat
  sq_log :: "(nat \<times> string \<times> string) list"

definition new_sequencer :: sequencer where
  "new_sequencer = \<lparr>sq_lanes = [], sq_heap = [], sq_steps = [], sq_gens = [], sq_stopped = False, sq_calls = 0, sq_log = []\<rparr>"

definition sq_size :: "sequencer \<Rightarrow> nat" where
  "sq_size s = length (sq_lanes s)"

definition cancel_sequencer :: "sequencer \<Rightarrow> sequencer" where
  "cancel_sequencer s = (if sq_stopped s then s else s\<lparr>sq_stopped := True\<rparr>)"

section \<open>Settling\<close>

definition reap :: "nat \<Rightarrow> string \<Rightarrow> sequencer \<Rightarrow> sequencer" where
  "reap l i s =
     (if ln_pending (sq_heap s ! l) = 0 \<and> ln_current (sq_heap s ! l) = None \<and> map_of (sq_lanes s) i = Some l
      then s\<lparr>sq_lanes := js_delete i (sq_lanes s)\<rparr> else s)"

definition settleStart :: "nat \<Rightarrow> sequencer \<Rightarrow> sequencer" where
  "settleStart n s =
     (let st = sq_steps s ! n; l = op_lane st; ln = sq_heap s ! l in
      reap l (op_id st) (s\<lparr>sq_heap := (sq_heap s)[l := ln\<lparr>ln_pending := ln_pending ln - 1\<rparr>],
        sq_steps := (sq_steps s)[n := st\<lparr>op_started := True\<rparr>]\<rparr>))"

definition settleGeneration :: "nat \<Rightarrow> string \<Rightarrow> nat \<Rightarrow> sequencer \<Rightarrow> sequencer" where
  "settleGeneration l i g s =
     (let ln = sq_heap s ! l in
      reap l i (s\<lparr>sq_heap := (sq_heap s)[l := (if ln_current ln = Some g then ln\<lparr>ln_current := None\<rparr> else ln)],
        sq_gens := (sq_gens s)[g := (sq_gens s ! g)\<lparr>gn_settled := True\<rparr>]\<rparr>))"

section \<open>Routing\<close>

definition heap_put :: "nat \<Rightarrow> 'a \<Rightarrow> 'a list \<Rightarrow> 'a list" where
  "heap_put l v h = (if l < length h then h[l := v] else h @ [v])"

text \<open>What both kinds of routed frame do: count in the lane, become its tail, and leave a step behind.\<close>

definition enqueue :: "string \<Rightarrow> string \<Rightarrow> nat \<Rightarrow> lane \<Rightarrow> nat option \<Rightarrow> nat option \<Rightarrow> generation list \<Rightarrow> sequencer \<Rightarrow> sequencer" where
  "enqueue i frame l ln wait gen gens s =
     s\<lparr>sq_lanes := js_set i l (sq_lanes s),
       sq_heap := heap_put l (ln\<lparr>ln_tail := Some (length (sq_steps s)), ln_pending := ln_pending ln + 1,
         ln_current := (case gen of Some g \<Rightarrow> Some g | None \<Rightarrow> ln_current ln)\<rparr>) (sq_heap s),
       sq_steps := sq_steps s @ [\<lparr>op_call = sq_calls s, op_id = i, op_frame = frame, op_lane = l, op_prior = ln_tail ln,
         op_wait = wait, op_generation = gen, op_started = False\<rparr>],
       sq_gens := gens, sq_calls := Suc (sq_calls s)\<rparr>"

definition unsettled_current :: "sequencer \<Rightarrow> lane \<Rightarrow> nat option" where
  "unsettled_current s ln = (case ln_current ln of None \<Rightarrow> None
     | Some g \<Rightarrow> if gn_settled (sq_gens s ! g) then None else Some g)"

definition routeSubscribe :: "string \<Rightarrow> string \<Rightarrow> sequencer \<Rightarrow> sequencer" where
  "routeSubscribe i frame s =
     (let (l, ln) = (case map_of (sq_lanes s) i of
                       Some l \<Rightarrow> (l, sq_heap s ! l)
                     | None \<Rightarrow> (length (sq_heap s), \<lparr>ln_tail = None, ln_pending = 0, ln_current = None\<rparr>));
          predecessor = unsettled_current s ln;
          reuse = (case predecessor of None \<Rightarrow> False | Some g \<Rightarrow> gn_completed (sq_gens s ! g));
          duplicate = (case predecessor of None \<Rightarrow> False | Some g \<Rightarrow> \<not> gn_completed (sq_gens s ! g))
      in if duplicate then enqueue i frame l ln None None (sq_gens s) s
         else enqueue i frame l ln (if reuse then predecessor else None) (Some (length (sq_gens s)))
                (sq_gens s @ [\<lparr>gn_settled = False, gn_completed = False\<rparr>]) s)"

text \<open>The lane of a completion is already in the map, so that \<open>enqueue\<close> leaves the map as it is.\<close>

definition routeComplete :: "string \<Rightarrow> string \<Rightarrow> sequencer \<Rightarrow> sequencer" where
  "routeComplete i frame s =
     (case map_of (sq_lanes s) i of
        None \<Rightarrow> s\<lparr>sq_calls := Suc (sq_calls s), sq_log := sq_log s @ [(sq_calls s, i, frame)]\<rparr>
      | Some l \<Rightarrow>
          (let ln = sq_heap s ! l;
               gens = (case unsettled_current s ln of
                         Some g \<Rightarrow> (sq_gens s)[g := (sq_gens s ! g)\<lparr>gn_completed := True\<rparr>]
                       | None \<Rightarrow> sq_gens s)
           in enqueue i frame l ln None None gens s))"

datatype route_type = Subscribe | Complete

definition route :: "string \<Rightarrow> route_type \<Rightarrow> string \<Rightarrow> sequencer \<Rightarrow> sequencer" where
  "route i type frame s = (if type = Complete then routeComplete i frame s else routeSubscribe i frame s)"

section \<open>Running a step\<close>

definition ready :: "sequencer \<Rightarrow> nat \<Rightarrow> bool" where
  "ready s n \<longleftrightarrow> n < length (sq_steps s) \<and> \<not> op_started (sq_steps s ! n) \<and>
     (sq_stopped s \<or> (case op_prior (sq_steps s ! n) of None \<Rightarrow> True | Some p \<Rightarrow> op_started (sq_steps s ! p))) \<and>
     (sq_stopped s \<or> (case op_wait (sq_steps s ! n) of None \<Rightarrow> True | Some g \<Rightarrow> gn_settled (sq_gens s ! g)))"

definition settle_own :: "nat \<Rightarrow> sequencer \<Rightarrow> sequencer" where
  "settle_own n s = (let st = sq_steps s ! n in
     case op_generation st of None \<Rightarrow> s | Some g \<Rightarrow> settleGeneration (op_lane st) (op_id st) g s)"

definition run_operation :: "nat \<Rightarrow> bool \<Rightarrow> sequencer \<Rightarrow> sequencer" where
  "run_operation n throws s =
     (if sq_stopped s then settle_own n (settleStart n s)
      else (let st = sq_steps s ! n;
                s1 = settleStart n (s\<lparr>sq_log := sq_log s @ [(op_call st, op_id st, op_frame st)]\<rparr>)
            in if throws then settle_own n s1 else s1))"

text \<open>A delivered subscription lives until the promise of its delivery ends.\<close>

definition live :: "sequencer \<Rightarrow> nat \<Rightarrow> bool" where
  "live s n \<longleftrightarrow> n < length (sq_steps s) \<and> op_started (sq_steps s ! n) \<and>
     (case op_generation (sq_steps s ! n) of None \<Rightarrow> False | Some g \<Rightarrow> \<not> gn_settled (sq_gens s ! g))"

inductive seq_step :: "sequencer \<Rightarrow> sequencer \<Rightarrow> bool" where
  sq_route: "seq_step s (route i type frame s)"
| sq_run: "ready s n \<Longrightarrow> seq_step s (run_operation n throws s)"
| sq_ends: "live s n \<Longrightarrow> seq_step s (settle_own n s)"
| sq_cancel: "seq_step s (cancel_sequencer s)"

section \<open>The lanes\<close>

lemma reap_simps [simp]:
  "sq_heap (reap l i s) = sq_heap s" "sq_steps (reap l i s) = sq_steps s" "sq_gens (reap l i s) = sq_gens s"
  "sq_stopped (reap l i s) = sq_stopped s" "sq_calls (reap l i s) = sq_calls s" "sq_log (reap l i s) = sq_log s"
  by (simp_all add: reap_def)

lemma reap_lanes:
  "map_of (sq_lanes (reap l i s)) j =
     (if ln_pending (sq_heap s ! l) = 0 \<and> ln_current (sq_heap s ! l) = None \<and> map_of (sq_lanes s) i = Some l \<and> j = i
      then None else map_of (sq_lanes s) j)"
  by (simp add: reap_def)

lemma nth_heap_put: "l \<le> length h \<Longrightarrow> k < length (heap_put l v h) \<Longrightarrow> heap_put l v h ! k = (if k = l then v else h ! k)"
  by (auto simp: heap_put_def nth_append split: if_splits)

lemma length_heap_put: "l \<le> length h \<Longrightarrow> length (heap_put l v h) = max (length h) (Suc l)"
  by (auto simp: heap_put_def)

text \<open>A lane is in the map, under the identifier of its operations, exactly while something is left to do in it.\<close>

definition mapped_inv :: "sequencer \<Rightarrow> bool" where
  "mapped_inv s \<longleftrightarrow> (\<forall>i l. map_of (sq_lanes s) i = Some l \<longrightarrow> l < length (sq_heap s) \<and>
     (ln_pending (sq_heap s ! l) \<noteq> 0 \<or> ln_current (sq_heap s ! l) \<noteq> None) \<and>
     (\<forall>j. map_of (sq_lanes s) j = Some l \<longrightarrow> j = i))"

definition pending_inv :: "sequencer \<Rightarrow> bool" where
  "pending_inv s \<longleftrightarrow> (\<forall>l < length (sq_heap s). ln_pending (sq_heap s ! l) =
     count_if (\<lambda>x. op_lane x = l \<and> \<not> op_started x) (sq_steps s))"

definition steps_inv :: "sequencer \<Rightarrow> bool" where
  "steps_inv s \<longleftrightarrow> (\<forall>n < length (sq_steps s). op_lane (sq_steps s ! n) < length (sq_heap s) \<and>
     (\<not> op_started (sq_steps s ! n) \<longrightarrow> map_of (sq_lanes s) (op_id (sq_steps s ! n)) = Some (op_lane (sq_steps s ! n))) \<and>
     (\<forall>j. map_of (sq_lanes s) j = Some (op_lane (sq_steps s ! n)) \<longrightarrow> j = op_id (sq_steps s ! n)) \<and>
     (\<forall>g. op_generation (sq_steps s ! n) = Some g \<longrightarrow> g < length (sq_gens s) \<and>
       (gn_settled (sq_gens s ! g) \<longrightarrow> op_started (sq_steps s ! n))))"

definition current_inv :: "sequencer \<Rightarrow> bool" where
  "current_inv s \<longleftrightarrow> (\<forall>l < length (sq_heap s). \<forall>g. ln_current (sq_heap s ! l) = Some g \<longrightarrow>
     (\<exists>n < length (sq_steps s). op_generation (sq_steps s ! n) = Some g \<and> op_lane (sq_steps s ! n) = l \<and>
        \<not> gn_settled (sq_gens s ! g) \<and> map_of (sq_lanes s) (op_id (sq_steps s ! n)) = Some l))"

definition generations_inv :: "sequencer \<Rightarrow> bool" where
  "generations_inv s \<longleftrightarrow> (\<forall>m < length (sq_steps s). \<forall>n < length (sq_steps s). op_generation (sq_steps s ! m) \<noteq> None \<and>
     op_generation (sq_steps s ! m) = op_generation (sq_steps s ! n) \<longrightarrow> m = n)"

definition lanes_inv :: "sequencer \<Rightarrow> bool" where
  "lanes_inv s \<longleftrightarrow> mapped_inv s \<and> pending_inv s \<and> steps_inv s \<and> current_inv s \<and> generations_inv s"

text \<open>What \<open>routeSubscribe\<close> and \<open>routeComplete\<close> pass to \<open>enqueue\<close>: the lane of the identifier, or a new one.\<close>

definition lane_for :: "sequencer \<Rightarrow> string \<Rightarrow> nat \<Rightarrow> lane \<Rightarrow> bool" where
  "lane_for s i l ln \<longleftrightarrow> (case map_of (sq_lanes s) i of Some l' \<Rightarrow> l' = l \<and> ln = sq_heap s ! l
     | None \<Rightarrow> l = length (sq_heap s) \<and> ln = \<lparr>ln_tail = None, ln_pending = 0, ln_current = None\<rparr>)"

text \<open>No generation is lost or unsettled, and one is added when the frame gets its own.\<close>

definition gens_for :: "sequencer \<Rightarrow> nat option \<Rightarrow> generation list \<Rightarrow> bool" where
  "gens_for s gen gens \<longleftrightarrow> (case gen of None \<Rightarrow> length gens = length (sq_gens s)
       | Some g \<Rightarrow> g = length (sq_gens s) \<and> length gens = Suc g \<and> \<not> gn_settled (gens ! g)) \<and>
     (\<forall>g < length (sq_gens s). gn_settled (gens ! g) = gn_settled (sq_gens s ! g))"

lemma lane_for_le: "mapped_inv s \<Longrightarrow> lane_for s i l ln \<Longrightarrow> l \<le> length (sq_heap s)"
  by (auto simp: mapped_inv_def lane_for_def split: option.splits intro: less_imp_le)

lemma enqueue_lanes_inv:
  assumes inv: "lanes_inv s" and l: "lane_for s i l ln" and gens: "gens_for s gen gens"
  shows "lanes_inv (enqueue i frame l ln wait gen gens s)"
proof -
  let ?t = "enqueue i frame l ln wait gen gens s" and ?n = "length (sq_steps s)"
  from inv have parts: "mapped_inv s" "pending_inv s" "steps_inv s" "current_inv s" "generations_inv s"
    by (simp_all add: lanes_inv_def)
  have le: "l \<le> length (sq_heap s)" using lane_for_le[OF parts(1) l] .
  have heap: "k < length (sq_heap ?t) \<Longrightarrow> sq_heap ?t ! k = (if k = l then ln\<lparr>ln_tail := Some ?n,
      ln_pending := ln_pending ln + 1, ln_current := (case gen of Some g \<Rightarrow> Some g | None \<Rightarrow> ln_current ln)\<rparr>
      else sq_heap s ! k)" for k
    using nth_heap_put[OF le] by (simp add: enqueue_def)
  have len: "length (sq_heap ?t) = max (length (sq_heap s)) (Suc l)" using length_heap_put[OF le] by (simp add: enqueue_def)
  have pend: "ln_pending ln = count_if (\<lambda>x. op_lane x = l \<and> \<not> op_started x) (sq_steps s)"
  proof (cases "map_of (sq_lanes s) i")
    case None
    with l have "l = length (sq_heap s)" "ln_pending ln = 0" by (simp_all add: lane_for_def)
    moreover have "\<forall>x\<in>set (sq_steps s). op_lane x < length (sq_heap s)" using parts(3)
      by (auto simp: steps_inv_def in_set_conv_nth)
    ultimately show ?thesis by (auto simp: count_if_def filter_empty_conv)
  next
    case (Some a)
    with l parts(1,2) show ?thesis by (auto simp: lane_for_def mapped_inv_def pending_inv_def)
  qed
  have cur: "ln_current ln = Some g \<Longrightarrow> \<exists>n < ?n. op_generation (sq_steps s ! n) = Some g \<and> op_lane (sq_steps s ! n) = l \<and>
      \<not> gn_settled (sq_gens s ! g) \<and> map_of (sq_lanes s) (op_id (sq_steps s ! n)) = Some l" for g
    using l parts(1,4) by (auto simp: lane_for_def mapped_inv_def current_inv_def split: option.splits)
  have mapt: "map_of (sq_lanes ?t) = (map_of (sq_lanes s))(i \<mapsto> l)" by (simp add: enqueue_def)
  have stepst: "sq_steps ?t = sq_steps s @ [\<lparr>op_call = sq_calls s, op_id = i, op_frame = frame, op_lane = l,
        op_prior = ln_tail ln, op_wait = wait, op_generation = gen, op_started = False\<rparr>]"
    "sq_steps ?t ! ?n = \<lparr>op_call = sq_calls s, op_id = i, op_frame = frame, op_lane = l,
        op_prior = ln_tail ln, op_wait = wait, op_generation = gen, op_started = False\<rparr>" by (simp_all add: enqueue_def)
  have gens_t: "sq_gens ?t = gens" by (simp add: enqueue_def)
  have keep: "map_of (sq_lanes s) j = Some k \<Longrightarrow> map_of (sq_lanes ?t) j = Some k" for j k
    using l by (auto simp: mapt lane_for_def)
  have "mapped_inv ?t" unfolding mapped_inv_def
  proof (intro allI impI)
    fix j k assume j: "map_of (sq_lanes ?t) j = Some k"
    then have k: "k = l \<or> map_of (sq_lanes s) j = Some k" by (auto simp: mapt split: if_splits)
    then have "k < length (sq_heap ?t)" using parts(1) by (auto simp: mapped_inv_def len less_max_iff_disj)
    moreover have "0 \<le> ln_pending ln" by (simp add: pend)
    ultimately have "k < length (sq_heap ?t) \<and> (ln_pending (sq_heap ?t ! k) \<noteq> 0 \<or> ln_current (sq_heap ?t ! k) \<noteq> None)"
      using k parts(1) by (auto simp: heap mapped_inv_def)
    moreover have "map_of (sq_lanes ?t) j' = Some k \<longrightarrow> j' = j" for j'
      using j parts(1) l by (auto simp: mapt mapped_inv_def lane_for_def split: if_splits option.splits)
    ultimately show "k < length (sq_heap ?t) \<and> (ln_pending (sq_heap ?t ! k) \<noteq> 0 \<or> ln_current (sq_heap ?t ! k) \<noteq> None) \<and>
        (\<forall>j'. map_of (sq_lanes ?t) j' = Some k \<longrightarrow> j' = j)" by blast
  qed
  moreover have "pending_inv ?t" unfolding pending_inv_def
  proof (intro allI impI)
    fix k assume k: "k < length (sq_heap ?t)"
    then have "k \<noteq> l \<Longrightarrow> k < length (sq_heap s)" using le by (auto simp: len)
    then show "ln_pending (sq_heap ?t ! k) = count_if (\<lambda>x. op_lane x = k \<and> \<not> op_started x) (sq_steps ?t)"
      using parts(2) pend by (auto simp: heap[OF k] stepst(1) pending_inv_def)
  qed
  moreover have "steps_inv ?t" unfolding steps_inv_def
  proof (intro allI impI)
    fix n assume n: "n < length (sq_steps ?t)"
    show "op_lane (sq_steps ?t ! n) < length (sq_heap ?t) \<and>
     (\<not> op_started (sq_steps ?t ! n) \<longrightarrow> map_of (sq_lanes ?t) (op_id (sq_steps ?t ! n)) = Some (op_lane (sq_steps ?t ! n))) \<and>
     (\<forall>j. map_of (sq_lanes ?t) j = Some (op_lane (sq_steps ?t ! n)) \<longrightarrow> j = op_id (sq_steps ?t ! n)) \<and>
     (\<forall>g. op_generation (sq_steps ?t ! n) = Some g \<longrightarrow> g < length (sq_gens ?t) \<and>
       (gn_settled (sq_gens ?t ! g) \<longrightarrow> op_started (sq_steps ?t ! n)))"
    proof (cases "n = ?n")
      case True
      have own: "\<forall>j. map_of (sq_lanes ?t) j = Some l \<longrightarrow> j = i"
        using parts(1) l by (auto simp: mapt mapped_inv_def lane_for_def split: if_splits option.splits)
      have new: "g < length gens \<and> \<not> gn_settled (gens ! g)" if "gen = Some g" for g
        using gens that by (auto simp: gens_for_def)
      show ?thesis unfolding True stepst(2) operation.simps gens_t
        by (intro conjI own) (use new in \<open>simp_all add: mapt len\<close>)
    next
      case False
      with n have n: "n < ?n" "sq_steps ?t ! n = sq_steps s ! n" by (simp_all add: stepst nth_append)
      with parts(3) have old: "op_lane (sq_steps s ! n) < length (sq_heap s)"
          "\<not> op_started (sq_steps s ! n) \<longrightarrow> map_of (sq_lanes s) (op_id (sq_steps s ! n)) = Some (op_lane (sq_steps s ! n))"
          "\<forall>j. map_of (sq_lanes s) j = Some (op_lane (sq_steps s ! n)) \<longrightarrow> j = op_id (sq_steps s ! n)"
          "\<forall>g. op_generation (sq_steps s ! n) = Some g \<longrightarrow> g < length (sq_gens s) \<and>
             (gn_settled (sq_gens s ! g) \<longrightarrow> op_started (sq_steps s ! n))"
        by (simp_all add: steps_inv_def)
      have "\<forall>j. map_of (sq_lanes ?t) j = Some (op_lane (sq_steps s ! n)) \<longrightarrow> j = op_id (sq_steps s ! n)"
        using old(1,3) l by (auto simp: mapt lane_for_def split: if_splits option.splits)
      moreover have "op_generation (sq_steps s ! n) = Some g \<Longrightarrow> g < length gens \<and>
          (gn_settled (gens ! g) \<longrightarrow> op_started (sq_steps s ! n))" for g
        using old(4) gens by (auto simp: gens_for_def split: option.splits)
      ultimately show ?thesis using old(1,2) keep unfolding n(2) gens_t len by auto
    qed
  qed
  moreover have "current_inv ?t" unfolding current_inv_def
  proof (intro allI impI)
    fix k g assume k: "k < length (sq_heap ?t)" and g: "ln_current (sq_heap ?t ! k) = Some g"
    show "\<exists>n<length (sq_steps ?t). op_generation (sq_steps ?t ! n) = Some g \<and> op_lane (sq_steps ?t ! n) = k \<and>
        \<not> gn_settled (sq_gens ?t ! g) \<and> map_of (sq_lanes ?t) (op_id (sq_steps ?t ! n)) = Some k"
    proof (cases "k = l \<and> gen = Some g")
      case True
      with gens show ?thesis by (intro exI[of _ ?n]) (auto simp: enqueue_def gens_for_def)
    next
      case False
      have "\<exists>n < ?n. op_generation (sq_steps s ! n) = Some g \<and> op_lane (sq_steps s ! n) = k \<and>
          \<not> gn_settled (sq_gens s ! g) \<and> map_of (sq_lanes s) (op_id (sq_steps s ! n)) = Some k"
      proof (cases "k = l")
        case True
        then have "(case gen of Some g \<Rightarrow> Some g | None \<Rightarrow> ln_current ln) = Some g" using g unfolding heap[OF k] by simp
        with True False have "ln_current ln = Some g" by (cases gen) simp_all
        from cur[OF this] show ?thesis unfolding True .
      next
        case other: False
        then have "k < length (sq_heap s)" using k le by (auto simp: len)
        with g other parts(4) show ?thesis by (auto simp: heap[OF k] current_inv_def)
      qed
      then obtain n where n: "n < ?n" "op_generation (sq_steps s ! n) = Some g" "op_lane (sq_steps s ! n) = k"
          "\<not> gn_settled (sq_gens s ! g)" "map_of (sq_lanes s) (op_id (sq_steps s ! n)) = Some k" by blast
      have "g < length (sq_gens s)" using parts(3) n(1,2) by (auto simp: steps_inv_def)
      with gens have "\<not> gn_settled (sq_gens ?t ! g)" using n(4) by (simp add: enqueue_def gens_for_def)
      moreover have "sq_steps ?t ! n = sq_steps s ! n" "n < length (sq_steps ?t)" using n(1)
        by (simp_all add: enqueue_def nth_append)
      ultimately show ?thesis using n keep by auto
    qed
  qed
  moreover have "generations_inv ?t"
  proof -
    have new: "op_generation (sq_steps s ! m) \<noteq> gen \<or> gen = None" if m: "m < ?n" for m
    proof (cases gen)
      case (Some g)
      with gens have "g = length (sq_gens s)" by (simp add: gens_for_def)
      moreover have "\<forall>h. op_generation (sq_steps s ! m) = Some h \<longrightarrow> h < length (sq_gens s)" using parts(3) m by (simp add: steps_inv_def)
      ultimately show ?thesis using Some by auto
    qed simp
    have at: "op_generation (sq_steps ?t ! m) = (if m = ?n then gen else op_generation (sq_steps s ! m))"
      if "m < Suc ?n" for m
      using that by (simp add: stepst(1) nth_append)
    show ?thesis unfolding generations_inv_def
    proof (intro allI impI, elim conjE)
      fix m n assume "m < length (sq_steps ?t)" "n < length (sq_steps ?t)"
      then have b: "m < Suc ?n" "n < Suc ?n" by (simp_all add: stepst(1))
      assume "op_generation (sq_steps ?t ! m) \<noteq> None" "op_generation (sq_steps ?t ! m) = op_generation (sq_steps ?t ! n)"
      then show "m = n" using b new[of m] new[of n] parts(5) unfolding at[OF b(1)] at[OF b(2)] generations_inv_def
        by (auto split: if_splits simp: less_Suc_eq)
    qed
  qed
  ultimately show ?thesis by (simp add: lanes_inv_def)
qed

text \<open>The rest of a step: settling its start, and settling its generation once it has started.\<close>

lemma settleStart_simps [simp]:
  "sq_gens (settleStart n s) = sq_gens s" "sq_stopped (settleStart n s) = sq_stopped s" "sq_calls (settleStart n s) = sq_calls s"
  "sq_log (settleStart n s) = sq_log s"
  "length (sq_steps (settleStart n s)) = length (sq_steps s)"
  by (simp_all add: settleStart_def Let_def)

lemma settleStart_steps: "sq_steps (settleStart n s) = (sq_steps s)[n := (sq_steps s ! n)\<lparr>op_started := True\<rparr>]"
  by (simp add: settleStart_def Let_def)

lemma settleGeneration_simps [simp]:
  "sq_steps (settleGeneration l i g s) = sq_steps s" "sq_stopped (settleGeneration l i g s) = sq_stopped s"
  "sq_calls (settleGeneration l i g s) = sq_calls s" "sq_log (settleGeneration l i g s) = sq_log s"
  "sq_gens (settleGeneration l i g s) = (sq_gens s)[g := (sq_gens s ! g)\<lparr>gn_settled := True\<rparr>]"
  by (simp_all add: settleGeneration_def Let_def)

lemma settleStart_heap:
  "length (sq_heap (settleStart n s)) = length (sq_heap s)"
  "k < length (sq_heap s) \<Longrightarrow> sq_heap (settleStart n s) ! k = (if k = op_lane (sq_steps s ! n)
      then (sq_heap s ! k)\<lparr>ln_pending := ln_pending (sq_heap s ! k) - 1\<rparr> else sq_heap s ! k)"
  by (simp_all add: settleStart_def Let_def nth_list_update)

lemma settleGeneration_heap:
  "length (sq_heap (settleGeneration l i g s)) = length (sq_heap s)"
  "k < length (sq_heap s) \<Longrightarrow> sq_heap (settleGeneration l i g s) ! k =
     (if k = l \<and> ln_current (sq_heap s ! k) = Some g then (sq_heap s ! k)\<lparr>ln_current := None\<rparr> else sq_heap s ! k)"
  by (auto simp: settleGeneration_def Let_def nth_list_update)

lemma settle_lanes:
  "map_of (sq_lanes (settleStart n s)) j =
     (let l = op_lane (sq_steps s ! n); i = op_id (sq_steps s ! n); h = sq_heap (settleStart n s) in
      if ln_pending (h ! l) = 0 \<and> ln_current (h ! l) = None \<and> map_of (sq_lanes s) i = Some l \<and> j = i
      then None else map_of (sq_lanes s) j)"
  "map_of (sq_lanes (settleGeneration l i g s)) j =
     (let h = sq_heap (settleGeneration l i g s) in
      if ln_pending (h ! l) = 0 \<and> ln_current (h ! l) = None \<and> map_of (sq_lanes s) i = Some l \<and> j = i
      then None else map_of (sq_lanes s) j)"
  by (simp_all add: settleStart_def settleGeneration_def Let_def reap_lanes)

text \<open>
  Both end by reaping the lane they changed. Reaping drops the entry of an idle lane, which no unstarted step and no
  current generation refers to, so the invariant needs checking only at the lane itself.
\<close>

lemma reaped_mapped:
  assumes inv: "mapped_inv s" and len: "length (sq_heap t) = length (sq_heap s)"
    and others: "\<And>k. k < length (sq_heap s) \<Longrightarrow> k \<noteq> l \<Longrightarrow> sq_heap t ! k = sq_heap s ! k"
    and mapt: "\<And>j. map_of (sq_lanes t) j =
      (if ln_pending (sq_heap t ! l) = 0 \<and> ln_current (sq_heap t ! l) = None \<and> map_of (sq_lanes s) i = Some l \<and> j = i
       then None else map_of (sq_lanes s) j)"
    and own: "\<And>j. map_of (sq_lanes s) j = Some l \<Longrightarrow> j = i"
  shows "mapped_inv t"
  unfolding mapped_inv_def
proof (intro allI impI)
  fix j k assume j: "map_of (sq_lanes t) j = Some k"
  then have jk: "map_of (sq_lanes s) j = Some k" by (simp add: mapt split: if_splits)
  then have k: "k < length (sq_heap s)" "ln_pending (sq_heap s ! k) \<noteq> 0 \<or> ln_current (sq_heap s ! k) \<noteq> None"
    and inj: "\<And>j'. map_of (sq_lanes s) j' = Some k \<Longrightarrow> j' = j"
    using inv by (auto simp: mapped_inv_def)
  have "ln_pending (sq_heap t ! k) \<noteq> 0 \<or> ln_current (sq_heap t ! k) \<noteq> None"
  proof (cases "k = l")
    case False
    with k others show ?thesis by simp
  next
    case True
    with jk have "j = i" by (simp add: own)
    with j True show ?thesis by (auto simp: mapt split: if_splits)
  qed
  moreover have "map_of (sq_lanes t) j' = Some k \<longrightarrow> j' = j" for j'
    using inj by (auto simp: mapt split: if_splits)
  ultimately show "k < length (sq_heap t) \<and> (ln_pending (sq_heap t ! k) \<noteq> 0 \<or> ln_current (sq_heap t ! k) \<noteq> None) \<and>
      (\<forall>j'. map_of (sq_lanes t) j' = Some k \<longrightarrow> j' = j)" using k(1) len by simp
qed

lemma pending_invD:
  "pending_inv s \<Longrightarrow> l < length (sq_heap s) \<Longrightarrow> n < length (sq_steps s) \<Longrightarrow> op_lane (sq_steps s ! n) = l \<Longrightarrow>
     \<not> op_started (sq_steps s ! n) \<Longrightarrow> ln_pending (sq_heap s ! l) \<noteq> 0"
  using count_if_pos[of "sq_steps s ! n" "sq_steps s" "\<lambda>x. op_lane x = l \<and> \<not> op_started x"]
  by (auto simp: pending_inv_def)

lemma settleStart_lanes_inv:
  assumes inv: "lanes_inv s" and n: "n < length (sq_steps s)" "\<not> op_started (sq_steps s ! n)"
  shows "lanes_inv (settleStart n s)"
proof -
  let ?t = "settleStart n s" and ?l = "op_lane (sq_steps s ! n)" and ?i = "op_id (sq_steps s ! n)"
  from inv have parts: "mapped_inv s" "pending_inv s" "steps_inv s" "current_inv s" "generations_inv s"
    by (simp_all add: lanes_inv_def)
  from n parts(3) have l: "?l < length (sq_heap s)" "map_of (sq_lanes s) ?i = Some ?l" by (auto simp: steps_inv_def)
  note heap = settleStart_heap(2)[of _ s n] and len = settleStart_heap(1)[of n s]
  have steps: "sq_steps ?t ! m = (if m = n then (sq_steps s ! m)\<lparr>op_started := True\<rparr> else sq_steps s ! m)"
    if "m < length (sq_steps s)" for m
    using that by (simp add: settleStart_steps nth_list_update)
  have mapt: "map_of (sq_lanes ?t) j = (if ln_pending (sq_heap ?t ! ?l) = 0 \<and> ln_current (sq_heap ?t ! ?l) = None \<and>
      map_of (sq_lanes s) ?i = Some ?l \<and> j = ?i then None else map_of (sq_lanes s) j)" for j
    by (simp add: settle_lanes Let_def)
  have pending: "pending_inv ?t" unfolding pending_inv_def
  proof (intro allI impI)
    fix k assume "k < length (sq_heap ?t)"
    then have k: "k < length (sq_heap s)" by (simp add: len)
    then have "ln_pending (sq_heap s ! k) = count_if (\<lambda>x. op_lane x = k \<and> \<not> op_started x) (sq_steps s)"
      using parts(2) by (simp add: pending_inv_def)
    with k n show "ln_pending (sq_heap ?t ! k) = count_if (\<lambda>x. op_lane x = k \<and> \<not> op_started x) (sq_steps ?t)"
      by (auto simp: heap settleStart_steps)
  qed
  have own: "map_of (sq_lanes s) j = Some ?l \<Longrightarrow> j = ?i" for j
    using parts(1) l(2) unfolding mapped_inv_def by blast
  have "mapped_inv ?t"
    by (rule reaped_mapped[OF parts(1) len _ mapt own]) (simp_all add: heap)
  moreover have "steps_inv ?t" unfolding steps_inv_def
  proof (intro allI impI)
    fix m assume "m < length (sq_steps ?t)"
    then have m: "m < length (sq_steps s)" by simp
    have "map_of (sq_lanes ?t) (op_id (sq_steps s ! m)) = Some (op_lane (sq_steps s ! m))"
      if u: "\<not> op_started (sq_steps ?t ! m)"
    proof -
      from u m have mn: "m \<noteq> n" "\<not> op_started (sq_steps s ! m)" by (auto simp: steps split: if_splits)
      then have mm: "map_of (sq_lanes s) (op_id (sq_steps s ! m)) = Some (op_lane (sq_steps s ! m))"
        using parts(3) m by (auto simp: steps_inv_def)
      show ?thesis
      proof (rule ccontr)
        assume "\<not> ?thesis"
        with mm have z: "ln_pending (sq_heap ?t ! ?l) = 0" "op_id (sq_steps s ! m) = ?i"
          by (auto simp: mapt split: if_splits)
        from mm l(2) have "Some (op_lane (sq_steps s ! m)) = Some ?l" unfolding z(2) by (rule trans[OF sym])
        then have "op_lane (sq_steps ?t ! m) = ?l" by (simp add: steps m)
        with pending_invD[OF pending _ _ this u] z(1) l(1) m show False by (simp add: len)
      qed
    qed
    moreover have "\<forall>j. map_of (sq_lanes ?t) j = Some (op_lane (sq_steps s ! m)) \<longrightarrow> j = op_id (sq_steps s ! m)"
      using parts(3) m by (auto simp: mapt steps_inv_def split: if_splits)
    ultimately show "op_lane (sq_steps ?t ! m) < length (sq_heap ?t) \<and>
     (\<not> op_started (sq_steps ?t ! m) \<longrightarrow> map_of (sq_lanes ?t) (op_id (sq_steps ?t ! m)) = Some (op_lane (sq_steps ?t ! m))) \<and>
     (\<forall>j. map_of (sq_lanes ?t) j = Some (op_lane (sq_steps ?t ! m)) \<longrightarrow> j = op_id (sq_steps ?t ! m)) \<and>
     (\<forall>g. op_generation (sq_steps ?t ! m) = Some g \<longrightarrow> g < length (sq_gens ?t) \<and>
       (gn_settled (sq_gens ?t ! g) \<longrightarrow> op_started (sq_steps ?t ! m)))"
      using parts(3) m by (auto simp: steps len steps_inv_def)
  qed
  moreover have "current_inv ?t" unfolding current_inv_def
  proof (intro allI impI)
    fix k g assume k: "k < length (sq_heap ?t)" and g: "ln_current (sq_heap ?t ! k) = Some g"
    then have "k < length (sq_heap s)" "ln_current (sq_heap s ! k) = Some g" by (auto simp: len heap split: if_splits)
    with parts(4) obtain m where m: "m < length (sq_steps s)" "op_generation (sq_steps s ! m) = Some g"
        "op_lane (sq_steps s ! m) = k" "\<not> gn_settled (sq_gens s ! g)" "map_of (sq_lanes s) (op_id (sq_steps s ! m)) = Some k"
      by (auto simp: current_inv_def)
    have "map_of (sq_lanes ?t) (op_id (sq_steps s ! m)) = Some k"
      using m(5) g l(2) by (auto simp: mapt)
    with m show "\<exists>m<length (sq_steps ?t). op_generation (sq_steps ?t ! m) = Some g \<and> op_lane (sq_steps ?t ! m) = k \<and>
        \<not> gn_settled (sq_gens ?t ! g) \<and> map_of (sq_lanes ?t) (op_id (sq_steps ?t ! m)) = Some k"
      by (intro exI[of _ m]) (auto simp: steps)
  qed
  moreover have "generations_inv ?t"
  proof -
    have "op_generation (sq_steps ?t ! m) = op_generation (sq_steps s ! m)" if "m < length (sq_steps s)" for m
      using that by (simp add: steps)
    with parts(5) show ?thesis unfolding generations_inv_def settleStart_simps by metis
  qed
  ultimately show ?thesis using pending by (simp add: lanes_inv_def)
qed

lemma settleGeneration_lanes_inv:
  assumes inv: "lanes_inv s" and n: "n < length (sq_steps s)" "op_started (sq_steps s ! n)"
    and g: "op_generation (sq_steps s ! n) = Some g" "l = op_lane (sq_steps s ! n)" "i = op_id (sq_steps s ! n)"
  shows "lanes_inv (settleGeneration l i g s)"
proof -
  let ?t = "settleGeneration l i g s"
  from inv have parts: "mapped_inv s" "pending_inv s" "steps_inv s" "current_inv s" "generations_inv s"
    by (simp_all add: lanes_inv_def)
  from n g parts(3) have l: "l < length (sq_heap s)" "g < length (sq_gens s)" by (auto simp: steps_inv_def)
  note heap = settleGeneration_heap(2)[of _ s l i g] and len = settleGeneration_heap(1)[of l i g s]
  have mapt: "map_of (sq_lanes ?t) j = (if ln_pending (sq_heap ?t ! l) = 0 \<and> ln_current (sq_heap ?t ! l) = None \<and>
      map_of (sq_lanes s) i = Some l \<and> j = i then None else map_of (sq_lanes s) j)" for j
    by (simp add: settle_lanes Let_def)
  have pending: "pending_inv ?t"
    using parts(2) by (auto simp: pending_inv_def len heap)
  have own: "map_of (sq_lanes s) j = Some l \<Longrightarrow> j = i" for j
    using parts(3) n(1) g(2,3) unfolding steps_inv_def by blast
  have "mapped_inv ?t"
    by (rule reaped_mapped[OF parts(1) len _ mapt own]) (simp_all add: heap)
  moreover have "steps_inv ?t" unfolding steps_inv_def
  proof (intro allI impI)
    fix m assume "m < length (sq_steps ?t)"
    then have m: "m < length (sq_steps s)" by simp
    have "map_of (sq_lanes ?t) (op_id (sq_steps s ! m)) = Some (op_lane (sq_steps s ! m))"
      if u: "\<not> op_started (sq_steps s ! m)"
    proof (rule ccontr)
      have mm: "map_of (sq_lanes s) (op_id (sq_steps s ! m)) = Some (op_lane (sq_steps s ! m))"
        using parts(3) m u by (auto simp: steps_inv_def)
      assume "\<not> ?thesis"
      with mm have z: "ln_pending (sq_heap ?t ! l) = 0" "op_lane (sq_steps s ! m) = l"
        by (auto simp: mapt split: if_splits)
      with pending_invD[OF parts(2) l(1) m z(2) u] l(1) show False by (simp add: heap split: if_splits)
    qed
    moreover have "op_generation (sq_steps s ! m) = Some h \<Longrightarrow> gn_settled (sq_gens ?t ! h) \<Longrightarrow> op_started (sq_steps s ! m)" for h
    proof (cases "h = g")
      case True
      moreover assume "op_generation (sq_steps s ! m) = Some h"
      ultimately have "m = n" using parts(5) m n(1) g(1) by (simp add: generations_inv_def)
      then show "op_started (sq_steps s ! m)" using n(2) by simp
    next
      case False
      moreover assume "op_generation (sq_steps s ! m) = Some h" "gn_settled (sq_gens ?t ! h)"
      ultimately show "op_started (sq_steps s ! m)" using parts(3) m by (auto simp: steps_inv_def)
    qed
    moreover have "\<forall>j. map_of (sq_lanes ?t) j = Some (op_lane (sq_steps s ! m)) \<longrightarrow> j = op_id (sq_steps s ! m)"
      using parts(3) m by (auto simp: mapt steps_inv_def split: if_splits)
    ultimately show "op_lane (sq_steps ?t ! m) < length (sq_heap ?t) \<and>
     (\<not> op_started (sq_steps ?t ! m) \<longrightarrow> map_of (sq_lanes ?t) (op_id (sq_steps ?t ! m)) = Some (op_lane (sq_steps ?t ! m))) \<and>
     (\<forall>j. map_of (sq_lanes ?t) j = Some (op_lane (sq_steps ?t ! m)) \<longrightarrow> j = op_id (sq_steps ?t ! m)) \<and>
     (\<forall>g. op_generation (sq_steps ?t ! m) = Some g \<longrightarrow> g < length (sq_gens ?t) \<and>
       (gn_settled (sq_gens ?t ! g) \<longrightarrow> op_started (sq_steps ?t ! m)))"
      using parts(3) m by (simp add: len steps_inv_def)
  qed
  moreover have "current_inv ?t" unfolding current_inv_def
  proof (intro allI impI)
    fix k h assume "k < length (sq_heap ?t)" and h: "ln_current (sq_heap ?t ! k) = Some h"
    then have k: "k < length (sq_heap s)" "ln_current (sq_heap s ! k) = Some h" "k = l \<longrightarrow> h \<noteq> g"
      by (auto simp: len heap split: if_splits)
    with parts(4) obtain m where m: "m < length (sq_steps s)" "op_generation (sq_steps s ! m) = Some h"
        "op_lane (sq_steps s ! m) = k" "\<not> gn_settled (sq_gens s ! h)" "map_of (sq_lanes s) (op_id (sq_steps s ! m)) = Some k"
      by (auto simp: current_inv_def)
    have "h \<noteq> g" using k(3) m n(1) g parts(5) by (auto simp: generations_inv_def)
    moreover have "map_of (sq_lanes ?t) (op_id (sq_steps s ! m)) = Some k"
      using m(5) h by (auto simp: mapt)
    ultimately show "\<exists>m<length (sq_steps ?t). op_generation (sq_steps ?t ! m) = Some h \<and> op_lane (sq_steps ?t ! m) = k \<and>
        \<not> gn_settled (sq_gens ?t ! h) \<and> map_of (sq_lanes ?t) (op_id (sq_steps ?t ! m)) = Some k"
      using m by (intro exI[of _ m]) simp
  qed
  moreover have "generations_inv ?t" using parts(5) by (simp add: generations_inv_def)
  ultimately show ?thesis using pending by (simp add: lanes_inv_def)
qed

text \<open>What the two routes pass on.\<close>

lemma unsettled_current_SomeD:
  "unsettled_current s ln = Some g \<Longrightarrow> ln_current ln = Some g \<and> \<not> gn_settled (sq_gens s ! g)"
  by (auto simp: unsettled_current_def split: option.splits if_splits)

lemma routeSubscribe_cases:
  obtains (duplicate) l ln g where "lane_for s i l ln" "unsettled_current s ln = Some g" "\<not> gn_completed (sq_gens s ! g)"
      "routeSubscribe i frame s = enqueue i frame l ln None None (sq_gens s) s"
    | (own) l ln where "lane_for s i l ln"
      "routeSubscribe i frame s = enqueue i frame l ln (unsettled_current s ln) (Some (length (sq_gens s)))
         (sq_gens s @ [\<lparr>gn_settled = False, gn_completed = False\<rparr>]) s"
proof -
  obtain l ln where l: "(case map_of (sq_lanes s) i of Some l \<Rightarrow> (l, sq_heap s ! l)
      | None \<Rightarrow> (length (sq_heap s), \<lparr>ln_tail = None, ln_pending = 0, ln_current = None\<rparr>)) = (l, ln)" by fastforce
  then have lane: "lane_for s i l ln" by (auto simp: lane_for_def split: option.splits)
  show thesis
  proof (cases "unsettled_current s ln")
    case None
    then have "routeSubscribe i frame s = enqueue i frame l ln (unsettled_current s ln) (Some (length (sq_gens s)))
         (sq_gens s @ [\<lparr>gn_settled = False, gn_completed = False\<rparr>]) s"
      by (simp add: routeSubscribe_def l)
    with lane show thesis by (rule own)
  next
    case (Some g)
    show thesis
    proof (cases "gn_completed (sq_gens s ! g)")
      case True
      with Some have "routeSubscribe i frame s = enqueue i frame l ln (unsettled_current s ln) (Some (length (sq_gens s)))
           (sq_gens s @ [\<lparr>gn_settled = False, gn_completed = False\<rparr>]) s"
        by (simp add: routeSubscribe_def l)
      with lane show thesis by (rule own)
    next
      case False
      with Some have "routeSubscribe i frame s = enqueue i frame l ln None None (sq_gens s) s"
        by (simp add: routeSubscribe_def l)
      with lane Some False show thesis by (rule duplicate)
    qed
  qed
qed

lemma completed_settled [simp]: "gn_settled (gs[a := (gs ! a)\<lparr>gn_completed := c\<rparr>] ! g) = gn_settled (gs ! g)"
  by (cases "a < length gs"; cases "a = g") (simp_all add: list_update_beyond)

lemma lanes_inv_view:
  "sq_lanes t = sq_lanes s \<Longrightarrow> sq_heap t = sq_heap s \<Longrightarrow> sq_steps t = sq_steps s \<Longrightarrow> sq_gens t = sq_gens s \<Longrightarrow>
     lanes_inv t = lanes_inv s"
  by (simp only: lanes_inv_def mapped_inv_def pending_inv_def steps_inv_def current_inv_def generations_inv_def)

lemma routeComplete_cases:
  obtains (direct) "map_of (sq_lanes s) i = None"
      "routeComplete i frame s = s\<lparr>sq_calls := Suc (sq_calls s), sq_log := sq_log s @ [(sq_calls s, i, frame)]\<rparr>"
    | (queued) l ln gens where "map_of (sq_lanes s) i = Some l" "lane_for s i l ln" "gens_for s None gens"
      "routeComplete i frame s = enqueue i frame l ln None None gens s"
proof (cases "map_of (sq_lanes s) i")
  case None
  then show thesis using direct by (simp add: routeComplete_def)
next
  case (Some l)
  let ?ln = "sq_heap s ! l"
  let ?gens = "case unsettled_current s ?ln of Some g \<Rightarrow> (sq_gens s)[g := (sq_gens s ! g)\<lparr>gn_completed := True\<rparr>]
      | None \<Rightarrow> sq_gens s"
  have "gens_for s None ?gens"
    by (cases "unsettled_current s ?ln") (simp_all add: gens_for_def completed_settled)
  moreover have "routeComplete i frame s = enqueue i frame l ?ln None None ?gens s"
    by (simp add: routeComplete_def Some Let_def)
  moreover have "lane_for s i l ?ln" by (simp add: lane_for_def Some)
  ultimately show thesis using queued Some by blast
qed

lemma gens_for_own [simp]: "gens_for s (Some (length (sq_gens s))) (sq_gens s @ [\<lparr>gn_settled = False, gn_completed = c\<rparr>])"
  by (simp add: gens_for_def nth_append)

lemma gens_for_same [simp]: "gens_for s None (sq_gens s)"
  by (simp add: gens_for_def)

lemma route_lanes_inv: "lanes_inv s \<Longrightarrow> lanes_inv (route i type frame s)"
proof -
  assume inv: "lanes_inv s"
  have "lanes_inv (routeSubscribe i frame s)"
    by (rule routeSubscribe_cases[of s i frame]) (use enqueue_lanes_inv[OF inv] in auto)
  moreover have "lanes_inv (routeComplete i frame s)"
  proof (rule routeComplete_cases[of s i frame])
    assume "routeComplete i frame s = s\<lparr>sq_calls := Suc (sq_calls s), sq_log := sq_log s @ [(sq_calls s, i, frame)]\<rparr>"
    then show ?thesis using inv lanes_inv_view[of "routeComplete i frame s" s] by simp
  next
    fix l ln gens assume "lane_for s i l ln" "gens_for s None gens" "routeComplete i frame s = enqueue i frame l ln None None gens s"
    with enqueue_lanes_inv[OF inv] show ?thesis by simp
  qed
  ultimately show ?thesis by (simp add: route_def)
qed

lemma settle_own_lanes_inv:
  assumes "lanes_inv s" "n < length (sq_steps s)" "op_started (sq_steps s ! n)"
  shows "lanes_inv (settle_own n s)"
  using settleGeneration_lanes_inv[OF assms] assms(1) by (auto simp: settle_own_def Let_def split: option.split)

lemma lanes_inv_log: "lanes_inv (s\<lparr>sq_log := log\<rparr>) = lanes_inv s"
  by (rule lanes_inv_view) simp_all

lemma started_settleStart: "n < length (sq_steps s) \<Longrightarrow> op_started (sq_steps (settleStart n s) ! n)"
  by (simp add: settleStart_steps)

lemma run_lanes_inv:
  assumes "lanes_inv s" "ready s n"
  shows "lanes_inv (run_operation n throws s)"
proof -
  let ?log = "sq_log s @ [(op_call (sq_steps s ! n), op_id (sq_steps s ! n), op_frame (sq_steps s ! n))]"
  from assms have n: "n < length (sq_steps s)" "\<not> op_started (sq_steps s ! n)" by (simp_all add: ready_def)
  then have "lanes_inv (settleStart n s)" "lanes_inv (settleStart n (s\<lparr>sq_log := ?log\<rparr>))"
    using settleStart_lanes_inv[of s n] settleStart_lanes_inv[of "s\<lparr>sq_log := ?log\<rparr>" n] assms(1) by (simp_all add: lanes_inv_log)
  with n show ?thesis
    by (auto simp: run_operation_def Let_def intro!: settle_own_lanes_inv started_settleStart)
qed

lemma cancel_lanes_inv: "lanes_inv s \<Longrightarrow> lanes_inv (cancel_sequencer s)"
  using lanes_inv_view[of "cancel_sequencer s" s] by (simp add: cancel_sequencer_def split: if_splits)

lemma lanes_inv_new: "lanes_inv new_sequencer"
  by (simp add: new_sequencer_def lanes_inv_def mapped_inv_def pending_inv_def steps_inv_def current_inv_def generations_inv_def)

lemma lanes_inv_step: "lanes_inv s \<Longrightarrow> seq_step s t \<Longrightarrow> lanes_inv t"
  by (erule seq_step.cases) (auto simp: live_def intro: route_lanes_inv run_lanes_inv settle_own_lanes_inv cancel_lanes_inv)

section \<open>The order of deliveries\<close>

text \<open>The tail of a mapped lane is its last step, and a step waits for the one before it in its lane.\<close>

definition tail_inv :: "sequencer \<Rightarrow> bool" where
  "tail_inv s \<longleftrightarrow> (\<forall>i l. map_of (sq_lanes s) i = Some l \<longrightarrow>
     (case ln_tail (sq_heap s ! l) of
        None \<Rightarrow> \<forall>m < length (sq_steps s). op_lane (sq_steps s ! m) \<noteq> l
      | Some t \<Rightarrow> t < length (sq_steps s) \<and> op_id (sq_steps s ! t) = i \<and>
          (\<forall>m < length (sq_steps s). t < m \<longrightarrow> op_lane (sq_steps s ! m) \<noteq> l)))"

definition prior_inv :: "sequencer \<Rightarrow> bool" where
  "prior_inv s \<longleftrightarrow> (\<forall>n < length (sq_steps s).
     (case op_prior (sq_steps s ! n) of
        None \<Rightarrow> \<forall>m < n. op_lane (sq_steps s ! m) \<noteq> op_lane (sq_steps s ! n)
      | Some p \<Rightarrow> p < n \<and> op_id (sq_steps s ! p) = op_id (sq_steps s ! n) \<and>
          (\<forall>m < n. p < m \<longrightarrow> op_lane (sq_steps s ! m) \<noteq> op_lane (sq_steps s ! n))))"

definition calls_inv :: "sequencer \<Rightarrow> bool" where
  "calls_inv s \<longleftrightarrow> (\<forall>n < length (sq_steps s). op_call (sq_steps s ! n) < sq_calls s \<and>
       (\<forall>m < n. op_call (sq_steps s ! m) < op_call (sq_steps s ! n))) \<and>
     (\<forall>e\<in>set (sq_log s). fst e < sq_calls s)"

text \<open>Until the sequencer is stopped, the steps of an identifier start in order.\<close>

definition started_inv :: "sequencer \<Rightarrow> bool" where
  "started_inv s \<longleftrightarrow> sq_stopped s \<or> (\<forall>n < length (sq_steps s). \<forall>m < n. op_id (sq_steps s ! m) = op_id (sq_steps s ! n) \<longrightarrow>
     op_started (sq_steps s ! n) \<longrightarrow> op_started (sq_steps s ! m))"

definition in_order :: "(nat \<times> string \<times> string) list \<Rightarrow> bool" where
  "in_order = sorted_wrt (\<lambda>a b. fst (snd a) = fst (snd b) \<longrightarrow> fst a < fst b)"

definition log_inv :: "sequencer \<Rightarrow> bool" where
  "log_inv s \<longleftrightarrow> in_order (sq_log s) \<and> (sq_stopped s \<or> (\<forall>n < length (sq_steps s). \<not> op_started (sq_steps s ! n) \<longrightarrow>
     (\<forall>e\<in>set (sq_log s). fst (snd e) = op_id (sq_steps s ! n) \<longrightarrow> fst e < op_call (sq_steps s ! n))))"

definition order_inv :: "sequencer \<Rightarrow> bool" where
  "order_inv s \<longleftrightarrow> lanes_inv s \<and> tail_inv s \<and> prior_inv s \<and> calls_inv s \<and> started_inv s \<and> log_inv s"

lemma enqueue_steps:
  "sq_steps (enqueue i frame l ln wait gen gens s) = sq_steps s @ [\<lparr>op_call = sq_calls s, op_id = i, op_frame = frame,
     op_lane = l, op_prior = ln_tail ln, op_wait = wait, op_generation = gen, op_started = False\<rparr>]"
  by (simp add: enqueue_def)

lemma enqueue_simps [simp]:
  "sq_calls (enqueue i frame l ln wait gen gens s) = Suc (sq_calls s)" "sq_log (enqueue i frame l ln wait gen gens s) = sq_log s"
  "sq_stopped (enqueue i frame l ln wait gen gens s) = sq_stopped s" "sq_gens (enqueue i frame l ln wait gen gens s) = gens"
  "map_of (sq_lanes (enqueue i frame l ln wait gen gens s)) = (map_of (sq_lanes s))(i \<mapsto> l)"
  by (simp_all add: enqueue_def)

lemma enqueue_heap:
  "mapped_inv s \<Longrightarrow> lane_for s i l ln \<Longrightarrow> k < length (sq_heap s) \<or> k = l \<Longrightarrow>
     ln_tail (sq_heap (enqueue i frame l ln wait gen gens s) ! k) = (if k = l then Some (length (sq_steps s)) else ln_tail (sq_heap s ! k))"
  using lane_for_le[of s i l ln] by (auto simp: enqueue_def heap_put_def nth_append)

lemma lane_for_tail:
  assumes "lanes_inv s" "tail_inv s" "lane_for s i l ln"
  shows "case ln_tail ln of None \<Rightarrow> \<forall>m < length (sq_steps s). op_lane (sq_steps s ! m) \<noteq> l
    | Some t \<Rightarrow> t < length (sq_steps s) \<and> op_id (sq_steps s ! t) = i \<and>
        (\<forall>m < length (sq_steps s). t < m \<longrightarrow> op_lane (sq_steps s ! m) \<noteq> l)"
proof (cases "map_of (sq_lanes s) i")
  case None
  with assms(3) have "ln_tail ln = None" "l = length (sq_heap s)" by (simp_all add: lane_for_def)
  with assms(1) show ?thesis by (auto simp: lanes_inv_def steps_inv_def)
next
  case (Some k)
  with assms(3) have "k = l" "ln = sq_heap s ! l" by (simp_all add: lane_for_def)
  with assms(2) Some show ?thesis by (simp add: tail_inv_def)
qed

lemma enqueue_tail_inv:
  assumes inv: "lanes_inv s" "tail_inv s" and l: "lane_for s i l ln"
  shows "tail_inv (enqueue i frame l ln wait gen gens s)"
  unfolding tail_inv_def
proof (intro allI impI)
  let ?t = "enqueue i frame l ln wait gen gens s"
  have mapped: "mapped_inv s" using inv(1) by (simp add: lanes_inv_def)
  fix j k assume "map_of (sq_lanes ?t) j = Some k"
  then consider "j = i" "k = l" | "j \<noteq> i" "map_of (sq_lanes s) j = Some k" by (auto split: if_splits)
  then show "case ln_tail (sq_heap ?t ! k) of
        None \<Rightarrow> \<forall>m < length (sq_steps ?t). op_lane (sq_steps ?t ! m) \<noteq> k
      | Some t \<Rightarrow> t < length (sq_steps ?t) \<and> op_id (sq_steps ?t ! t) = j \<and>
          (\<forall>m < length (sq_steps ?t). t < m \<longrightarrow> op_lane (sq_steps ?t ! m) \<noteq> k)"
  proof cases
    case 1
    then show ?thesis by (simp add: enqueue_heap[OF mapped l] enqueue_steps)
  next
    case 2
    from 2(2) have k: "k < length (sq_heap s)" "\<And>j'. map_of (sq_lanes s) j' = Some k \<Longrightarrow> j' = j"
      using mapped by (auto simp: mapped_inv_def)
    have "k \<noteq> l"
    proof
      assume "k = l"
      with l k 2(1) show False by (auto simp: lane_for_def split: option.splits)
    qed
    with inv(2) 2(2) k(1) show ?thesis
      by (fastforce simp: enqueue_heap[OF mapped l] enqueue_steps tail_inv_def nth_append less_Suc_eq split: option.splits)
  qed
qed

lemma enqueue_prior_inv:
  assumes inv: "lanes_inv s" "tail_inv s" "prior_inv s" and l: "lane_for s i l ln"
  shows "prior_inv (enqueue i frame l ln wait gen gens s)"
  unfolding prior_inv_def
proof (intro allI impI)
  let ?t = "enqueue i frame l ln wait gen gens s" and ?n = "length (sq_steps s)"
  fix n assume n: "n < length (sq_steps ?t)"
  show "case op_prior (sq_steps ?t ! n) of
        None \<Rightarrow> \<forall>m < n. op_lane (sq_steps ?t ! m) \<noteq> op_lane (sq_steps ?t ! n)
      | Some p \<Rightarrow> p < n \<and> op_id (sq_steps ?t ! p) = op_id (sq_steps ?t ! n) \<and>
          (\<forall>m < n. p < m \<longrightarrow> op_lane (sq_steps ?t ! m) \<noteq> op_lane (sq_steps ?t ! n))"
  proof (cases "n = ?n")
    case True
    then show ?thesis using lane_for_tail[OF inv(1,2) l]
      by (auto simp: enqueue_steps nth_append split: option.splits)
  next
    case False
    with n have n: "n < ?n" by (simp add: enqueue_steps)
    then have "sq_steps ?t ! m = sq_steps s ! m" if "m \<le> n" for m
      using that by (simp add: enqueue_steps nth_append)
    moreover have "case op_prior (sq_steps s ! n) of
        None \<Rightarrow> \<forall>m < n. op_lane (sq_steps s ! m) \<noteq> op_lane (sq_steps s ! n)
      | Some p \<Rightarrow> p < n \<and> op_id (sq_steps s ! p) = op_id (sq_steps s ! n) \<and>
          (\<forall>m < n. p < m \<longrightarrow> op_lane (sq_steps s ! m) \<noteq> op_lane (sq_steps s ! n))"
      using inv(3) n by (simp add: prior_inv_def)
    ultimately show ?thesis by (simp split: option.splits)
  qed
qed

lemma enqueue_order_inv:
  assumes inv: "order_inv s" and l: "lane_for s i l ln" and gens: "gens_for s gen gens"
  shows "order_inv (enqueue i frame l ln wait gen gens s)"
proof -
  let ?t = "enqueue i frame l ln wait gen gens s"
  from inv have parts: "lanes_inv s" "tail_inv s" "prior_inv s" "calls_inv s" "started_inv s" "log_inv s"
    by (simp_all add: order_inv_def)
  have "calls_inv ?t" using parts(4) by (fastforce simp: calls_inv_def enqueue_steps nth_append less_Suc_eq)
  moreover have "started_inv ?t" using parts(5) by (auto simp: started_inv_def enqueue_steps nth_append less_Suc_eq)
  moreover have "log_inv ?t" using parts(4,6) by (auto simp: log_inv_def calls_inv_def enqueue_steps nth_append less_Suc_eq)
  ultimately show ?thesis
    unfolding order_inv_def using parts enqueue_lanes_inv[OF parts(1) l gens] enqueue_tail_inv[OF parts(1,2) l]
      enqueue_prior_inv[OF parts(1-3) l] by blast
qed

text \<open>Settling leaves the tails and what the steps captured alone.\<close>

lemma settle_order_keep:
  assumes "tail_inv s" "prior_inv s" "mapped_inv s"
    and len: "length (sq_steps t) = length (sq_steps s)"
    and same: "\<And>n. n < length (sq_steps s) \<Longrightarrow> op_lane (sq_steps t ! n) = op_lane (sq_steps s ! n) \<and>
      op_id (sq_steps t ! n) = op_id (sq_steps s ! n) \<and> op_prior (sq_steps t ! n) = op_prior (sq_steps s ! n)"
    and tails: "\<And>l. l < length (sq_heap s) \<Longrightarrow> ln_tail (sq_heap t ! l) = ln_tail (sq_heap s ! l)"
    and lanes: "\<And>i l. map_of (sq_lanes t) i = Some l \<Longrightarrow> map_of (sq_lanes s) i = Some l"
  shows "tail_inv t" "prior_inv t"
proof -
  show "tail_inv t" unfolding tail_inv_def
  proof (intro allI impI)
    fix i l assume "map_of (sq_lanes t) i = Some l"
    then have il: "map_of (sq_lanes s) i = Some l" by (rule lanes)
    with assms(3) have "l < length (sq_heap s)" by (auto simp: mapped_inv_def)
    moreover from assms(1) il have "case ln_tail (sq_heap s ! l) of
        None \<Rightarrow> \<forall>m < length (sq_steps s). op_lane (sq_steps s ! m) \<noteq> l
      | Some t \<Rightarrow> t < length (sq_steps s) \<and> op_id (sq_steps s ! t) = i \<and>
          (\<forall>m < length (sq_steps s). t < m \<longrightarrow> op_lane (sq_steps s ! m) \<noteq> l)" by (simp add: tail_inv_def)
    ultimately show "case ln_tail (sq_heap t ! l) of
        None \<Rightarrow> \<forall>m < length (sq_steps t). op_lane (sq_steps t ! m) \<noteq> l
      | Some u \<Rightarrow> u < length (sq_steps t) \<and> op_id (sq_steps t ! u) = i \<and>
          (\<forall>m < length (sq_steps t). u < m \<longrightarrow> op_lane (sq_steps t ! m) \<noteq> l)"
      by (simp add: tails len same split: option.splits)
  qed
  show "prior_inv t" unfolding prior_inv_def
  proof (intro allI impI)
    fix n assume "n < length (sq_steps t)"
    then have n: "n < length (sq_steps s)" by (simp add: len)
    then have "m < n \<Longrightarrow> op_lane (sq_steps t ! m) = op_lane (sq_steps s ! m) \<and> op_id (sq_steps t ! m) = op_id (sq_steps s ! m)" for m
      using same[of m] by simp
    moreover have "case op_prior (sq_steps s ! n) of
        None \<Rightarrow> \<forall>m < n. op_lane (sq_steps s ! m) \<noteq> op_lane (sq_steps s ! n)
      | Some p \<Rightarrow> p < n \<and> op_id (sq_steps s ! p) = op_id (sq_steps s ! n) \<and>
          (\<forall>m < n. p < m \<longrightarrow> op_lane (sq_steps s ! m) \<noteq> op_lane (sq_steps s ! n))"
      using assms(2) n by (simp add: prior_inv_def)
    ultimately show "case op_prior (sq_steps t ! n) of
        None \<Rightarrow> \<forall>m < n. op_lane (sq_steps t ! m) \<noteq> op_lane (sq_steps t ! n)
      | Some p \<Rightarrow> p < n \<and> op_id (sq_steps t ! p) = op_id (sq_steps t ! n) \<and>
          (\<forall>m < n. p < m \<longrightarrow> op_lane (sq_steps t ! m) \<noteq> op_lane (sq_steps t ! n))"
      using n by (simp add: same split: option.splits)
  qed
qed

lemma settleStart_same:
  "n < length (sq_steps s) \<Longrightarrow> m < length (sq_steps s) \<Longrightarrow> sq_steps (settleStart n s) ! m =
     (if m = n then (sq_steps s ! m)\<lparr>op_started := True\<rparr> else sq_steps s ! m)"
  by (simp add: settleStart_steps nth_list_update)

lemma ready_priors:
  assumes inv: "order_inv s" and n: "ready s n" "\<not> sq_stopped s" and m: "m < n" "op_id (sq_steps s ! m) = op_id (sq_steps s ! n)"
  shows "op_started (sq_steps s ! m)"
proof (rule ccontr)
  assume not: "\<not> ?thesis"
  from inv have parts: "lanes_inv s" "prior_inv s" "started_inv s" by (simp_all add: order_inv_def)
  from n have n: "n < length (sq_steps s)" "\<not> op_started (sq_steps s ! n)"
    "case op_prior (sq_steps s ! n) of None \<Rightarrow> True | Some p \<Rightarrow> op_started (sq_steps s ! p)" "\<not> sq_stopped s"
    by (auto simp: ready_def)
  have "map_of (sq_lanes s) (op_id (sq_steps s ! m)) = Some (op_lane (sq_steps s ! m))"
    "map_of (sq_lanes s) (op_id (sq_steps s ! n)) = Some (op_lane (sq_steps s ! n))"
    using parts(1) not n(1,2) m(1) by (auto simp: lanes_inv_def steps_inv_def)
  with m(2) have lane: "op_lane (sq_steps s ! m) = op_lane (sq_steps s ! n)" by simp
  from parts(2) n(1) have prior: "case op_prior (sq_steps s ! n) of
        None \<Rightarrow> \<forall>m < n. op_lane (sq_steps s ! m) \<noteq> op_lane (sq_steps s ! n)
      | Some p \<Rightarrow> p < n \<and> op_id (sq_steps s ! p) = op_id (sq_steps s ! n) \<and>
          (\<forall>m < n. p < m \<longrightarrow> op_lane (sq_steps s ! m) \<noteq> op_lane (sq_steps s ! n))" by (simp add: prior_inv_def)
  then obtain p where p: "op_prior (sq_steps s ! n) = Some p" "p < n" "op_id (sq_steps s ! p) = op_id (sq_steps s ! n)" "\<not> p < m"
    using lane m(1) by (cases "op_prior (sq_steps s ! n)") auto
  from p(1) n(3) have "op_started (sq_steps s ! p)" by simp
  moreover have "m < p" using p(4) \<open>op_started (sq_steps s ! p)\<close> not by (cases "m = p") auto
  moreover have "p < length (sq_steps s)" "op_id (sq_steps s ! m) = op_id (sq_steps s ! p)" using p(2,3) n(1) m(2) by simp_all
  ultimately have "op_started (sq_steps s ! m)" using parts(3) n(4) by (auto simp: started_inv_def)
  then show False using not by simp
qed

lemma settleStart_order_inv:
  assumes inv: "order_inv s" and n: "ready s n"
    and log: "log = (if sq_stopped s then sq_log s
      else sq_log s @ [(op_call (sq_steps s ! n), op_id (sq_steps s ! n), op_frame (sq_steps s ! n))])"
  shows "order_inv (settleStart n (s\<lparr>sq_log := log\<rparr>))"
proof -
  let ?s = "s\<lparr>sq_log := log\<rparr>"
  obtain t where t: "t = settleStart n ?s" by blast
  from inv have parts: "lanes_inv s" "tail_inv s" "prior_inv s" "calls_inv s" "started_inv s" "log_inv s"
    by (simp_all add: order_inv_def)
  from n have nn: "n < length (sq_steps s)" "\<not> op_started (sq_steps s ! n)" by (simp_all add: ready_def)
  have view: "length (sq_steps t) = length (sq_steps s)" "sq_calls t = sq_calls s" "sq_log t = log" "sq_stopped t = sq_stopped s"
    by (simp_all add: t)
  have same: "m < length (sq_steps s) \<Longrightarrow> sq_steps t ! m =
     (if m = n then (sq_steps s ! m)\<lparr>op_started := True\<rparr> else sq_steps s ! m)" for m
    using settleStart_same[of n ?s m] nn by (simp add: t)
  have "mapped_inv s" using parts(1) by (simp add: lanes_inv_def)
  note keep = settle_order_keep[OF parts(2,3) this view(1)]
  have heap: "l < length (sq_heap s) \<Longrightarrow> ln_tail (sq_heap t ! l) = ln_tail (sq_heap s ! l)" for l
    using settleStart_heap(2)[of l ?s n] by (simp add: t)
  have lanes: "map_of (sq_lanes t) i = Some l \<Longrightarrow> map_of (sq_lanes s) i = Some l" for i l
    unfolding t settle_lanes Let_def by (simp split: if_splits)
  have "tail_inv t" by (rule keep(1)) (simp_all add: same heap lanes)
  moreover have "prior_inv t" by (rule keep(2)) (simp_all add: same heap lanes)
  moreover have "lanes_inv t" using settleStart_lanes_inv[of ?s n] nn parts(1) by (simp add: lanes_inv_log t)
  moreover have "calls_inv t" using parts(4) nn by (auto simp: calls_inv_def same log view)
  moreover have "started_inv t"
    using parts(5) ready_priors[OF inv n] nn by (auto simp: started_inv_def same view)
  moreover have "log_inv t"
  proof (cases "sq_stopped s")
    case True
    with parts(6) show ?thesis by (simp add: log_inv_def view log)
  next
    case False
    have "in_order log" using parts(6) nn False by (auto simp: log_inv_def in_order_def log sorted_wrt_append)
    moreover have "fst e < op_call (sq_steps t ! m)"
      if m: "m < length (sq_steps t)" "\<not> op_started (sq_steps t ! m)" and e: "e \<in> set log" "fst (snd e) = op_id (sq_steps t ! m)" for m e
    proof -
      from m have m: "m < length (sq_steps s)" "m \<noteq> n" "sq_steps t ! m = sq_steps s ! m" "\<not> op_started (sq_steps s ! m)"
        by (auto simp: same view split: if_splits)
      show ?thesis
      proof (cases "e \<in> set (sq_log s)")
        case True
        with parts(6) m e(2) False show ?thesis by (simp add: log_inv_def)
      next
        case new: False
        with e(1) have e': "e = (op_call (sq_steps s ! n), op_id (sq_steps s ! n), op_frame (sq_steps s ! n))"
          by (simp add: log False)
        have "n < m" using ready_priors[OF inv n False, of m] e(2) m e' by (cases "m < n") auto
        with parts(4) m show ?thesis by (simp add: e' calls_inv_def)
      qed
    qed
    ultimately show ?thesis by (simp add: log_inv_def view)
  qed
  ultimately show ?thesis unfolding t by (simp add: order_inv_def)
qed

lemma settle_own_order_inv:
  assumes inv: "order_inv s" and n: "n < length (sq_steps s)" "op_started (sq_steps s ! n)"
  shows "order_inv (settle_own n s)"
proof (cases "op_generation (sq_steps s ! n)")
  case None
  with inv show ?thesis by (simp add: settle_own_def)
next
  case (Some g)
  let ?l = "op_lane (sq_steps s ! n)" and ?i = "op_id (sq_steps s ! n)"
  obtain t where t: "t = settleGeneration ?l ?i g s" by blast
  from inv have parts: "lanes_inv s" "tail_inv s" "prior_inv s" "calls_inv s" "started_inv s" "log_inv s"
    by (simp_all add: order_inv_def)
  have view: "sq_steps t = sq_steps s" "sq_calls t = sq_calls s" "sq_log t = sq_log s" "sq_stopped t = sq_stopped s"
    by (simp_all add: t)
  have "mapped_inv s" using parts(1) by (simp add: lanes_inv_def)
  note keep = settle_order_keep[OF parts(2,3) this, of t]
  have heap: "l < length (sq_heap s) \<Longrightarrow> ln_tail (sq_heap t ! l) = ln_tail (sq_heap s ! l)" for l
    by (simp add: t settleGeneration_heap)
  have lanes: "map_of (sq_lanes t) i = Some l \<Longrightarrow> map_of (sq_lanes s) i = Some l" for i l
    unfolding t settle_lanes Let_def by (simp split: if_splits)
  have "tail_inv t" by (rule keep(1)) (simp_all add: view heap lanes)
  moreover have "prior_inv t" by (rule keep(2)) (simp_all add: view heap lanes)
  moreover have "lanes_inv t" using settleGeneration_lanes_inv[OF parts(1) n Some] by (simp add: t)
  moreover have "calls_inv t" "started_inv t" "log_inv t" using parts(4-6) by (simp_all add: calls_inv_def started_inv_def log_inv_def view)
  ultimately have "order_inv t" by (simp add: order_inv_def)
  moreover have "settle_own n s = t" by (simp add: settle_own_def Some t Let_def)
  ultimately show ?thesis by simp
qed

lemma tail_prior_view:
  assumes "sq_lanes t = sq_lanes s" "sq_heap t = sq_heap s" "sq_steps t = sq_steps s"
  shows "tail_inv t = tail_inv s" "prior_inv t = prior_inv s"
  by (simp_all add: tail_inv_def prior_inv_def assms cong: option.case_cong)

lemma order_inv_stopped: "order_inv s \<Longrightarrow> order_inv (s\<lparr>sq_stopped := True\<rparr>)"
  using lanes_inv_view[of "s\<lparr>sq_stopped := True\<rparr>" s] tail_prior_view[of "s\<lparr>sq_stopped := True\<rparr>" s]
  by (simp add: order_inv_def calls_inv_def started_inv_def log_inv_def)

lemma order_inv_direct:
  assumes "order_inv s" "map_of (sq_lanes s) i = None"
  shows "order_inv (s\<lparr>sq_calls := Suc (sq_calls s), sq_log := sq_log s @ [(sq_calls s, i, frame)]\<rparr>)"
proof -
  let ?t = "s\<lparr>sq_calls := Suc (sq_calls s), sq_log := sq_log s @ [(sq_calls s, i, frame)]\<rparr>"
  from assms have parts: "lanes_inv s" "tail_inv s" "prior_inv s" "calls_inv s" "started_inv s" "log_inv s"
    by (simp_all add: order_inv_def)
  have "op_id (sq_steps s ! n) \<noteq> i" if "n < length (sq_steps s)" "\<not> op_started (sq_steps s ! n)" for n
    using that parts(1) assms(2) by (auto simp: lanes_inv_def steps_inv_def)
  then have "log_inv ?t" using parts(4,6) by (auto simp: log_inv_def in_order_def sorted_wrt_append calls_inv_def)
  moreover have "calls_inv ?t" using parts(4) by (auto simp: calls_inv_def intro: less_SucI)
  moreover have "lanes_inv ?t" using lanes_inv_view[of ?t s] parts(1) by simp
  moreover have "tail_inv ?t" "prior_inv ?t" "started_inv ?t"
    using parts tail_prior_view[of ?t s] by (simp_all add: started_inv_def)
  ultimately show ?thesis by (simp add: order_inv_def)
qed

lemma route_order_inv: "order_inv s \<Longrightarrow> order_inv (route i type frame s)"
proof -
  assume inv: "order_inv s"
  have "order_inv (routeSubscribe i frame s)"
    by (rule routeSubscribe_cases[of s i frame]) (use enqueue_order_inv[OF inv] in auto)
  moreover have "order_inv (routeComplete i frame s)"
  proof (rule routeComplete_cases[of s i frame])
    assume "map_of (sq_lanes s) i = None"
      "routeComplete i frame s = s\<lparr>sq_calls := Suc (sq_calls s), sq_log := sq_log s @ [(sq_calls s, i, frame)]\<rparr>"
    with order_inv_direct[OF inv] show ?thesis by simp
  next
    fix l ln gens assume "lane_for s i l ln" "gens_for s None gens" "routeComplete i frame s = enqueue i frame l ln None None gens s"
    with enqueue_order_inv[OF inv] show ?thesis by simp
  qed
  ultimately show ?thesis by (simp add: route_def)
qed

lemma run_operation_eq:
  "run_operation n throws s = (let s1 = settleStart n (s\<lparr>sq_log := (if sq_stopped s then sq_log s else
      sq_log s @ [(op_call (sq_steps s ! n), op_id (sq_steps s ! n), op_frame (sq_steps s ! n))])\<rparr>)
    in if sq_stopped s \<or> throws then settle_own n s1 else s1)"
  by (simp add: run_operation_def Let_def)

lemma run_order_inv:
  assumes "order_inv s" "ready s n"
  shows "order_inv (run_operation n throws s)"
proof -
  have "n < length (sq_steps s)" using assms(2) by (simp add: ready_def)
  with settleStart_order_inv[OF assms refl] show ?thesis
    unfolding run_operation_eq Let_def by (auto intro!: settle_own_order_inv started_settleStart)
qed

lemma order_inv_new: "order_inv new_sequencer"
  using lanes_inv_new
  by (simp add: order_inv_def tail_inv_def prior_inv_def calls_inv_def started_inv_def log_inv_def in_order_def new_sequencer_def)

lemma order_inv_step: "order_inv s \<Longrightarrow> seq_step s t \<Longrightarrow> order_inv t"
  by (erule seq_step.cases)
    (auto simp: live_def cancel_sequencer_def intro: route_order_inv run_order_inv settle_own_order_inv order_inv_stopped)

section \<open>One live subscription for an identifier\<close>

text \<open>Of the steps of one identifier with a generation of their own: the last is the current one while unsettled.\<close>

definition wait_inv :: "sequencer \<Rightarrow> bool" where
  "wait_inv s \<longleftrightarrow> (\<forall>n < length (sq_steps s). op_generation (sq_steps s ! n) \<noteq> None \<and> \<not> op_started (sq_steps s ! n) \<longrightarrow>
     (\<forall>m < n. op_id (sq_steps s ! m) = op_id (sq_steps s ! n) \<longrightarrow>
        (\<forall>g. op_generation (sq_steps s ! m) = Some g \<and> \<not> gn_settled (sq_gens s ! g) \<longrightarrow>
          (\<exists>p < n. op_id (sq_steps s ! p) = op_id (sq_steps s ! n) \<and> m \<le> p \<and>
             op_generation (sq_steps s ! p) = op_wait (sq_steps s ! n) \<and> op_wait (sq_steps s ! n) \<noteq> None))))"

definition settled_inv :: "sequencer \<Rightarrow> bool" where
  "settled_inv s \<longleftrightarrow> (\<forall>n < length (sq_steps s). op_generation (sq_steps s ! n) \<noteq> None \<and> op_started (sq_steps s ! n) \<longrightarrow>
     (\<forall>m < n. op_id (sq_steps s ! m) = op_id (sq_steps s ! n) \<longrightarrow>
        (\<forall>g. op_generation (sq_steps s ! m) = Some g \<longrightarrow> gn_settled (sq_gens s ! g))))"

definition last_inv :: "sequencer \<Rightarrow> bool" where
  "last_inv s \<longleftrightarrow> (\<forall>n < length (sq_steps s). \<forall>g. op_generation (sq_steps s ! n) = Some g \<and> \<not> gn_settled (sq_gens s ! g) \<longrightarrow>
     (\<exists>l. map_of (sq_lanes s) (op_id (sq_steps s ! n)) = Some l \<and>
        (\<exists>k < length (sq_steps s). n \<le> k \<and> op_id (sq_steps s ! k) = op_id (sq_steps s ! n) \<and>
           op_generation (sq_steps s ! k) \<noteq> None \<and> ln_current (sq_heap s ! l) = op_generation (sq_steps s ! k))))"

definition single_inv :: "sequencer \<Rightarrow> bool" where
  "single_inv s \<longleftrightarrow> sq_stopped s \<or> (wait_inv s \<and> settled_inv s \<and> last_inv s)"

text \<open>
  A step that may run waits for nothing unsettled: the generation it waits for is that of the step just before it, and
  whatever came earlier was settled when that step started.
\<close>

lemma ready_settled:
  assumes inv: "lanes_inv s" "wait_inv s" "settled_inv s" and n: "ready s n" "\<not> sq_stopped s"
    and gen: "op_generation (sq_steps s ! n) \<noteq> None"
    and m: "m < n" "op_id (sq_steps s ! m) = op_id (sq_steps s ! n)" "op_generation (sq_steps s ! m) = Some g"
  shows "gn_settled (sq_gens s ! g)"
proof (rule ccontr)
  assume not: "\<not> ?thesis"
  from n have nn: "n < length (sq_steps s)" "\<not> op_started (sq_steps s ! n)" by (simp_all add: ready_def)
  with inv(2) gen m not obtain p h where p: "p < n" "op_id (sq_steps s ! p) = op_id (sq_steps s ! n)" "m \<le> p"
      "op_generation (sq_steps s ! p) = Some h" "op_wait (sq_steps s ! n) = Some h"
    unfolding wait_inv_def by (metis option.exhaust)
  from n p(5) have settled: "gn_settled (sq_gens s ! h)" by (simp add: ready_def)
  show False
  proof (cases "m = p")
    case True
    with p(4) m(3) settled not show False by simp
  next
    case False
    from p(1) nn(1) have pl: "p < length (sq_steps s)" by simp
    then have "op_started (sq_steps s ! p)" using inv(1) p(4) settled by (auto simp: lanes_inv_def steps_inv_def)
    moreover have "m < p" "op_id (sq_steps s ! m) = op_id (sq_steps s ! p)" using False p(2,3) m(2) by simp_all
    ultimately show False using inv(3)[unfolded settled_inv_def, rule_format, of p m g] pl p(4) m(3) not by simp
  qed
qed

lemma enqueue_single_inv:
  assumes inv: "lanes_inv s" "single_inv s" and l: "lane_for s i l ln" and gens: "gens_for s gen gens"
    and wait: "gen \<noteq> None \<Longrightarrow> wait = unsettled_current s ln"
  shows "single_inv (enqueue i frame l ln wait gen gens s)"
proof (cases "sq_stopped s")
  case False
  let ?n = "length (sq_steps s)"
  obtain t where t: "t = enqueue i frame l ln wait gen gens s" by blast
  from inv False have parts: "mapped_inv s" "steps_inv s" "current_inv s" "wait_inv s" "settled_inv s" "last_inv s"
    by (simp_all add: lanes_inv_def single_inv_def)
  have le: "l \<le> length (sq_heap s)" using lane_for_le[OF parts(1) l] .
  have len: "length (sq_steps t) = Suc ?n" by (simp add: t enqueue_steps)
  have old: "m < ?n \<Longrightarrow> sq_steps t ! m = sq_steps s ! m" for m by (simp add: t enqueue_steps nth_append)
  have new: "op_id (sq_steps t ! ?n) = i" "op_wait (sq_steps t ! ?n) = wait" "op_generation (sq_steps t ! ?n) = gen"
      "\<not> op_started (sq_steps t ! ?n)"
    by (simp_all add: t enqueue_steps)
  have settled: "gn_settled (sq_gens t ! g) = gn_settled (sq_gens s ! g)" if "m < ?n" "op_generation (sq_steps s ! m) = Some g" for m g
    using gens that parts(2) by (auto simp: t gens_for_def steps_inv_def)
  have cur: "\<exists>p<?n. op_id (sq_steps s ! p) = i \<and> m \<le> p \<and> op_generation (sq_steps s ! p) = unsettled_current s ln \<and>
      unsettled_current s ln \<noteq> None"
    if m: "m < ?n" "op_id (sq_steps s ! m) = i" "op_generation (sq_steps s ! m) = Some g" "\<not> gn_settled (sq_gens s ! g)" for m g
  proof -
    from parts(6) m obtain k l' where k: "map_of (sq_lanes s) i = Some l'" "k < ?n" "m \<le> k" "op_id (sq_steps s ! k) = i"
        "op_generation (sq_steps s ! k) \<noteq> None" "ln_current (sq_heap s ! l') = op_generation (sq_steps s ! k)"
      unfolding last_inv_def by metis
    with l have l': "l' = l" "ln = sq_heap s ! l" by (simp_all add: lane_for_def)
    from k(5) obtain h where h: "op_generation (sq_steps s ! k) = Some h" by blast
    have "l < length (sq_heap s)" using parts(1) k(1) l' by (auto simp: mapped_inv_def)
    with parts(3) k(6) h l' have "\<not> gn_settled (sq_gens s ! h)" by (fastforce simp: current_inv_def)
    with k h l' have "unsettled_current s ln = Some h" by (simp add: unsettled_current_def)
    with k h show ?thesis by auto
  qed
  have "wait_inv t" unfolding wait_inv_def
  proof (intro allI impI, elim conjE)
    fix n m g assume n: "n < length (sq_steps t)" and gn: "op_generation (sq_steps t ! n) \<noteq> None" "\<not> op_started (sq_steps t ! n)"
      and m: "m < n" "op_id (sq_steps t ! m) = op_id (sq_steps t ! n)"
      and g: "op_generation (sq_steps t ! m) = Some g" "\<not> gn_settled (sq_gens t ! g)"
    from m(1) n have mn: "m < ?n" by (simp add: len)
    with g have gs: "op_generation (sq_steps s ! m) = Some g" "\<not> gn_settled (sq_gens s ! g)"
      by (simp_all add: old settled)
    show "\<exists>p < n. op_id (sq_steps t ! p) = op_id (sq_steps t ! n) \<and> m \<le> p \<and>
             op_generation (sq_steps t ! p) = op_wait (sq_steps t ! n) \<and> op_wait (sq_steps t ! n) \<noteq> None"
    proof (cases "n = ?n")
      case True
      with gn(1) m(2) mn have "op_id (sq_steps s ! m) = i" "wait = unsettled_current s ln" by (simp_all add: new old wait)
      with cur[OF mn this(1) gs] show ?thesis unfolding True new by (metis old)
    next
      case False
      with n have n': "n < ?n" by (simp add: len)
      from gn m have s: "op_generation (sq_steps s ! n) \<noteq> None \<and> \<not> op_started (sq_steps s ! n)"
          "op_id (sq_steps s ! m) = op_id (sq_steps s ! n)" unfolding old[OF n'] old[OF mn] by blast+
      obtain p where "p < n" "op_id (sq_steps s ! p) = op_id (sq_steps s ! n)" "m \<le> p"
          "op_generation (sq_steps s ! p) = op_wait (sq_steps s ! n)" "op_wait (sq_steps s ! n) \<noteq> None"
        using parts(4)[unfolded wait_inv_def, rule_format, OF n' s(1) m(1) s(2)] gs by blast
      with n' show ?thesis by (intro exI[of _ p]) (simp add: old)
    qed
  qed
  moreover have "settled_inv t" unfolding settled_inv_def
  proof (intro allI impI, elim conjE)
    fix n m g assume n: "n < length (sq_steps t)" and gn: "op_generation (sq_steps t ! n) \<noteq> None" "op_started (sq_steps t ! n)"
      and m: "m < n" "op_id (sq_steps t ! m) = op_id (sq_steps t ! n)" and g: "op_generation (sq_steps t ! m) = Some g"
    have n': "n < ?n" using n gn(2) new(4) by (cases "n = ?n") (simp_all add: len)
    then have mn: "m < ?n" using m(1) by simp
    with n' parts(5) gn m g show "gn_settled (sq_gens t ! g)"
      unfolding settled_inv_def old[OF n'] old[OF mn] by (simp add: settled[OF mn])
  qed
  moreover have "last_inv t" unfolding last_inv_def
  proof (intro allI impI, elim conjE)
    fix n g assume n: "n < length (sq_steps t)" and g: "op_generation (sq_steps t ! n) = Some g" "\<not> gn_settled (sq_gens t ! g)"
    have lmap: "map_of (sq_lanes t) i = Some l" by (simp add: t)
    have heap: "ln_current (sq_heap t ! l) = (case gen of Some g \<Rightarrow> Some g | None \<Rightarrow> ln_current ln)"
      using le by (simp add: t enqueue_def heap_put_def nth_append)
    show "\<exists>l. map_of (sq_lanes t) (op_id (sq_steps t ! n)) = Some l \<and>
        (\<exists>k < length (sq_steps t). n \<le> k \<and> op_id (sq_steps t ! k) = op_id (sq_steps t ! n) \<and>
           op_generation (sq_steps t ! k) \<noteq> None \<and> ln_current (sq_heap t ! l) = op_generation (sq_steps t ! k))"
    proof (cases "op_id (sq_steps t ! n) = i \<and> gen \<noteq> None")
      case True
      with lmap heap n show ?thesis by (intro exI[of _ l] conjI exI[of _ ?n]) (auto simp: len new)
    next
      case False
      have n': "n < ?n" using n g(1) False new by (cases "n = ?n") (auto simp: len)
      with g have "op_generation (sq_steps s ! n) = Some g" "\<not> gn_settled (sq_gens s ! g)" by (simp_all add: old settled)
      with parts(6) n' obtain k l' where k: "map_of (sq_lanes s) (op_id (sq_steps s ! n)) = Some l'" "k < ?n" "n \<le> k"
          "op_id (sq_steps s ! k) = op_id (sq_steps s ! n)"
          "op_generation (sq_steps s ! k) \<noteq> None" "ln_current (sq_heap s ! l') = op_generation (sq_steps s ! k)"
        unfolding last_inv_def by metis
      have lt: "l' < length (sq_heap s)" using parts(1) k(1) by (auto simp: mapped_inv_def)
      have "map_of (sq_lanes t) (op_id (sq_steps s ! n)) = Some l' \<and> ln_current (sq_heap t ! l') = op_generation (sq_steps s ! k)"
      proof (cases "op_id (sq_steps s ! n) = i")
        case True
        with l k(1) have "l' = l" "ln = sq_heap s ! l" by (simp_all add: lane_for_def)
        moreover from True False n' have "gen = None" by (simp add: old)
        ultimately show ?thesis using True lmap heap k(6) by simp
      next
        case other: False
        have "l' \<noteq> l" using other k(1) lt l parts(1) by (auto simp: lane_for_def mapped_inv_def split: option.splits)
        with other k(1,6) lt show ?thesis by (auto simp: t enqueue_def heap_put_def nth_append)
      qed
      with k(2-5) n' show ?thesis by (intro exI[of _ l'] conjI exI[of _ k]) (simp_all add: old len)
    qed
  qed
  ultimately show ?thesis by (simp add: single_inv_def t)
qed (simp add: single_inv_def)

lemma settleStart_single_inv:
  assumes inv: "lanes_inv s" "single_inv s" and n: "ready s n"
  shows "single_inv (settleStart n s)"
proof (cases "sq_stopped s")
  case False
  obtain t where t: "t = settleStart n s" by blast
  from inv False have parts: "steps_inv s" "wait_inv s" "settled_inv s" "last_inv s" by (simp_all add: lanes_inv_def single_inv_def)
  from n have nn: "n < length (sq_steps s)" "\<not> op_started (sq_steps s ! n)" by (simp_all add: ready_def)
  have len: "length (sq_steps t) = length (sq_steps s)" and gens: "sq_gens t = sq_gens s" by (simp_all add: t)
  have same: "op_id (sq_steps t ! m) = op_id (sq_steps s ! m)" "op_generation (sq_steps t ! m) = op_generation (sq_steps s ! m)"
      "op_wait (sq_steps t ! m) = op_wait (sq_steps s ! m)" "op_started (sq_steps t ! m) = (m = n \<or> op_started (sq_steps s ! m))"
    if "m < length (sq_steps s)" for m
    using that nn(1) by (simp_all add: t settleStart_same)
  have "wait_inv t" unfolding wait_inv_def
  proof (intro allI impI, elim conjE)
    fix k m g assume k: "k < length (sq_steps t)" "op_generation (sq_steps t ! k) \<noteq> None" "\<not> op_started (sq_steps t ! k)"
      and m: "m < k" "op_id (sq_steps t ! m) = op_id (sq_steps t ! k)"
        "op_generation (sq_steps t ! m) = Some g" "\<not> gn_settled (sq_gens t ! g)"
    from k(1) m(1) have l: "k < length (sq_steps s)" "m < length (sq_steps s)" by (simp_all add: len)
    obtain p where "p < k" "op_id (sq_steps s ! p) = op_id (sq_steps s ! k)" "m \<le> p"
        "op_generation (sq_steps s ! p) = op_wait (sq_steps s ! k)" "op_wait (sq_steps s ! k) \<noteq> None"
      using parts(2)[unfolded wait_inv_def, rule_format, of k m g] k m l by (auto simp: same gens)
    with l show "\<exists>p < k. op_id (sq_steps t ! p) = op_id (sq_steps t ! k) \<and> m \<le> p \<and>
             op_generation (sq_steps t ! p) = op_wait (sq_steps t ! k) \<and> op_wait (sq_steps t ! k) \<noteq> None"
      by (intro exI[of _ p]) (simp add: same)
  qed
  moreover have "settled_inv t" unfolding settled_inv_def
  proof (intro allI impI, elim conjE)
    fix k m g assume k: "k < length (sq_steps t)" "op_generation (sq_steps t ! k) \<noteq> None" "op_started (sq_steps t ! k)"
      and m: "m < k" "op_id (sq_steps t ! m) = op_id (sq_steps t ! k)" "op_generation (sq_steps t ! m) = Some g"
    from k(1) m(1) have l: "k < length (sq_steps s)" "m < length (sq_steps s)" by (simp_all add: len)
    show "gn_settled (sq_gens t ! g)"
    proof (cases "k = n")
      case True
      with k m l ready_settled[OF inv(1) parts(2,3) n False, of m g] show ?thesis by (simp add: same gens)
    next
      case False
      with parts(3)[unfolded settled_inv_def, rule_format, of k m g] k m l show ?thesis by (simp add: same gens)
    qed
  qed
  moreover have "last_inv t" unfolding last_inv_def
  proof (intro allI impI, elim conjE)
    fix m g assume "m < length (sq_steps t)" and g: "op_generation (sq_steps t ! m) = Some g" "\<not> gn_settled (sq_gens t ! g)"
    then have m: "m < length (sq_steps s)" by (simp add: len)
    with g parts(4) obtain k l where k: "map_of (sq_lanes s) (op_id (sq_steps s ! m)) = Some l" "k < length (sq_steps s)" "m \<le> k"
        "op_id (sq_steps s ! k) = op_id (sq_steps s ! m)"
        "op_generation (sq_steps s ! k) \<noteq> None" "ln_current (sq_heap s ! l) = op_generation (sq_steps s ! k)"
      unfolding last_inv_def by (metis gens same(2))
    have "l < length (sq_heap s)" using inv(1) k(1) by (auto simp: lanes_inv_def mapped_inv_def)
    then have cur: "ln_current (sq_heap t ! l) = ln_current (sq_heap s ! l)" by (simp add: t settleStart_heap)
    have "map_of (sq_lanes t) (op_id (sq_steps s ! m)) = Some l"
      using k(1,5,6) cur by (auto simp: t settle_lanes Let_def)
    with k m cur show "\<exists>l. map_of (sq_lanes t) (op_id (sq_steps t ! m)) = Some l \<and>
        (\<exists>k < length (sq_steps t). m \<le> k \<and> op_id (sq_steps t ! k) = op_id (sq_steps t ! m) \<and>
           op_generation (sq_steps t ! k) \<noteq> None \<and> ln_current (sq_heap t ! l) = op_generation (sq_steps t ! k))"
      by (intro exI[of _ l] conjI exI[of _ k]) (simp_all add: same len)
  qed
  ultimately show ?thesis by (simp add: single_inv_def t)
qed (simp add: single_inv_def)

lemma settle_own_single_inv:
  assumes inv: "lanes_inv s" "single_inv s" and n: "n < length (sq_steps s)" "op_started (sq_steps s ! n)"
  shows "single_inv (settle_own n s)"
proof (cases "sq_stopped s \<or> op_generation (sq_steps s ! n) = None")
  case True
  with inv(2) show ?thesis by (auto simp: single_inv_def settle_own_def Let_def split: option.split)
next
  case False
  then obtain g where run: "\<not> sq_stopped s" and g: "op_generation (sq_steps s ! n) = Some g" by blast
  let ?l = "op_lane (sq_steps s ! n)" and ?i = "op_id (sq_steps s ! n)"
  obtain t where t: "t = settleGeneration ?l ?i g s" by blast
  from inv run have parts: "generations_inv s" "wait_inv s" "settled_inv s" "last_inv s" by (simp_all add: lanes_inv_def single_inv_def)
  have steps: "sq_steps t = sq_steps s" by (simp add: t)
  have gens: "\<not> gn_settled (sq_gens t ! h) \<Longrightarrow> h \<noteq> g \<and> \<not> gn_settled (sq_gens s ! h)" for h
  proof -
    have "g < length (sq_gens s)" using inv(1) n(1) g by (auto simp: lanes_inv_def steps_inv_def)
    then show "\<not> gn_settled (sq_gens t ! h) \<Longrightarrow> h \<noteq> g \<and> \<not> gn_settled (sq_gens s ! h)"
      by (cases "h = g") (simp_all add: t)
  qed
  have "wait_inv t" using parts(2) gens unfolding wait_inv_def steps by blast
  moreover have "settled_inv t" using parts(3) gens unfolding settled_inv_def steps by blast
  moreover have "last_inv t" unfolding last_inv_def
  proof (intro allI impI, elim conjE)
    fix m h assume "m < length (sq_steps t)" and h: "op_generation (sq_steps t ! m) = Some h" "\<not> gn_settled (sq_gens t ! h)"
    then have m: "m < length (sq_steps s)" "op_generation (sq_steps s ! m) = Some h" "h \<noteq> g" "\<not> gn_settled (sq_gens s ! h)"
      using gens by (simp_all add: steps)
    with parts(4) obtain k l where k: "map_of (sq_lanes s) (op_id (sq_steps s ! m)) = Some l" "k < length (sq_steps s)" "m \<le> k"
        "op_id (sq_steps s ! k) = op_id (sq_steps s ! m)"
        "op_generation (sq_steps s ! k) \<noteq> None" "ln_current (sq_heap s ! l) = op_generation (sq_steps s ! k)"
      unfolding last_inv_def by metis
    have l: "l < length (sq_heap s)" using inv(1) k(1) by (auto simp: lanes_inv_def mapped_inv_def)
    have "op_generation (sq_steps s ! k) \<noteq> Some g"
    proof
      assume kg: "op_generation (sq_steps s ! k) = Some g"
      then have kn: "k = n" using parts(1) k(2) n(1) g by (simp add: generations_inv_def)
      then have "m < n" using k(3) m(2,3) g by (cases "m = n") auto
      moreover have "op_id (sq_steps s ! m) = op_id (sq_steps s ! n)" using k(4) kn by simp
      ultimately show False using parts(3)[unfolded settled_inv_def, rule_format, of n m h] n g m(2,4) by simp
    qed
    then have cur: "ln_current (sq_heap t ! l) = op_generation (sq_steps s ! k)"
      using k(6) l by (simp add: t settleGeneration_heap)
    have "map_of (sq_lanes t) (op_id (sq_steps s ! m)) = Some l"
      using k(1,5) cur by (auto simp: t settle_lanes Let_def)
    with k cur show "\<exists>l. map_of (sq_lanes t) (op_id (sq_steps t ! m)) = Some l \<and>
        (\<exists>k < length (sq_steps t). m \<le> k \<and> op_id (sq_steps t ! k) = op_id (sq_steps t ! m) \<and>
           op_generation (sq_steps t ! k) \<noteq> None \<and> ln_current (sq_heap t ! l) = op_generation (sq_steps t ! k))"
      by (intro exI[of _ l] conjI exI[of _ k]) (simp_all add: steps)
  qed
  moreover have "settle_own n s = t" by (simp add: settle_own_def g t Let_def)
  ultimately show ?thesis by (simp add: single_inv_def)
qed

lemma single_inv_view:
  "sq_lanes t = sq_lanes s \<Longrightarrow> sq_heap t = sq_heap s \<Longrightarrow> sq_steps t = sq_steps s \<Longrightarrow> sq_gens t = sq_gens s \<Longrightarrow>
     sq_stopped t = sq_stopped s \<Longrightarrow> single_inv t = single_inv s"
  by (simp only: single_inv_def wait_inv_def settled_inv_def last_inv_def)

lemma route_single_inv: "lanes_inv s \<Longrightarrow> single_inv s \<Longrightarrow> single_inv (route i type frame s)"
proof -
  assume inv: "lanes_inv s" "single_inv s"
  have "single_inv (routeSubscribe i frame s)"
  proof (rule routeSubscribe_cases[of s i frame])
    fix l ln assume l: "lane_for s i l ln"
    show ?thesis if "routeSubscribe i frame s = enqueue i frame l ln None None (sq_gens s) s"
      unfolding that by (rule enqueue_single_inv[OF inv l]) simp_all
    show ?thesis if "routeSubscribe i frame s = enqueue i frame l ln (unsettled_current s ln) (Some (length (sq_gens s)))
         (sq_gens s @ [\<lparr>gn_settled = False, gn_completed = False\<rparr>]) s"
      unfolding that by (rule enqueue_single_inv[OF inv l]) simp_all
  qed
  moreover have "single_inv (routeComplete i frame s)"
  proof (rule routeComplete_cases[of s i frame])
    assume "routeComplete i frame s = s\<lparr>sq_calls := Suc (sq_calls s), sq_log := sq_log s @ [(sq_calls s, i, frame)]\<rparr>"
    then show ?thesis using single_inv_view[of "routeComplete i frame s" s] inv(2) by simp
  next
    fix l ln gens assume "lane_for s i l ln" "gens_for s None gens" "routeComplete i frame s = enqueue i frame l ln None None gens s"
    then show ?thesis using enqueue_single_inv[OF inv, of i l ln None gens None] by simp
  qed
  ultimately show ?thesis by (simp add: route_def)
qed

lemma run_single_inv:
  assumes "lanes_inv s" "single_inv s" "ready s n"
  shows "single_inv (run_operation n throws s)"
proof -
  obtain log where log: "log = (if sq_stopped s then sq_log s else
      sq_log s @ [(op_call (sq_steps s ! n), op_id (sq_steps s ! n), op_frame (sq_steps s ! n))])" by blast
  let ?s = "s\<lparr>sq_log := log\<rparr>"
  from assms have n: "n < length (sq_steps s)" "\<not> op_started (sq_steps s ! n)" by (simp_all add: ready_def)
  have "single_inv ?s" using single_inv_view[of ?s s] assms(2) by simp
  moreover have "ready ?s n" using assms(3) by (simp add: ready_def cong: option.case_cong)
  ultimately have "single_inv (settleStart n ?s)" using settleStart_single_inv[of ?s n] assms(1) by (simp add: lanes_inv_log)
  moreover have "lanes_inv (settleStart n ?s)" using settleStart_lanes_inv[of ?s n] n assms(1) by (simp add: lanes_inv_log)
  ultimately show ?thesis using n
    unfolding run_operation_eq Let_def log[symmetric] by (auto intro!: settle_own_single_inv started_settleStart)
qed

section \<open>Nothing is lost or waits for ever\<close>

text \<open>A step waits for the generation of an earlier step; until a stop, every started step has been delivered.\<close>

definition delivered_inv :: "sequencer \<Rightarrow> bool" where
  "delivered_inv s \<longleftrightarrow>
     (\<forall>n < length (sq_steps s). \<forall>h. op_wait (sq_steps s ! n) = Some h \<longrightarrow> (\<exists>p < n. op_generation (sq_steps s ! p) = Some h)) \<and>
     (sq_stopped s \<or> (\<forall>n < length (sq_steps s). op_started (sq_steps s ! n) \<longrightarrow>
        (op_call (sq_steps s ! n), op_id (sq_steps s ! n), op_frame (sq_steps s ! n)) \<in> set (sq_log s)))"

lemma delivered_invD:
  "delivered_inv s \<Longrightarrow> n < length (sq_steps s) \<Longrightarrow> op_wait (sq_steps s ! n) = Some h \<Longrightarrow>
     \<exists>p < n. op_generation (sq_steps s ! p) = Some h"
  unfolding delivered_inv_def by blast

lemma enqueue_delivered_inv:
  assumes "delivered_inv s" and "\<And>h. wait = Some h \<Longrightarrow> \<exists>p < length (sq_steps s). op_generation (sq_steps s ! p) = Some h"
  shows "delivered_inv (enqueue i frame l ln wait gen gens s)"
proof -
  let ?t = "enqueue i frame l ln wait gen gens s"
  have old: "m < length (sq_steps s) \<Longrightarrow> sq_steps ?t ! m = sq_steps s ! m" for m by (simp add: enqueue_steps nth_append)
  have new: "op_wait (sq_steps ?t ! length (sq_steps s)) = wait" "\<not> op_started (sq_steps ?t ! length (sq_steps s))"
    by (simp_all add: enqueue_steps)
  have len: "length (sq_steps ?t) = Suc (length (sq_steps s))" by (simp add: enqueue_steps)
  have "\<exists>p < n. op_generation (sq_steps ?t ! p) = Some h" if n: "n < length (sq_steps ?t)" "op_wait (sq_steps ?t ! n) = Some h" for n h
  proof (cases "n = length (sq_steps s)")
    case True
    with n(2) have "wait = Some h" by (simp add: new)
    from assms(2)[OF this] show ?thesis unfolding True by (metis old)
  next
    case False
    with n have n': "n < length (sq_steps s)" by (simp add: len)
    moreover from n(2) n' have "op_wait (sq_steps s ! n) = Some h" by (simp add: old)
    ultimately obtain p where "p < n" "op_generation (sq_steps s ! p) = Some h" using delivered_invD[OF assms(1)] by blast
    with n' show ?thesis by (intro exI[of _ p]) (simp add: old)
  qed
  moreover have "sq_stopped s \<or> (op_call (sq_steps ?t ! n), op_id (sq_steps ?t ! n), op_frame (sq_steps ?t ! n)) \<in> set (sq_log s)"
    if n: "n < length (sq_steps ?t)" "op_started (sq_steps ?t ! n)" for n
  proof -
    have "n < length (sq_steps s)" using n new by (cases "n = length (sq_steps s)") (simp_all add: len)
    with assms(1) n(2) show ?thesis by (auto simp: delivered_inv_def old)
  qed
  ultimately show ?thesis unfolding delivered_inv_def enqueue_simps by blast
qed

lemma unsettled_current_step:
  assumes "lanes_inv s" "lane_for s i l ln" "unsettled_current s ln = Some h"
  shows "\<exists>p < length (sq_steps s). op_generation (sq_steps s ! p) = Some h"
proof -
  have cur: "ln_current ln = Some h" using unsettled_current_SomeD[OF assms(3)] by blast
  with assms(2) have "map_of (sq_lanes s) i = Some l" "ln = sq_heap s ! l" by (auto simp: lane_for_def split: option.splits)
  moreover have "mapped_inv s" "current_inv s" using assms(1) by (simp_all add: lanes_inv_def)
  ultimately have "l < length (sq_heap s)" "ln_current (sq_heap s ! l) = Some h" using cur by (auto simp: mapped_inv_def)
  with \<open>current_inv s\<close> show ?thesis unfolding current_inv_def by blast
qed

lemma route_delivered_inv: "lanes_inv s \<Longrightarrow> delivered_inv s \<Longrightarrow> delivered_inv (route i type frame s)"
proof -
  assume inv: "lanes_inv s" "delivered_inv s"
  have "delivered_inv (routeSubscribe i frame s)"
  proof (rule routeSubscribe_cases[of s i frame])
    fix l ln assume l: "lane_for s i l ln"
    show ?thesis if "routeSubscribe i frame s = enqueue i frame l ln None None (sq_gens s) s"
      unfolding that by (rule enqueue_delivered_inv[OF inv(2)]) simp
    show ?thesis if "routeSubscribe i frame s = enqueue i frame l ln (unsettled_current s ln) (Some (length (sq_gens s)))
         (sq_gens s @ [\<lparr>gn_settled = False, gn_completed = False\<rparr>]) s"
      unfolding that using unsettled_current_step[OF inv(1) l] by (rule enqueue_delivered_inv[OF inv(2)])
  qed
  moreover have "delivered_inv (routeComplete i frame s)"
  proof (rule routeComplete_cases[of s i frame])
    assume "routeComplete i frame s = s\<lparr>sq_calls := Suc (sq_calls s), sq_log := sq_log s @ [(sq_calls s, i, frame)]\<rparr>"
    then show ?thesis using inv(2) by (auto simp: delivered_inv_def)
  next
    fix l ln gens assume "routeComplete i frame s = enqueue i frame l ln None None gens s"
    then show ?thesis using enqueue_delivered_inv[OF inv(2), of None] by simp
  qed
  ultimately show ?thesis by (simp add: route_def)
qed

lemma settle_own_steps [simp]: "sq_steps (settle_own n s) = sq_steps s" "sq_log (settle_own n s) = sq_log s"
  "sq_stopped (settle_own n s) = sq_stopped s"
  by (auto simp: settle_own_def Let_def split: option.split)

lemma settle_own_delivered_inv: "delivered_inv s \<Longrightarrow> delivered_inv (settle_own n s)"
  by (simp add: delivered_inv_def)

lemma run_delivered_inv:
  assumes "delivered_inv s" "ready s n"
  shows "delivered_inv (run_operation n throws s)"
proof -
  have nn: "n < length (sq_steps s)" using assms(2) by (simp add: ready_def)
  obtain t where t: "t = run_operation n throws s" by blast
  have log: "sq_log t = (if sq_stopped s then sq_log s else
      sq_log s @ [(op_call (sq_steps s ! n), op_id (sq_steps s ! n), op_frame (sq_steps s ! n))])"
    and stop: "sq_stopped t = sq_stopped s" and len: "length (sq_steps t) = length (sq_steps s)"
    by (simp_all add: t run_operation_eq Let_def)
  have "sq_steps t = (sq_steps s)[n := (sq_steps s ! n)\<lparr>op_started := True\<rparr>]"
    by (simp add: t run_operation_eq Let_def settleStart_steps)
  then have same: "sq_steps t ! m = (if m = n then (sq_steps s ! m)\<lparr>op_started := True\<rparr> else sq_steps s ! m)"
    if "m < length (sq_steps s)" for m using that nn by (simp add: nth_list_update)
  have "\<exists>p < m. op_generation (sq_steps t ! p) = Some h" if m: "m < length (sq_steps s)" "op_wait (sq_steps t ! m) = Some h" for m h
  proof -
    have "op_wait (sq_steps s ! m) = Some h" using m by (simp add: same split: if_splits)
    from delivered_invD[OF assms(1) m(1) this] obtain p where p: "p < m" "op_generation (sq_steps s ! p) = Some h" by blast
    with m(1) have "op_generation (sq_steps t ! p) = Some h" by (auto simp: same)
    with p(1) show ?thesis by blast
  qed
  moreover have "sq_stopped s \<or> (op_call (sq_steps t ! m), op_id (sq_steps t ! m), op_frame (sq_steps t ! m)) \<in> set (sq_log t)"
    if "m < length (sq_steps s)" "op_started (sq_steps t ! m)" for m
    using that assms(1) by (auto simp: same log delivered_inv_def split: if_splits)
  ultimately show ?thesis unfolding t[symmetric] delivered_inv_def len stop by blast
qed

section \<open>The sequencer\<close>

definition seq_inv :: "sequencer \<Rightarrow> bool" where
  "seq_inv s \<longleftrightarrow> order_inv s \<and> single_inv s \<and> delivered_inv s"

interpretation sequencer_system: invariant_system new_sequencer seq_step seq_inv
proof
  have "sq_steps new_sequencer = []" by (simp add: new_sequencer_def)
  then show "seq_inv new_sequencer"
    by (simp add: seq_inv_def order_inv_new single_inv_def wait_inv_def settled_inv_def last_inv_def delivered_inv_def)
  fix s t assume "seq_inv s" and step: "seq_step s t"
  then have inv: "order_inv s" "lanes_inv s" "single_inv s" "delivered_inv s" by (simp_all add: seq_inv_def order_inv_def)
  have "single_inv t"
    using step
  proof cases
    case sq_cancel
    then show ?thesis using inv(3) by (simp add: cancel_sequencer_def single_inv_def split: if_splits)
  qed (use inv(2,3) in \<open>auto simp: live_def intro: route_single_inv run_single_inv settle_own_single_inv\<close>)
  moreover have "delivered_inv t"
    using step
  proof cases
    case sq_cancel
    then show ?thesis using inv(4) by (simp add: cancel_sequencer_def delivered_inv_def split: if_splits)
  qed (use inv(2,4) in \<open>auto intro: route_delivered_inv run_delivered_inv settle_own_delivered_inv\<close>)
  ultimately show "seq_inv t" using order_inv_step[OF inv(1) step] by (simp add: seq_inv_def)
qed

text \<open>A run: a subscription is delivered, completed, and its identifier reused before its delivery has ended.\<close>

definition reuse_run :: sequencer where
  "reuse_run = route ''x'' Subscribe ''B'' (run_operation 1 False (route ''x'' Complete ''cA''
     (run_operation 0 False (route ''x'' Subscribe ''A'' new_sequencer))))"

lemma reuse_first: "route ''x'' Subscribe ''A'' new_sequencer =
  \<lparr>sq_lanes = [(''x'', 0)], sq_heap = [\<lparr>ln_tail = Some 0, ln_pending = 1, ln_current = Some 0\<rparr>],
   sq_steps = [\<lparr>op_call = 0, op_id = ''x'', op_frame = ''A'', op_lane = 0, op_prior = None, op_wait = None,
     op_generation = Some 0, op_started = False\<rparr>],
   sq_gens = [\<lparr>gn_settled = False, gn_completed = False\<rparr>], sq_stopped = False, sq_calls = 1, sq_log = []\<rparr>"
  by (simp add: route_def routeSubscribe_def enqueue_def heap_put_def unsettled_current_def new_sequencer_def)

lemma reuse_second: "run_operation 0 False (route ''x'' Subscribe ''A'' new_sequencer) =
  \<lparr>sq_lanes = [(''x'', 0)], sq_heap = [\<lparr>ln_tail = Some 0, ln_pending = 0, ln_current = Some 0\<rparr>],
   sq_steps = [\<lparr>op_call = 0, op_id = ''x'', op_frame = ''A'', op_lane = 0, op_prior = None, op_wait = None,
     op_generation = Some 0, op_started = True\<rparr>],
   sq_gens = [\<lparr>gn_settled = False, gn_completed = False\<rparr>], sq_stopped = False, sq_calls = 1, sq_log = [(0, ''x'', ''A'')]\<rparr>"
  unfolding reuse_first by (simp add: run_operation_def settleStart_def reap_def Let_def)

lemma reuse_third: "route ''x'' Complete ''cA'' (run_operation 0 False (route ''x'' Subscribe ''A'' new_sequencer)) =
  \<lparr>sq_lanes = [(''x'', 0)], sq_heap = [\<lparr>ln_tail = Some 1, ln_pending = 1, ln_current = Some 0\<rparr>],
   sq_steps = [\<lparr>op_call = 0, op_id = ''x'', op_frame = ''A'', op_lane = 0, op_prior = None, op_wait = None,
     op_generation = Some 0, op_started = True\<rparr>,
     \<lparr>op_call = 1, op_id = ''x'', op_frame = ''cA'', op_lane = 0, op_prior = Some 0, op_wait = None,
     op_generation = None, op_started = False\<rparr>],
   sq_gens = [\<lparr>gn_settled = False, gn_completed = True\<rparr>], sq_stopped = False, sq_calls = 2, sq_log = [(0, ''x'', ''A'')]\<rparr>"
  unfolding reuse_second by (simp add: route_def routeComplete_def enqueue_def heap_put_def unsettled_current_def Let_def)

lemma reuse_fourth: "run_operation 1 False (route ''x'' Complete ''cA'' (run_operation 0 False (route ''x'' Subscribe ''A'' new_sequencer))) =
  \<lparr>sq_lanes = [(''x'', 0)], sq_heap = [\<lparr>ln_tail = Some 1, ln_pending = 0, ln_current = Some 0\<rparr>],
   sq_steps = [\<lparr>op_call = 0, op_id = ''x'', op_frame = ''A'', op_lane = 0, op_prior = None, op_wait = None,
     op_generation = Some 0, op_started = True\<rparr>,
     \<lparr>op_call = 1, op_id = ''x'', op_frame = ''cA'', op_lane = 0, op_prior = Some 0, op_wait = None,
     op_generation = None, op_started = True\<rparr>],
   sq_gens = [\<lparr>gn_settled = False, gn_completed = True\<rparr>], sq_stopped = False, sq_calls = 2,
   sq_log = [(0, ''x'', ''A''), (1, ''x'', ''cA'')]\<rparr>"
  unfolding reuse_third by (simp add: run_operation_def settleStart_def reap_def Let_def)

lemma reuse_run_eq: "reuse_run =
  \<lparr>sq_lanes = [(''x'', 0)], sq_heap = [\<lparr>ln_tail = Some 2, ln_pending = 1, ln_current = Some 1\<rparr>],
   sq_steps = [\<lparr>op_call = 0, op_id = ''x'', op_frame = ''A'', op_lane = 0, op_prior = None, op_wait = None,
     op_generation = Some 0, op_started = True\<rparr>,
     \<lparr>op_call = 1, op_id = ''x'', op_frame = ''cA'', op_lane = 0, op_prior = Some 0, op_wait = None,
     op_generation = None, op_started = True\<rparr>,
     \<lparr>op_call = 2, op_id = ''x'', op_frame = ''B'', op_lane = 0, op_prior = Some 1, op_wait = Some 0,
     op_generation = Some 1, op_started = False\<rparr>],
   sq_gens = [\<lparr>gn_settled = False, gn_completed = True\<rparr>, \<lparr>gn_settled = False, gn_completed = False\<rparr>],
   sq_stopped = False, sq_calls = 3, sq_log = [(0, ''x'', ''A''), (1, ''x'', ''cA'')]\<rparr>"
  unfolding reuse_run_def reuse_fourth by (simp add: route_def routeSubscribe_def enqueue_def heap_put_def unsettled_current_def Let_def numeral_2_eq_2)

lemma reuse_run_reachable: "reach new_sequencer seq_step reuse_run"
proof -
  have one: "reach new_sequencer seq_step (route ''x'' Subscribe ''A'' new_sequencer)"
    by (rule reach_one, rule sq_route)
  have two: "reach new_sequencer seq_step (run_operation 0 False (route ''x'' Subscribe ''A'' new_sequencer))"
    by (rule reach_step[OF one], rule sq_run, unfold reuse_first, simp add: ready_def)
  have three: "reach new_sequencer seq_step (route ''x'' Complete ''cA'' (run_operation 0 False (route ''x'' Subscribe ''A'' new_sequencer)))"
    by (rule reach_step[OF two], rule sq_route)
  have four: "reach new_sequencer seq_step (run_operation 1 False (route ''x'' Complete ''cA'' (run_operation 0 False
      (route ''x'' Subscribe ''A'' new_sequencer))))"
    by (rule reach_step[OF three], rule sq_run, unfold reuse_third, simp add: ready_def)
  show ?thesis unfolding reuse_run_def by (rule reach_step[OF four], rule sq_route)
qed

text \<open>
  Until the sequencer is stopped, an identifier has at most one live subscription with a generation of its own: a
  subscription that reuses an identifier is delivered only when those before it have ended.
\<close>

lemma one_live:
  assumes "reach new_sequencer seq_step s" "\<not> sq_stopped s" "live s m" "live s n"
    and "op_id (sq_steps s ! m) = op_id (sq_steps s ! n)"
  shows "m = n"
proof -
  have "seq_inv s" using assms(1) by (rule sequencer_system.inv_reach)
  then have settled: "settled_inv s" using assms(2) by (simp add: seq_inv_def single_inv_def)
  have "\<not> a < b" if "live s a" "live s b" "op_id (sq_steps s ! a) = op_id (sq_steps s ! b)" for a b
  proof
    assume ab: "a < b"
    from that obtain g h where "op_generation (sq_steps s ! a) = Some g" "\<not> gn_settled (sq_gens s ! g)"
        "op_generation (sq_steps s ! b) = Some h" "op_started (sq_steps s ! b)" "b < length (sq_steps s)"
      by (auto simp: live_def split: option.splits)
    with settled[unfolded settled_inv_def, rule_format, of b a g] ab that(3) show False by simp
  qed
  from this[OF assms(3,4,5)] this[OF assms(4,3) assms(5)[symmetric]] show ?thesis by simp
qed



text \<open>What the steps and the environment can do without any further routing: run a step, end a delivery.\<close>

inductive drains :: "sequencer \<Rightarrow> sequencer \<Rightarrow> bool" where
  drain_run: "ready s n \<Longrightarrow> drains s (run_operation n throws s)"
| drain_end: "live s n \<Longrightarrow> drains s (settle_own n s)"

lemma drains_step: "drains s t \<Longrightarrow> seq_step s t"
  by (erule drains.cases) (auto intro: sq_run sq_ends)

definition work :: "sequencer \<Rightarrow> nat" where
  "work s = length (filter (\<lambda>x. \<not> op_started x) (sq_steps s)) + length (filter (\<lambda>g. \<not> gn_settled g) (sq_gens s))"

lemma filter_update_less:
  assumes "n < length xs" "P (xs ! n)" "\<not> P y"
  shows "length (filter P (xs[n := y])) < length (filter P xs)"
proof -
  have "count_if P (xs[n := y]) < count_if P xs" using assms by simp
  then show ?thesis by (simp add: count_if_def)
qed

lemma filter_update_le:
  assumes "\<not> P y"
  shows "length (filter P (xs[n := y])) \<le> length (filter P xs)"
proof (cases "n < length xs")
  case True
  then have "count_if P (xs[n := y]) \<le> count_if P xs" using assms by simp
  then show ?thesis by (simp add: count_if_def)
qed (simp add: list_update_beyond)

lemma settle_own_gens: "sq_gens (settle_own n s) = (case op_generation (sq_steps s ! n) of None \<Rightarrow> sq_gens s
    | Some g \<Rightarrow> (sq_gens s)[g := (sq_gens s ! g)\<lparr>gn_settled := True\<rparr>])"
  by (simp add: settle_own_def Let_def split: option.split)

lemma work_decreases:
  assumes inv: "seq_inv s" and step: "drains s t"
  shows "work t < work s"
  using step
proof cases
  case (drain_run n throws)
  have nn: "n < length (sq_steps s)" "\<not> op_started (sq_steps s ! n)" using drain_run(2) by (simp_all add: ready_def)
  have "sq_steps t = (sq_steps s)[n := (sq_steps s ! n)\<lparr>op_started := True\<rparr>]"
    by (simp add: drain_run(1) run_operation_eq Let_def settleStart_steps)
  then have "length (filter (\<lambda>x. \<not> op_started x) (sq_steps t)) < length (filter (\<lambda>x. \<not> op_started x) (sq_steps s))"
    using filter_update_less[OF nn(1), of "\<lambda>x. \<not> op_started x"] nn(2) by simp
  moreover have "length (filter (\<lambda>g. \<not> gn_settled g) (sq_gens t)) \<le> length (filter (\<lambda>g. \<not> gn_settled g) (sq_gens s))"
    by (auto simp: drain_run(1) run_operation_eq Let_def settle_own_gens intro!: filter_update_le split: option.split)
  ultimately show ?thesis by (simp add: work_def)
next
  case (drain_end n)
  from drain_end(2) obtain g where g: "n < length (sq_steps s)" "op_generation (sq_steps s ! n) = Some g" "\<not> gn_settled (sq_gens s ! g)"
    by (auto simp: live_def split: option.splits)
  then have "g < length (sq_gens s)" using inv by (auto simp: seq_inv_def order_inv_def lanes_inv_def steps_inv_def)
  then have "length (filter (\<lambda>g. \<not> gn_settled g) (sq_gens t)) < length (filter (\<lambda>g. \<not> gn_settled g) (sq_gens s))"
    using g filter_update_less[of g "sq_gens s" "\<lambda>g. \<not> gn_settled g"] by (simp add: drain_end(1) settle_own_gens)
  then show ?thesis by (simp add: work_def drain_end(1))
qed

lemma lane_has_work:
  assumes inv: "seq_inv s" and "sq_lanes s \<noteq> []"
  shows "\<exists>n < length (sq_steps s). \<not> op_started (sq_steps s ! n) \<or> live s n"
proof -
  from inv have parts: "mapped_inv s" "pending_inv s" "current_inv s" by (simp_all add: seq_inv_def order_inv_def lanes_inv_def)
  obtain i l where "map_of (sq_lanes s) i = Some l" using assms(2) by (cases "sq_lanes s") fastforce+
  with parts(1) have l: "l < length (sq_heap s)" "ln_pending (sq_heap s ! l) \<noteq> 0 \<or> ln_current (sq_heap s ! l) \<noteq> None"
    by (auto simp: mapped_inv_def)
  show ?thesis
  proof (cases "ln_current (sq_heap s ! l)")
    case None
    with l parts(2) have "count_if (\<lambda>x. op_lane x = l \<and> \<not> op_started x) (sq_steps s) \<noteq> 0" by (simp add: pending_inv_def)
    then show ?thesis unfolding count_if_zero_iff by (auto simp: in_set_conv_nth)
  next
    case (Some g)
    with parts(3) l(1) obtain n where "n < length (sq_steps s)" "op_generation (sq_steps s ! n) = Some g" "\<not> gn_settled (sq_gens s ! g)"
      unfolding current_inv_def by blast
    then show ?thesis by (auto simp: live_def)
  qed
qed

lemma drains_enabled:
  assumes inv: "seq_inv s" and "sq_lanes s \<noteq> []"
  shows "\<exists>t. drains s t"
proof (cases "\<exists>n. live s n")
  case True
  then show ?thesis by (blast intro: drain_end)
next
  case False
  with lane_has_work[OF assms] have ex: "\<exists>n. n < length (sq_steps s) \<and> \<not> op_started (sq_steps s ! n)" by blast
  obtain n where n: "n < length (sq_steps s)" "\<not> op_started (sq_steps s ! n)"
    and least: "\<And>m. m < n \<Longrightarrow> op_started (sq_steps s ! m)"
    using LeastI_ex[OF ex] not_less_Least[of _ "\<lambda>n. n < length (sq_steps s) \<and> \<not> op_started (sq_steps s ! n)"]
    by (metis (no_types, lifting) order.strict_trans)
  from inv have parts: "prior_inv s" "delivered_inv s" by (simp_all add: seq_inv_def order_inv_def)
  have "case op_prior (sq_steps s ! n) of None \<Rightarrow> True | Some p \<Rightarrow> op_started (sq_steps s ! p)"
    using parts(1)[unfolded prior_inv_def, rule_format, OF n(1)] least by (auto split: option.splits)
  moreover have "case op_wait (sq_steps s ! n) of None \<Rightarrow> True | Some h \<Rightarrow> gn_settled (sq_gens s ! h)"
  proof (cases "op_wait (sq_steps s ! n)")
    case (Some h)
    from delivered_invD[OF parts(2) n(1) Some] obtain p where p: "p < n" "op_generation (sq_steps s ! p) = Some h" by blast
    have "gn_settled (sq_gens s ! h)"
    proof (rule ccontr)
      assume "\<not> gn_settled (sq_gens s ! h)"
      with p n(1) least[of p] have "live s p" by (simp add: live_def)
      with False show False by blast
    qed
    with Some show ?thesis by simp
  qed simp
  ultimately have "ready s n" using n by (simp add: ready_def)
  then show ?thesis by (blast intro: drain_run)
qed



end
