(* ===== verification/Schedule_Coordination.thy ===== *)
theory Schedule_Coordination
  imports Cairn_Prelude
begin

text \<open>
  The coordination of scheduled runs between replicas, \<open>api/src/schedule-coordination.ts\<close>. The module's variables are a
  record. Its clients, probes and initialisations are objects with identity, numbered in order of creation; the events
  of the Redis client, the timers and the outcomes of commands are steps of the environment. The environment's settings
  (whether the messenger is Redis, its namespace, whether a client can be built) are arguments. Redis' \<open>ZADD\<close> with the
  flags \<open>GT CH\<close> is a parameter, as are the conversions between dates and their ISO texts.
\<close>

section \<open>State\<close>

datatype coordination_status = Uninitialized | Inactive | Coordination_Ready | Unavailable

datatype coordination_message = Message_Unavailable | Message_Recovered | Message_Invalid

text \<open>One run of \<open>runInit\<close>: its generation and whether its promise is settled (\<open>finish\<close>).\<close>

record init_run =
  in_generation :: nat
  in_done :: bool

text \<open>One \<open>attemptProbe\<close> past its guards, with the generations it captured.\<close>

record probe =
  pb_generation :: nat
  pb_initGeneration :: nat
  pb_pending :: bool

record coordination =
  sc_state :: coordination_status
  sc_client :: "nat option"
  sc_namespace :: "string option"
  sc_initPromise :: "nat option"
  sc_initGeneration :: nat
  sc_probeGeneration :: nat
  sc_connected :: bool
  sc_degraded :: bool
  sc_recovering :: bool
  sc_recoveryTimer :: "nat option"
  sc_recoveryAttempt :: nat
  sc_firstSettle :: "nat option"
  sc_clients :: nat
  sc_inits :: "init_run list"
  sc_probes :: "probe list"
  sc_logged :: "coordination_message list"

definition uninitialized :: coordination where
  "uninitialized = \<lparr>sc_state = Uninitialized, sc_client = None, sc_namespace = None, sc_initPromise = None,
     sc_initGeneration = 0, sc_probeGeneration = 0, sc_connected = False, sc_degraded = False, sc_recovering = False,
     sc_recoveryTimer = None, sc_recoveryAttempt = 0, sc_firstSettle = None, sc_clients = 0, sc_inits = [],
     sc_probes = [], sc_logged = []\<rparr>"

section \<open>Operations\<close>

definition clearRecoveryTimer :: "coordination \<Rightarrow> coordination" where
  "clearRecoveryTimer s = s\<lparr>sc_recoveryTimer := None\<rparr>"

definition markReady :: "coordination \<Rightarrow> coordination" where
  "markReady s =
     (let s1 = clearRecoveryTimer (s\<lparr>sc_state := Coordination_Ready, sc_recoveryAttempt := 0\<rparr>) in
      if sc_degraded s1 then s1\<lparr>sc_degraded := False, sc_logged := sc_logged s1 @ [Message_Recovered]\<rparr> else s1)"

definition markUnavailable :: "coordination \<Rightarrow> coordination" where
  "markUnavailable s =
     (let s1 = s\<lparr>sc_state := Unavailable\<rparr> in
      if \<not> sc_degraded s1 then s1\<lparr>sc_degraded := True, sc_logged := sc_logged s1 @ [Message_Unavailable]\<rparr> else s1)"

definition finish_init :: "nat \<Rightarrow> coordination \<Rightarrow> coordination" where
  "finish_init i s = s\<lparr>sc_inits := (sc_inits s)[i := (sc_inits s ! i)\<lparr>in_done := True\<rparr>]\<rparr>"

definition settle_first :: "coordination \<Rightarrow> coordination" where
  "settle_first s = (case sc_firstSettle s of None \<Rightarrow> s | Some i \<Rightarrow> finish_init i (s\<lparr>sc_firstSettle := None\<rparr>))"

definition settleInit :: "nat \<Rightarrow> coordination \<Rightarrow> coordination" where
  "settleInit generation s = (if generation \<noteq> sc_initGeneration s then s else settle_first s)"

definition scheduleRecovery :: "coordination \<Rightarrow> coordination" where
  "scheduleRecovery s =
     (if sc_recoveryTimer s \<noteq> None \<or> sc_recovering s \<or> \<not> sc_connected s then s
      else let attempt = Suc (sc_recoveryAttempt s) in
        s\<lparr>sc_recoveryTimer := Some (min (attempt * 50) 2000), sc_recoveryAttempt := attempt\<rparr>)"

definition attemptProbe :: "coordination \<Rightarrow> coordination" where
  "attemptProbe s =
     (if sc_recovering s \<or> \<not> sc_connected s then s
      else if sc_client s = None \<or> sc_namespace s = None then s
      else s\<lparr>sc_recovering := True, sc_probes := sc_probes s @ [\<lparr>pb_generation = sc_probeGeneration s,
        pb_initGeneration = sc_initGeneration s, pb_pending = True\<rparr>]\<rparr>)"

definition timer_fires :: "coordination \<Rightarrow> coordination" where
  "timer_fires s = attemptProbe (s\<lparr>sc_recoveryTimer := None\<rparr>)"

text \<open>The rest of \<open>attemptProbe\<close>, once the command or its deadline has answered.\<close>

definition probe_ends :: "nat \<Rightarrow> bool \<Rightarrow> coordination \<Rightarrow> coordination" where
  "probe_ends n succeeded s0 =
     (let p = sc_probes s0 ! n;
          s = s0\<lparr>sc_probes := (sc_probes s0)[n := p\<lparr>pb_pending := False\<rparr>]\<rparr>;
          s1 = (if pb_generation p = sc_probeGeneration s then (if succeeded then markReady s else markUnavailable s) else s);
          s2 = settleInit (pb_initGeneration p) s1
      in if pb_generation p = sc_probeGeneration s2
         then (let s3 = s2\<lparr>sc_recovering := False\<rparr> in
               if sc_state s3 \<noteq> Coordination_Ready \<and> sc_connected s3 then scheduleRecovery s3 else s3)
         else s2)"

definition onReady :: "nat \<Rightarrow> coordination \<Rightarrow> coordination" where
  "onReady target s =
     (if sc_client s \<noteq> Some target then s
      else attemptProbe (clearRecoveryTimer (s\<lparr>sc_connected := True, sc_recoveryAttempt := 0\<rparr>)))"

definition onDown :: "nat \<Rightarrow> coordination \<Rightarrow> coordination" where
  "onDown target s =
     (if sc_client s \<noteq> Some target then s
      else (let s1 = markUnavailable (clearRecoveryTimer (s\<lparr>sc_connected := False, sc_recovering := False,
                       sc_probeGeneration := Suc (sc_probeGeneration s)\<rparr>))
            in settleInit (sc_initGeneration s1) s1))"

definition runInit :: "string option \<Rightarrow> bool \<Rightarrow> coordination \<Rightarrow> coordination" where
  "runInit setting builds s =
     (let s1 = s\<lparr>sc_namespace := Some (case setting of Some ns \<Rightarrow> ns | None \<Rightarrow> ''cairncms'')\<rparr>; i = length (sc_inits s1) in
      if \<not> builds
      then s1\<lparr>sc_state := Unavailable, sc_degraded := True, sc_inits := sc_inits s1 @ [\<lparr>in_generation = sc_initGeneration s1, in_done = True\<rparr>],
             sc_logged := sc_logged s1 @ [Message_Invalid]\<rparr>
      else s1\<lparr>sc_client := Some (sc_clients s1), sc_firstSettle := Some i, sc_clients := Suc (sc_clients s1),
             sc_inits := sc_inits s1 @ [\<lparr>in_generation = sc_initGeneration s1, in_done = False\<rparr>]\<rparr>)"

definition initScheduleCoordination :: "bool \<Rightarrow> string option \<Rightarrow> bool \<Rightarrow> coordination \<Rightarrow> coordination" where
  "initScheduleCoordination enabled setting builds s =
     (if \<not> enabled then s\<lparr>sc_state := Inactive\<rparr>
      else if sc_state s = Coordination_Ready \<or> sc_state s = Unavailable then s
      else if sc_initPromise s \<noteq> None then s
      else (runInit setting builds s)\<lparr>sc_initPromise := Some (length (sc_inits s))\<rparr>)"

text \<open>The deadline of an initialisation, armed until its promise settles.\<close>

definition init_deadline :: "nat \<Rightarrow> coordination \<Rightarrow> coordination" where
  "init_deadline i s =
     finish_init i (if in_generation (sc_inits s ! i) = sc_initGeneration s \<and> sc_state s = Uninitialized
                    then markUnavailable s else s)"

text \<open>What the caller of a settled initialisation gets; \<open>None\<close> is the error that it was superseded.\<close>

definition init_result :: "nat \<Rightarrow> coordination \<Rightarrow> coordination_status option \<times> coordination" where
  "init_result i s =
     (if in_generation (sc_inits s ! i) \<noteq> sc_initGeneration s \<or> (sc_state s \<noteq> Coordination_Ready \<and> sc_state s \<noteq> Unavailable)
      then (None, s) else (Some (sc_state s), s\<lparr>sc_initPromise := None\<rparr>))"

definition getScheduleCoordinationStatus :: "bool \<Rightarrow> coordination \<Rightarrow> coordination_status" where
  "getScheduleCoordinationStatus enabled s =
     (if \<not> enabled then Inactive else if sc_state s = Uninitialized then Unavailable else sc_state s)"

definition destroyScheduleCoordination :: "coordination \<Rightarrow> coordination" where
  "destroyScheduleCoordination s =
     (let s1 = clearRecoveryTimer (s\<lparr>sc_initGeneration := Suc (sc_initGeneration s), sc_probeGeneration := Suc (sc_probeGeneration s),
                 sc_connected := False, sc_recovering := False, sc_recoveryAttempt := 0\<rparr>)
      in (settle_first s1)\<lparr>sc_client := None, sc_namespace := None, sc_state := Uninitialized, sc_initPromise := None,
           sc_degraded := False\<rparr>)"

section \<open>Claims\<close>

text \<open>\<open>parse\<close> is \<open>Date.parse\<close> where it is finite, \<open>toISO\<close> the \<open>toISOString\<close> of that time.\<close>

datatype should_run = Run_No | Run_Error "int option" | Run_Claim int

definition occurrence_suffix :: "string \<Rightarrow> string" where
  "occurrence_suffix key = drop (length key - 24) key"

definition shouldRun :: "(string \<Rightarrow> int option) \<Rightarrow> (int \<Rightarrow> string) \<Rightarrow> string \<Rightarrow> coordination \<Rightarrow> should_run" where
  "shouldRun parse toISO key s =
     (if sc_state s = Unavailable then Run_No
      else (let suffix = occurrence_suffix key in
            case parse suffix of
              None \<Rightarrow> Run_Error None
            | Some occurrence \<Rightarrow>
                if toISO occurrence \<noteq> suffix then Run_Error None
                else if sc_client s = None \<or> sc_namespace s = None then Run_Error (Some occurrence)
                else Run_Claim occurrence))"

definition claim_fails :: "coordination \<Rightarrow> coordination" where
  "claim_fails s = (if sc_connected s then scheduleRecovery (markUnavailable s) else s)"

section \<open>Steps\<close>

inductive coordination_step :: "bool \<Rightarrow> coordination \<Rightarrow> coordination \<Rightarrow> bool" for enabled where
  co_init: "coordination_step enabled s (initScheduleCoordination enabled setting builds s)"
| co_ready: "coordination_step enabled s (onReady target s)"
| co_down: "coordination_step enabled s (onDown target s)"
| co_timer: "sc_recoveryTimer s \<noteq> None \<Longrightarrow> coordination_step enabled s (timer_fires s)"
| co_probe: "n < length (sc_probes s) \<Longrightarrow> pb_pending (sc_probes s ! n) \<Longrightarrow> coordination_step enabled s (probe_ends n succeeded s)"
| co_deadline: "i < length (sc_inits s) \<Longrightarrow> \<not> in_done (sc_inits s ! i) \<Longrightarrow> coordination_step enabled s (init_deadline i s)"
| co_result: "i < length (sc_inits s) \<Longrightarrow> in_done (sc_inits s ! i) \<Longrightarrow> coordination_step enabled s (snd (init_result i s))"
| co_claim_fails: "coordination_step enabled s (claim_fails s)"
| co_destroy: "coordination_step enabled s (destroyScheduleCoordination s)"

section \<open>The invariant\<close>

text \<open>The probes that still count: pending, and of the current generation.\<close>

definition current_probes :: "coordination \<Rightarrow> int" where
  "current_probes s = count_if (\<lambda>p. pb_pending p \<and> pb_generation p = sc_probeGeneration s) (sc_probes s)"

definition decided :: "coordination \<Rightarrow> bool" where
  "decided s \<longleftrightarrow> sc_state s = Coordination_Ready \<or> sc_state s = Unavailable"

definition connection_inv :: "bool \<Rightarrow> coordination \<Rightarrow> bool" where
  "connection_inv enabled s \<longleftrightarrow>
     (sc_connected s \<longrightarrow> sc_client s \<noteq> None) \<and> (sc_client s \<noteq> None \<longrightarrow> sc_namespace s \<noteq> None) \<and>
     (sc_state s = Coordination_Ready \<longrightarrow> sc_connected s) \<and>
     (sc_recovering s \<longrightarrow> sc_connected s) \<and>
     current_probes s = (if sc_recovering s then 1 else 0) \<and>
     (sc_connected s \<and> sc_state s \<noteq> Coordination_Ready \<longrightarrow> sc_recoveryTimer s \<noteq> None \<or> sc_recovering s) \<and>
     (\<forall>d. sc_recoveryTimer s = Some d \<longrightarrow> sc_connected s \<and> 50 \<le> d \<and> d \<le> 2000) \<and>
     (\<not> enabled \<longrightarrow> sc_client s = None \<and> sc_inits s = [] \<and> sc_probes s = []) \<and>
     (enabled \<longrightarrow> sc_state s \<noteq> Inactive)"

definition init_inv :: "coordination \<Rightarrow> bool" where
  "init_inv s \<longleftrightarrow>
     (\<forall>p\<in>set (sc_probes s). pb_generation p \<le> sc_probeGeneration s \<and> pb_initGeneration p \<le> sc_initGeneration s \<and>
        (pb_pending p \<and> pb_initGeneration p = sc_initGeneration s \<and> pb_generation p \<noteq> sc_probeGeneration s \<longrightarrow> decided s)) \<and>
     (\<forall>r\<in>set (sc_inits s). in_generation r \<le> sc_initGeneration s \<and>
        (in_done r \<and> in_generation r = sc_initGeneration s \<longrightarrow> decided s)) \<and>
     (\<forall>i. sc_firstSettle s = Some i \<longrightarrow> i < length (sc_inits s) \<and> in_generation (sc_inits s ! i) = sc_initGeneration s)"

definition coordination_inv :: "bool \<Rightarrow> coordination \<Rightarrow> bool" where
  "coordination_inv enabled s \<longleftrightarrow> connection_inv enabled s \<and> init_inv s"

text \<open>What the helpers change.\<close>

lemma mark_simps [simp]:
  "sc_state (markReady s) = Coordination_Ready" "sc_state (markUnavailable s) = Unavailable"
  "sc_recoveryTimer (markReady s) = None" "sc_recoveryTimer (markUnavailable s) = sc_recoveryTimer s"
  "sc_recoveryAttempt (markUnavailable s) = sc_recoveryAttempt s"
  "sc_client (markReady s) = sc_client s" "sc_client (markUnavailable s) = sc_client s"
  "sc_namespace (markReady s) = sc_namespace s" "sc_namespace (markUnavailable s) = sc_namespace s"
  "sc_connected (markReady s) = sc_connected s" "sc_connected (markUnavailable s) = sc_connected s"
  "sc_recovering (markReady s) = sc_recovering s" "sc_recovering (markUnavailable s) = sc_recovering s"
  "sc_initGeneration (markReady s) = sc_initGeneration s" "sc_initGeneration (markUnavailable s) = sc_initGeneration s"
  "sc_probeGeneration (markReady s) = sc_probeGeneration s" "sc_probeGeneration (markUnavailable s) = sc_probeGeneration s"
  "sc_probes (markReady s) = sc_probes s" "sc_probes (markUnavailable s) = sc_probes s"
  "sc_inits (markReady s) = sc_inits s" "sc_inits (markUnavailable s) = sc_inits s"
  "sc_firstSettle (markReady s) = sc_firstSettle s" "sc_firstSettle (markUnavailable s) = sc_firstSettle s"
  by (simp_all add: markReady_def markUnavailable_def clearRecoveryTimer_def Let_def)

lemma settle_simps [simp]:
  "sc_state (settle_first s) = sc_state s" "sc_recoveryTimer (settle_first s) = sc_recoveryTimer s"
  "sc_recoveryAttempt (settle_first s) = sc_recoveryAttempt s"
  "sc_client (settle_first s) = sc_client s" "sc_namespace (settle_first s) = sc_namespace s"
  "sc_connected (settle_first s) = sc_connected s" "sc_recovering (settle_first s) = sc_recovering s"
  "sc_initGeneration (settle_first s) = sc_initGeneration s" "sc_probeGeneration (settle_first s) = sc_probeGeneration s"
  "sc_probes (settle_first s) = sc_probes s" "length (sc_inits (settle_first s)) = length (sc_inits s)"
  "sc_firstSettle (settle_first s) = None"
  by (auto simp: settle_first_def finish_init_def split: option.split)

lemma settleInit_simps [simp]:
  "sc_state (settleInit g s) = sc_state s" "sc_recoveryTimer (settleInit g s) = sc_recoveryTimer s"
  "sc_recoveryAttempt (settleInit g s) = sc_recoveryAttempt s"
  "sc_client (settleInit g s) = sc_client s" "sc_namespace (settleInit g s) = sc_namespace s"
  "sc_connected (settleInit g s) = sc_connected s" "sc_recovering (settleInit g s) = sc_recovering s"
  "sc_initGeneration (settleInit g s) = sc_initGeneration s" "sc_probeGeneration (settleInit g s) = sc_probeGeneration s"
  "sc_probes (settleInit g s) = sc_probes s"
  by (simp_all add: settleInit_def)

lemma settleInit_inits: "sc_inits s = [] \<Longrightarrow> sc_inits (settleInit g s) = []"
  by (auto simp: settleInit_def settle_first_def finish_init_def split: option.split)

lemma connection_inv_cong:
  "sc_state t = sc_state s \<Longrightarrow> sc_client t = sc_client s \<Longrightarrow> sc_namespace t = sc_namespace s \<Longrightarrow>
   sc_connected t = sc_connected s \<Longrightarrow> sc_recovering t = sc_recovering s \<Longrightarrow> sc_probes t = sc_probes s \<Longrightarrow>
   sc_probeGeneration t = sc_probeGeneration s \<Longrightarrow> sc_recoveryTimer t = sc_recoveryTimer s \<Longrightarrow>
   (sc_inits s = [] \<Longrightarrow> sc_inits t = []) \<Longrightarrow> connection_inv enabled s \<Longrightarrow> connection_inv enabled t"
  by (simp add: connection_inv_def current_probes_def)

lemma settleInit_connection: "connection_inv enabled s \<Longrightarrow> connection_inv enabled (settleInit g s)"
  by (rule connection_inv_cong[where s = s]) (simp_all add: settleInit_inits)

lemma finish_init_inv: "init_inv s \<Longrightarrow> decided s \<or> i \<ge> length (sc_inits s) \<or>
    in_generation (sc_inits s ! i) \<noteq> sc_initGeneration s \<Longrightarrow> init_inv (finish_init i s)"
proof -
  assume inv: "init_inv s" and i: "decided s \<or> i \<ge> length (sc_inits s) \<or> in_generation (sc_inits s ! i) \<noteq> sc_initGeneration s"
  have "in_generation r \<le> sc_initGeneration s \<and> (in_done r \<and> in_generation r = sc_initGeneration s \<longrightarrow> decided s)"
    if "r \<in> set (sc_inits (finish_init i s))" for r
  proof -
    from that have "r \<in> set (sc_inits s) \<or> (i < length (sc_inits s) \<and> r = (sc_inits s ! i)\<lparr>in_done := True\<rparr>)"
      by (cases "i < length (sc_inits s)") (auto simp: finish_init_def list_update_beyond dest: subsetD[OF set_update_subset_insert])
    with inv i show ?thesis by (auto simp: init_inv_def)
  qed
  moreover have "sc_firstSettle s = Some k \<Longrightarrow> k < length (sc_inits s) \<and>
      in_generation ((sc_inits s)[i := (sc_inits s ! i)\<lparr>in_done := True\<rparr>] ! k) = sc_initGeneration s" for k
    using inv by (cases "i = k") (auto simp: init_inv_def)
  ultimately show ?thesis using inv by (auto simp: init_inv_def finish_init_def decided_def)
qed

lemma settleInit_init_inv: "init_inv s \<Longrightarrow> decided s \<Longrightarrow> init_inv (settleInit g s)"
proof -
  assume inv: "init_inv s" and d: "decided s"
  have "init_inv (s\<lparr>sc_firstSettle := None\<rparr>)" using inv by (simp add: init_inv_def decided_def)
  with d inv show ?thesis
    by (auto simp: settleInit_def settle_first_def decided_def split: option.split intro!: finish_init_inv)
qed

lemma scheduleRecovery_simps [simp]:
  "sc_state (scheduleRecovery s) = sc_state s" "sc_client (scheduleRecovery s) = sc_client s"
  "sc_namespace (scheduleRecovery s) = sc_namespace s" "sc_connected (scheduleRecovery s) = sc_connected s"
  "sc_recovering (scheduleRecovery s) = sc_recovering s" "sc_probes (scheduleRecovery s) = sc_probes s"
  "sc_inits (scheduleRecovery s) = sc_inits s" "sc_firstSettle (scheduleRecovery s) = sc_firstSettle s"
  "sc_initGeneration (scheduleRecovery s) = sc_initGeneration s" "sc_probeGeneration (scheduleRecovery s) = sc_probeGeneration s"
  by (simp_all add: scheduleRecovery_def Let_def)

lemma scheduleRecovery_timer:
  "sc_recoveryTimer (scheduleRecovery s) = (if sc_recoveryTimer s \<noteq> None \<or> sc_recovering s \<or> \<not> sc_connected s
     then sc_recoveryTimer s else Some (min (Suc (sc_recoveryAttempt s) * 50) 2000))"
  by (simp add: scheduleRecovery_def Let_def)

lemma init_inv_cong:
  "sc_probes t = sc_probes s \<Longrightarrow> sc_inits t = sc_inits s \<Longrightarrow> sc_firstSettle t = sc_firstSettle s \<Longrightarrow>
   sc_initGeneration t = sc_initGeneration s \<Longrightarrow> sc_probeGeneration t = sc_probeGeneration s \<Longrightarrow>
   (decided s \<Longrightarrow> decided t) \<Longrightarrow> init_inv s \<Longrightarrow> init_inv t"
  by (auto simp: init_inv_def)

lemma claim_fails_inv: "coordination_inv enabled s \<Longrightarrow> coordination_inv enabled (claim_fails s)"
proof -
  assume "coordination_inv enabled s"
  then have inv: "connection_inv enabled s" "init_inv s" by (simp_all add: coordination_inv_def)
  have "init_inv (claim_fails s)"
    by (rule init_inv_cong[OF _ _ _ _ _ _ inv(2)]) (simp_all add: claim_fails_def decided_def)
  moreover have "connection_inv enabled (claim_fails s)"
    using inv(1) by (auto simp: claim_fails_def connection_inv_def current_probes_def scheduleRecovery_timer)
  ultimately show ?thesis by (simp add: coordination_inv_def)
qed

lemma bumped_probes:
  "\<forall>p\<in>set (sc_probes s). pb_generation p \<le> sc_probeGeneration s \<Longrightarrow>
     count_if (\<lambda>p. pb_pending p \<and> pb_generation p = Suc (sc_probeGeneration s)) (sc_probes s) = 0"
  by (auto simp: count_if_zero_iff)

lemma onDown_inv: "coordination_inv enabled s \<Longrightarrow> coordination_inv enabled (onDown c s)"
proof (cases "sc_client s = Some c")
  case True
  assume "coordination_inv enabled s"
  then have inv: "connection_inv enabled s" "init_inv s" by (simp_all add: coordination_inv_def)
  let ?d = "markUnavailable (clearRecoveryTimer (s\<lparr>sc_connected := False, sc_recovering := False,
      sc_probeGeneration := Suc (sc_probeGeneration s)\<rparr>))"
  have "connection_inv enabled ?d"
    using inv bumped_probes[of s] by (auto simp: connection_inv_def init_inv_def current_probes_def clearRecoveryTimer_def)
  moreover have "init_inv ?d" using inv(2) by (auto simp: init_inv_def clearRecoveryTimer_def decided_def intro: le_SucI)
  moreover have "decided ?d" by (simp add: decided_def)
  moreover have "onDown c s = settleInit (sc_initGeneration ?d) ?d" using True by (simp add: onDown_def Let_def)
  ultimately show ?thesis by (simp add: coordination_inv_def settleInit_connection settleInit_init_inv)
qed (simp add: onDown_def)

lemma probe_settled:
  assumes n: "n < length (sc_probes s)" "pb_pending (sc_probes s ! n)"
  defines "t \<equiv> s\<lparr>sc_probes := (sc_probes s)[n := (sc_probes s ! n)\<lparr>pb_pending := False\<rparr>]\<rparr>"
  shows "current_probes t = current_probes s - of_bool (pb_generation (sc_probes s ! n) = sc_probeGeneration s)"
    and "init_inv s \<Longrightarrow> init_inv t"
proof -
  show "current_probes t = current_probes s - of_bool (pb_generation (sc_probes s ! n) = sc_probeGeneration s)"
    using n by (simp add: t_def current_probes_def)
  assume inv: "init_inv s"
  have "p \<in> set (sc_probes s) \<or> p = (sc_probes s ! n)\<lparr>pb_pending := False\<rparr>" if "p \<in> set (sc_probes t)" for p
    using that by (auto simp: t_def dest: subsetD[OF set_update_subset_insert])
  with inv n show "init_inv t" by (fastforce simp: init_inv_def t_def decided_def)
qed

lemma probe_ends_inv:
  assumes inv: "coordination_inv enabled s" and n: "n < length (sc_probes s)" "pb_pending (sc_probes s ! n)"
  shows "coordination_inv enabled (probe_ends n succeeded s)"
proof -
  obtain p where p: "p = sc_probes s ! n" by blast
  obtain u where u: "u = s\<lparr>sc_probes := (sc_probes s)[n := p\<lparr>pb_pending := False\<rparr>]\<rparr>" by blast
  from inv have parts: "connection_inv enabled s" "init_inv s" by (simp_all add: coordination_inv_def)
  have enabled: "enabled" using parts(1) n(1) by (auto simp: connection_inv_def)
  have u_fields: "sc_state u = sc_state s" "sc_client u = sc_client s" "sc_namespace u = sc_namespace s"
      "sc_connected u = sc_connected s" "sc_recovering u = sc_recovering s" "sc_probeGeneration u = sc_probeGeneration s"
      "sc_recoveryTimer u = sc_recoveryTimer s" "sc_initGeneration u = sc_initGeneration s"
    by (simp_all add: u)
  have cur: "current_probes u = current_probes s - of_bool (pb_generation p = sc_probeGeneration s)"
    using probe_settled(1)[OF n] by (simp add: u p)
  have init_u: "init_inv u" using probe_settled(2)[OF n parts(2)] by (simp add: u p)
  show ?thesis
  proof (cases "pb_generation p = sc_probeGeneration s")
    case False
    then have ends: "probe_ends n succeeded s = settleInit (pb_initGeneration p) u"
      by (simp add: probe_ends_def u p Let_def)
    have "connection_inv enabled u" using parts(1) cur False enabled by (simp add: connection_inv_def u_fields)
    moreover have "init_inv (settleInit (pb_initGeneration p) u)"
    proof (cases "pb_initGeneration p = sc_initGeneration s")
      case True
      have "p \<in> set (sc_probes s)" "pb_pending p" using n by (simp_all add: p)
      then have "decided s" using parts(2) True False by (auto simp: init_inv_def)
      then have "decided u" by (simp add: decided_def u_fields)
      with init_u show ?thesis by (rule settleInit_init_inv)
    next
      case other: False
      with init_u show ?thesis by (simp add: settleInit_def u_fields)
    qed
    ultimately show ?thesis by (simp add: ends coordination_inv_def settleInit_connection)
  next
    case True
    obtain v where v: "v = settleInit (pb_initGeneration p) (if succeeded then markReady u else markUnavailable u)" by blast
    have ends: "probe_ends n succeeded s = (let w = v\<lparr>sc_recovering := False\<rparr> in
        if sc_state w \<noteq> Coordination_Ready \<and> sc_connected w then scheduleRecovery w else w)"
      using True by (simp add: probe_ends_def u p Let_def v)
    have rec: "sc_recovering s" "sc_connected s"
    proof -
      have "current_probes s \<noteq> 0" using n True p
        by (auto simp: current_probes_def count_if_zero_iff)
      then show "sc_recovering s" "sc_connected s" using parts(1) by (auto simp: connection_inv_def split: if_splits)
    qed
    have v_fields: "sc_state v = (if succeeded then Coordination_Ready else Unavailable)" "sc_client v = sc_client s"
        "sc_namespace v = sc_namespace s" "sc_connected v" "sc_probeGeneration v = sc_probeGeneration s"
        "sc_recoveryTimer v = (if succeeded then None else sc_recoveryTimer s)" "sc_probes v = sc_probes u"
      using rec by (simp_all add: v u_fields)
    have "decided (if succeeded then markReady u else markUnavailable u)" by (simp add: decided_def)
    moreover have "init_inv (if succeeded then markReady u else markUnavailable u)"
      by (rule init_inv_cong[OF _ _ _ _ _ _ init_u]) (simp_all add: decided_def)
    ultimately have "init_inv v" unfolding v by (rule settleInit_init_inv[rotated])
    then have "init_inv (probe_ends n succeeded s)"
      unfolding ends Let_def by (rule init_inv_cong[rotated -1]) (auto simp: decided_def)
    moreover have "current_probes (v\<lparr>sc_recovering := False\<rparr>) = 0"
    proof -
      have "current_probes (v\<lparr>sc_recovering := False\<rparr>) = current_probes u"
        by (simp add: current_probes_def v_fields u_fields)
      then show ?thesis using cur True rec parts(1) by (simp add: connection_inv_def)
    qed
    then have "connection_inv enabled (probe_ends n succeeded s)"
      using parts(1) rec enabled unfolding ends Let_def
      by (auto simp: connection_inv_def v_fields scheduleRecovery_timer current_probes_def)
    ultimately show ?thesis by (simp add: coordination_inv_def)
  qed
qed

lemma attemptProbe_connection:
  assumes conn: "sc_connected s \<longrightarrow> sc_client s \<noteq> None" "sc_client s \<noteq> None \<longrightarrow> sc_namespace s \<noteq> None" "sc_state s = Coordination_Ready \<longrightarrow> sc_connected s"
      "sc_recovering s \<longrightarrow> sc_connected s" "current_probes s = (if sc_recovering s then 1 else 0)"
      "\<forall>d. sc_recoveryTimer s = Some d \<longrightarrow> sc_connected s \<and> 50 \<le> d \<and> d \<le> 2000"
      "\<not> enabled \<longrightarrow> sc_client s = None \<and> sc_inits s = [] \<and> sc_probes s = []" "enabled \<longrightarrow> sc_state s \<noteq> Inactive"
    and init: "init_inv s"
  shows "coordination_inv enabled (attemptProbe s)"
proof -
  have "connection_inv enabled (attemptProbe s)"
    using conn by (auto simp: attemptProbe_def connection_inv_def current_probes_def)
  moreover have "init_inv (attemptProbe s)"
    using init by (auto simp: attemptProbe_def init_inv_def decided_def)
  ultimately show ?thesis by (simp add: coordination_inv_def)
qed

lemma timer_fires_inv: "coordination_inv enabled s \<Longrightarrow> coordination_inv enabled (timer_fires s)"
  unfolding timer_fires_def
  by (rule attemptProbe_connection) (auto simp: coordination_inv_def connection_inv_def current_probes_def init_inv_def decided_def)

lemma onReady_inv: "coordination_inv enabled s \<Longrightarrow> coordination_inv enabled (onReady c s)"
  unfolding onReady_def clearRecoveryTimer_def
  by (cases "sc_client s = Some c", simp, rule attemptProbe_connection)
    (auto simp: coordination_inv_def connection_inv_def current_probes_def init_inv_def decided_def)

lemma deadline_inv:
  assumes inv: "coordination_inv enabled s" and i: "i < length (sc_inits s)"
  shows "coordination_inv enabled (init_deadline i s)"
proof -
  let ?u = "if in_generation (sc_inits s ! i) = sc_initGeneration s \<and> sc_state s = Uninitialized then markUnavailable s else s"
  from inv have parts: "connection_inv enabled s" "init_inv s" by (simp_all add: coordination_inv_def)
  have "enabled" using parts(1) i by (auto simp: connection_inv_def)
  then have "connection_inv enabled ?u" using parts(1) by (auto simp: connection_inv_def current_probes_def)
  then have conn: "connection_inv enabled (init_deadline i s)"
    unfolding init_deadline_def by (rule connection_inv_cong[rotated -1]) (simp_all add: finish_init_def)
  have "init_inv ?u" by (rule init_inv_cong[OF _ _ _ _ _ _ parts(2)]) (auto simp: decided_def)
  moreover have "decided ?u \<or> in_generation (sc_inits ?u ! i) \<noteq> sc_initGeneration ?u"
    using parts(1) \<open>enabled\<close> by (cases "sc_state s") (auto simp: decided_def connection_inv_def)
  ultimately have "init_inv (init_deadline i s)" unfolding init_deadline_def by (blast intro: finish_init_inv)
  with conn show ?thesis by (simp add: coordination_inv_def)
qed

lemma init_result_inv: "coordination_inv enabled s \<Longrightarrow> coordination_inv enabled (snd (init_result i s))"
proof -
  assume "coordination_inv enabled s"
  then have inv: "connection_inv enabled s" "init_inv s" by (simp_all add: coordination_inv_def)
  have "connection_inv enabled (snd (init_result i s))"
    by (rule connection_inv_cong[OF _ _ _ _ _ _ _ _ _ inv(1)]) (simp_all add: init_result_def)
  moreover have "init_inv (snd (init_result i s))"
    by (rule init_inv_cong[OF _ _ _ _ _ _ inv(2)]) (auto simp: init_result_def decided_def)
  ultimately show ?thesis by (simp add: coordination_inv_def)
qed

lemma destroy_inv: "coordination_inv enabled s \<Longrightarrow> coordination_inv enabled (destroyScheduleCoordination s)"
proof -
  assume "coordination_inv enabled s"
  then have inv: "connection_inv enabled s" "init_inv s" by (simp_all add: coordination_inv_def)
  let ?d = "destroyScheduleCoordination s"
  have view: "sc_probes ?d = sc_probes s" "sc_probeGeneration ?d = Suc (sc_probeGeneration s)"
      "sc_initGeneration ?d = Suc (sc_initGeneration s)" "sc_firstSettle ?d = None" "\<not> sc_connected ?d" "\<not> sc_recovering ?d"
      "sc_client ?d = None" "sc_state ?d = Uninitialized" "sc_recoveryTimer ?d = None"
    by (simp_all add: destroyScheduleCoordination_def Let_def clearRecoveryTimer_def)
  have first: "sc_firstSettle s = Some k \<Longrightarrow> sc_initGeneration s \<in> in_generation ` set (sc_inits s)" for k
    using inv(2) unfolding init_inv_def by (metis image_eqI nth_mem)
  have inits: "set (map in_generation (sc_inits ?d)) \<subseteq> set (map in_generation (sc_inits s))" "sc_inits s = [] \<Longrightarrow> sc_inits ?d = []"
    using inv(2) first by (auto simp: destroyScheduleCoordination_def Let_def clearRecoveryTimer_def settle_first_def finish_init_def
        init_inv_def split: option.split dest!: subsetD[OF set_update_subset_insert])
  have "connection_inv enabled ?d"
    using inv bumped_probes[of s] inits(2) by (simp add: connection_inv_def init_inv_def current_probes_def view)
  moreover have "init_inv ?d"
  proof -
    have "in_generation r \<le> sc_initGeneration s" if "r \<in> set (sc_inits ?d)" for r
      using that inits(1) inv(2) by (fastforce simp: init_inv_def)
    then show ?thesis using inv(2) by (fastforce simp: init_inv_def view)
  qed
  ultimately show ?thesis by (simp add: coordination_inv_def)
qed

lemma init_start_inv:
  assumes "coordination_inv enabled s"
  shows "coordination_inv enabled (initScheduleCoordination enabled setting builds s)"
proof -
  from assms have inv: "connection_inv enabled s" "init_inv s" by (simp_all add: coordination_inv_def)
  show ?thesis
  proof (cases "enabled \<and> \<not> decided s \<and> sc_initPromise s = None")
    case True
    have "connection_inv enabled (initScheduleCoordination enabled setting builds s)"
      using True inv(1) by (auto simp: initScheduleCoordination_def runInit_def Let_def connection_inv_def current_probes_def decided_def)
    moreover have "init_inv (initScheduleCoordination enabled setting builds s)"
      using True inv(2)
      by (auto simp: initScheduleCoordination_def runInit_def Let_def init_inv_def decided_def nth_append)
    ultimately show ?thesis by (simp add: coordination_inv_def)
  next
    case False
    show ?thesis
    proof (cases enabled)
      case True
      with False have "initScheduleCoordination enabled setting builds s = s"
        by (auto simp: initScheduleCoordination_def decided_def)
      with assms show ?thesis by simp
    next
      case off: False
      then show ?thesis using inv
        by (auto simp: initScheduleCoordination_def coordination_inv_def connection_inv_def init_inv_def current_probes_def)
    qed
  qed
qed

interpretation coordination_system: invariant_system uninitialized "coordination_step enabled" "coordination_inv enabled" for enabled
proof
  show "coordination_inv enabled uninitialized"
    by (simp add: coordination_inv_def connection_inv_def init_inv_def uninitialized_def current_probes_def)
  show "coordination_inv enabled t" if "coordination_inv enabled s" "coordination_step enabled s t" for s t
    using that(2,1) by cases (auto intro: init_start_inv onReady_inv onDown_inv timer_fires_inv probe_ends_inv deadline_inv
      init_result_inv claim_fails_inv destroy_inv)
qed

section \<open>Recovery\<close>

text \<open>The timer fires, or the probe under way succeeds.\<close>

inductive recovers :: "coordination \<Rightarrow> coordination \<Rightarrow> bool" where
  re_timer: "sc_recoveryTimer s \<noteq> None \<Longrightarrow> recovers s (timer_fires s)"
| re_probe: "n < length (sc_probes s) \<Longrightarrow> pb_pending (sc_probes s ! n) \<Longrightarrow>
    pb_generation (sc_probes s ! n) = sc_probeGeneration s \<Longrightarrow> recovers s (probe_ends n True s)"

lemma probe_succeeds:
  "pb_generation (sc_probes s ! n) = sc_probeGeneration s \<Longrightarrow> sc_state (probe_ends n True s) = Coordination_Ready"
  by (simp add: probe_ends_def Let_def)

lemma recovering_recovers:
  assumes "coordination_inv enabled s" "sc_recovering s"
  shows "\<exists>t. recovers s t \<and> sc_state t = Coordination_Ready"
proof -
  have "current_probes s \<noteq> 0" using assms by (simp add: coordination_inv_def connection_inv_def)
  then obtain n where "n < length (sc_probes s)" "pb_pending (sc_probes s ! n)" "pb_generation (sc_probes s ! n) = sc_probeGeneration s"
    unfolding current_probes_def count_if_zero_iff by (auto simp: in_set_conv_nth)
  then show ?thesis by (intro exI[of _ "probe_ends n True s"] conjI re_probe probe_succeeds)
qed

lemma connected_recovers:
  assumes inv: "coordination_inv enabled s" and up: "sc_connected s"
  shows "\<exists>t. recovers\<^sup>*\<^sup>* s t \<and> sc_state t = Coordination_Ready"
proof -
  have conn: "connection_inv enabled s" using inv by (simp add: coordination_inv_def)
  consider "sc_state s = Coordination_Ready" | "sc_recovering s"
    | "sc_state s \<noteq> Coordination_Ready" "\<not> sc_recovering s" by blast
  then show ?thesis
  proof cases
    case 1
    then show ?thesis by blast
  next
    case 2
    with recovering_recovers[OF inv] show ?thesis by blast
  next
    case 3
    have t: "sc_recoveryTimer s \<noteq> None" using conn 3 up by (auto simp: connection_inv_def)
    have "sc_recovering (timer_fires s)"
      using 3 up conn by (auto simp: timer_fires_def attemptProbe_def connection_inv_def)
    with recovering_recovers[OF timer_fires_inv[OF inv]] obtain u where u: "recovers (timer_fires s) u" "sc_state u = Coordination_Ready"
      by blast
    have "recovers\<^sup>*\<^sup>* s u" using re_timer[OF t] u(1) by (meson r_into_rtranclp rtranclp.rtrancl_into_rtrancl)
    with u(2) show ?thesis by blast
  qed
qed

text \<open>
  C36: coordination is only ready while its Redis connection is up. While the connection is up and coordination is not
  ready, either a recovery timer is armed, with a delay between 50 ms and 2 s, or one probe of the current connection is
  under way, and coordination is ready once the timer has fired and the probe succeeded. An initialisation whose
  promise has settled reports a status unless it was superseded by a later one.
\<close>

theorem coordination_recovers:
  assumes "reach uninitialized (coordination_step enabled) s"
  shows "(sc_state s = Coordination_Ready \<longrightarrow> sc_connected s \<and> sc_client s \<noteq> None) \<and>
    (sc_connected s \<and> sc_state s \<noteq> Coordination_Ready \<and> \<not> sc_recovering s \<longrightarrow>
       (\<exists>d. sc_recoveryTimer s = Some d \<and> 50 \<le> d \<and> d \<le> 2000)) \<and>
    (sc_recovering s \<longleftrightarrow> (\<exists>p\<in>set (sc_probes s). pb_pending p \<and> pb_generation p = sc_probeGeneration s)) \<and>
    (sc_connected s \<longrightarrow> (\<exists>t. recovers\<^sup>*\<^sup>* s t \<and> sc_state t = Coordination_Ready)) \<and>
    (\<forall>i < length (sc_inits s). in_done (sc_inits s ! i) \<longrightarrow>
       (fst (init_result i s) = None \<longleftrightarrow> in_generation (sc_inits s ! i) \<noteq> sc_initGeneration s))"
proof -
  have inv: "coordination_inv enabled s" using assms by (rule coordination_system.inv_reach)
  then have conn: "connection_inv enabled s" "init_inv s" by (simp_all add: coordination_inv_def)
  have "current_probes s \<noteq> 0 \<longleftrightarrow> sc_recovering s" using conn(1) by (simp add: connection_inv_def)
  then have "sc_recovering s \<longleftrightarrow> (\<exists>p\<in>set (sc_probes s). pb_pending p \<and> pb_generation p = sc_probeGeneration s)"
    unfolding current_probes_def count_if_zero_iff by blast
  moreover have "fst (init_result i s) = None \<longleftrightarrow> in_generation (sc_inits s ! i) \<noteq> sc_initGeneration s"
    if "i < length (sc_inits s)" "in_done (sc_inits s ! i)" for i
  proof -
    have "in_generation (sc_inits s ! i) = sc_initGeneration s \<longrightarrow> decided s"
      using conn(2) that by (auto simp: init_inv_def)
    then show ?thesis by (auto simp: init_result_def decided_def)
  qed
  moreover have "sc_state s = Coordination_Ready \<longrightarrow> sc_connected s \<and> sc_client s \<noteq> None"
    "sc_connected s \<and> sc_state s \<noteq> Coordination_Ready \<and> \<not> sc_recovering s \<longrightarrow>
       (\<exists>d. sc_recoveryTimer s = Some d \<and> 50 \<le> d \<and> d \<le> 2000)"
    using conn(1) by (auto simp: connection_inv_def)
  ultimately show ?thesis using connected_recovers[OF inv] by blast
qed

text \<open>A client is built, connects, and its probe fails: the recovery timer is armed.\<close>

definition failed_start :: coordination where
  "failed_start = probe_ends 0 False (onReady 0 (initScheduleCoordination True None True uninitialized))"

lemma failed_start_eq: "failed_start =
  \<lparr>sc_state = Unavailable, sc_client = Some 0, sc_namespace = Some ''cairncms'', sc_initPromise = Some 0,
     sc_initGeneration = 0, sc_probeGeneration = 0, sc_connected = True, sc_degraded = True, sc_recovering = False,
     sc_recoveryTimer = Some 50, sc_recoveryAttempt = 1, sc_firstSettle = None, sc_clients = 1,
     sc_inits = [\<lparr>in_generation = 0, in_done = True\<rparr>],
     sc_probes = [\<lparr>pb_generation = 0, pb_initGeneration = 0, pb_pending = False\<rparr>], sc_logged = [Message_Unavailable]\<rparr>"
  by (simp add: failed_start_def probe_ends_def onReady_def attemptProbe_def initScheduleCoordination_def runInit_def
      uninitialized_def clearRecoveryTimer_def markUnavailable_def settleInit_def settle_first_def finish_init_def
      scheduleRecovery_def Let_def)

lemma coordination_recovers_witness:
  "reach uninitialized (coordination_step True) failed_start \<and> sc_recoveryTimer failed_start = Some 50 \<and>
   (\<exists>t. recovers\<^sup>*\<^sup>* failed_start t \<and> sc_state t = Coordination_Ready) \<and> fst (init_result 0 failed_start) \<noteq> None"
proof -
  let ?one = "initScheduleCoordination True None True uninitialized"
  have one: "reach uninitialized (coordination_step True) ?one" by (rule reach_one, rule co_init)
  have two: "reach uninitialized (coordination_step True) (onReady 0 ?one)" by (rule reach_step[OF one], rule co_ready)
  have p: "0 < length (sc_probes (onReady 0 ?one))" "pb_pending (sc_probes (onReady 0 ?one) ! 0)"
    by (simp_all add: onReady_def attemptProbe_def initScheduleCoordination_def runInit_def uninitialized_def
        clearRecoveryTimer_def Let_def)
  have three: "reach uninitialized (coordination_step True) failed_start"
    unfolding failed_start_def by (rule reach_step[OF two], rule co_probe) (rule p)+
  have up: "sc_connected failed_start" "0 < length (sc_inits failed_start)" "in_done (sc_inits failed_start ! 0)"
      "in_generation (sc_inits failed_start ! 0) = sc_initGeneration failed_start" "sc_recoveryTimer failed_start = Some 50"
    by (simp_all add: failed_start_eq)
  from coordination_recovers[OF three] have "\<exists>t. recovers\<^sup>*\<^sup>* failed_start t \<and> sc_state t = Coordination_Ready"
      "fst (init_result 0 failed_start) = None \<longleftrightarrow> in_generation (sc_inits failed_start ! 0) \<noteq> sc_initGeneration failed_start"
    using up(1-3) by blast+
  with three up(4,5) show ?thesis by blast
qed

section \<open>Claims\<close>

text \<open>
  The documented behaviour of \<open>ZADD key GT CH score member\<close>: a member keeps the greatest score it was given, and the
  reply is 1 exactly when that changed something.
\<close>

definition keeps_greatest :: "('st \<Rightarrow> int \<Rightarrow> string \<Rightarrow> 'st \<times> int) \<Rightarrow> ('st \<Rightarrow> string \<Rightarrow> int option) \<Rightarrow> bool" where
  "keeps_greatest zadd score \<longleftrightarrow> (\<forall>st new m.
     score (fst (zadd st new m)) = (score st)(m \<mapsto> (case score st m of None \<Rightarrow> new | Some old \<Rightarrow> max old new)) \<and>
     (snd (zadd st new m) = 1 \<longleftrightarrow> (case score st m of None \<Rightarrow> True | Some old \<Rightarrow> old < new)))"

text \<open>
  The commands that the replicas send to the shared set, in the order in which Redis runs them: claims, made by a replica
  in some state for a schedule and the key of a run and whose reply may be lost, and the probes. The result lists the
  schedules and keys for which \<open>shouldRun\<close> answered true, with the occurrence.
\<close>

datatype store_command = Claim coordination string string bool | Probe

fun run_commands :: "('st \<Rightarrow> int \<Rightarrow> string \<Rightarrow> 'st \<times> int) \<Rightarrow> (string \<Rightarrow> int option) \<Rightarrow> (int \<Rightarrow> string) \<Rightarrow> store_command list \<Rightarrow>
    'st \<Rightarrow> (string \<times> int \<times> string) list" where
  "run_commands zadd parse toISO [] st = []"
| "run_commands zadd parse toISO (Probe # cs) st = run_commands zadd parse toISO cs (fst (zadd st 0 ''__probe__''))"
| "run_commands zadd parse toISO (Claim s scheduleId key answered # cs) st =
     (case shouldRun parse toISO key s of
        Run_Claim occurrence \<Rightarrow>
          (let (st', changed) = zadd st occurrence scheduleId in
           (if answered \<and> changed = 1 then [(scheduleId, occurrence, key)] else []) @ run_commands zadd parse toISO cs st')
      | _ \<Rightarrow> run_commands zadd parse toISO cs st)"

definition below_score :: "('st \<Rightarrow> string \<Rightarrow> int option) \<Rightarrow> 'st \<Rightarrow> string \<Rightarrow> int \<Rightarrow> bool" where
  "below_score score st m n \<longleftrightarrow> (\<forall>old. score st m = Some old \<longrightarrow> old < n)"

lemma zadd_below:
  assumes "keeps_greatest zadd score" "below_score score (fst (zadd st new m')) m n"
  shows "below_score score st m n" "m' = m \<Longrightarrow> new < n"
proof -
  from assms(1) have "score (fst (zadd st new m')) = (score st)(m' \<mapsto> (case score st m' of None \<Rightarrow> new | Some old \<Rightarrow> max old new))"
    unfolding keeps_greatest_def by blast
  with assms(2) show "below_score score st m n" "m' = m \<Longrightarrow> new < n"
    by (auto simp: below_score_def split: if_splits option.splits)
qed

lemma shouldRun_claimD:
  "shouldRun parse toISO key s = Run_Claim n \<Longrightarrow>
     sc_state s \<noteq> Unavailable \<and> parse (occurrence_suffix key) = Some n \<and> toISO n = occurrence_suffix key"
  by (auto simp: shouldRun_def Let_def split: if_splits option.splits)

lemma granted_above:
  assumes zadd: "keeps_greatest zadd score"
  shows "(m, n, key) \<in> set (run_commands zadd parse toISO cs st) \<Longrightarrow>
    below_score score st m n \<and> parse (occurrence_suffix key) = Some n \<and> toISO n = occurrence_suffix key \<and>
    (\<exists>s. Claim s m key True \<in> set cs \<and> sc_state s \<noteq> Unavailable)"
proof (induction cs arbitrary: st)
  case (Cons c cs)
  show ?case
  proof (cases c)
    case Probe
    with Cons.prems Cons.IH[of "fst (zadd st 0 ''__probe__'')"] zadd_below(1)[OF zadd] show ?thesis by fastforce
  next
    case (Claim s scheduleId key' answered)
    show ?thesis
    proof (cases "shouldRun parse toISO key' s")
      case (Run_Claim occ)
      obtain st' changed where z: "zadd st occ scheduleId = (st', changed)" by fastforce
      from Cons.prems consider (this) "m = scheduleId" "n = occ" "key = key'" "answered" "changed = 1"
        | (later) "(m, n, key) \<in> set (run_commands zadd parse toISO cs st')"
        by (auto simp: Claim Run_Claim z split: if_splits)
      then show ?thesis
      proof cases
        case this
        from zadd have "snd (zadd st occ scheduleId) = 1 \<longleftrightarrow>
            (case score st scheduleId of None \<Rightarrow> True | Some old \<Rightarrow> old < occ)" unfolding keeps_greatest_def by blast
        with z \<open>m = scheduleId\<close> \<open>n = occ\<close> \<open>changed = 1\<close> have "below_score score st m n"
          by (simp add: below_score_def split: option.splits)
        then show ?thesis using shouldRun_claimD[OF Run_Claim] \<open>key = key'\<close> \<open>m = scheduleId\<close> \<open>n = occ\<close> \<open>answered\<close>
          by (auto simp: Claim)
      next
        case later
        with Cons.IH[of st'] zadd_below(1)[OF zadd, of st occ scheduleId m n] z show ?thesis by auto
      qed
    qed (use Cons.prems Cons.IH[of st] Claim in auto)
  qed
qed simp

lemma granted_sorted:
  assumes zadd: "keeps_greatest zadd score"
  shows "sorted_wrt (\<lambda>a b. fst a = fst b \<longrightarrow> fst (snd a) < fst (snd b)) (run_commands zadd parse toISO cs st)"
proof (induction cs arbitrary: st)
  case (Cons c cs)
  show ?case
  proof (cases c)
    case (Claim s scheduleId key answered)
    show ?thesis
    proof (cases "shouldRun parse toISO key s")
      case (Run_Claim occ)
      obtain st' changed where z: "zadd st occ scheduleId = (st', changed)" by fastforce
      have "occ < n" if "(scheduleId, n, k) \<in> set (run_commands zadd parse toISO cs st')" for n k
        using granted_above[OF zadd that] zadd_below(2)[OF zadd, of st occ scheduleId scheduleId n] z by simp
      with Cons.IH[of st'] show ?thesis by (auto simp: Claim Run_Claim z)
    qed (use Cons.IH Claim in auto)
  qed (use Cons.IH in simp)
qed simp

lemma claims_parts:
  assumes "keeps_greatest zadd score"
  shows "sorted_wrt (\<lambda>(m, n, _) (m', n', _). m = m' \<longrightarrow> n < n') (run_commands zadd parse toISO cs st)"
    and "distinct (map (\<lambda>(m, _, key). (m, occurrence_suffix key)) (run_commands zadd parse toISO cs st))"
    and "(m, n, key) \<in> set (run_commands zadd parse toISO cs st) \<Longrightarrow>
      \<exists>s. Claim s m key True \<in> set cs \<and> sc_state s \<noteq> Unavailable"
    and "shouldRun parse toISO key s = Run_Claim n \<Longrightarrow> below_score score st m n \<Longrightarrow>
      (m, n, key) \<in> set (run_commands zadd parse toISO (Claim s m key True # cs) st)"
proof -
  let ?run = "run_commands zadd parse toISO cs st"
  have sorted: "sorted_wrt (\<lambda>a b. fst a = fst b \<longrightarrow> fst (snd a) < fst (snd b)) ?run" using granted_sorted[OF assms] .
  then show "sorted_wrt (\<lambda>(m, n, _) (m', n', _). m = m' \<longrightarrow> n < n') ?run"
    by (rule sorted_wrt_mono_rel[rotated]) auto
  have suffix: "parse (occurrence_suffix (snd (snd e))) = Some (fst (snd e))" if "e \<in> set ?run" for e
    using granted_above[OF assms, of "fst e" "fst (snd e)" "snd (snd e)"] that by simp
  have differ: "(fst a, occurrence_suffix (snd (snd a))) \<noteq> (fst b, occurrence_suffix (snd (snd b)))"
    if "a \<in> set ?run" "b \<in> set ?run" "fst a = fst b \<longrightarrow> fst (snd a) < fst (snd b)" for a b
    using suffix[OF that(1)] suffix[OF that(2)] that(3) by auto
  have dist: "distinct (map (\<lambda>e. (fst e, occurrence_suffix (snd (snd e)))) xs)"
    if "sorted_wrt (\<lambda>a b. fst a = fst b \<longrightarrow> fst (snd a) < fst (snd b)) xs" "set xs \<subseteq> set ?run" for xs
    using that by (induction xs) (fastforce dest: differ)+
  have "(\<lambda>(m :: string, _ :: int, key). (m, occurrence_suffix key)) = (\<lambda>e. (fst e, occurrence_suffix (snd (snd e))))" by auto
  with dist[OF sorted order_refl] show "distinct (map (\<lambda>(m, _, key). (m, occurrence_suffix key)) ?run)" by simp
  show "\<exists>s. Claim s m key True \<in> set cs \<and> sc_state s \<noteq> Unavailable" if "(m, n, key) \<in> set ?run"
    using granted_above[OF assms that] by blast
  show "(m, n, key) \<in> set (run_commands zadd parse toISO (Claim s m key True # cs) st)"
    if claim: "shouldRun parse toISO key s = Run_Claim n" and below: "below_score score st m n"
  proof -
    from assms have "snd (zadd st n m) = 1 \<longleftrightarrow> (case score st m of None \<Rightarrow> True | Some old \<Rightarrow> old < n)"
      unfolding keeps_greatest_def by blast
    with below have "snd (zadd st n m) = 1" by (auto simp: below_score_def split: option.split)
    then show ?thesis by (cases "zadd st n m") (simp add: claim)
  qed
qed

text \<open>
  C16: whatever states the replicas are in and however their commands interleave, no run of a schedule is granted
  twice: the occurrences granted for a schedule strictly increase, and no two granted keys of a schedule name the same
  occurrence. A granted run was claimed by a replica that was not marked unavailable and got its reply; and a claim for
  an occurrence later than all before it is granted when its reply arrives.
\<close>

theorem claims_at_most_once:
  assumes "keeps_greatest zadd score"
  shows "sorted_wrt (\<lambda>(m, n, _) (m', n', _). m = m' \<longrightarrow> n < n') (run_commands zadd parse toISO cs st) \<and>
    distinct (map (\<lambda>(m, _, key). (m, occurrence_suffix key)) (run_commands zadd parse toISO cs st)) \<and>
    (\<forall>(m, n, key)\<in>set (run_commands zadd parse toISO cs st). \<exists>s. Claim s m key True \<in> set cs \<and> sc_state s \<noteq> Unavailable) \<and>
    (\<forall>s m key n. shouldRun parse toISO key s = Run_Claim n \<and> below_score score st m n \<longrightarrow>
       (m, n, key) \<in> set (run_commands zadd parse toISO (Claim s m key True # cs) st))"
  using claims_parts(1-3)[OF assms, where parse = parse and toISO = toISO and cs = cs and st = st] claims_parts(4)[OF assms] by blast

lemma claims_at_most_once_witness:
  "let zadd = (\<lambda>st n m. (js_set m (case map_of st m of None \<Rightarrow> n | Some old \<Rightarrow> max old n) st,
         case map_of st m of None \<Rightarrow> 1 | Some old \<Rightarrow> if old < n then 1 else 0));
       key = ''flow-nightly:2026-01-01T00:00:00.000Z'';
       parse = (\<lambda>t. if t = ''2026-01-01T00:00:00.000Z'' then Some 1767225600000 else None);
       toISO = (\<lambda>_. ''2026-01-01T00:00:00.000Z'');
       up = uninitialized\<lparr>sc_state := Coordination_Ready, sc_client := Some 0, sc_namespace := Some ''cairncms''\<rparr>;
       granted = run_commands zadd parse toISO [Claim up ''nightly'' key True, Probe, Claim up ''nightly'' key True] [] in
     distinct (map (\<lambda>(m, _, key). (m, occurrence_suffix key)) granted) \<and> (''nightly'', 1767225600000, key) \<in> set granted"
proof -
  let ?zadd = "\<lambda>st n m. (js_set m (case map_of st m of None \<Rightarrow> n | Some old \<Rightarrow> max old n) st,
         case map_of st m of None \<Rightarrow> 1 | Some old \<Rightarrow> if old < n then 1 else (0 :: int))"
  let ?up = "uninitialized\<lparr>sc_state := Coordination_Ready, sc_client := Some 0, sc_namespace := Some ''cairncms''\<rparr>"
  let ?parse = "\<lambda>t. if t = ''2026-01-01T00:00:00.000Z'' then Some 1767225600000 else None"
  let ?toISO = "\<lambda>_. ''2026-01-01T00:00:00.000Z''"
  have law: "keeps_greatest ?zadd (\<lambda>st m. map_of st m)"
    by (auto simp: keeps_greatest_def split: option.split)
  have claim: "shouldRun ?parse ?toISO ''flow-nightly:2026-01-01T00:00:00.000Z'' ?up = Run_Claim 1767225600000"
    by (simp add: shouldRun_def occurrence_suffix_def Let_def)
  have below: "below_score (\<lambda>st m. map_of st m) [] ''nightly'' 1767225600000" by (simp add: below_score_def)
  show ?thesis unfolding Let_def
    using claims_at_most_once[OF law, where parse = ?parse and toISO = ?toISO] claim below by blast
qed

end
