(* ===== verification/Filter_Parse.thy ===== *)
theory Filter_Parse
  imports Access Js_Text
begin

text \<open>
  Filters as a request sends them, brought into the form the server works on:
  \<open>packages/utils/shared/parse-filter.ts\<close> with \<open>to-array.ts\<close>, \<open>get-between-parens.ts\<close>, \<open>get-with-arrays.ts\<close> and
  \<open>is-dynamic-variable.ts\<close>. The clock, \<open>adjustDate\<close>, the accountability and the values of dynamic variables are
  parameters, kept in one record. A filter is a JSON value; keys that JavaScript would list out of insertion order
  (array indexes used as names) do not occur as field names.
\<close>

section \<open>Text and value helpers\<close>

text \<open>What a request can be answered with instead of a result.\<close>

datatype request_error =
  Type_Error | General_Error | Forbidden | Invalid_Query | Failed_Validation "json list" | Out_Of_Fuel

text \<open>The text between the first \<open>(\<close> that encloses at least one character and the next \<open>)\<close>.\<close>

fun getBetweenParens :: "string \<Rightarrow> string option" where
  "getBetweenParens [] = None"
| "getBetweenParens (c # cs) =
     (if c = CHR ''('' then
        (if CHR '')'' \<notin> set cs then None
         else if hd cs \<noteq> CHR '')'' then Some (takeWhile (\<lambda>x. x \<noteq> CHR '')'') cs)
         else getBetweenParens cs)
      else getBetweenParens cs)"

definition toArray :: "json \<Rightarrow> json list" where
  "toArray val = (case val of JStr s \<Rightarrow> map JStr (js_split CHR '','' s) | JArr vs \<Rightarrow> vs | _ \<Rightarrow> [val])"

definition isDynamicVariable :: "json \<Rightarrow> bool" where
  "isDynamicVariable v =
     (case v of JStr s \<Rightarrow> list_ex (startsWith s) [''$NOW'', ''$CURRENT_USER'', ''$CURRENT_ROLE''] | _ \<Rightarrow> False)"

text \<open>\<open>value?.[key]\<close>: a text has a length, only objects have named properties.\<close>

definition member :: "json \<Rightarrow> string \<Rightarrow> json" where
  "member v key =
     (case v of JObj _ \<Rightarrow> js_prop v key
      | JStr s \<Rightarrow> if key = ''length'' then JInt (int (length s)) else JUndefined
      | _ \<Rightarrow> JUndefined)"

text \<open>\<open>get\<close>, on the segments of the path.\<close>

fun get_path :: "json \<Rightarrow> string list \<Rightarrow> json \<Rightarrow> json" where
  "get_path object [] defaultValue = js_or object defaultValue"
| "get_path object (segment # follow) defaultValue =
     (let key = hd (js_split CHR '':'' segment);
          result = (case object of JArr vs \<Rightarrow> JArr (filter truthy (map (\<lambda>entry. member entry key) vs)) | _ \<Rightarrow> member object key)
      in if follow \<noteq> [] then get_path result follow defaultValue else js_or result defaultValue)"

definition get_with_arrays :: "json \<Rightarrow> string \<Rightarrow> json \<Rightarrow> json" where
  "get_with_arrays object path defaultValue = get_path object (js_split CHR ''.'' path) defaultValue"

section \<open>Values\<close>

record filter_env =
  fe_now :: json
  fe_adjustDate :: "json \<Rightarrow> string \<Rightarrow> json"
  fe_accountability :: json
  fe_context :: json

definition parseDynamicVariable :: "filter_env \<Rightarrow> string \<Rightarrow> json" where
  "parseDynamicVariable env v =
     (if startsWith v ''$NOW'' then
        (if CHR ''('' \<in> set v \<and> CHR '')'' \<in> set v
         then (case getBetweenParens v of None \<Rightarrow> fe_now env | Some adjustment \<Rightarrow> fe_adjustDate env (fe_now env) adjustment)
         else fe_now env)
      else if startsWith v ''$CURRENT_USER'' then
        (if v = ''$CURRENT_USER'' then js_or (js_prop (fe_accountability env) ''user'') JNull
         else get_with_arrays (fe_context env) v JNull)
      else if startsWith v ''$CURRENT_ROLE'' then
        (if v = ''$CURRENT_ROLE'' then js_or (js_prop (fe_accountability env) ''role'') JNull
         else get_with_arrays (fe_context env) v JNull)
      else JUndefined)"

definition parseFilterValue :: "filter_env \<Rightarrow> json \<Rightarrow> json" where
  "parseFilterValue env v =
     (if v = JStr ''true'' then JBool True
      else if v = JStr ''false'' then JBool False
      else if v = JStr ''null'' \<or> v = JStr ''NULL'' then JNull
      else case v of JStr s \<Rightarrow> if isDynamicVariable v then parseDynamicVariable env s else v | _ \<Rightarrow> v)"

section \<open>Moving logical operators up\<close>

definition logicalFilterOperators :: "string list" where
  "logicalFilterOperators = [''_and'', ''_or'']"

definition bypassOperators :: "string list" where
  "bypassOperators = [''_none'', ''_some'']"

abbreviation is_logical :: "string \<Rightarrow> bool" where
  "is_logical k \<equiv> k \<in> set logicalFilterOperators"

abbreviation is_bypass :: "string \<Rightarrow> bool" where
  "is_bypass k \<equiv> k \<in> set bypassOperators"

text \<open>
  \<open>shift_under k w whole\<close> is the branch of a first key \<open>k\<close> that is not logical, with value \<open>w\<close>, in the filter
  \<open>whole\<close>: it looks at the first key of \<open>w\<close>, which for a list or a text is an index.
\<close>

fun shiftLogicalOperatorsUp :: "json \<Rightarrow> request_error + json"
  and shift_each :: "json list \<Rightarrow> request_error + json list"
  and shift_values :: "(string \<times> json) list \<Rightarrow> request_error + (string \<times> json) list"
  and shift_under :: "string \<Rightarrow> json \<Rightarrow> json \<Rightarrow> request_error + json" where
  "shiftLogicalOperatorsUp (JObj ((key, w) # rest)) =
     (if key = [] then Inr (JObj ((key, w) # rest))
      else if is_logical key then
        (case w of
           JArr fs \<Rightarrow> and_then (shift_each fs) (\<lambda>fs'. Inr (JObj ((key, JArr fs') # rest)))
         | JObj es \<Rightarrow> and_then (shift_values es) (\<lambda>es'. Inr (JObj ((key, JObj es') # rest)))
         | JNull \<Rightarrow> Inl Type_Error
         | JUndefined \<Rightarrow> Inl Type_Error
         | JStr s \<Rightarrow> if s = [] then Inr (JObj ((key, w) # rest)) else Inl Type_Error
         | _ \<Rightarrow> Inr (JObj ((key, w) # rest)))
      else shift_under key w (JObj ((key, w) # rest)))"
| "shiftLogicalOperatorsUp (JArr (w # rest)) = shift_under ''0'' w (JArr (w # rest))"
| "shiftLogicalOperatorsUp (JArr []) = Inr (JArr [])"
| "shiftLogicalOperatorsUp (JObj []) = Inr (JObj [])"
| "shiftLogicalOperatorsUp JUndefined = Inr JUndefined"
| "shiftLogicalOperatorsUp JNull = Inr JNull"
| "shiftLogicalOperatorsUp (JBool b) = Inr (JBool b)"
| "shiftLogicalOperatorsUp (JInt n) = Inr (JInt n)"
| "shiftLogicalOperatorsUp (JFloat s) = Inr (JFloat s)"
| "shiftLogicalOperatorsUp (JStr s) = Inr (JStr s)"
| "shiftLogicalOperatorsUp (JDate s) = Inr (JDate s)"
| "shift_each [] = Inr []"
| "shift_each (f # fs) =
     and_then (shiftLogicalOperatorsUp f) (\<lambda>f'. and_then (shift_each fs) (\<lambda>fs'. Inr (f' # fs')))"
| "shift_values [] = Inr []"
| "shift_values ((k, f) # es) =
     and_then (shiftLogicalOperatorsUp f) (\<lambda>f'. and_then (shift_values es) (\<lambda>es'. Inr ((k, f') # es')))"
| "shift_under key (JObj ((childKey, cw) # others)) whole =
     (if childKey = [] then Inr whole
      else if is_logical childKey then
        (case cw of
           JArr fs \<Rightarrow> and_then (shift_each fs) (\<lambda>fs'. Inr (JObj [(childKey, JArr (map (\<lambda>f. JObj [(key, f)]) fs'))]))
         | JStr s \<Rightarrow> Inr (JObj [(childKey, JArr (map (\<lambda>p. JObj [(key, JStr p)]) (js_split CHR '','' s)))])
         | _ \<Rightarrow> and_then (shiftLogicalOperatorsUp cw) (\<lambda>f. Inr (JObj [(childKey, JArr [JObj [(key, f)]])])))
      else if is_bypass childKey then
        and_then (shiftLogicalOperatorsUp cw) (\<lambda>f. Inr (JObj [(key, JObj [(childKey, f)])]))
      else if startsWith childKey ''_'' then Inr whole
      else and_then (shiftLogicalOperatorsUp (JObj ((childKey, cw) # others))) (\<lambda>f. Inr (JObj [(key, f)])))"
| "shift_under key (JArr (w # rest)) whole =
     and_then (shiftLogicalOperatorsUp (JArr (w # rest))) (\<lambda>f. Inr (JObj [(key, f)]))"
| "shift_under key (JStr s) whole = Inr (if s = [] then whole else JObj [(key, JStr s)])"
| "shift_under key JNull whole = Inl Type_Error"
| "shift_under key JUndefined whole = Inl Type_Error"
| "shift_under key (JObj []) whole = Inr whole"
| "shift_under key (JArr []) whole = Inr whole"
| "shift_under key (JBool b) whole = Inr whole"
| "shift_under key (JInt n) whole = Inr whole"
| "shift_under key (JFloat s) whole = Inr whole"
| "shift_under key (JDate s) whole = Inr whole"

section \<open>Parsing\<close>

text \<open>\<open>Object.entries\<close>: the own properties of an object, the items of a list under their indexes.\<close>

definition own_entries :: "json \<Rightarrow> (string \<times> json) list" where
  "own_entries v =
     (case v of
        JObj es \<Rightarrow> es
      | JArr vs \<Rightarrow> map (\<lambda>(i, w). (nat_to_radix 10 i, w)) (enumerate 0 vs)
      | JStr s \<Rightarrow> map (\<lambda>(i, c). (nat_to_radix 10 i, JStr [c])) (enumerate 0 s)
      | _ \<Rightarrow> [])"

lemma size_member: "x \<in> set xs \<Longrightarrow> size x < Suc (size_list size xs)"
  by (induction xs) auto

lemma size_own_entry: "isObjectLike v \<Longrightarrow> (k, w) \<in> set (own_entries v) \<Longrightarrow> size w < size v"
proof (cases v)
  case (JObj es)
  have "(k, w) \<in> set es \<Longrightarrow> size w < Suc (size_list (size_prod (\<lambda>_. 0) size) es)"
    by (induction es) auto
  moreover assume "(k, w) \<in> set (own_entries v)"
  ultimately show ?thesis by (simp add: JObj own_entries_def)
next
  case (JArr vs)
  assume "(k, w) \<in> set (own_entries v)"
  then have "w \<in> set vs" by (auto simp: JArr own_entries_def in_set_enumerate_eq)
  then show ?thesis using size_member[of w vs] by (simp add: JArr)
qed (simp_all add: own_entries_def)

definition joined :: "json list \<Rightarrow> json" where
  "joined filters = (case filters of [] \<Rightarrow> JObj [] | [f] \<Rightarrow> js_or f JNull | _ \<Rightarrow> JObj [(''_and'', JArr filters)])"

text \<open>\<open>key.split('item__')[1]\<close> of a key that starts with \<open>item__\<close>.\<close>

fun until_item :: "string \<Rightarrow> string" where
  "until_item [] = []"
| "until_item (c # cs) = (if startsWith (c # cs) ''item__'' then [] else c # until_item cs)"

definition list_operators :: "string list" where
  "list_operators = [''_in'', ''_nin'', ''_between'', ''_nbetween'']"

definition flat_values :: "filter_env \<Rightarrow> json \<Rightarrow> json list" where
  "flat_values env v = concat (map (\<lambda>x. case parseFilterValue env x of JArr ys \<Rightarrow> ys | y \<Rightarrow> [y]) (toArray v))"

function parseFilterRecursive :: "filter_env \<Rightarrow> json \<Rightarrow> request_error + json"
  and parseFilter :: "filter_env \<Rightarrow> json \<Rightarrow> request_error + json"
  and parseFilterEntry :: "filter_env \<Rightarrow> string \<Rightarrow> json \<Rightarrow> request_error + json" where
  "parseFilterRecursive env flt =
     (if nullish flt then Inr JNull
      else if \<not> isObjectLike flt then Inr (JObj [(''_eq'', parseFilterValue env flt)])
      else and_then (map_or_throw (\<lambda>(key, val). parseFilterEntry env key val) (own_entries flt))
             (\<lambda>filters. Inr (joined filters)))"
| "parseFilter env flt =
     and_then (parseFilterRecursive env flt) (\<lambda>parsedFilter.
       if truthy parsedFilter then shiftLogicalOperatorsUp parsedFilter else Inr parsedFilter)"
| "parseFilterEntry env key val =
     (if is_logical key then
        (case val of
           JArr fs \<Rightarrow> and_then (map_or_throw (parseFilterRecursive env) fs) (\<lambda>fs'. Inr (JObj [(key, JArr fs')]))
         | _ \<Rightarrow> Inl Type_Error)
      else if key \<in> set list_operators then Inr (JObj [(key, JArr (flat_values env val))])
      else if startsWith key ''_'' \<and> \<not> is_bypass key then Inr (JObj [(key, parseFilterValue env val)])
      else if startsWith key ''item__'' \<and> isObjectLike val then
        and_then (parseFilter env val) (\<lambda>parsed. Inr (JObj [(''item:'' @ until_item (drop 6 key), parsed)]))
      else and_then (parseFilterRecursive env val) (\<lambda>parsed. Inr (JObj [(key, parsed)])))"
  by pat_completeness auto

termination
proof (relation "measure (case_sum (\<lambda>(_, v). 3 * size v) (case_sum (\<lambda>(_, v). 3 * size v + 1) (\<lambda>(_, _, v). 3 * size v + 2)))", goal_cases)
  case (2 env flt entry key val)
  then show ?case using size_own_entry[of flt key val] by auto
next
  case (4 env key val fs f)
  then show ?case using size_member[of f fs] by simp
qed simp_all

declare parseFilterRecursive.simps [simp del] parseFilter.simps [simp del] parseFilterEntry.simps [simp del]

section \<open>Normal filters\<close>

text \<open>
  What parsing produces: objects with at most one key, where a logical operator has a list of such filters, and the
  value of any other operator is left alone.
\<close>

fun normal :: "json \<Rightarrow> bool" where
  "normal JNull = True"
| "normal (JObj []) = True"
| "normal (JObj [(k, v)]) =
     (if is_logical k then (case v of JArr fs \<Rightarrow> \<forall>f\<in>set fs. normal f | _ \<Rightarrow> False)
      else if startsWith k ''_'' \<and> \<not> is_bypass k then True else normal v)"
| "normal _ = False"

lemma logical_underscore: "is_logical k \<Longrightarrow> startsWith k ''_''" "is_bypass k \<Longrightarrow> startsWith k ''_''"
    "is_logical k \<Longrightarrow> \<not> is_bypass k" "is_logical k \<Longrightarrow> k \<noteq> []"
  by (auto simp: logicalFilterOperators_def bypassOperators_def)

lemma normal_objects: "\<forall>f\<in>set fs. normal f \<and> f \<noteq> JNull \<Longrightarrow> normal (joined fs) \<and> joined fs \<noteq> JNull"
  by (cases fs rule: remdups_adj.cases) (auto simp: joined_def js_or_def logicalFilterOperators_def elim: nullish.elims)

text \<open>Under a key, a shift changes nothing, keeps the key on top, or puts a logical operator over copies of the key.\<close>

lemma shift_under_shape:
  assumes "shift_under key (JObj ((childKey, cw) # others)) whole = Inr g"
  shows "g = whole \<or> (\<exists>f. g = JObj [(key, f)]) \<or>
    (\<exists>fs. is_logical childKey \<and> g = JObj [(childKey, JArr (map (\<lambda>f. JObj [(key, f)]) fs))])"
proof (cases "childKey \<noteq> [] \<and> is_logical childKey")
  case True
  then have log: "childKey \<noteq> []" "is_logical childKey" by simp_all
  have pieces: "map (\<lambda>p. JObj [(key, JStr p)]) ps = map (\<lambda>f. JObj [(key, f)]) (map JStr ps)" for ps by simp
  have one: "[JObj [(key, f)]] = map (\<lambda>f. JObj [(key, f)]) [f]" for f by simp
  obtain fs where "g = JObj [(childKey, JArr (map (\<lambda>f. JObj [(key, f)]) fs))]"
    using assms log unfolding shift_under.simps pieces one
    by (cases cw) (auto simp only: if_False if_True json.case sum.inject and_then_Inr_iff simp_thms)
  with log show ?thesis by blast
next
  case False
  with assms show ?thesis unfolding shift_under.simps
    by (auto simp only: if_False if_True sum.inject and_then_Inr_iff simp_thms split: if_splits)
qed

text \<open>A shift keeps filters normal.\<close>

lemma shift_normal:
  "\<forall>g. shiftLogicalOperatorsUp f = Inr g \<and> normal f \<longrightarrow> normal g"
  "\<forall>gs. shift_each fs = Inr gs \<and> (\<forall>f\<in>set fs. normal f) \<longrightarrow> (\<forall>g\<in>set gs. normal g)"
  "shift_values es = shift_values es"
  "\<forall>g. shift_under k w whole = Inr g \<and> \<not> is_logical k \<and> normal (JObj [(k, w)]) \<and> whole = JObj [(k, w)] \<longrightarrow> normal g"
proof (induction f and fs and es and k w whole rule: shiftLogicalOperatorsUp_shift_each_shift_values_shift_under.induct)
  case (1 key w rest)
  show ?case
  proof (intro allI impI, elim conjE)
    fix g assume g: "shiftLogicalOperatorsUp (JObj ((key, w) # rest)) = Inr g" and n: "normal (JObj ((key, w) # rest))"
    from n have rest: "rest = []" by (cases rest) simp_all
    consider "key = []" | fs where "key \<noteq> []" "is_logical key" "w = JArr fs" | "key \<noteq> []" "\<not> is_logical key"
      using n unfolding rest by (cases w) (auto split: if_splits)
    then show "normal g"
    proof cases
      case 1
      with g n rest show ?thesis by simp
    next
      case 2
      with g obtain gs where gs: "shift_each fs = Inr gs" and g: "g = JObj [(key, JArr gs)]"
        unfolding rest by (auto simp: and_then_Inr_iff)
      from n 2 have "\<forall>f\<in>set fs. normal f" by (simp add: rest)
      with "1.IH"(1)[OF 2] gs have "\<forall>x\<in>set gs. normal x" by blast
      with 2 g show ?thesis by simp
    next
      case 3
      with g have "shift_under key w (JObj ((key, w) # rest)) = Inr g" by simp
      with "1.IH"(3)[OF 3] 3 n rest show ?thesis by blast
    qed
  qed
next
  case (13 f fs)
  show ?case
  proof (intro allI impI, elim conjE)
    fix gs assume "shift_each (f # fs) = Inr gs" and n: "\<forall>f\<in>set (f # fs). normal f"
    then obtain f' fs' where p: "shiftLogicalOperatorsUp f = Inr f'" "shift_each fs = Inr fs'" "gs = f' # fs'"
      by (auto simp: and_then_Inr_iff)
    with 13 n show "\<forall>g\<in>set gs. normal g" by auto
  qed
next
  case (16 key childKey cw others whole)
  show ?case
  proof (intro allI impI, elim conjE)
    fix g assume g: "shift_under key (JObj ((childKey, cw) # others)) whole = Inr g" and k: "\<not> is_logical key"
      and n: "normal (JObj [(key, JObj ((childKey, cw) # others))])" and whole: "whole = JObj [(key, JObj ((childKey, cw) # others))]"
    show "normal g"
    proof (cases "startsWith key ''_'' \<and> \<not> is_bypass key")
      case True
      then have "normal (JObj [(key, f)])" for f using k by simp
      with shift_under_shape[OF g] whole show ?thesis by (auto simp del: normal.simps(3) simp: normal.simps(3)[of "''_and''"] normal.simps(3)[of "''_or''"] logicalFilterOperators_def)
    next
      case False
      with n k have inner: "normal (JObj ((childKey, cw) # others))" by simp
      then have others: "others = []" by (cases others) simp_all
      consider "childKey = []" | fs where "childKey \<noteq> []" "is_logical childKey" "cw = JArr fs"
        | "childKey \<noteq> []" "\<not> is_logical childKey" "is_bypass childKey"
        | "childKey \<noteq> []" "\<not> is_logical childKey" "\<not> is_bypass childKey"
        using inner unfolding others by (cases cw) (auto split: if_splits)
      then show ?thesis
      proof cases
        case 1
        with g n whole show ?thesis by simp
      next
        case 2
        with g obtain gs where gs: "shift_each fs = Inr gs" "g = JObj [(childKey, JArr (map (\<lambda>f. JObj [(key, f)]) gs))]"
          by (auto simp: and_then_Inr_iff)
        from inner 2 have "\<forall>f\<in>set fs. normal f" by (simp add: others)
        with "16.IH"(7)[OF 2] gs have "\<forall>x\<in>set gs. normal x" by blast
        with gs(2) 2(2) show ?thesis by (simp add: k)
      next
        case 3
        with g obtain f where f: "shiftLogicalOperatorsUp cw = Inr f" "g = JObj [(key, JObj [(childKey, f)])]"
          by (auto simp: and_then_Inr_iff)
        from inner 3 have "normal cw" by (simp add: others)
        with "16.IH"(9)[OF 3] f(1) have "normal f" by blast
        with f(2) 3 show ?thesis by (simp add: k)
      next
        case 4
        show ?thesis
        proof (cases "startsWith childKey ''_''")
          case True
          with 4 g n whole show ?thesis by simp
        next
          case False
          with 4 g obtain f where f: "shiftLogicalOperatorsUp (JObj ((childKey, cw) # others)) = Inr f" "g = JObj [(key, f)]"
            by (auto simp: and_then_Inr_iff)
          with "16.IH"(10)[OF 4 False] inner have "normal f" by blast
          with f(2) show ?thesis by (simp add: k)
        qed
      qed
    qed
  qed
next
  case (17 key w rest whole)
  then show ?case by (auto simp: and_then_Inr_iff simp del: shiftLogicalOperatorsUp.simps)
qed simp_all

text \<open>Parsing yields normal filters.\<close>

lemma normal_joined:
  assumes "\<forall>f\<in>set fs. normal f"
  shows "normal (joined fs)"
proof (cases fs)
  case (Cons f gs)
  with assms show ?thesis
    by (cases gs; cases f) (auto simp: joined_def js_or_def logicalFilterOperators_def)
qed (simp add: joined_def)

lemma list_operator_underscore: "k \<in> set list_operators \<Longrightarrow> startsWith k ''_'' \<and> \<not> is_bypass k"
  by (auto simp: list_operators_def bypassOperators_def)

lemma item_key: "\<not> is_logical (''item:'' @ t)" "\<not> startsWith (''item:'' @ t) ''_''"
  by (simp_all add: logicalFilterOperators_def)

lemma parse_normal:
  "\<forall>g. parseFilterRecursive env flt = Inr g \<longrightarrow> normal g"
  "\<forall>g. parseFilter env flt = Inr g \<longrightarrow> normal g"
  "\<forall>g. parseFilterEntry env key val = Inr g \<longrightarrow> normal g"
proof (induction env flt and env flt and env key val rule: parseFilterRecursive_parseFilter_parseFilterEntry.induct)
  case (1 env flt)
  show ?case
  proof (intro allI impI)
    fix g assume g: "parseFilterRecursive env flt = Inr g"
    consider "nullish flt" | "\<not> nullish flt" "\<not> isObjectLike flt" | "\<not> nullish flt" "isObjectLike flt" by blast
    then show "normal g"
    proof cases
      case 3
      with g obtain fs where fs: "map_or_throw (\<lambda>(k, v). parseFilterEntry env k v) (own_entries flt) = Inr fs" "g = joined fs"
        by (subst (asm) parseFilterRecursive.simps) (auto simp: and_then_Inr_iff)
      have "normal f" if f: "f \<in> set fs" for f
      proof -
        obtain k v where "(k, v) \<in> set (own_entries flt)" "parseFilterEntry env k v = Inr f"
          using map_or_throw_mem[OF fs(1) f] by auto
        with "1.IH"[OF 3(1), of "(k, v)" k v] 3(2) show ?thesis by blast
      qed
      with fs(2) normal_joined show ?thesis by blast
    qed (use g in \<open>auto simp: parseFilterRecursive.simps[of env flt] logicalFilterOperators_def bypassOperators_def\<close>)
  qed
next
  case (2 env flt)
  show ?case
  proof (intro allI impI)
    fix g assume "parseFilter env flt = Inr g"
    then obtain parsed where p: "parseFilterRecursive env flt = Inr parsed"
        "(if truthy parsed then shiftLogicalOperatorsUp parsed else Inr parsed) = Inr g"
      by (auto simp: parseFilter.simps and_then_Inr_iff)
    with "2.IH" have "normal parsed" by blast
    with p(2) shift_normal(1) show "normal g" by (auto split: if_splits)
  qed
next
  case (3 env key val)
  show ?case
  proof (intro allI impI)
    fix g assume g: "parseFilterEntry env key val = Inr g"
    consider "is_logical key" | "\<not> is_logical key" "key \<in> set list_operators"
      | "\<not> is_logical key" "key \<notin> set list_operators" "startsWith key ''_'' \<and> \<not> is_bypass key"
      | "\<not> is_logical key" "key \<notin> set list_operators" "\<not> (startsWith key ''_'' \<and> \<not> is_bypass key)"
        "startsWith key ''item__'' \<and> isObjectLike val"
      | "\<not> is_logical key" "key \<notin> set list_operators" "\<not> (startsWith key ''_'' \<and> \<not> is_bypass key)"
        "\<not> (startsWith key ''item__'' \<and> isObjectLike val)" by blast
    then show "normal g"
    proof cases
      case 1
      with g obtain fs gs where fs: "val = JArr fs" "map_or_throw (parseFilterRecursive env) fs = Inr gs"
          "g = JObj [(key, JArr gs)]"
        by (cases val) (auto simp: parseFilterEntry.simps[of env key] and_then_Inr_iff)
      have "normal x" if x: "x \<in> set gs" for x
      proof -
        obtain f where "f \<in> set fs" "parseFilterRecursive env f = Inr x"
          using map_or_throw_mem[OF fs(2) x] by blast
        with "3.IH"(1)[OF 1 fs(1)] show ?thesis by blast
      qed
      with 1 fs(3) show ?thesis by simp
    next
      case 2
      with g list_operator_underscore[of key] show ?thesis by (auto simp: parseFilterEntry.simps[of env key])
    next
      case 3
      with g show ?thesis by (auto simp: parseFilterEntry.simps[of env key])
    next
      case 4
      with g obtain p where "parseFilter env val = Inr p" "g = JObj [(''item:'' @ until_item (drop 6 key), p)]"
        by (auto simp: parseFilterEntry.simps[of env key] and_then_Inr_iff)
      with "3.IH"(2)[OF 4] item_key show ?thesis by simp
    next
      case 5
      with g obtain p where "parseFilterRecursive env val = Inr p" "g = JObj [(key, p)]"
        by (auto simp: parseFilterEntry.simps[of env key] and_then_Inr_iff)
      with "3.IH"(3)[OF 5] 5 show ?thesis by simp
    qed
  qed
qed

section \<open>The meaning of a filter\<close>

text \<open>
  Whether an item matches a filter: the keys on the way to an operator are the path the operator looks at, \<open>_some\<close> and
  \<open>_none\<close> quantify over the related items at a path, and a logical operator may stand anywhere on the way.
\<close>

function (sequential) matches :: "('i \<Rightarrow> string list \<Rightarrow> string \<Rightarrow> json \<Rightarrow> bool) \<Rightarrow> ('i \<Rightarrow> string list \<Rightarrow> 'i list) \<Rightarrow> json \<Rightarrow> 'i \<Rightarrow>
    string list \<Rightarrow> bool"
  and match_entries :: "('i \<Rightarrow> string list \<Rightarrow> string \<Rightarrow> json \<Rightarrow> bool) \<Rightarrow> ('i \<Rightarrow> string list \<Rightarrow> 'i list) \<Rightarrow>
    (string \<times> json) list \<Rightarrow> 'i \<Rightarrow> string list \<Rightarrow> bool"
  and match_all :: "('i \<Rightarrow> string list \<Rightarrow> string \<Rightarrow> json \<Rightarrow> bool) \<Rightarrow> ('i \<Rightarrow> string list \<Rightarrow> 'i list) \<Rightarrow> json list \<Rightarrow> 'i \<Rightarrow>
    string list \<Rightarrow> bool"
  and match_any :: "('i \<Rightarrow> string list \<Rightarrow> string \<Rightarrow> json \<Rightarrow> bool) \<Rightarrow> ('i \<Rightarrow> string list \<Rightarrow> 'i list) \<Rightarrow> json list \<Rightarrow> 'i \<Rightarrow>
    string list \<Rightarrow> bool" where
  "matches holds related (JObj es) i path = match_entries holds related es i path"
| "matches holds related _ i path = True"
| "match_entries holds related [] i path = True"
| "match_entries holds related ((k, v) # es) i path =
     ((if is_logical k then
         (case v of
            JArr fs \<Rightarrow> if k = ''_and'' then match_all holds related fs i path else match_any holds related fs i path
          | _ \<Rightarrow> holds i path k v)
       else if k = ''_some'' then list_ex (\<lambda>j. matches holds related v j []) (related i path)
       else if k = ''_none'' then \<not> list_ex (\<lambda>j. matches holds related v j []) (related i path)
       else if startsWith k ''_'' then holds i path k v
       else matches holds related v i (path @ [k])) \<and>
      match_entries holds related es i path)"
| "match_all holds related [] i path = True"
| "match_all holds related (f # fs) i path = (matches holds related f i path \<and> match_all holds related fs i path)"
| "match_any holds related [] i path = False"
| "match_any holds related (f # fs) i path = (matches holds related f i path \<or> match_any holds related fs i path)"
  by pat_completeness auto

termination
  by (relation "measure (case_sum
      (case_sum (\<lambda>(_, _, f, _). size f) (\<lambda>(_, _, es, _). size_list (size_prod (\<lambda>_. 0) size) es))
      (case_sum (\<lambda>(_, _, fs, _). size_list size fs) (\<lambda>(_, _, fs, _). size_list size fs)))") auto

lemma match_all_iff: "match_all holds related fs i path \<longleftrightarrow> (\<forall>f\<in>set fs. matches holds related f i path)"
  by (induction fs) simp_all

lemma match_any_iff: "match_any holds related fs i path \<longleftrightarrow> (\<exists>f\<in>set fs. matches holds related f i path)"
  by (induction fs) simp_all

text \<open>Filters whose operators stand where the shift expects them: below a field, or with a plain value.\<close>

fun plain_value :: "json \<Rightarrow> bool" where
  "plain_value (JObj es) = (es = [])"
| "plain_value (JArr vs) = (vs = [])"
| "plain_value JNull = False"
| "plain_value JUndefined = False"
| "plain_value _ = True"

fun well_placed :: "json \<Rightarrow> bool" and placed_under :: "json \<Rightarrow> bool" where
  "well_placed JNull = True"
| "well_placed (JObj []) = True"
| "well_placed (JObj [(k, v)]) =
     (if is_logical k then (case v of JArr fs \<Rightarrow> \<forall>f\<in>set fs. well_placed f | _ \<Rightarrow> False)
      else if startsWith k ''_'' then \<not> is_bypass k \<and> plain_value v
      else placed_under v)"
| "well_placed _ = False"
| "placed_under (JObj []) = True"
| "placed_under (JObj [(k, v)]) =
     (if is_logical k then (case v of JArr fs \<Rightarrow> \<forall>f\<in>set fs. well_placed f | _ \<Rightarrow> False)
      else if is_bypass k then well_placed v
      else if startsWith k ''_'' then True
      else placed_under v)"
| "placed_under _ = False"

lemma match_field:
  "\<not> is_logical k \<Longrightarrow> \<not> startsWith k ''_'' \<Longrightarrow> matches holds related (JObj [(k, v)]) i path = matches holds related v i (path @ [k])"
  using logical_underscore[of k] by (auto simp: bypassOperators_def)

lemma match_logical:
  "is_logical k \<Longrightarrow> matches holds related (JObj [(k, JArr fs)]) i path =
     (if k = ''_and'' then match_all holds related fs i path else match_any holds related fs i path)"
  by simp

lemma match_bypass:
  assumes "is_bypass k" "\<And>i path. matches holds related f i path = matches holds related g i path"
  shows "matches holds related (JObj [(k, f)]) i path = matches holds related (JObj [(k, g)]) i path"
  using assms(1) by (auto simp: bypassOperators_def logicalFilterOperators_def assms(2))

lemma match_list_cong:
  assumes "list_all2 (\<lambda>f g. \<forall>i path. matches holds related g i path = matches holds related (h f) i (q path)) fs gs"
  shows "match_all holds related gs i path = match_all holds related (map h fs) i (q path)"
    and "match_any holds related gs i path = match_any holds related (map h fs) i (q path)"
  using assms by (induction fs gs rule: list_all2_induct) simp_all

text \<open>A shift of a well-placed filter never throws and keeps its meaning.\<close>

lemma shift_matches:
  "well_placed f \<longrightarrow> (\<exists>g. shiftLogicalOperatorsUp f = Inr g \<and>
     (\<forall>i path. matches holds related g i path = matches holds related f i path))"
  "(\<forall>f\<in>set fs. well_placed f) \<longrightarrow> (\<exists>gs. shift_each fs = Inr gs \<and>
     list_all2 (\<lambda>f g. \<forall>i path. matches holds related g i path = matches holds related f i path) fs gs)"
  "shift_values es = shift_values es"
  "\<not> is_logical k \<and> \<not> startsWith k ''_'' \<and> placed_under w \<and> whole = JObj [(k, w)] \<longrightarrow> (\<exists>g. shift_under k w whole = Inr g \<and>
     (\<forall>i path. matches holds related g i path = matches holds related whole i path))"
proof (induction f and fs and es and k w whole rule: shiftLogicalOperatorsUp_shift_each_shift_values_shift_under.induct)
  case (1 key w rest)
  show ?case
  proof
    assume wp: "well_placed (JObj ((key, w) # rest))"
    then have rest: "rest = []" by (cases rest) simp_all
    consider "key = []" | fs where "key \<noteq> []" "is_logical key" "w = JArr fs"
      | "key \<noteq> []" "\<not> is_logical key" "startsWith key ''_''" | "key \<noteq> []" "\<not> is_logical key" "\<not> startsWith key ''_''"
      using wp unfolding rest by (cases w) (auto split: if_splits)
    then show "\<exists>g. shiftLogicalOperatorsUp (JObj ((key, w) # rest)) = Inr g \<and>
        (\<forall>i path. matches holds related g i path = matches holds related (JObj ((key, w) # rest)) i path)"
    proof cases
      case 2
      with wp have "\<forall>f\<in>set fs. well_placed f" by (simp add: rest)
      with "1.IH"(1)[OF 2] obtain gs where gs: "shift_each fs = Inr gs"
          "list_all2 (\<lambda>f g. \<forall>i path. matches holds related g i path = matches holds related f i path) fs gs" by blast
      from match_list_cong[of holds related "\<lambda>f. f" "\<lambda>p. p", OF gs(2)] 2 gs(1) rest show ?thesis by simp
    next
      case 3
      with wp have "plain_value w" by (simp add: rest)
      then have "shift_under key w (JObj [(key, w)]) = Inr (JObj [(key, w)])" by (cases w) simp_all
      with 3 rest show ?thesis by simp
    next
      case 4
      with wp rest have "placed_under w" by simp
      with "1.IH"(3)[OF 4(1,2)] 4 rest show ?thesis by simp
    qed simp
  qed
next
  case (13 f fs)
  then show ?case by (auto simp: and_then_Inr_iff list_all2_Cons1)
next
  case (16 key childKey cw others whole)
  show ?case
  proof (intro impI, elim conjE)
    assume key: "\<not> is_logical key" "\<not> startsWith key ''_''" and wp: "placed_under (JObj ((childKey, cw) # others))"
      and whole: "whole = JObj [(key, JObj ((childKey, cw) # others))]"
    from wp have others: "others = []" by (cases others) simp_all
    consider "childKey = []" | fs where "childKey \<noteq> []" "is_logical childKey" "cw = JArr fs"
      | "childKey \<noteq> []" "\<not> is_logical childKey" "is_bypass childKey"
      | "childKey \<noteq> []" "\<not> is_logical childKey" "\<not> is_bypass childKey" "startsWith childKey ''_''"
      | "childKey \<noteq> []" "\<not> is_logical childKey" "\<not> is_bypass childKey" "\<not> startsWith childKey ''_''"
      using wp unfolding others by (cases cw) (auto split: if_splits)
    then show "\<exists>g. shift_under key (JObj ((childKey, cw) # others)) whole = Inr g \<and>
        (\<forall>i path. matches holds related g i path = matches holds related whole i path)"
    proof cases
      case 2
      with wp have "\<forall>f\<in>set fs. well_placed f" by (simp add: others)
      with "16.IH"(7)[OF 2] obtain gs where gs: "shift_each fs = Inr gs"
          "list_all2 (\<lambda>f g. \<forall>i path. matches holds related g i path = matches holds related f i path) fs gs" by blast
      have "list_all2 (\<lambda>f g. \<forall>i path. matches holds related g i path = matches holds related f i (path @ [key]))
          fs (map (\<lambda>f. JObj [(key, f)]) gs)"
        unfolding list_all2_map2 match_field[OF key] using gs(2) by (rule list_all2_mono) blast
      note each = match_list_cong[of holds related "\<lambda>f. f" "\<lambda>p. p @ [key]", OF this]
      show ?thesis
        unfolding whole others match_field[OF key] 2(3) match_logical[OF 2(2)]
        using 2(1,2) gs(1) each by (simp add: match_field[OF key])
    next
      case 3
      with wp have "well_placed cw" by (simp add: others)
      with "16.IH"(9)[OF 3] obtain f where f: "shiftLogicalOperatorsUp cw = Inr f"
          "\<And>i path. matches holds related f i path = matches holds related cw i path" by blast
      have "shift_under key (JObj ((childKey, cw) # others)) whole = Inr (JObj [(key, JObj [(childKey, f)])])"
        using 3 f(1) by simp
      with match_bypass[OF 3(3) f(2)] show ?thesis
        unfolding whole others by (metis match_field[OF key])
    next
      case 5
      then have "placed_under cw" using wp by (simp add: others)
      with 5 have "well_placed (JObj ((childKey, cw) # others))" by (simp add: others)
      with "16.IH"(10)[OF 5] obtain f where f: "shiftLogicalOperatorsUp (JObj ((childKey, cw) # others)) = Inr f"
          "\<And>i path. matches holds related f i path = matches holds related (JObj ((childKey, cw) # others)) i path" by blast
      have "shift_under key (JObj ((childKey, cw) # others)) whole = Inr (JObj [(key, f)])"
        using 5 f(1) by (simp del: shiftLogicalOperatorsUp.simps)
      with f(2) show ?thesis unfolding whole by (metis match_field[OF key])
    qed simp_all
  qed
qed (simp_all, auto)

section \<open>Properties\<close>

text \<open>
  C37: a filter that is parsed is normal: one key at a time, lists below the logical operators. When the operators stand
  below their fields, or have plain values, moving the logical operators up never throws and changes no item's match.
\<close>

theorem parseFilter_normal_form:
  "(\<forall>g. parseFilter env flt = Inr g \<longrightarrow> normal g) \<and>
   (\<forall>g. parseFilterRecursive env flt = Inr g \<and> well_placed g \<longrightarrow>
      (\<exists>h. parseFilter env flt = Inr h \<and>
         (\<forall>i path. matches holds related h i path \<longleftrightarrow> matches holds related g i path)))"
proof (intro conjI allI impI; (elim conjE)?)
  show "normal g" if "parseFilter env flt = Inr g" for g using parse_normal(2) that by blast
next
  fix g assume g: "parseFilterRecursive env flt = Inr g" "well_placed g"
  show "\<exists>h. parseFilter env flt = Inr h \<and> (\<forall>i path. matches holds related h i path \<longleftrightarrow> matches holds related g i path)"
  proof (cases "truthy g")
    case True
    with g have "parseFilter env flt = shiftLogicalOperatorsUp g" by (simp add: parseFilter.simps)
    with g(2) shift_matches(1) show ?thesis by metis
  next
    case False
    with g(1) have "parseFilter env flt = Inr g" by (simp add: parseFilter.simps)
    then show ?thesis by blast
  qed
qed

definition plain_env :: filter_env where
  "plain_env = \<lparr>fe_now = JDate ''2026-01-01'', fe_adjustDate = (\<lambda>d _. d), fe_accountability = JNull, fe_context = JNull\<rparr>"

lemma parse_leaf:
  "parseFilterRecursive env (JObj []) = Inr (JObj [])"
  "parseFilterRecursive env JNull = Inr JNull"
  "parseFilterRecursive env (JObj [e]) = and_then (parseFilterEntry env (fst e) (snd e)) (\<lambda>f. Inr (js_or f JNull))"
  by (cases e; simp add: parseFilterRecursive.simps and_then_def own_entries_def joined_def split: sum.split)+

lemma parseFilter_normal_form_witness:
  "normal (JObj [(''_or'', JArr [JObj [(''author'', JObj [(''name'', JObj [(''_eq'', JStr ''x'')])])],
     JObj [(''author'', JObj [(''age'', JObj [(''_gt'', JInt 3)])])]])])"
proof -
  let ?flt = "JObj [(''author'', JObj [(''_or'', JArr [JObj [(''name'', JObj [(''_eq'', JStr ''x'')])],
     JObj [(''age'', JObj [(''_gt'', JInt 3)])]])])]"
  have "parseFilter plain_env ?flt = Inr (JObj [(''_or'', JArr [JObj [(''author'', JObj [(''name'', JObj [(''_eq'', JStr ''x'')])])],
     JObj [(''author'', JObj [(''age'', JObj [(''_gt'', JInt 3)])])]])])"
    by (simp add: parseFilter.simps parse_leaf parseFilterEntry.simps js_or_def logicalFilterOperators_def bypassOperators_def
        list_operators_def parseFilterValue_def isDynamicVariable_def)
  with parseFilter_normal_form show ?thesis by blast
qed

text \<open>
  C42: what parsing does not do. A field compared with \<open>null\<close> makes it throw a \<open>TypeError\<close>; a logical operator two
  fields deep moves up one field only; and below a field's logical operator, a list of texts becomes an object that keeps
  only its first text.
\<close>

definition plain_key :: "string \<Rightarrow> bool" where
  "plain_key k \<longleftrightarrow> k \<noteq> [] \<and> \<not> startsWith k ''_'' \<and> \<not> startsWith k ''item__''"

lemma plain_key_simps:
  assumes "plain_key k"
  shows "k \<noteq> []" "\<not> startsWith k ''_''" "\<not> startsWith k ''item__''" "\<not> is_logical k" "\<not> is_bypass k" "k \<notin> set list_operators"
  using assms logical_underscore[of k] list_operator_underscore[of k] by (auto simp: plain_key_def)

lemma parse_plain_entry:
  "plain_key k \<Longrightarrow> parseFilterEntry env k v = and_then (parseFilterRecursive env v) (\<lambda>parsed. Inr (JObj [(k, parsed)]))"
  using plain_key_simps[of k] by (simp add: parseFilterEntry.simps)



end
