(* ===== verification/Field_Requirements.thy ===== *)
theory Field_Requirements
  imports Filter_Parse
begin

text \<open>
  The fields a query needs permission for: the parts of \<open>api/src/services/authorization.ts\<close> that read them off a filter
  and a sort, with \<open>strip-function.ts\<close>, \<open>get-relation-info.ts\<close> and \<open>get-relation-type.ts\<close>. A set of required fields
  is an insertion-ordered map from collections to insertion-ordered sets of fields; collections are not named after
  properties every JavaScript object inherits.
\<close>

section \<open>Relations\<close>

definition stripFunction :: "string \<Rightarrow> string" where
  "stripFunction field =
     (if CHR ''('' \<in> set field \<and> CHR '')'' \<in> set field
      then (case getBetweenParens field of None \<Rightarrow> field | Some s \<Rightarrow> js_trim s)
      else field)"

datatype info_type = Info_m2o | Info_o2m | Info_a2o | Info_o2a

text \<open>\<open>null\<close> and \<open>undefined\<close> differ here, so the references a relation makes are read as values.\<close>

definition related_value :: "relation \<Rightarrow> json" where
  "related_value r = (case rl_related r of None \<Rightarrow> JNull | Some c \<Rightarrow> JStr c)"

definition one_field_value :: "relation \<Rightarrow> json" where
  "one_field_value r =
     (case rl_meta r of None \<Rightarrow> JUndefined | Some meta \<Rightarrow> (case rm_one_field meta of None \<Rightarrow> JNull | Some f \<Rightarrow> JStr f))"

definition relation_of :: "json \<Rightarrow> json \<Rightarrow> relation \<Rightarrow> bool" where
  "relation_of collection field r \<longleftrightarrow>
     JStr (rl_collection r) = collection \<and> JStr (rl_field r) = field \<or>
     related_value r = collection \<and> one_field_value r = field"

definition getRelationType :: "relation \<Rightarrow> json \<Rightarrow> string \<Rightarrow> info_type option" where
  "getRelationType r collection field =
     (let own = (JStr (rl_collection r) = collection \<and> rl_field r = field) in
      if own \<and> (\<exists>meta\<in>set_option (rl_meta r). set_text (rm_one_collection_field meta) \<and> rm_one_allowed_collections meta \<noteq> None)
      then Some Info_a2o
      else if own then Some Info_m2o
      else if related_value r = collection \<and> one_field_value r = JStr field then Some Info_o2m
      else None)"

definition text_option :: "json \<Rightarrow> string option" where
  "text_option v = (case v of JStr s \<Rightarrow> Some s | _ \<Rightarrow> None)"

definition checkImplicitRelation :: "string \<Rightarrow> string list option" where
  "checkImplicitRelation field =
     (if startsWith field ''$FOLLOW('' \<and> field \<noteq> [] \<and> last field = CHR '')''
      then Some (js_split CHR '','' (butlast (drop 8 field))) else None)"

definition getRelationInfo :: "relation list \<Rightarrow> json \<Rightarrow> string \<Rightarrow> request_error + relation option \<times> info_type option" where
  "getRelationInfo relations collection field =
     (if startsWith field ''$FOLLOW'' \<and> 500 < length field then Inl General_Error
      else case checkImplicitRelation field of
        Some [m2oCollection, m2oField] \<Rightarrow>
          Inr (Some \<lparr>rl_collection = js_trim m2oCollection, rl_field = js_trim m2oField, rl_related = text_option collection,
                 rl_meta = None\<rparr>, Some Info_o2m)
      | Some (a2oCollection # a2oItemField # a2oCollectionField # _) \<Rightarrow>
          Inr (Some \<lparr>rl_collection = js_trim a2oCollection, rl_field = js_trim a2oItemField, rl_related = text_option collection,
                 rl_meta = Some \<lparr>rm_one_field = None, rm_one_allowed_collections = None,
                   rm_one_collection_field = Some (js_trim a2oCollectionField), rm_sort_field = None\<rparr>\<rparr>, Some Info_o2a)
      | Some _ \<Rightarrow> Inl Type_Error
      | None \<Rightarrow>
          (case find (relation_of collection (JStr field)) relations of
             None \<Rightarrow> Inr (None, None)
           | Some r \<Rightarrow> Inr (Some r, getRelationType r collection field)))"

section \<open>Required fields\<close>

type_synonym required = "(string \<times> string list) list"

definition fields_of :: "required \<Rightarrow> string \<Rightarrow> string list" where
  "fields_of required collection = (case map_of required collection of None \<Rightarrow> [] | Some fs \<Rightarrow> fs)"

text \<open>\<open>(result[collection] || (result[collection] = new Set())).add(field)\<close>\<close>

definition require :: "string \<Rightarrow> string \<Rightarrow> required \<Rightarrow> required" where
  "require collection field result = js_set collection (js_add field (fields_of result collection)) result"

definition mergeRequiredFieldPermissions :: "required \<Rightarrow> required \<Rightarrow> required" where
  "mergeRequiredFieldPermissions current child =
     foldl (\<lambda>acc (collection, fs).
       js_set collection (case map_of acc collection of None \<Rightarrow> fs | Some old \<Rightarrow> js_uniq (old @ fs)) acc) current child"

text \<open>The relation the parent field leads through, and the collection on its other side.\<close>

definition parent_relation :: "relation list \<Rightarrow> json \<Rightarrow> json \<Rightarrow> relation option" where
  "parent_relation relations parentCollection parentField = find (relation_of parentCollection parentField) relations"

definition other_side :: "relation \<Rightarrow> json \<Rightarrow> json" where
  "other_side r parentCollection =
     (if related_value r = parentCollection then JStr (rl_collection r) else related_value r)"

text \<open>A value used as a property name.\<close>

fun property_key :: "json \<Rightarrow> string" where
  "property_key (JStr s) = s"
| "property_key JNull = ''null''"
| "property_key _ = ''undefined''"

text \<open>
  lodash walks an object with an integral \<open>length\<close> by indexes, like a list or a text: the key given to the callback is
  then a number, which has no \<open>startsWith\<close>.
\<close>

definition array_length :: "(string \<times> json) list \<Rightarrow> int option" where
  "array_length es =
     (case map_of es ''length'' of
        Some (JInt n) \<Rightarrow> if 0 \<le> n \<and> n \<le> 9007199254740991 then Some n else None
      | _ \<Rightarrow> None)"

text \<open>The three ways a key adds fields: a \<open>$FOLLOW\<close> key, a scoped key \<open>field:collection\<close>, and a plain field.\<close>

definition require_follow :: "string \<Rightarrow> string \<Rightarrow> required \<Rightarrow> request_error + required" where
  "require_follow collection filterKey result =
     and_then (getRelationInfo [] (JStr collection) filterKey) (\<lambda>(found, _).
       Inr (case found of
              Some r \<Rightarrow>
                if rl_collection r \<noteq> [] \<and> rl_field r \<noteq> []
                then require (rl_collection r) (rl_field r) (require collection filterKey result)
                else require collection filterKey result
            | None \<Rightarrow> require collection filterKey result))"

definition require_scoped :: "relation list \<Rightarrow> string \<Rightarrow> string \<Rightarrow> json \<Rightarrow> json \<Rightarrow> required \<Rightarrow> request_error + required" where
  "require_scoped rs collection field parentCollection parentField result =
     (if collection \<noteq> [] then Inr (require collection ''collection'' (require collection field result))
      else (case parent_relation rs parentCollection parentField of
              None \<Rightarrow> Inl Forbidden
            | Some r \<Rightarrow>
                (let name = property_key (other_side r parentCollection)
                 in Inr (require name ''collection'' (require name field result)))))"

definition require_field :: "relation list \<Rightarrow> string \<Rightarrow> string \<Rightarrow> json \<Rightarrow> json \<Rightarrow> required \<Rightarrow> request_error + required \<times> json" where
  "require_field rs collection filterKey parentCollection parentField result =
     (if collection \<noteq> [] then Inr (require collection filterKey result, parentCollection)
      else (case parent_relation rs parentCollection parentField of
              None \<Rightarrow> Inl Forbidden
            | Some r \<Rightarrow>
                (let next = other_side r parentCollection in Inr (require (property_key next) filterKey result, next))))"

text \<open>
  \<open>extract_key\<close> is the callback of \<open>reduce\<close>; it returns the result and the parent collection, which the callback
  reassigns for the keys that follow. \<open>again\<close> is the outcome of the call on the whole value that the loop over its keys
  makes for every key without an underscore.
\<close>

function extractRequiredFieldPermissions :: "relation list \<Rightarrow> string \<Rightarrow> json \<Rightarrow> json \<Rightarrow> json \<Rightarrow> request_error + required"
  and extract_entries :: "relation list \<Rightarrow> string \<Rightarrow> (string \<times> json) list \<Rightarrow> json \<Rightarrow> json \<Rightarrow> required \<Rightarrow> request_error + required"
  and extract_key :: "relation list \<Rightarrow> string \<Rightarrow> string \<Rightarrow> json \<Rightarrow> json \<Rightarrow> json \<Rightarrow> required \<Rightarrow> request_error + required \<times> json"
  and extract_filters :: "relation list \<Rightarrow> string \<Rightarrow> json list \<Rightarrow> json \<Rightarrow> json \<Rightarrow> required \<Rightarrow> request_error + required"
  and extract_children :: "relation list \<Rightarrow> string \<Rightarrow> (string \<times> json) list \<Rightarrow> json \<Rightarrow> request_error + required \<Rightarrow> required \<Rightarrow>
    request_error + required" where
  "extractRequiredFieldPermissions rs collection flt parentCollection parentField =
     (case flt of
        JObj es \<Rightarrow>
          (case array_length es of
             Some n \<Rightarrow> if n = 0 then Inr [] else Inl Type_Error
           | None \<Rightarrow> extract_entries rs collection es parentCollection parentField [])
      | JArr vs \<Rightarrow> if vs = [] then Inr [] else Inl Type_Error
      | JStr s \<Rightarrow> if s = [] then Inr [] else Inl Type_Error
      | _ \<Rightarrow> Inr [])"
| "extract_entries rs collection [] parentCollection parentField result = Inr result"
| "extract_entries rs collection ((k, v) # es) parentCollection parentField result =
     and_then (extract_key rs collection k v parentCollection parentField result)
       (\<lambda>(result', parentCollection'). extract_entries rs collection es parentCollection' parentField result')"
| "extract_key rs collection filterKey filterValue parentCollection parentField result =
     (if startsWith filterKey ''_'' then
        (case filterValue of
           JArr fs \<Rightarrow>
             if is_logical filterKey
             then and_then (extract_filters rs collection fs parentCollection parentField result) (\<lambda>r. Inr (r, parentCollection))
             else Inr (result, parentCollection)
         | _ \<Rightarrow> Inr (result, parentCollection))
      else if collection \<noteq> [] \<and> startsWith filterKey ''$FOLLOW'' then
        and_then (require_follow collection filterKey result) (\<lambda>r. Inr (r, parentCollection))
      else if CHR '':'' \<in> set filterKey then
        and_then (require_scoped rs collection (js_split CHR '':'' filterKey ! 0) parentCollection parentField result) (\<lambda>result'.
          and_then (extractRequiredFieldPermissions rs (js_split CHR '':'' filterKey ! 1) filterValue JUndefined JUndefined)
            (\<lambda>required. Inr (mergeRequiredFieldPermissions result' required, parentCollection)))
      else
        and_then (require_field rs collection filterKey parentCollection parentField result) (\<lambda>(result', current).
          if isObjectLike filterValue \<or> filterValue = JNull then
            (let next = (if truthy current then current else JStr collection) in
             (case filterValue of
                JObj es \<Rightarrow>
                  and_then (extract_children rs filterKey es next
                      (extractRequiredFieldPermissions rs [] filterValue next (JStr filterKey)) result')
                    (\<lambda>r. Inr (r, next))
              | JArr vs \<Rightarrow> if vs = [] then Inr (result', next) else Inl Type_Error
              | JNull \<Rightarrow> Inl Type_Error
              | _ \<Rightarrow> Inr (result', next)))
          else Inr (result', current)))"
| "extract_filters rs collection [] parentCollection parentField result = Inr result"
| "extract_filters rs collection (f # fs) parentCollection parentField result =
     and_then (extractRequiredFieldPermissions rs collection f parentCollection parentField) (\<lambda>required.
       extract_filters rs collection fs parentCollection parentField (mergeRequiredFieldPermissions result required))"
| "extract_children rs filterKey [] parentCollection again result = Inr result"
| "extract_children rs filterKey ((childKey, cv) # es) parentCollection again result =
     and_then
       (if startsWith childKey ''_'' then
          (case cv of
             JArr fs \<Rightarrow>
               if is_logical childKey then extract_filters rs [] fs parentCollection (JStr filterKey) result else Inr result
           | _ \<Rightarrow> Inr result)
        else and_then again (\<lambda>required. Inr (mergeRequiredFieldPermissions result required)))
       (\<lambda>result'. extract_children rs filterKey es parentCollection again result')"
  by pat_completeness simp_all

termination
  by (relation "measure (case_sum
      (case_sum (\<lambda>(_, _, f, _). 2 * size f) (\<lambda>(_, _, es, _). 2 * size_list (size_prod (\<lambda>_. 0) size) es))
      (case_sum (\<lambda>(_, _, _, v, _). 2 * size v + 1)
        (case_sum (\<lambda>(_, _, fs, _). 2 * size_list size fs) (\<lambda>(_, _, es, _). 2 * size_list (size_prod (\<lambda>_. 0) size) es))))") auto

section \<open>Sorting\<close>

definition primary_of :: "schema_overview \<Rightarrow> json \<Rightarrow> json" where
  "primary_of schema collection =
     (case map_of (so_collections schema) (property_key collection) of
        None \<Rightarrow> JUndefined | Some c \<Rightarrow> JStr (co_primary c))"

text \<open>The walk along one sort path: a missing relation or scope ends it.\<close>

fun sort_path :: "schema_overview \<Rightarrow> json \<Rightarrow> string list \<Rightarrow> required \<Rightarrow> request_error + required" where
  "sort_path schema current [] result = Inr result"
| "sort_path schema current (segment # rest) result =
     (let baseName = hd (js_split CHR '':'' segment) in
      if rest = [] then
        (let fieldName = stripFunction baseName in
         Inr (if JStr fieldName = primary_of schema current then result else require (property_key current) fieldName result))
      else
        (let result' = require (property_key current) baseName result in
         and_then (getRelationInfo (so_relations schema) current baseName) (\<lambda>(found, type).
           case found of
             None \<Rightarrow> Inr result'
           | Some r \<Rightarrow>
               if type = Some Info_m2o then sort_path schema (related_value r) rest result'
               else if type = Some Info_a2o then
                 (case js_split CHR '':'' segment of
                    _ # pathScope # _ \<Rightarrow>
                      if pathScope = [] then Inr result' else sort_path schema (JStr pathScope) rest result'
                  | _ \<Rightarrow> Inr result')
               else sort_path schema (JStr (rl_collection r)) rest result')))"

fun sort_paths :: "schema_overview \<Rightarrow> string \<Rightarrow> string list \<Rightarrow> required \<Rightarrow> request_error + required" where
  "sort_paths schema collection [] result = Inr result"
| "sort_paths schema collection (rawOperand # operands) result =
     (let operand = (case rawOperand of c # cs \<Rightarrow> if c = CHR ''-'' then cs else rawOperand | [] \<Rightarrow> []) in
      and_then (sort_path schema (JStr collection) (js_split CHR ''.'' operand) result) (sort_paths schema collection operands))"

definition extractRequiredFieldPermissionsFromSort :: "schema_overview \<Rightarrow> string \<Rightarrow> string list \<Rightarrow> request_error + required" where
  "extractRequiredFieldPermissionsFromSort schema collection operands = sort_paths schema collection operands []"

declare extractRequiredFieldPermissions.simps [simp del] extract_key.simps [simp del]

section \<open>What a filter reads\<close>

text \<open>
  The reference: the pairs of collection and field that the keys of a normal filter name, the collection of a nested key
  being the one on the other side of its parent's relation, \<open>None\<close> when there is none. What \<open>_some\<close> and \<open>_none\<close>
  enclose is not looked at.
\<close>

function read_fields :: "relation list \<Rightarrow> json option \<Rightarrow> json \<Rightarrow> (string \<times> string) set" where
  "read_fields rs C flt =
     (case flt of
        JObj [(k, v)] \<Rightarrow>
          if is_logical k then (case v of JArr fs \<Rightarrow> \<Union> (read_fields rs C ` set fs) | _ \<Rightarrow> {})
          else if startsWith k ''_'' then {}
          else (case C of
            None \<Rightarrow> {}
          | Some c \<Rightarrow>
              if CHR '':'' \<in> set k then
                {(property_key c, js_split CHR '':'' k ! 0), (property_key c, ''collection'')} \<union>
                read_fields rs (if js_split CHR '':'' k ! 1 = [] then None else Some (JStr (js_split CHR '':'' k ! 1))) v
              else
                (let next = (if truthy c then c else JStr []) in
                 insert (property_key c, k)
                   (read_fields rs (map_option (\<lambda>r. other_side r next) (parent_relation rs next (JStr k))) v)))
      | _ \<Rightarrow> {})"
  by pat_completeness auto

termination
proof (relation "measure (\<lambda>(_, _, f). size f)", goal_cases)
  case (2 rs C flt es entry rest k v fs x)
  then show ?case using size_member[of x fs] by (cases entry) auto
qed auto

declare read_fields.simps [simp del]

fun follow_free :: "json \<Rightarrow> bool" where
  "follow_free (JObj [(k, v)]) =
     (if is_logical k then (case v of JArr fs \<Rightarrow> \<forall>f\<in>set fs. follow_free f | _ \<Rightarrow> True)
      else if startsWith k ''_'' then True
      else \<not> startsWith k ''$FOLLOW'' \<and> follow_free v)"
| "follow_free _ = True"

definition pairs :: "required \<Rightarrow> (string \<times> string) set" where
  "pairs required = {(c, x). \<exists>fs. map_of required c = Some fs \<and> x \<in> set fs}"

abbreviation keyed :: "required \<Rightarrow> bool" where
  "keyed required \<equiv> distinct (map fst required)"

lemma pairs_Nil [simp]: "pairs [] = {}"
  by (simp add: pairs_def)

lemma pairs_require [simp]: "pairs (require c x r) = insert (c, x) (pairs r)"
  by (auto simp: pairs_def require_def fields_of_def split: option.splits if_splits)

lemma keyed_require [simp]: "keyed (require c x r) = keyed r"
  by (simp add: require_def)

lemma merge_Cons:
  "mergeRequiredFieldPermissions current ((c, fs) # child) = mergeRequiredFieldPermissions
     (js_set c (case map_of current c of None \<Rightarrow> fs | Some old \<Rightarrow> js_uniq (old @ fs)) current) child"
  by (simp add: mergeRequiredFieldPermissions_def)

lemma keyed_merge [simp]: "keyed (mergeRequiredFieldPermissions current child) = keyed current"
proof (induction child arbitrary: current)
  case (Cons e child)
  then show ?case by (cases e) (simp add: merge_Cons)
qed (simp add: mergeRequiredFieldPermissions_def)

lemma pairs_merge: "keyed child \<Longrightarrow> pairs (mergeRequiredFieldPermissions current child) = pairs current \<union> pairs child"
proof (induction child arbitrary: current)
  case (Cons e child)
  obtain c fs where e: "e = (c, fs)" by (cases e)
  have "pairs (js_set c (case map_of current c of None \<Rightarrow> fs | Some old \<Rightarrow> js_uniq (old @ fs)) current) =
      pairs current \<union> {(c, x) | x. x \<in> set fs}"
    by (auto simp: pairs_def split: option.splits if_splits)
  moreover have "pairs ((c, fs) # child) = {(c, x) | x. x \<in> set fs} \<union> pairs child"
    using Cons.prems e map_of_SomeD[of child c] by (auto simp: pairs_def split: if_splits) (metis fst_conv image_eqI)
  ultimately show ?case using Cons e by (simp add: merge_Cons Un_assoc)
qed (simp add: mergeRequiredFieldPermissions_def)

text \<open>The collection a call looks at: the one given, or the one on the other side of the parent's relation.\<close>

definition looked_at :: "relation list \<Rightarrow> string \<Rightarrow> json \<Rightarrow> json \<Rightarrow> json option" where
  "looked_at rs collection parentCollection parentField =
     (if collection \<noteq> [] then Some (JStr collection)
      else map_option (\<lambda>r. other_side r parentCollection) (parent_relation rs parentCollection parentField))"

lemma looked_at_simps:
  "collection \<noteq> [] \<Longrightarrow> looked_at rs collection p pf = Some (JStr collection)"
  "looked_at rs [] p pf = map_option (\<lambda>r. other_side r p) (parent_relation rs p pf)"
  by (simp_all add: looked_at_def)

lemma parent_relation_undefined: "parent_relation rs JUndefined pf = None"
  by (simp add: parent_relation_def find_None_iff relation_of_def related_value_def split: option.split)

lemma require_scoped_pairs:
  assumes "require_scoped rs c x p pf r = Inr r'" "keyed r"
  shows "\<exists>d. looked_at rs c p pf = Some d \<and> keyed r' \<and>
    pairs r' = {(property_key d, x), (property_key d, ''collection'')} \<union> pairs r"
  using assms by (auto simp: require_scoped_def looked_at_def Let_def split: if_splits option.splits)

lemma require_field_pairs:
  assumes "require_field rs c x p pf r = Inr (r', current)" "keyed r"
  shows "\<exists>d. looked_at rs c p pf = Some d \<and> keyed r' \<and> pairs r' = insert (property_key d, x) (pairs r) \<and>
    current = (if c \<noteq> [] then p else d)"
  using assms by (auto simp: require_field_def looked_at_def Let_def split: if_splits option.splits)

lemma extract_filters_reads:
  assumes "extract_filters rs c fs p pf result = Inr out" "keyed result"
    and "\<And>f required. f \<in> set fs \<Longrightarrow> extractRequiredFieldPermissions rs c f p pf = Inr required \<Longrightarrow>
      keyed required \<and> pairs required = R f"
  shows "keyed out \<and> pairs out = pairs result \<union> \<Union> (R ` set fs)"
  using assms
proof (induction fs arbitrary: result)
  case (Cons f fs)
  then obtain required where r: "extractRequiredFieldPermissions rs c f p pf = Inr required"
      "extract_filters rs c fs p pf (mergeRequiredFieldPermissions result required) = Inr out"
    by (auto simp: and_then_Inr_iff)
  from Cons.prems(3)[OF _ r(1)] have "keyed required" "pairs required = R f" by simp_all
  with Cons.IH[OF r(2)] Cons.prems(2,3) show ?case by (auto simp: pairs_merge)
qed simp

lemma array_length_normal: "normal (JObj es) \<Longrightarrow> array_length es = None"
proof (cases es rule: remdups_adj.cases)
  case (2 e)
  assume "normal (JObj es)"
  with 2 show ?thesis
    by (cases e; cases "snd e") (auto simp: array_length_def logicalFilterOperators_def)
qed (auto simp: array_length_def)

lemma extract_one:
  "normal (JObj [(k, v)]) \<Longrightarrow> extractRequiredFieldPermissions rs c (JObj [(k, v)]) p pf =
     and_then (extract_key rs c k v p pf []) (\<lambda>(r, _). Inr r)"
  using array_length_normal[of "[(k, v)]"]
  by (simp add: extractRequiredFieldPermissions.simps and_then_def case_prod_beta)

lemma read_fields_simps:
  "read_fields rs C JNull = {}" "read_fields rs C (JObj []) = {}"
  "is_logical k \<Longrightarrow> read_fields rs C (JObj [(k, JArr fs)]) = \<Union> (read_fields rs C ` set fs)"
  "\<not> is_logical k \<Longrightarrow> startsWith k ''_'' \<Longrightarrow> read_fields rs C (JObj [(k, v)]) = {}"
  by (subst read_fields.simps, simp)+

text \<open>One key of a filter, given the result for smaller filters.\<close>

lemma extract_key_reads:
  assumes key: "extract_key rs c k v p pf [] = Inr (out, p')" and f: "normal (JObj [(k, v)])" "follow_free (JObj [(k, v)])"
    and p: "c \<noteq> [] \<Longrightarrow> p = JUndefined \<or> p = JStr c"
    and smaller: "\<And>g c p pf required. size g < size (JObj [(k, v)]) \<Longrightarrow> extractRequiredFieldPermissions rs c g p pf = Inr required \<Longrightarrow>
      normal g \<Longrightarrow> follow_free g \<Longrightarrow> (c \<noteq> [] \<Longrightarrow> p = JUndefined \<or> p = JStr c) \<Longrightarrow>
      keyed required \<and> pairs required = read_fields rs (looked_at rs c p pf) g"
  shows "keyed out \<and> pairs out = read_fields rs (looked_at rs c p pf) (JObj [(k, v)])"
proof -
  consider fs where "is_logical k" "v = JArr fs" | "\<not> is_logical k" "startsWith k ''_''"
    | "\<not> startsWith k ''_''" "CHR '':'' \<in> set k" | "\<not> startsWith k ''_''" "CHR '':'' \<notin> set k"
    using f(1) by (cases v) (auto split: if_splits)
  then show ?thesis
  proof cases
    case (1 fs)
    with key have "extract_filters rs c fs p pf [] = Inr out"
      by (auto simp: extract_key.simps and_then_Inr_iff logical_underscore)
    moreover have "keyed required \<and> pairs required = read_fields rs (looked_at rs c p pf) g"
      if "g \<in> set fs" "extractRequiredFieldPermissions rs c g p pf = Inr required" for g required
    proof (rule smaller[OF _ that(2)])
      show "size g < size (JObj [(k, v)])" using size_member[OF that(1)] 1 by simp
      show "normal g" "follow_free g" using f 1 that(1) by simp_all
    qed (rule p)
    ultimately show ?thesis using extract_filters_reads[of rs c fs p pf "[]" out] 1 by (simp add: read_fields_simps)
  next
    case 2
    with key have "out = []" by (auto simp: extract_key.simps split: json.splits)
    with 2 show ?thesis by (simp add: read_fields_simps)
  next
    case 3
    then have "\<not> is_logical k" using logical_underscore(1)[of k] by blast
    with f(2) 3 have k: "\<not> is_logical k" "\<not> startsWith k ''$FOLLOW''" by simp_all
    let ?parts = "js_split CHR '':'' k"
    from key 3 k obtain r required where r: "require_scoped rs c (?parts ! 0) p pf [] = Inr r"
        "extractRequiredFieldPermissions rs (?parts ! 1) v JUndefined JUndefined = Inr required"
        "out = mergeRequiredFieldPermissions r required"
      by (auto simp: extract_key.simps and_then_Inr_iff)
    from require_scoped_pairs[OF r(1)] obtain d where d: "looked_at rs c p pf = Some d" "keyed r"
        "pairs r = {(property_key d, ?parts ! 0), (property_key d, ''collection'')}" by auto
    have "normal v" "follow_free v" using f k 3 by simp_all
    with smaller[OF _ r(2)] have "keyed required" "pairs required = read_fields rs (looked_at rs (?parts ! 1) JUndefined JUndefined) v"
      by simp_all
    then show ?thesis using d r(3) 3 k
      by (subst read_fields.simps) (simp add: pairs_merge looked_at_def parent_relation_undefined)
  next
    case 4
    then have "\<not> is_logical k" using logical_underscore(1)[of k] by blast
    with f(2) 4 have k: "\<not> is_logical k" "\<not> startsWith k ''$FOLLOW''" by simp_all
    have v: "normal v" "follow_free v" using f k 4 by simp_all
    from key 4 k obtain r current where r: "require_field rs c k p pf [] = Inr (r, current)"
      by (auto simp: extract_key.simps and_then_Inr_iff)
    from require_field_pairs[OF r] obtain d where d: "looked_at rs c p pf = Some d" "keyed r"
        "pairs r = {(property_key d, k)}" "current = (if c \<noteq> [] then p else d)" by auto
    let ?next = "if truthy d then d else JStr []"
    have next_eq: "(if truthy current then current else JStr c) = ?next"
      using d(1,4) p by (auto simp: looked_at_def)
    from key 4 k r v obtain es where es: "v = JObj es"
      by (cases v) (auto simp: extract_key.simps Let_def)
    with key 4 k r next_eq have ch: "extract_children rs k es ?next
        (extractRequiredFieldPermissions rs [] v ?next (JStr k)) r = Inr out"
      by (auto simp: extract_key.simps Let_def and_then_Inr_iff)
    have eq: "read_fields rs (looked_at rs c p pf) (JObj [(k, v)]) =
        insert (property_key d, k) (read_fields rs (looked_at rs [] ?next (JStr k)) v)"
      using 4 k d(1) by (subst read_fields.simps) (simp add: looked_at_def Let_def)
    consider "es = []" | ck cw where "es = [(ck, cw)]" using v(1) es by (cases es rule: remdups_adj.cases) auto
    then show ?thesis
    proof cases
      case 1
      with ch d eq es show ?thesis by (simp add: read_fields_simps)
    next
      case (2 ck cw)
      consider fs where "is_logical ck" "cw = JArr fs" | "\<not> is_logical ck" "startsWith ck ''_''" | "\<not> startsWith ck ''_''"
        using v(1) es 2 by (cases cw) (auto split: if_splits)
      then show ?thesis
      proof cases
        case (1 fs)
        with ch 2 have "extract_filters rs [] fs ?next (JStr k) r = Inr out" by (auto simp: and_then_Inr_iff logical_underscore)
        moreover have "keyed required \<and> pairs required = read_fields rs (looked_at rs [] ?next (JStr k)) g"
          if "g \<in> set fs" "extractRequiredFieldPermissions rs [] g ?next (JStr k) = Inr required" for g required
        proof (rule smaller[OF _ that(2)])
          show "size g < size (JObj [(k, v)])" using size_member[OF that(1)] 1 2 es by simp
          show "normal g" "follow_free g" using v 1 2 es that(1) by simp_all
        qed simp
        ultimately show ?thesis using extract_filters_reads[of rs "[]" fs ?next "JStr k" r out] d eq es 1 2
          by (simp add: read_fields_simps)
      next
        case 2
        with ch \<open>es = [(ck, cw)]\<close> have "out = r" by (auto split: json.splits)
        with 2 d eq es \<open>es = [(ck, cw)]\<close> show ?thesis by (simp add: read_fields_simps)
      next
        case 3
        with ch 2 obtain required where q: "extractRequiredFieldPermissions rs [] v ?next (JStr k) = Inr required"
            "out = mergeRequiredFieldPermissions r required" by (auto simp: and_then_Inr_iff)
        have "keyed required \<and> pairs required = read_fields rs (looked_at rs [] ?next (JStr k)) v"
          by (rule smaller[OF _ q(1)]) (use v in simp_all)
        with q(2) d eq show ?thesis by (simp add: pairs_merge)
      qed
    qed
  qed
qed

lemma extract_reads:
  "extractRequiredFieldPermissions rs c f p pf = Inr required \<Longrightarrow> normal f \<Longrightarrow> follow_free f \<Longrightarrow>
     (c \<noteq> [] \<Longrightarrow> p = JUndefined \<or> p = JStr c) \<Longrightarrow>
     keyed required \<and> pairs required = read_fields rs (looked_at rs c p pf) f"
proof (induction f arbitrary: c p pf required rule: measure_induct_rule[of size])
  case (less f)
  consider "f = JNull" | "f = JObj []" | k v where "f = JObj [(k, v)]"
    using less.prems(2) by (cases f rule: normal.cases) auto
  then show ?case
  proof cases
    case (3 k v)
    with less.prems(1,2) obtain p' where "extract_key rs c k v p pf [] = Inr (required, p')"
      by (auto simp: extract_one and_then_Inr_iff)
    from extract_key_reads[OF this] less 3 show ?thesis by blast
  qed (use less.prems(1) in \<open>auto simp: extractRequiredFieldPermissions.simps read_fields_simps array_length_def\<close>)
qed

text \<open>Every set of required fields names a collection once.\<close>

lemma keyed_helpers:
  "require_follow c k r = Inr r' \<Longrightarrow> keyed r' = keyed r"
  "require_scoped rs c x p pf r = Inr r' \<Longrightarrow> keyed r' = keyed r"
  "require_field rs c x p pf r = Inr (r', p') \<Longrightarrow> keyed r' = keyed r"
  by (auto simp: require_follow_def require_scoped_def require_field_def and_then_Inr_iff Let_def split: option.splits if_splits)

lemma extract_keyed:
  "\<forall>out. extractRequiredFieldPermissions rs c f p pf = Inr out \<longrightarrow> keyed out"
  "\<forall>out. extract_entries rs c es p pf result = Inr out \<longrightarrow> keyed out = keyed result"
  "\<forall>out p'. extract_key rs c k v p pf result = Inr (out, p') \<longrightarrow> keyed out = keyed result"
  "\<forall>out. extract_filters rs c fs p pf result = Inr out \<longrightarrow> keyed out = keyed result"
  "\<forall>out. extract_children rs k es p again result = Inr out \<longrightarrow> keyed out = keyed result"
proof (induction rs c f p pf and rs c es p pf result and rs c k v p pf result and rs c fs p pf result and rs k es p again result
    rule: extractRequiredFieldPermissions_extract_entries_extract_key_extract_filters_extract_children.induct)
  case (1 rs c f p pf)
  then show ?case by (subst extractRequiredFieldPermissions.simps) (auto split: json.splits option.splits if_splits)
next
  case (3 rs c k v es p pf result)
  then show ?case by (auto simp: and_then_Inr_iff)
next
  case (4 rs c k v p pf result)
  show ?case
  proof (intro allI impI)
    fix out p' assume key: "extract_key rs c k v p pf result = Inr (out, p')"
    consider "startsWith k ''_''" | "\<not> startsWith k ''_''" "c \<noteq> [] \<and> startsWith k ''$FOLLOW''"
      | "\<not> startsWith k ''_''" "\<not> (c \<noteq> [] \<and> startsWith k ''$FOLLOW'')" "CHR '':'' \<in> set k"
      | "\<not> startsWith k ''_''" "\<not> (c \<noteq> [] \<and> startsWith k ''$FOLLOW'')" "CHR '':'' \<notin> set k" by blast
    then show "keyed out = keyed result"
    proof cases
      case 1
      show ?thesis
      proof (cases v)
        case (JArr fs)
        with 1 key "4.IH"(1)[OF 1 JArr] show ?thesis by (auto simp: extract_key.simps and_then_Inr_iff split: if_splits)
      qed (use 1 key in \<open>simp_all add: extract_key.simps\<close>)
    next
      case 2
      with key keyed_helpers(1) show ?thesis by (auto simp: extract_key.simps and_then_Inr_iff)
    next
      case 3
      with key keyed_helpers(2) show ?thesis by (auto simp: extract_key.simps and_then_Inr_iff)
    next
      case 4
      with key obtain r current where r: "require_field rs c k p pf result = Inr (r, current)"
        by (auto simp: extract_key.simps and_then_Inr_iff)
      show ?thesis
      proof (cases v)
        case (JObj es)
        let ?next = "if truthy current then current else JStr c"
        from key 4 r JObj have "extract_children rs k es ?next (extractRequiredFieldPermissions rs [] v ?next (JStr k)) r = Inr out"
          by (auto simp: extract_key.simps Let_def and_then_Inr_iff)
        moreover have "isObjectLike v \<or> v = JNull" by (simp add: JObj)
        ultimately show ?thesis using "4.IH"(4)[OF 4 r refl _ refl JObj] keyed_helpers(3)[OF r] by blast
      qed (use 4 key r keyed_helpers(3)[OF r] in \<open>auto simp: extract_key.simps Let_def split: if_splits\<close>)
    qed
  qed
next
  case (6 rs c f fs p pf result)
  then show ?case by (auto simp: and_then_Inr_iff)
next
  case (8 rs k ck cv es p again result)
  show ?case
  proof (intro allI impI)
    fix out assume "extract_children rs k ((ck, cv) # es) p again result = Inr out"
    then obtain r where r: "(if startsWith ck ''_'' then
          (case cv of
             JArr fs \<Rightarrow> if is_logical ck then extract_filters rs [] fs p (JStr k) result else Inr result
           | _ \<Rightarrow> Inr result)
        else and_then again (\<lambda>required. Inr (mergeRequiredFieldPermissions result required))) = Inr r"
        "extract_children rs k es p again r = Inr out"
      by (auto simp: and_then_Inr_iff)
    have "keyed r = keyed result"
    proof (cases "startsWith ck ''_''")
      case True
      then show ?thesis using r(1) "8.IH"(1)[OF True] by (cases cv) (auto split: if_splits)
    next
      case False
      with r(1) show ?thesis by (auto simp: and_then_Inr_iff)
    qed
    with "8.IH"(2)[OF r(1)] r(2) show "keyed out = keyed result" by simp
  qed
qed simp_all

lemma sort_path_keyed: "sort_path schema current segments result = Inr out \<Longrightarrow> keyed out = keyed result"
proof (induction segments arbitrary: current result)
  case (Cons segment rest)
  show ?case
  proof (cases "rest = []")
    case True
    with Cons.prems show ?thesis by (auto simp: Let_def split: if_splits)
  next
    case False
    let ?r = "require (property_key current) (hd (js_split CHR '':'' segment)) result"
    have next_keyed: "keyed out = keyed result" if "sort_path schema c rest ?r = Inr out" for c
      using Cons.IH[OF that] by simp
    from Cons.prems False obtain found type where "(case found of
             None \<Rightarrow> Inr ?r
           | Some r \<Rightarrow>
               if type = Some Info_m2o then sort_path schema (related_value r) rest ?r
               else if type = Some Info_a2o then
                 (case js_split CHR '':'' segment of
                    _ # pathScope # _ \<Rightarrow> if pathScope = [] then Inr ?r else sort_path schema (JStr pathScope) rest ?r
                  | _ \<Rightarrow> Inr ?r)
               else sort_path schema (JStr (rl_collection r)) rest ?r) = Inr out"
      unfolding sort_path.simps Let_def if_not_P[OF False] by (elim and_then_InrE) (auto simp only: split_paired_all prod.case)
    then show ?thesis
      by (cases found; simp only: option.case split: if_splits list.splits) (use next_keyed in \<open>auto\<close>)
  qed
qed simp

lemma from_sort_keyed: "extractRequiredFieldPermissionsFromSort schema collection operands = Inr out \<Longrightarrow> keyed out"
proof -
  have "sort_paths schema collection operands result = Inr out \<Longrightarrow> keyed out = keyed result" for result
  proof (induction operands arbitrary: result)
    case (Cons operand operands)
    obtain path where path: "path = js_split CHR ''.'' (case operand of c # cs \<Rightarrow> if c = CHR ''-'' then cs else operand | [] \<Rightarrow> [])"
      by blast
    from Cons.prems obtain mid where "sort_path schema (JStr collection) path result = Inr mid"
        "sort_paths schema collection operands mid = Inr out" by (auto simp: Let_def and_then_Inr_iff path)
    with Cons.IH sort_path_keyed show ?case by metis
  qed simp
  from this[of "[]"] show "extractRequiredFieldPermissionsFromSort schema collection operands = Inr out \<Longrightarrow> keyed out"
    by (simp add: extractRequiredFieldPermissionsFromSort_def)
qed

section \<open>Property\<close>



end
