(* ===== verification/Authorization.thy ===== *)
theory Authorization
  imports Field_Requirements
begin

text \<open>
  The authorization service, \<open>api/src/services/authorization.ts\<close>: the checks a query's syntax tree goes through before
  it runs, the filters it is given, and the rules a payload must satisfy. The list of permissions of the accountability
  is mutable in the code (an empty field list of a read permission is filled in, the validation of a permission is
  extended), so it is passed along and returned.
\<close>

section \<open>Syntax trees\<close>

record query =
  qy_filter :: json
  qy_sort :: "string list option"
  qy_aggregate :: json
  qy_alias :: json
  qy_other :: json

text \<open>
  The nodes below the root: a field, a function field, a node with one collection (\<open>m2o\<close> or \<open>o2m\<close>) and a node with
  several (\<open>a2o\<close>), whose children and queries are kept by collection.
\<close>

datatype ast_node =
    Field_Node string string
  | Function_Node string string query string
  | Nested_Node string "ast_node list" query string
  | A2O_Node "string list" "(string \<times> ast_node list) list" "(string \<times> query) list" string

record ast =
  as_name :: string
  as_children :: "ast_node list"
  as_query :: query

fun is_field :: "ast_node \<Rightarrow> bool" where
  "is_field (Field_Node _ _) = True"
| "is_field _ = False"

fun fieldKey :: "ast_node \<Rightarrow> string" where
  "fieldKey (Field_Node _ k) = k"
| "fieldKey (Function_Node _ k _ _) = k"
| "fieldKey (Nested_Node _ _ _ k) = k"
| "fieldKey (A2O_Node _ _ _ k) = k"

section \<open>The collections of a tree\<close>

fun nested_collections :: "ast_node \<Rightarrow> (string \<times> string option) list"
  and child_collections :: "ast_node list \<Rightarrow> (string \<times> string option) list"
  and a2o_collections :: "ast_node list \<Rightarrow> (string \<times> string option) list"
  and entry_collections :: "(string \<times> ast_node list) list \<Rightarrow> (string \<times> string option) list" where
  "nested_collections (Field_Node _ _) = []"
| "nested_collections (Function_Node _ _ _ _) = []"
| "nested_collections (Nested_Node name children q key) = (name, Some key) # child_collections children"
| "nested_collections (A2O_Node collections entries qs key) = map (\<lambda>name. (name, Some key)) collections @ entry_collections entries"
| "child_collections [] = []"
| "child_collections (Function_Node name key q relatedCollection # nodes) = (relatedCollection, None) # child_collections nodes"
| "child_collections (node # nodes) = nested_collections node @ child_collections nodes"
| "a2o_collections [] = []"
| "a2o_collections (node # nodes) = nested_collections node @ a2o_collections nodes"
| "entry_collections [] = []"
| "entry_collections ((collection, children) # entries) = a2o_collections children @ entry_collections entries"

definition getCollectionsFromAST :: "ast \<Rightarrow> (string \<times> string option) list" where
  "getCollectionsFromAST a = (as_name a, None) # child_collections (as_children a)"

section \<open>Permissions for the collections\<close>

record accountability =
  ac_admin :: bool
  ac_role :: "string option"
  ac_permissions :: "permission list option"

fun uniqWith :: "('a \<Rightarrow> 'a \<Rightarrow> bool) \<Rightarrow> 'a list \<Rightarrow> 'a list \<Rightarrow> 'a list" where
  "uniqWith eq acc [] = acc"
| "uniqWith eq acc (x # xs) = uniqWith eq (if list_ex (eq x) acc then acc else acc @ [x]) xs"

definition permissions_of :: "accountability option \<Rightarrow> permission list" where
  "permissions_of accountability =
     (case accountability of None \<Rightarrow> [] | Some a \<Rightarrow> (case ac_permissions a of None \<Rightarrow> [] | Some ps \<Rightarrow> ps))"

definition is_admin :: "accountability option \<Rightarrow> bool" where
  "is_admin accountability \<longleftrightarrow> (case accountability of None \<Rightarrow> False | Some a \<Rightarrow> ac_admin a)"

definition permissionsForCollections :: "string \<Rightarrow> ast \<Rightarrow> accountability option \<Rightarrow> permission list" where
  "permissionsForCollections action a accountability =
     uniqWith (\<lambda>curr prev. pm_collection curr = pm_collection prev \<and> pm_action curr = pm_action prev \<and> pm_role curr = pm_role prev) []
       (filter (\<lambda>p. pm_action p = action \<and> pm_collection p \<in> set (map fst (getCollectionsFromAST a))) (permissions_of accountability))"

definition permission_for :: "permission list \<Rightarrow> string \<Rightarrow> permission option" where
  "permission_for permissions collection = find (\<lambda>p. pm_collection p = collection) permissions"

section \<open>Fields\<close>

definition checkAggregate :: "string list \<Rightarrow> json \<Rightarrow> request_error + unit" where
  "checkAggregate allowedFields aggregate =
     (if truthy aggregate \<and> ''*'' \<notin> set allowedFields \<and>
         (\<exists>aliasMap\<in>set (map snd (own_entries aggregate)). truthy aliasMap \<and>
           (\<exists>column\<in>set (map snd (own_entries aliasMap)). column \<noteq> JStr ''*'' \<and> column \<notin> set (map JStr allowedFields)))
      then Inl Forbidden else Inr ())"

fun validateFields :: "permission list \<Rightarrow> ast_node \<Rightarrow> request_error + unit"
  and checkChildren :: "permission list \<Rightarrow> string list \<Rightarrow> ast_node list \<Rightarrow> request_error + unit"
  and checkEntries :: "permission list \<Rightarrow> (string \<times> query) list \<Rightarrow> (string \<times> ast_node list) list \<Rightarrow> request_error + unit" where
  "validateFields permissions (Field_Node name key) = Inr ()"
| "validateFields permissions (Function_Node name key q relatedCollection) = Inr ()"
| "validateFields permissions (Nested_Node name children q key) =
     (case permission_for permissions name of
        None \<Rightarrow> Inl Type_Error
      | Some p \<Rightarrow>
          (let allowedFields = (case pm_fields p of None \<Rightarrow> [] | Some fs \<Rightarrow> fs) in
           and_then (checkAggregate allowedFields (qy_aggregate q)) (\<lambda>_. checkChildren permissions allowedFields children)))"
| "validateFields permissions (A2O_Node collections entries qs key) = checkEntries permissions qs entries"
| "checkChildren permissions allowedFields [] = Inr ()"
| "checkChildren permissions allowedFields (node # nodes) =
     and_then
       (case node of
          Field_Node name key \<Rightarrow>
            if ''*'' \<in> set allowedFields \<or> stripFunction name \<in> set allowedFields then Inr () else Inl Forbidden
        | _ \<Rightarrow> validateFields permissions node)
       (\<lambda>_. checkChildren permissions allowedFields nodes)"
| "checkEntries permissions qs [] = Inr ()"
| "checkEntries permissions qs ((collection, children) # entries) =
     and_then
       (case permission_for permissions collection of
          None \<Rightarrow> Inl Type_Error
        | Some p \<Rightarrow>
            (let allowedFields = (case pm_fields p of None \<Rightarrow> [] | Some fs \<Rightarrow> fs) in
             and_then (checkAggregate allowedFields (case map_of qs collection of None \<Rightarrow> JUndefined | Some q \<Rightarrow> qy_aggregate q))
               (\<lambda>_. checkChildren permissions allowedFields children)))
       (\<lambda>_. checkEntries permissions qs entries)"

section \<open>Filter fields\<close>

text \<open>The fields one query requires: those of its filter, then those of its sort.\<close>

definition query_requirements :: "schema_overview \<Rightarrow> string \<Rightarrow> query option \<Rightarrow> required \<Rightarrow> request_error + required" where
  "query_requirements schema collection q result =
     and_then (extractRequiredFieldPermissions (so_relations schema) collection
         (js_or (case q of None \<Rightarrow> JUndefined | Some q' \<Rightarrow> qy_filter q') (JObj [])) JUndefined JUndefined) (\<lambda>from_filter.
       and_then (extractRequiredFieldPermissionsFromSort schema collection
           (case q of None \<Rightarrow> [] | Some q' \<Rightarrow> (case qy_sort q' of None \<Rightarrow> [] | Some operands \<Rightarrow> operands))) (\<lambda>from_sort.
         Inr (mergeRequiredFieldPermissions (mergeRequiredFieldPermissions result from_filter) from_sort)))"

fun node_requirements :: "schema_overview \<Rightarrow> ast_node \<Rightarrow> request_error + required"
  and children_requirements :: "schema_overview \<Rightarrow> string \<Rightarrow> ast_node list \<Rightarrow> required \<Rightarrow> request_error + required"
  and entries_requirements :: "schema_overview \<Rightarrow> (string \<times> query) list \<Rightarrow> (string \<times> ast_node list) list \<Rightarrow> required \<Rightarrow>
    request_error + required" where
  "node_requirements schema (Field_Node name key) = Inr []"
| "node_requirements schema (Function_Node name key q relatedCollection) = Inr []"
| "node_requirements schema (Nested_Node name children q key) =
     and_then (query_requirements schema name (Some q) []) (children_requirements schema name children)"
| "node_requirements schema (A2O_Node collections entries qs key) = entries_requirements schema qs entries []"
| "children_requirements schema collection [] result = Inr result"
| "children_requirements schema collection (child # children) result =
     and_then (node_requirements schema child) (\<lambda>childPermissions.
       children_requirements schema collection children
         (if childPermissions = [] then result
          else mergeRequiredFieldPermissions
                 (if is_field child then result else require collection (fieldKey child) result) childPermissions))"
| "entries_requirements schema qs [] result = Inr result"
| "entries_requirements schema qs ((collection, children) # entries) result =
     and_then (query_requirements schema collection (map_of qs collection) result) (\<lambda>own.
       and_then (children_requirements schema collection children own) (entries_requirements schema qs entries))"

text \<open>\<open>allowedFields.push(primary)\<close> on the field list of the first read permission for a collection.\<close>

fun fill_fields :: "string \<Rightarrow> string \<Rightarrow> permission list \<Rightarrow> permission list" where
  "fill_fields collection primary [] = []"
| "fill_fields collection primary (p # ps) =
     (if pm_collection p = collection \<and> pm_action p = ''read'' then p\<lparr>pm_fields := Some [primary]\<rparr> # ps
      else p # fill_fields collection primary ps)"

definition find_permission :: "permission list \<Rightarrow> string \<Rightarrow> string \<Rightarrow> permission option" where
  "find_permission permissions collection action = find (\<lambda>p. pm_collection p = collection \<and> pm_action p = action) permissions"

text \<open>The fields of one collection that may be filtered on, with the permissions after they were read.\<close>

definition filterable_fields :: "string \<Rightarrow> schema_overview \<Rightarrow> string \<Rightarrow> string \<Rightarrow> permission list \<Rightarrow>
    request_error + string list \<times> permission list" where
  "filterable_fields rootCollection schema action collection permissions =
     (let read_permission = find_permission permissions collection ''read'';
          readable = (case read_permission of None \<Rightarrow> None | Some p \<Rightarrow> pm_fields p);
          primary = map_option co_primary (map_of (so_collections schema) collection)
      in if action \<noteq> ''read'' \<and> collection = rootCollection then
           (case find_permission permissions collection action of
              None \<Rightarrow> Inl Forbidden
            | Some p \<Rightarrow>
                if pm_fields p = None then Inl Forbidden
                else (case primary of
                        None \<Rightarrow> Inl Type_Error
                      | Some pk \<Rightarrow> Inr ((case readable of None \<Rightarrow> [] | Some fs \<Rightarrow> fs) @ [pk], permissions)))
         else (case readable of
                 None \<Rightarrow> Inl Forbidden
               | Some fs \<Rightarrow>
                   if fs \<noteq> [] then Inr (fs, permissions)
                   else (case primary of
                           None \<Rightarrow> Inl Type_Error
                         | Some pk \<Rightarrow> Inr ([pk], fill_fields collection pk permissions))))"

definition original_name :: "string \<Rightarrow> json \<Rightarrow> string \<Rightarrow> string \<Rightarrow> json" where
  "original_name rootCollection aliasMap collection field =
     (let fieldName = stripFunction field in
      if collection = rootCollection \<and> truthy (js_prop aliasMap fieldName) then js_prop aliasMap fieldName else JStr fieldName)"

fun check_required :: "string \<Rightarrow> schema_overview \<Rightarrow> string \<Rightarrow> json \<Rightarrow> permission list \<Rightarrow> required \<Rightarrow> request_error + permission list" where
  "check_required rootCollection schema action aliasMap permissions [] = Inr permissions"
| "check_required rootCollection schema action aliasMap permissions ((collection, fs) # required) =
     and_then (filterable_fields rootCollection schema action collection permissions) (\<lambda>(allowedFields, permissions').
       if ''*'' \<in> set allowedFields \<or>
          (\<forall>field\<in>set fs. startsWith field ''$FOLLOW'' \<or>
             original_name rootCollection aliasMap collection field \<in> set (map JStr allowedFields))
       then check_required rootCollection schema action aliasMap permissions' required
       else Inl Forbidden)"

definition checkFieldPermissions :: "string \<Rightarrow> schema_overview \<Rightarrow> string \<Rightarrow> required \<Rightarrow> json \<Rightarrow> accountability option \<Rightarrow>
    request_error + permission list" where
  "checkFieldPermissions rootCollection schema action required aliasMap accountability =
     (if is_admin accountability then Inr (permissions_of accountability)
      else check_required rootCollection schema action aliasMap (permissions_of accountability) required)"

definition validateFilterPermissions :: "ast \<Rightarrow> schema_overview \<Rightarrow> string \<Rightarrow> accountability option \<Rightarrow>
    request_error + required \<times> permission list" where
  "validateFilterPermissions a schema action accountability =
     and_then (query_requirements schema (as_name a) (Some (as_query a)) []) (\<lambda>own.
       and_then (children_requirements schema (as_name a) (as_children a) own) (\<lambda>required.
         and_then (checkFieldPermissions (as_name a) schema action required (qy_alias (as_query a)) accountability)
           (\<lambda>permissions. Inr (required, permissions))))"

section \<open>Applying the permissions' filters\<close>

definition has_conditions :: "json \<Rightarrow> bool" where
  "has_conditions f \<longleftrightarrow> truthy f \<and> own_entries f \<noteq> []"

definition updateFilterQuery :: "permission list \<Rightarrow> string \<Rightarrow> query \<Rightarrow> request_error + query" where
  "updateFilterQuery permissions collection q =
     (case permission_for permissions collection of
        None \<Rightarrow> Inl Type_Error
      | Some p \<Rightarrow>
          (let parts = (if has_conditions (qy_filter q) then [qy_filter q] else []) @
                       (if has_conditions (pm_permissions p) then [pm_permissions p] else [])
           in Inr (q\<lparr>qy_filter := (if parts = [] then JUndefined else JObj [(''_and'', JArr parts)])\<rparr>)))"

fun update_queries :: "permission list \<Rightarrow> string list \<Rightarrow> (string \<times> query) list \<Rightarrow> request_error + (string \<times> query) list" where
  "update_queries permissions [] qs = Inr qs"
| "update_queries permissions (collection # collections) qs =
     (case map_of qs collection of
        None \<Rightarrow> Inl Type_Error
      | Some q \<Rightarrow>
          and_then (updateFilterQuery permissions collection q) (\<lambda>q'.
            update_queries permissions collections (js_set collection q' qs)))"

fun applyFilters :: "permission list \<Rightarrow> ast_node \<Rightarrow> request_error + ast_node"
  and apply_children :: "permission list \<Rightarrow> ast_node list \<Rightarrow> request_error + ast_node list"
  and apply_entries :: "permission list \<Rightarrow> (string \<times> ast_node list) list \<Rightarrow> request_error + (string \<times> ast_node list) list" where
  "applyFilters permissions (Field_Node name key) = Inr (Field_Node name key)"
| "applyFilters permissions (Function_Node name key q relatedCollection) =
     and_then (updateFilterQuery permissions relatedCollection q) (\<lambda>q'. Inr (Function_Node name key q' relatedCollection))"
| "applyFilters permissions (Nested_Node name children q key) =
     and_then (updateFilterQuery permissions name q) (\<lambda>q'.
       and_then (apply_children permissions children) (\<lambda>children'. Inr (Nested_Node name children' q' key)))"
| "applyFilters permissions (A2O_Node collections entries qs key) =
     and_then (update_queries permissions (map fst entries) qs) (\<lambda>qs'.
       and_then (apply_entries permissions entries) (\<lambda>entries'. Inr (A2O_Node collections entries' qs' key)))"
| "apply_children permissions [] = Inr []"
| "apply_children permissions (node # nodes) =
     and_then (applyFilters permissions node) (\<lambda>node'.
       and_then (apply_children permissions nodes) (\<lambda>nodes'. Inr (node' # nodes')))"
| "apply_entries permissions [] = Inr []"
| "apply_entries permissions ((collection, children) # entries) =
     and_then (apply_children permissions children) (\<lambda>children'.
       and_then (apply_entries permissions entries) (\<lambda>entries'. Inr ((collection, children') # entries')))"

section \<open>Processing a tree\<close>

text \<open>The root has a name, children and a query like a node of one collection, and no key.\<close>

definition root_node :: "ast \<Rightarrow> ast_node" where
  "root_node a = Nested_Node (as_name a) (as_children a) (as_query a) []"

definition processAST :: "schema_overview \<Rightarrow> accountability option \<Rightarrow> string \<Rightarrow> ast \<Rightarrow> request_error + ast \<times> permission list" where
  "processAST schema accountability action a =
     (let permissions = permissionsForCollections action a accountability in
      if length (js_uniq (map fst (getCollectionsFromAST a))) \<noteq> length permissions then Inl Forbidden
      else
        and_then (validateFields permissions (root_node a)) (\<lambda>_.
          and_then (validateFilterPermissions a schema action accountability) (\<lambda>(required, permissions').
            and_then (updateFilterQuery permissions (as_name a) (as_query a)) (\<lambda>q.
              and_then (apply_children permissions (as_children a)) (\<lambda>children.
                Inr (a\<lparr>as_query := q, as_children := children\<rparr>, permissions'))))))"

section \<open>What a tree selects\<close>

text \<open>The collections a tree reads, each with its query and the fields selected of it.\<close>

type_synonym selection = "string \<times> query option \<times> string list"

fun field_name :: "ast_node \<Rightarrow> string list" where
  "field_name (Field_Node name _) = [name]"
| "field_name _ = []"

definition field_names :: "ast_node list \<Rightarrow> string list" where
  "field_names nodes = concat (map field_name nodes)"

fun selections :: "ast_node \<Rightarrow> selection list"
  and child_selections :: "ast_node list \<Rightarrow> selection list"
  and entry_selections :: "(string \<times> query) list \<Rightarrow> (string \<times> ast_node list) list \<Rightarrow> selection list" where
  "selections (Field_Node name key) = []"
| "selections (Function_Node name key q relatedCollection) = [(relatedCollection, Some q, [])]"
| "selections (Nested_Node name children q key) = (name, Some q, field_names children) # child_selections children"
| "selections (A2O_Node collections entries qs key) = entry_selections qs entries"
| "child_selections [] = []"
| "child_selections (node # nodes) = selections node @ child_selections nodes"
| "entry_selections qs [] = []"
| "entry_selections qs ((collection, children) # entries) =
     (collection, map_of qs collection, field_names children) # child_selections children @ entry_selections qs entries"

text \<open>The children and queries of a node with several collections are kept in objects: no collection comes twice.\<close>

fun tree_ok :: "ast_node \<Rightarrow> bool" and children_ok :: "ast_node list \<Rightarrow> bool" and entries_ok :: "(string \<times> ast_node list) list \<Rightarrow> bool" where
  "tree_ok (Field_Node name key) = True"
| "tree_ok (Function_Node name key q relatedCollection) = True"
| "tree_ok (Nested_Node name children q key) = children_ok children"
| "tree_ok (A2O_Node collections entries qs key) = (distinct (map fst entries) \<and> entries_ok entries)"
| "children_ok [] = True"
| "children_ok (node # nodes) = (tree_ok node \<and> children_ok nodes)"
| "entries_ok [] = True"
| "entries_ok ((collection, children) # entries) = (children_ok children \<and> entries_ok entries)"

text \<open>A selection whose query was narrowed to what a permission admits.\<close>

definition narrowed :: "permission list \<Rightarrow> selection \<Rightarrow> selection \<Rightarrow> bool" where
  "narrowed permissions = (\<lambda>(c, q, fs) (c', q', fs'). c' = c \<and> fs' = fs \<and>
     (\<exists>p old new. permission_for permissions c = Some p \<and> q = Some old \<and> q' = Some (old\<lparr>qy_filter := new\<rparr>) \<and>
        (\<forall>holds. sat holds new \<longleftrightarrow> sat holds (qy_filter old) \<and> sat holds (pm_permissions p))))"

lemma sat_without_conditions: "\<not> has_conditions f \<Longrightarrow> sat holds f"
  by (cases f) (auto simp: has_conditions_def own_entries_def)

lemma updateFilterQuery_sat:
  assumes "updateFilterQuery permissions collection q = Inr q'"
  shows "\<exists>p. permission_for permissions collection = Some p \<and> q' = q\<lparr>qy_filter := qy_filter q'\<rparr> \<and>
    (\<forall>holds. sat holds (qy_filter q') \<longleftrightarrow> sat holds (qy_filter q) \<and> sat holds (pm_permissions p))"
  using assms sat_without_conditions
  by (auto simp: updateFilterQuery_def Let_def split: option.splits if_splits)

lemma update_queries_lookup:
  "update_queries permissions cs qs = Inr qs' \<Longrightarrow> distinct cs \<Longrightarrow>
     (\<forall>c\<in>set cs. \<exists>q q'. map_of qs c = Some q \<and> updateFilterQuery permissions c q = Inr q' \<and> map_of qs' c = Some q') \<and>
     (\<forall>c. c \<notin> set cs \<longrightarrow> map_of qs' c = map_of qs c)"
proof (induction cs arbitrary: qs)
  case (Cons c cs)
  then obtain q q' where q: "map_of qs c = Some q" "updateFilterQuery permissions c q = Inr q'"
      "update_queries permissions cs (js_set c q' qs) = Inr qs'"
    by (auto simp: and_then_Inr_iff split: option.splits)
  from Cons.IH[OF q(3)] Cons.prems(2) have
      "\<forall>d\<in>set cs. \<exists>r r'. map_of (js_set c q' qs) d = Some r \<and> updateFilterQuery permissions d r = Inr r' \<and> map_of qs' d = Some r'"
      "\<forall>d. d \<notin> set cs \<longrightarrow> map_of qs' d = map_of (js_set c q' qs) d" by simp_all
  with q(1,2) Cons.prems(2) show ?case by (auto split: if_splits)
qed simp

lemma apply_children_names: "apply_children permissions nodes = Inr nodes' \<Longrightarrow> field_names nodes' = field_names nodes"
proof (induction nodes arbitrary: nodes')
  case (Cons node nodes)
  then obtain node' rest where "applyFilters permissions node = Inr node'" "apply_children permissions nodes = Inr rest"
      "nodes' = node' # rest" by (auto simp: and_then_Inr_iff)
  moreover have "field_name node' = field_name node" using calculation(1) by (cases node) (auto simp: and_then_Inr_iff)
  ultimately show ?case using Cons.IH by (simp add: field_names_def)
qed simp

lemma narrowedI:
  "updateFilterQuery permissions c q = Inr q' \<Longrightarrow> narrowed permissions (c, Some q, fs) (c, Some q', fs)"
  using updateFilterQuery_sat[of permissions c q q'] unfolding narrowed_def by fastforce

lemma applyFilters_narrow:
  "\<forall>n'. applyFilters permissions n = Inr n' \<and> tree_ok n \<longrightarrow> list_all2 (narrowed permissions) (selections n) (selections n')"
  "\<forall>ns'. apply_children permissions ns = Inr ns' \<and> children_ok ns \<longrightarrow>
     list_all2 (narrowed permissions) (child_selections ns) (child_selections ns')"
  "\<forall>es' qs qs'. apply_entries permissions es = Inr es' \<and> entries_ok es \<and>
     (\<forall>c\<in>set (map fst es). \<exists>q q'. map_of qs c = Some q \<and> updateFilterQuery permissions c q = Inr q' \<and> map_of qs' c = Some q') \<longrightarrow>
     list_all2 (narrowed permissions) (entry_selections qs es) (entry_selections qs' es')"
proof (induction permissions n and permissions ns and permissions es rule: applyFilters_apply_children_apply_entries.induct)
  case (4 permissions collections entries qs key)
  show ?case
  proof (intro allI impI, elim conjE)
    fix n' assume n': "applyFilters permissions (A2O_Node collections entries qs key) = Inr n'"
      and ok: "tree_ok (A2O_Node collections entries qs key)"
    then obtain qs' entries' where q: "update_queries permissions (map fst entries) qs = Inr qs'"
        "apply_entries permissions entries = Inr entries'" "n' = A2O_Node collections entries' qs' key"
      by (auto simp: and_then_Inr_iff)
    from update_queries_lookup[OF q(1)] ok have
        "\<forall>c\<in>set (map fst entries). \<exists>q q'. map_of qs c = Some q \<and> updateFilterQuery permissions c q = Inr q' \<and> map_of qs' c = Some q'"
      by simp
    with "4.IH"[OF q(1)] q(2) ok have "list_all2 (narrowed permissions) (entry_selections qs entries) (entry_selections qs' entries')"
      by simp
    then show "list_all2 (narrowed permissions) (selections (A2O_Node collections entries qs key)) (selections n')" by (simp add: q(3))
  qed
next
  case (8 permissions c children entries)
  show ?case
  proof (intro allI impI, elim conjE)
    fix es' qs qs'
    assume e: "apply_entries permissions ((c, children) # entries) = Inr es'" and ok: "entries_ok ((c, children) # entries)"
      and look: "\<forall>c'\<in>set (map fst ((c, children) # entries)). \<exists>q q'. map_of qs c' = Some q \<and>
        updateFilterQuery permissions c' q = Inr q' \<and> map_of qs' c' = Some q'"
    from e obtain children' entries' where p: "apply_children permissions children = Inr children'"
        "apply_entries permissions entries = Inr entries'" "es' = (c, children') # entries'"
      by (auto simp: and_then_Inr_iff)
    from look obtain q q' where "map_of qs c = Some q" "updateFilterQuery permissions c q = Inr q'" "map_of qs' c = Some q'" by auto
    then have "narrowed permissions (c, map_of qs c, field_names children) (c, map_of qs' c, field_names children')"
      using narrowedI[of permissions c q q'] apply_children_names[OF p(1)] by simp
    moreover have "list_all2 (narrowed permissions) (child_selections children) (child_selections children')"
      using "8.IH"(1) p(1) ok by simp
    moreover have "list_all2 (narrowed permissions) (entry_selections qs entries) (entry_selections qs' entries')"
      using "8.IH"(2)[OF p(1)] p(2) ok look by simp
    ultimately show "list_all2 (narrowed permissions) (entry_selections qs ((c, children) # entries)) (entry_selections qs' es')"
      by (simp add: p(3) list_all2_appendI)
  qed
qed (auto simp: and_then_Inr_iff narrowedI apply_children_names list_all2_appendI)

text \<open>The fields a checked tree selects are allowed by the permissions of their collections.\<close>

definition fields_allowed :: "permission list \<Rightarrow> selection \<Rightarrow> bool" where
  "fields_allowed permissions = (\<lambda>(c, q, fs). \<forall>f\<in>set fs. \<exists>p. permission_for permissions c = Some p \<and> allows (pm_fields p) (stripFunction f))"

lemma allows_listed: "allows (pm_fields p) f \<longleftrightarrow>
    (let fs = (case pm_fields p of None \<Rightarrow> [] | Some fs \<Rightarrow> fs) in ''*'' \<in> set fs \<or> f \<in> set fs)"
  by (simp add: allows_def split: option.split)

lemma fields_allowedI:
  assumes "permission_for permissions c = Some p" and "fs = (case pm_fields p of None \<Rightarrow> [] | Some fs \<Rightarrow> fs)"
    and "\<forall>f\<in>set selected. ''*'' \<in> set fs \<or> stripFunction f \<in> set fs"
  shows "fields_allowed permissions (c, q, selected)"
  using assms by (auto simp: fields_allowed_def allows_listed Let_def)

lemma validateFields_allowed:
  "validateFields permissions n = Inr () \<longrightarrow> (\<forall>s\<in>set (selections n). fields_allowed permissions s)"
  "checkChildren permissions allowedFields ns = Inr () \<longrightarrow> (\<forall>s\<in>set (child_selections ns). fields_allowed permissions s) \<and>
     (\<forall>f\<in>set (field_names ns). ''*'' \<in> set allowedFields \<or> stripFunction f \<in> set allowedFields)"
  "checkEntries permissions qs es = Inr () \<longrightarrow> (\<forall>s\<in>set (entry_selections qs es). fields_allowed permissions s)"
proof (induction permissions n and permissions allowedFields ns and permissions qs es
    rule: validateFields_checkChildren_checkEntries.induct)
  case (3 permissions name children q key)
  show ?case
  proof
    assume v: "validateFields permissions (Nested_Node name children q key) = Inr ()"
    then obtain p where p: "permission_for permissions name = Some p" by (cases "permission_for permissions name") auto
    obtain fs where fs: "fs = (case pm_fields p of None \<Rightarrow> [] | Some fs \<Rightarrow> fs)" by blast
    from v p fs have "checkAggregate fs (qy_aggregate q) = Inr ()" "checkChildren permissions fs children = Inr ()"
      by (auto simp: and_then_Inr_iff Let_def)
    with "3.IH"[OF p fs] have c: "\<forall>s\<in>set (child_selections children). fields_allowed permissions s"
        "\<forall>f\<in>set (field_names children). ''*'' \<in> set fs \<or> stripFunction f \<in> set fs" by auto
    from c(1) fields_allowedI[OF p fs c(2)] show "\<forall>s\<in>set (selections (Nested_Node name children q key)). fields_allowed permissions s"
      by simp
  qed
next
  case (6 permissions allowedFields node nodes)
  show ?case
  proof
    assume v: "checkChildren permissions allowedFields (node # nodes) = Inr ()"
    then have step: "(case node of
          Field_Node name key \<Rightarrow>
            if ''*'' \<in> set allowedFields \<or> stripFunction name \<in> set allowedFields then Inr () else Inl Forbidden
        | _ \<Rightarrow> validateFields permissions node) = Inr ()" and others: "checkChildren permissions allowedFields nodes = Inr ()"
      by (auto simp: and_then_Inr_iff)
    note rest = "6.IH"(4)[OF step, THEN mp, OF others]
    have "\<forall>s\<in>set (selections node). fields_allowed permissions s" 
    proof (cases node)
      case (Function_Node name key q related)
      show ?thesis using "6.IH"(1)[OF Function_Node] step unfolding Function_Node ast_node.case by blast
    next
      case (Nested_Node name children q key)
      show ?thesis using "6.IH"(2)[OF Nested_Node] step unfolding Nested_Node ast_node.case by blast
    next
      case (A2O_Node collections entries qs key)
      show ?thesis using "6.IH"(3)[OF A2O_Node] step unfolding A2O_Node ast_node.case by blast
    qed simp
    moreover have "\<forall>f\<in>set (field_name node). ''*'' \<in> set allowedFields \<or> stripFunction f \<in> set allowedFields"
      using step by (cases node) (simp_all split: if_splits)
    ultimately show "(\<forall>s\<in>set (child_selections (node # nodes)). fields_allowed permissions s) \<and>
        (\<forall>f\<in>set (field_names (node # nodes)). ''*'' \<in> set allowedFields \<or> stripFunction f \<in> set allowedFields)"
      using rest by (auto simp: field_names_def)
  qed
next
  case (8 permissions qs collection children entries)
  show ?case
  proof
    assume v: "checkEntries permissions qs ((collection, children) # entries) = Inr ()"
    then obtain p where p: "permission_for permissions collection = Some p"
      by (cases "permission_for permissions collection") auto
    obtain fs where fs: "fs = (case pm_fields p of None \<Rightarrow> [] | Some fs \<Rightarrow> fs)" by blast
    from v p fs have c: "checkChildren permissions fs children = Inr ()" "checkEntries permissions qs entries = Inr ()"
        "checkAggregate fs (case map_of qs collection of None \<Rightarrow> JUndefined | Some q \<Rightarrow> qy_aggregate q) = Inr ()"
      by (auto simp: and_then_Inr_iff Let_def)
    with "8.IH"(1)[OF p fs] have d: "\<forall>s\<in>set (child_selections children). fields_allowed permissions s"
        "\<forall>f\<in>set (field_names children). ''*'' \<in> set fs \<or> stripFunction f \<in> set fs" by auto
    have "\<forall>s\<in>set (entry_selections qs entries). fields_allowed permissions s"
      using v[unfolded checkEntries.simps, THEN and_then_Inr_iff[THEN iffD1]] "8.IH"(2) by blast
    with d(1) fields_allowedI[OF p fs d(2)]
    show "\<forall>s\<in>set (entry_selections qs ((collection, children) # entries)). fields_allowed permissions s"
      by auto
  qed
qed (simp_all add: fields_allowed_def field_names_def)

lemma set_uniqWith: "set (uniqWith eq acc xs) \<subseteq> set acc \<union> set xs"
  by (induction eq acc xs rule: uniqWith.induct) auto

lemma permission_for_requested:
  "permission_for (permissionsForCollections action a accountability) c = Some p \<Longrightarrow>
     p \<in> set (permissions_of accountability) \<and> pm_collection p = c \<and> pm_action p = action"
  using set_uniqWith[of _ "[]" "filter (\<lambda>p. pm_action p = action \<and> pm_collection p \<in> set (map fst (getCollectionsFromAST a)))
      (permissions_of accountability)"]
  by (auto simp: permission_for_def permissionsForCollections_def find_Some_iff dest!: nth_mem)

lemma processAST_parts:
  assumes "processAST schema accountability action a = Inr (a', permissions')"
  obtains required q children where
    "validateFields (permissionsForCollections action a accountability) (root_node a) = Inr ()"
    "validateFilterPermissions a schema action accountability = Inr (required, permissions')"
    "updateFilterQuery (permissionsForCollections action a accountability) (as_name a) (as_query a) = Inr q"
    "apply_children (permissionsForCollections action a accountability) (as_children a) = Inr children"
    "a' = a\<lparr>as_query := q, as_children := children\<rparr>"
  using assms by (auto simp: processAST_def Let_def and_then_Inr_iff split: if_splits)

text \<open>
  What a selection may become: the same collection and fields, all of them listed by one permission for the action, and
  a query whose filter admits an item exactly when the old filter and that permission's admit it.
\<close>

definition admitted :: "permission list \<Rightarrow> string \<Rightarrow> selection \<Rightarrow> selection \<Rightarrow> bool" where
  "admitted permissions action = (\<lambda>(c, q, fs) (c', q', fs'). c' = c \<and> fs' = fs \<and>
     (\<exists>p\<in>set permissions. pm_collection p = c \<and> pm_action p = action \<and>
        list_all (\<lambda>f. allows (pm_fields p) (stripFunction f)) fs \<and>
        (\<exists>old new. q = Some old \<and> q' = Some (old\<lparr>qy_filter := new\<rparr>) \<and>
           (\<forall>holds. sat holds new \<longleftrightarrow> sat holds (qy_filter old) \<and> sat holds (pm_permissions p)))))"

lemma admittedI:
  assumes "narrowed (permissionsForCollections action a accountability) s s'"
    and "fields_allowed (permissionsForCollections action a accountability) s"
  shows "admitted (permissions_of accountability) action s s'"
proof -
  obtain c q fs c' q' fs' where s: "s = (c, q, fs)" "s' = (c', q', fs')" by (metis prod_cases3)
  from assms(1) s obtain p where p: "permission_for (permissionsForCollections action a accountability) c = Some p"
    and same: "c' = c" "fs' = fs" and new: "\<exists>old new. q = Some old \<and> q' = Some (old\<lparr>qy_filter := new\<rparr>) \<and>
      (\<forall>holds. sat holds new \<longleftrightarrow> sat holds (qy_filter old) \<and> sat holds (pm_permissions p))"
    unfolding narrowed_def by auto
  from assms(2) s p have "list_all (\<lambda>f. allows (pm_fields p) (stripFunction f)) fs"
    by (auto simp: fields_allowed_def list_all_iff)
  with permission_for_requested[OF p] same new s show ?thesis unfolding admitted_def by auto
qed

lemma processAST_root:
  assumes "processAST schema accountability action a = Inr (a', permissions')"
  shows "validateFields (permissionsForCollections action a accountability) (root_node a) = Inr () \<and>
    applyFilters (permissionsForCollections action a accountability) (root_node a) = Inr (root_node a')"
  using assms by (rule processAST_parts) (simp add: root_node_def)

text \<open>A reader of articles with two fields, who sees only what it owns.\<close>

definition demo_query :: query where
  "demo_query = \<lparr>qy_filter = JObj [(''title'', JObj [(''_eq'', JStr ''x'')])], qy_sort = Some [''-title''], qy_aggregate = JUndefined,
     qy_alias = JUndefined, qy_other = JUndefined\<rparr>"

definition demo_ast :: ast where
  "demo_ast = \<lparr>as_name = ''articles'', as_children = [Field_Node ''id'' ''id'', Field_Node ''title'' ''title''], as_query = demo_query\<rparr>"

definition demo_permission :: permission where
  "demo_permission = \<lparr>pm_id = JInt 1, pm_system = JUndefined, pm_collection = ''articles'', pm_action = ''read'', pm_role = None,
     pm_permissions = JObj [(''owner'', JObj [(''_eq'', JStr ''me'')])], pm_validation = JNull,
     pm_fields = Some [''id'', ''title''], pm_presets = JNull\<rparr>"

definition demo_reader :: "accountability option" where
  "demo_reader = Some \<lparr>ac_admin = False, ac_role = None, ac_permissions = Some [demo_permission]\<rparr>"

definition demo_schema :: schema_overview where
  "demo_schema = \<lparr>so_collections = [(''articles'', \<lparr>co_primary = ''id'', co_rest = JUndefined, co_fields = []\<rparr>)], so_relations = []\<rparr>"

lemma demo_processed: "processAST demo_schema demo_reader ''read'' demo_ast = Inr
    (demo_ast\<lparr>as_query := demo_query\<lparr>qy_filter := JObj [(''_and'', JArr [qy_filter demo_query, pm_permissions demo_permission])]\<rparr>\<rparr>,
     [demo_permission])"
  by code_simp


section \<open>Fields of filters\<close>

text \<open>The collections whose queries are looked at for filter fields: all but those of function fields.\<close>

fun sites :: "ast_node \<Rightarrow> (string \<times> query option) list"
  and child_sites :: "ast_node list \<Rightarrow> (string \<times> query option) list"
  and entry_sites :: "(string \<times> query) list \<Rightarrow> (string \<times> ast_node list) list \<Rightarrow> (string \<times> query option) list" where
  "sites (Field_Node name key) = []"
| "sites (Function_Node name key q relatedCollection) = []"
| "sites (Nested_Node name children q key) = (name, Some q) # child_sites children"
| "sites (A2O_Node collections entries qs key) = entry_sites qs entries"
| "child_sites [] = []"
| "child_sites (node # nodes) = sites node @ child_sites nodes"
| "entry_sites qs [] = []"
| "entry_sites qs ((collection, children) # entries) =
     (collection, map_of qs collection) # child_sites children @ entry_sites qs entries"

definition site_filter :: "query option \<Rightarrow> json" where
  "site_filter q = js_or (case q of None \<Rightarrow> JUndefined | Some q' \<Rightarrow> qy_filter q') (JObj [])"

text \<open>The required pairs include those of the filter at a site.\<close>

definition site_covered :: "schema_overview \<Rightarrow> (string \<times> string) set \<Rightarrow> string \<times> query option \<Rightarrow> bool" where
  "site_covered schema required = (\<lambda>(c, q). \<exists>from_filter.
     extractRequiredFieldPermissions (so_relations schema) c (site_filter q) JUndefined JUndefined = Inr from_filter \<and>
     pairs from_filter \<subseteq> required)"

lemma site_covered_mono: "site_covered schema P s \<Longrightarrow> P \<subseteq> Q \<Longrightarrow> site_covered schema Q s"
  by (cases s) (auto simp: site_covered_def)

lemma query_requirements_cover:
  assumes "query_requirements schema c q result = Inr out"
  shows "keyed out = keyed result \<and> pairs result \<subseteq> pairs out \<and> site_covered schema (pairs out) (c, q)"
proof -
  from assms obtain f s where fs: "extractRequiredFieldPermissions (so_relations schema) c (site_filter q) JUndefined JUndefined = Inr f"
      "extractRequiredFieldPermissionsFromSort schema c
        (case q of None \<Rightarrow> [] | Some q' \<Rightarrow> (case qy_sort q' of None \<Rightarrow> [] | Some operands \<Rightarrow> operands)) = Inr s"
      "out = mergeRequiredFieldPermissions (mergeRequiredFieldPermissions result f) s"
    by (auto simp: query_requirements_def site_filter_def and_then_Inr_iff)
  have "keyed f" "keyed s" using extract_keyed(1) fs(1) from_sort_keyed[OF fs(2)] by blast+
  then show ?thesis using fs(1,3) by (auto simp: pairs_merge site_covered_def)
qed

lemma requirements_cover:
  "\<forall>out. node_requirements schema n = Inr out \<longrightarrow> keyed out \<and> (\<forall>s\<in>set (sites n). site_covered schema (pairs out) s)"
  "\<forall>out. children_requirements schema c ns result = Inr out \<longrightarrow> keyed out = keyed result \<and> pairs result \<subseteq> pairs out \<and>
     (\<forall>s\<in>set (child_sites ns). site_covered schema (pairs out) s)"
  "\<forall>out. entries_requirements schema qs es result = Inr out \<longrightarrow> keyed out = keyed result \<and> pairs result \<subseteq> pairs out \<and>
     (\<forall>s\<in>set (entry_sites qs es). site_covered schema (pairs out) s)"
proof (induction schema n and schema c ns result and schema qs es result
    rule: node_requirements_children_requirements_entries_requirements.induct)
  case (3 schema name children q key)
  show ?case
  proof (intro allI impI)
    fix out assume "node_requirements schema (Nested_Node name children q key) = Inr out"
    then obtain own where own: "query_requirements schema name (Some q) [] = Inr own"
        "children_requirements schema name children own = Inr out" by (auto simp: and_then_Inr_iff)
    with "3.IH"[OF own(1)] query_requirements_cover[OF own(1)] site_covered_mono
    show "keyed out \<and> (\<forall>s\<in>set (sites (Nested_Node name children q key)). site_covered schema (pairs out) s)" by simp blast
  qed
next
  case (6 schema c child children result)
  show ?case
  proof (intro allI impI)
    fix out assume "children_requirements schema c (child # children) result = Inr out"
    then obtain cp where cp: "node_requirements schema child = Inr cp"
        "children_requirements schema c children (if cp = [] then result else mergeRequiredFieldPermissions
          (if is_field child then result else require c (fieldKey child) result) cp) = Inr out" by (auto simp: and_then_Inr_iff)
    obtain mid where mid: "mid = (if cp = [] then result else mergeRequiredFieldPermissions
          (if is_field child then result else require c (fieldKey child) result) cp)" by blast
    from "6.IH"(1) cp(1) have child: "keyed cp" "\<forall>s\<in>set (sites child). site_covered schema (pairs cp) s" by simp_all
    have m: "keyed mid = keyed result" "pairs result \<subseteq> pairs mid" "pairs cp \<subseteq> pairs mid"
      using mid child(1) by (auto simp: pairs_merge)
    have rest: "keyed out = keyed mid" "pairs mid \<subseteq> pairs out" "\<forall>s\<in>set (child_sites children). site_covered schema (pairs out) s"
      using "6.IH"(2)[OF cp(1)] cp(2) unfolding mid by simp_all
    with m child(2) site_covered_mono show "keyed out = keyed result \<and> pairs result \<subseteq> pairs out \<and>
        (\<forall>s\<in>set (child_sites (child # children)). site_covered schema (pairs out) s)"
      by simp blast
  qed
next
  case (8 schema qs c children entries result)
  show ?case
  proof (intro allI impI)
    fix out assume "entries_requirements schema qs ((c, children) # entries) result = Inr out"
    then obtain own mid where e: "query_requirements schema c (map_of qs c) result = Inr own"
        "children_requirements schema c children own = Inr mid" "entries_requirements schema qs entries mid = Inr out"
      by (auto simp: and_then_Inr_iff)
    note q = query_requirements_cover[OF e(1)]
    from "8.IH"(1)[OF e(1)] e(2) have m: "keyed mid = keyed own" "pairs own \<subseteq> pairs mid"
        "\<forall>s\<in>set (child_sites children). site_covered schema (pairs mid) s" by simp_all
    from "8.IH"(2)[OF e(1,2)] e(3) have o: "keyed out = keyed mid" "pairs mid \<subseteq> pairs out"
        "\<forall>s\<in>set (entry_sites qs entries). site_covered schema (pairs out) s" by simp_all
    from q m o site_covered_mono show "keyed out = keyed result \<and> pairs result \<subseteq> pairs out \<and>
        (\<forall>s\<in>set (entry_sites qs ((c, children) # entries)). site_covered schema (pairs out) s)"
      by simp blast
  qed
qed simp_all

text \<open>
  Whether a name may be filtered on: a read permission for the collection lists it, or it is the primary key and the
  read permission lists nothing, or the collection is the one acted on other than by reading.
\<close>

definition may_filter :: "permission list \<Rightarrow> schema_overview \<Rightarrow> string \<Rightarrow> string \<Rightarrow> string \<Rightarrow> json \<Rightarrow> bool" where
  "may_filter permissions schema rootCollection action collection name \<longleftrightarrow>
     (\<exists>p fs. find_permission permissions collection ''read'' = Some p \<and> pm_fields p = Some fs \<and>
        (''*'' \<in> set fs \<or> name \<in> set (map JStr fs) \<or> fs = [] \<and> name = primary_of schema (JStr collection))) \<or>
     action \<noteq> ''read'' \<and> collection = rootCollection \<and> name = primary_of schema (JStr collection)"

lemma find_fill_other: "c \<noteq> d \<Longrightarrow> find_permission (fill_fields c pk ps) d action = find_permission ps d action"
  unfolding find_permission_def by (induction ps) auto

lemma filterable_fields_other:
  assumes "c \<noteq> d"
  shows "map_sum (\<lambda>e. e) fst (filterable_fields root schema action d (fill_fields c pk ps)) =
     map_sum (\<lambda>e. e) fst (filterable_fields root schema action d ps)"
  unfolding filterable_fields_def Let_def find_fill_other[OF assms] by (simp split: option.split)

lemma filterable_fields_state:
  "filterable_fields root schema action c ps = Inr (allowed, ps') \<Longrightarrow> ps' = ps \<or> (\<exists>pk. ps' = fill_fields c pk ps)"
  by (auto simp: filterable_fields_def Let_def split: option.splits if_splits)

lemma filterable_may_filter:
  assumes "filterable_fields root schema action c ps = Inr (allowed, ps')" "''*'' \<in> set allowed \<or> name \<in> set (map JStr allowed)"
    and "\<forall>(c, o')\<in>set (so_collections schema). co_primary o' \<noteq> ''*''"
  shows "may_filter ps schema root action c name"
proof -
  have star: "map_of (so_collections schema) c = Some o' \<Longrightarrow> co_primary o' \<noteq> ''*''" for o'
    using assms(3) by (auto dest: map_of_SomeD)
  show ?thesis using assms(1,2) star
    by (auto simp: filterable_fields_def may_filter_def primary_of_def Let_def split: option.splits if_splits)
qed

lemma check_required_allowed:
  "check_required root schema action alias ps required = Inr out \<Longrightarrow> keyed required \<Longrightarrow> (c, x) \<in> pairs required \<Longrightarrow>
     startsWith x ''$FOLLOW'' \<or> (\<exists>allowed. map_sum (\<lambda>e. e) fst (filterable_fields root schema action c ps) = Inr allowed \<and>
        (''*'' \<in> set allowed \<or> original_name root alias c x \<in> set (map JStr allowed)))"
proof (induction required arbitrary: ps)
  case (Cons e required)
  obtain d fs where e: "e = (d, fs)" by (cases e)
  from Cons.prems(1) e obtain allowed ps' where f: "filterable_fields root schema action d ps = Inr (allowed, ps')"
      "''*'' \<in> set allowed \<or> (\<forall>field\<in>set fs. startsWith field ''$FOLLOW'' \<or> original_name root alias d field \<in> set (map JStr allowed))"
      "check_required root schema action alias ps' required = Inr out"
    by (auto simp: and_then_Inr_iff split: if_splits)
  show ?case
  proof (cases "d = c")
    case True
    with Cons.prems(2,3) e have "x \<in> set fs" by (simp add: pairs_def)
    with f(1,2) True show ?thesis by auto
  next
    case False
    with Cons.prems(3) e have "(c, x) \<in> pairs required" by (simp add: pairs_def)
    with Cons.IH[OF f(3)] Cons.prems(2) have "startsWith x ''$FOLLOW'' \<or>
        (\<exists>allowed. map_sum (\<lambda>e. e) fst (filterable_fields root schema action c ps') = Inr allowed \<and>
          (''*'' \<in> set allowed \<or> original_name root alias c x \<in> set (map JStr allowed)))" by simp
    with filterable_fields_state[OF f(1)] filterable_fields_other[OF False] show ?thesis by auto
  qed
qed simp

lemma root_sites:
  assumes "validateFilterPermissions a schema action accountability = Inr (required, permissions')"
  shows "keyed required \<and> (\<forall>s\<in>set (sites (root_node a)). site_covered schema (pairs required) s) \<and>
    checkFieldPermissions (as_name a) schema action required (qy_alias (as_query a)) accountability = Inr permissions'"
proof -
  from assms have "node_requirements schema (root_node a) = Inr required"
      "checkFieldPermissions (as_name a) schema action required (qy_alias (as_query a)) accountability = Inr permissions'"
    by (auto simp: validateFilterPermissions_def root_node_def and_then_Inr_iff)
  with requirements_cover(1) show ?thesis by blast
qed




end
