(* ===== verification/Payload_Rules.thy ===== *)
theory Payload_Rules
  imports Authorization
begin

text \<open>
  The rules a payload must satisfy before it is written: \<open>validatePayload\<close>, \<open>validateFields\<close> and \<open>checkAccess\<close> of
  \<open>api/src/services/authorization.ts\<close> and the evaluation of validation rules,
  \<open>packages/utils/shared/validate-payload.ts\<close>. lodash's \<open>merge\<close> and the reads of the items service are parameters, and so
  is the validation of one rule on one field by Joi, which gives the details of its error, if there is one.
\<close>

section \<open>Evaluating rules\<close>

text \<open>The errors of a rule: all of a conjunction's, those of a disjunction when no branch passes.\<close>

fun rule_errors :: "(json \<Rightarrow> json \<Rightarrow> json list option) \<Rightarrow> json \<Rightarrow> json \<Rightarrow> request_error + json list list"
  and all_errors :: "(json \<Rightarrow> json \<Rightarrow> json list option) \<Rightarrow> json list \<Rightarrow> json \<Rightarrow> request_error + json list list"
  and any_errors :: "(json \<Rightarrow> json \<Rightarrow> json list option) \<Rightarrow> json list \<Rightarrow> json \<Rightarrow> json list list \<Rightarrow> request_error + json list list" where
  "rule_errors joi (JObj ((k, v) # es)) payload =
     (if k = ''_and'' then (case v of JArr fs \<Rightarrow> all_errors joi fs payload | _ \<Rightarrow> Inl Type_Error)
      else if k = ''_or'' then (case v of JArr fs \<Rightarrow> any_errors joi fs payload [] | _ \<Rightarrow> Inl Type_Error)
      else Inr (case joi (JObj ((k, v) # es)) payload of None \<Rightarrow> [] | Some details \<Rightarrow> [details]))"
| "rule_errors joi rule payload =
     (if nullish rule then Inl Type_Error else Inr (case joi rule payload of None \<Rightarrow> [] | Some details \<Rightarrow> [details]))"
| "all_errors joi [] payload = Inr []"
| "all_errors joi (f # fs) payload =
     and_then (rule_errors joi f payload) (\<lambda>errors. and_then (all_errors joi fs payload) (\<lambda>others. Inr (errors @ others)))"
| "any_errors joi [] payload swallowed = Inr swallowed"
| "any_errors joi (f # fs) payload swallowed =
     and_then (rule_errors joi f payload) (\<lambda>errors.
       if errors = [] then Inr [] else any_errors joi fs payload (swallowed @ errors))"

section \<open>Fields\<close>

definition validate_fields :: "accountability option \<Rightarrow> permission list \<Rightarrow> string \<Rightarrow> string \<Rightarrow> string list \<Rightarrow> request_error + unit" where
  "validate_fields accountability permissions action collection fs =
     (if is_admin accountability then Inr ()
      else case find_permission permissions collection action of
        None \<Rightarrow> Inl Forbidden
      | Some p \<Rightarrow>
          (let allowedFields = (case pm_fields p of None \<Rightarrow> [] | Some allowed \<Rightarrow> allowed) in
           if ''*'' \<in> set allowedFields then Inr ()
           else if filter (\<lambda>f. f \<notin> set allowedFields) fs \<noteq> [] then Inl Forbidden else Inr ()))"

section \<open>Rules of a collection\<close>

definition GENERATE_SPECIAL :: "string list" where
  "GENERATE_SPECIAL = [''uuid'', ''date-created'', ''role-created'', ''user-created'', ''folder-key'']"

definition fieldValidationRules :: "collection_overview \<Rightarrow> json list" where
  "fieldValidationRules c = filter truthy (map (\<lambda>(_, f). js_prop f ''validation'') (co_fields c))"

definition column_required :: "json \<Rightarrow> bool" where
  "column_required f =
     (\<not> (truthy (js_prop f ''nullable'') \<or>
         (\<exists>name\<in>set GENERATE_SPECIAL. JStr name \<in> set (array_items (js_prop f ''special''))) \<or>
         truthy (js_prop f ''generated'')))"

definition requiredColumns :: "collection_overview \<Rightarrow> json list" where
  "requiredColumns c = filter column_required (map snd (co_fields c))"

definition column_rules :: "string \<Rightarrow> json \<Rightarrow> json list" where
  "column_rules action f =
     (if action = ''create'' \<and> js_prop f ''defaultValue'' = JNull
      then [JObj [(property_key (js_prop f ''field''), JObj [(''_submitted'', JBool True)])]] else []) @
     [JObj [(property_key (js_prop f ''field''), JObj [(''_nnull'', JBool True)])]]"

definition hasValidationRules :: "json \<Rightarrow> bool" where
  "hasValidationRules validation \<longleftrightarrow> \<not> nullish validation \<and> own_entries validation \<noteq> []"

text \<open>The validation a permission is left with: required columns are added first, then the rules of the fields.\<close>

definition with_columns :: "string \<Rightarrow> json list \<Rightarrow> json \<Rightarrow> json" where
  "with_columns action columns validation =
     (if columns = [] then validation
      else JObj [(''_and'', JArr ((if hasValidationRules validation then [validation] else []) @
             concat (map (column_rules action) columns)))])"

definition with_field_rules :: "json list \<Rightarrow> json \<Rightarrow> json" where
  "with_field_rules rules validation =
     (if rules = [] then validation
      else if has_conditions validation then JObj [(''_and'', JArr (validation # rules))]
      else JObj [(''_and'', JArr rules)])"

definition extended_validation :: "string \<Rightarrow> collection_overview \<Rightarrow> json \<Rightarrow> json" where
  "extended_validation action c validation =
     with_field_rules (fieldValidationRules c) (with_columns action (requiredColumns c) validation)"

section \<open>Validating a payload\<close>

definition admin_permission :: "accountability option \<Rightarrow> string \<Rightarrow> string \<Rightarrow> permission" where
  "admin_permission accountability collection action =
     \<lparr>pm_id = JInt 0, pm_system = JUndefined, pm_collection = collection, pm_action = action,
       pm_role = (case accountability of None \<Rightarrow> None | Some a \<Rightarrow> ac_role a), pm_permissions = JObj [], pm_validation = JObj [],
       pm_fields = Some [''*''], pm_presets = JObj []\<rparr>"

text \<open>Assigning the validation of the first permission for a collection and action, which the accountability holds.\<close>

fun set_validation :: "string \<Rightarrow> string \<Rightarrow> json \<Rightarrow> permission list \<Rightarrow> permission list" where
  "set_validation collection action validation [] = []"
| "set_validation collection action validation (p # ps) =
     (if pm_collection p = collection \<and> pm_action p = action then p\<lparr>pm_validation := validation\<rparr> # ps
      else p # set_validation collection action validation ps)"

definition run_rules :: "(json \<Rightarrow> json \<Rightarrow> json list option) \<Rightarrow> json \<Rightarrow> json \<Rightarrow> request_error + json" where
  "run_rules joi validation payload =
     and_then (rule_errors joi validation payload) (\<lambda>errors.
       if concat errors \<noteq> [] then Inl (Failed_Validation (concat errors)) else Inr payload)"

definition validate_with :: "(json \<Rightarrow> json \<Rightarrow> json) \<Rightarrow> (json \<Rightarrow> json \<Rightarrow> json list option) \<Rightarrow> schema_overview \<Rightarrow> string \<Rightarrow> string \<Rightarrow>
    json \<Rightarrow> permission \<Rightarrow> (request_error + json) \<times> json" where
  "validate_with lodash_merge joi schema action collection payload permission =
     (let payloadWithPresets = lodash_merge (lodash_merge (JObj []) (js_or (pm_presets permission) (JObj []))) payload in
      case map_of (so_collections schema) collection of
        None \<Rightarrow> (Inl Type_Error, pm_validation permission)
      | Some c \<Rightarrow>
          if \<not> hasValidationRules (pm_validation permission) \<and> fieldValidationRules c = [] \<and> requiredColumns c = []
          then (Inr payloadWithPresets, pm_validation permission)
          else (let validation = extended_validation action c (pm_validation permission)
                in (run_rules joi validation payloadWithPresets, validation)))"

definition validatePayload :: "(json \<Rightarrow> json \<Rightarrow> json) \<Rightarrow> (json \<Rightarrow> json \<Rightarrow> json list option) \<Rightarrow> schema_overview \<Rightarrow>
    accountability option \<Rightarrow> string \<Rightarrow> string \<Rightarrow> json \<Rightarrow> permission list \<Rightarrow> (request_error + json) \<times> permission list" where
  "validatePayload lodash_merge joi schema accountability action collection payload permissions =
     (if is_admin accountability
      then (fst (validate_with lodash_merge joi schema action collection payload (admin_permission accountability collection action)),
            permissions)
      else case find_permission permissions collection action of
        None \<Rightarrow> (Inl Forbidden, permissions)
      | Some p \<Rightarrow>
          (case validate_fields accountability permissions action collection (map fst (own_entries payload)) of
             Inl e \<Rightarrow> (Inl e, permissions)
           | Inr _ \<Rightarrow>
               (let (outcome, validation) = validate_with lodash_merge joi schema action collection payload p
                in (outcome, set_validation collection action validation permissions))))"

section \<open>Access to items\<close>

text \<open>\<open>readMany\<close> and \<open>readOne\<close> of the items service, read with the permissions of the action, are parameters.\<close>

definition checkAccess :: "(json list \<Rightarrow> request_error + json list option) \<Rightarrow> (json \<Rightarrow> request_error + json) \<Rightarrow> accountability option \<Rightarrow>
    json \<Rightarrow> request_error + unit" where
  "checkAccess readMany readOne accountability pk =
     (if is_admin accountability then Inr ()
      else case pk of
        JArr pks \<Rightarrow>
          and_then (readMany pks) (\<lambda>found. case found of
             None \<Rightarrow> Inl Forbidden
           | Some result \<Rightarrow> if length result \<noteq> length pks then Inl Forbidden else Inr ())
      | _ \<Rightarrow> and_then (readOne pk) (\<lambda>item. if truthy item then Inr () else Inl Forbidden))"

section \<open>What a payload satisfies\<close>

text \<open>The meaning of a rule: an empty disjunction passes, as the code has it.\<close>

fun rule_holds :: "(json \<Rightarrow> json \<Rightarrow> json list option) \<Rightarrow> json \<Rightarrow> json \<Rightarrow> bool"
  and all_hold :: "(json \<Rightarrow> json \<Rightarrow> json list option) \<Rightarrow> json \<Rightarrow> json list \<Rightarrow> bool"
  and any_holds :: "(json \<Rightarrow> json \<Rightarrow> json list option) \<Rightarrow> json \<Rightarrow> json list \<Rightarrow> bool" where
  "rule_holds joi payload (JObj ((k, v) # es)) =
     (case v of
        JArr fs \<Rightarrow>
          if k = ''_and'' then all_hold joi payload fs
          else if k = ''_or'' then fs = [] \<or> any_holds joi payload fs
          else joi (JObj ((k, v) # es)) payload = None
      | _ \<Rightarrow> joi (JObj ((k, v) # es)) payload = None)"
| "rule_holds joi payload rule = (joi rule payload = None)"
| "all_hold joi payload [] = True"
| "all_hold joi payload (f # fs) = (rule_holds joi payload f \<and> all_hold joi payload fs)"
| "any_holds joi payload [] = False"
| "any_holds joi payload (f # fs) = (rule_holds joi payload f \<or> any_holds joi payload fs)"

lemma all_hold_iff: "all_hold joi payload fs \<longleftrightarrow> (\<forall>f\<in>set fs. rule_holds joi payload f)"
  by (induction fs) simp_all

text \<open>An error of Joi has at least one detail.\<close>

definition joi_reports :: "(json \<Rightarrow> json \<Rightarrow> json list option) \<Rightarrow> bool" where
  "joi_reports joi \<longleftrightarrow> (\<forall>rule payload. joi rule payload \<noteq> Some [])"

lemma rule_errors_holds:
  assumes "joi_reports joi"
  shows "\<forall>out. rule_errors joi rule payload = Inr out \<longrightarrow> [] \<notin> set out \<and> (out = [] \<longleftrightarrow> rule_holds joi payload rule)"
    "\<forall>out. all_errors joi fs payload = Inr out \<longrightarrow> [] \<notin> set out \<and> (out = [] \<longleftrightarrow> all_hold joi payload fs)"
    "\<forall>out. any_errors joi fs payload swallowed = Inr out \<and> [] \<notin> set swallowed \<longrightarrow> [] \<notin> set out \<and>
       (out = [] \<longleftrightarrow> any_holds joi payload fs \<or> fs = [] \<and> swallowed = [])"
using assms
proof (induction joi rule payload and joi fs payload and joi fs payload swallowed
    rule: rule_errors_all_errors_any_errors.induct)
  case (1 joi k v es payload)
  have "joi rule q \<noteq> Some []" for rule q using "1.prems" unfolding joi_reports_def by blast
  with 1 show ?case by (cases v) (auto split: option.splits if_splits)
next
  case (4 joi f fs payload)
  then show ?case by (auto simp: and_then_Inr_iff)
next
  case (6 joi f fs payload swallowed)
  then show ?case by (auto simp: and_then_Inr_iff split: if_splits)
qed (auto simp: joi_reports_def split: option.splits)

text \<open>What the extended validation requires of a payload.\<close>

definition payload_ok :: "(json \<Rightarrow> json \<Rightarrow> json list option) \<Rightarrow> string \<Rightarrow> collection_overview \<Rightarrow> json \<Rightarrow> json \<Rightarrow> bool" where
  "payload_ok joi action c validation payload \<longleftrightarrow>
     (hasValidationRules validation \<longrightarrow> rule_holds joi payload validation) \<and>
     (\<forall>rule\<in>set (fieldValidationRules c). rule_holds joi payload rule) \<and>
     (\<forall>f\<in>set (requiredColumns c). \<forall>rule\<in>set (column_rules action f). rule_holds joi payload rule)"

lemma with_columns_holds:
  assumes "columns \<noteq> [] \<or> hasValidationRules validation"
  shows "hasValidationRules (with_columns action columns validation)"
    and "rule_holds joi payload (with_columns action columns validation) \<longleftrightarrow>
      (hasValidationRules validation \<longrightarrow> rule_holds joi payload validation) \<and>
      (\<forall>f\<in>set columns. \<forall>rule\<in>set (column_rules action f). rule_holds joi payload rule)"
  using assms by (auto simp: with_columns_def all_hold_iff hasValidationRules_def own_entries_def)

lemma conditions_rules: "has_conditions v = hasValidationRules v"
  by (cases v) (auto simp: has_conditions_def hasValidationRules_def own_entries_def)

lemma own_entries_JArr [simp]: "own_entries (JArr vs) = [] \<longleftrightarrow> vs = []"
  by (cases vs) (simp_all add: own_entries_def)

lemma extended_holds:
  assumes "hasValidationRules validation \<or> fieldValidationRules c \<noteq> [] \<or> requiredColumns c \<noteq> []"
  shows "rule_holds joi payload (extended_validation action c validation) \<longleftrightarrow> payload_ok joi action c validation payload"
proof (cases "requiredColumns c \<noteq> [] \<or> hasValidationRules validation")
  case True
  from with_columns_holds[OF this, where action = action] show ?thesis
    by (auto simp: extended_validation_def with_field_rules_def conditions_rules all_hold_iff payload_ok_def)
next
  case False
  with assms show ?thesis
    by (auto simp: extended_validation_def with_field_rules_def conditions_rules all_hold_iff payload_ok_def with_columns_def)
qed

text \<open>The validation a permission is left with encloses the one it had.\<close>

lemma extended_size:
  assumes "fieldValidationRules c \<noteq> [] \<or> requiredColumns c \<noteq> []"
  shows "size validation < size (extended_validation action c validation)"
proof -
  have trivial: "size validation \<le> 1" if "\<not> hasValidationRules validation"
    using that by (cases validation) (auto simp: hasValidationRules_def own_entries_def[of "JObj _"])
  have columns: "size validation < size (with_columns action columns validation)" if c: "columns \<noteq> []" for columns
  proof (cases "hasValidationRules validation")
    case False
    from c obtain f fs where "columns = f # fs" by (cases columns) auto
    with trivial[OF False] False show ?thesis by (simp add: with_columns_def column_rules_def)
  qed (use c in \<open>simp add: with_columns_def\<close>)
  have rules: "size v < size (with_field_rules rules v)" if "rules \<noteq> []" "size v \<le> 1 \<or> hasValidationRules v" for rules v
  proof -
    from that(1) obtain r rs where "rules = r # rs" by (cases rules) auto
    then show ?thesis using that(2) by (auto simp: with_field_rules_def conditions_rules)
  qed
  show ?thesis
  proof (cases "requiredColumns c = []")
    case True
    with assms rules[of "fieldValidationRules c" validation] trivial show ?thesis
      by (auto simp: extended_validation_def with_columns_def)
  next
    case False
    note less = columns[OF False]
    have "hasValidationRules (with_columns action (requiredColumns c) validation)"
      using with_columns_holds(1) False by blast
    with rules[of "fieldValidationRules c" "with_columns action (requiredColumns c) validation"] less show ?thesis
      by (cases "fieldValidationRules c = []") (auto simp: extended_validation_def with_field_rules_def)
  qed
qed

lemma validate_fields_allows:
  assumes "\<not> is_admin accountability" "find_permission permissions collection action = Some p"
  shows "validate_fields accountability permissions action collection ks =
    (if list_all (allows (pm_fields p)) ks then Inr () else Inl Forbidden)"
  using assms by (cases "pm_fields p") (auto simp: validate_fields_def allows_def Let_def list_all_iff filter_empty_conv)

lemma find_set_validation:
  "find_permission permissions collection action = Some p \<Longrightarrow>
     find_permission (set_validation collection action v permissions) collection action = Some (p\<lparr>pm_validation := v\<rparr>)"
  unfolding find_permission_def by (induction permissions) (auto split: if_splits)

lemma run_rules_outcome:
  assumes "joi_reports joi"
  shows "run_rules joi v payload = Inr out \<Longrightarrow> out = payload \<and> rule_holds joi payload v"
    and "run_rules joi v payload = Inl (Failed_Validation details) \<Longrightarrow>
      (\<forall>d. rule_errors joi v payload \<noteq> Inl (Failed_Validation d)) \<Longrightarrow> \<not> rule_holds joi payload v"
proof -
  have empty: "concat errors = [] \<longleftrightarrow> errors = []" if "[] \<notin> set errors" for errors :: "json list list"
    using that by (cases errors) auto
  show "run_rules joi v payload = Inr out \<Longrightarrow> out = payload \<and> rule_holds joi payload v"
    using rule_errors_holds(1)[OF assms, of v payload] empty
    by (auto simp: run_rules_def and_then_Inr_iff split: if_splits)
  show "\<not> rule_holds joi payload v" if "run_rules joi v payload = Inl (Failed_Validation details)"
      "\<forall>d. rule_errors joi v payload \<noteq> Inl (Failed_Validation d)"
    using rule_errors_holds(1)[OF assms, of v payload] that
    by (cases "rule_errors joi v payload") (auto simp: run_rules_def split: if_splits)
qed

lemma rule_errors_type:
  "\<forall>e. rule_errors joi rule payload = Inl e \<longrightarrow> e = Type_Error"
  "\<forall>e. all_errors joi fs payload = Inl e \<longrightarrow> e = Type_Error"
  "\<forall>e. any_errors joi fs payload swallowed = Inl e \<longrightarrow> e = Type_Error"
proof (induction joi rule payload and joi fs payload and joi fs payload swallowed
    rule: rule_errors_all_errors_any_errors.induct)
  case (1 joi k v es payload)
  then show ?case by (cases v) auto
qed (auto simp: and_then_def split: sum.splits if_splits)


text \<open>Writers of articles, whose title is required.\<close>

definition demo_writer :: permission where
  "demo_writer = \<lparr>pm_id = JInt 2, pm_system = JUndefined, pm_collection = ''articles'', pm_action = ''update'', pm_role = None,
     pm_permissions = JNull, pm_validation = JNull, pm_fields = Some [''title''], pm_presets = JNull\<rparr>"

definition demo_articles :: collection_overview where
  "demo_articles = \<lparr>co_primary = ''id'', co_rest = JUndefined,
     co_fields = [(''title'', JObj [(''field'', JStr ''title''), (''nullable'', JBool False)])]\<rparr>"

definition demo_joi :: "json \<Rightarrow> json \<Rightarrow> json list option" where
  "demo_joi rule payload = (if js_prop payload ''title'' = JNull then Some [JStr ''required''] else None)"


end
