(* ===== verification/Query_Limit.thy ===== *)
theory Query_Limit
  imports Filter_Parse
begin

text \<open>
  Configured bounds: \<open>api/src/utils/parse-config.ts\<close> (whole numbers and sizes) and \<open>api/src/utils/query-limit.ts\<close>.
  The \<open>bytes\<close> library is a parameter. A message is kept as the values it is made of.
\<close>

section \<open>Whole numbers and sizes\<close>

record bounded_spec =
  bs_envVar :: string
  bs_defaultValue :: int
  bs_floor :: int
  bs_ceiling :: int

datatype config_problem = Too_low int int | Too_high int int | Not_a_size json | Not_a_count json

type_synonym config_parse_error = "string \<times> config_problem"

definition MAX_SAFE_INTEGER :: int where
  "MAX_SAFE_INTEGER = 9007199254740991"

definition isUnset :: "json \<Rightarrow> bool" where
  "isUnset raw \<longleftrightarrow> raw = JUndefined \<or> raw = JNull \<or> (case raw of JStr s \<Rightarrow> js_trim s = [] | _ \<Rightarrow> False)"

text \<open>A number that \<open>Number.isSafeInteger\<close> accepts and that is not negative.\<close>

definition safe_count :: "json \<Rightarrow> int option" where
  "safe_count v = (case v of JInt n \<Rightarrow> if 0 \<le> n \<and> n \<le> MAX_SAFE_INTEGER then Some n else None | _ \<Rightarrow> None)"

definition is_digit :: "char \<Rightarrow> bool" where
  "is_digit c \<longleftrightarrow> (48 :: nat) \<le> of_char c \<and> of_char c \<le> (57 :: nat)"

definition digits_only :: "string \<Rightarrow> bool" where
  "digits_only s \<longleftrightarrow> s \<noteq> [] \<and> list_all is_digit s"

text \<open>\<open>Number\<close> of a text of decimal digits; beyond the safe integers it rounds to a number that is not safe either.\<close>

definition digits_number :: "string \<Rightarrow> json" where
  "digits_number s = JInt (int (digits_to_nat 10 (map (\<lambda>c. of_char c - 48) s)))"

definition bounded :: "bounded_spec \<Rightarrow> int \<Rightarrow> config_parse_error + int" where
  "bounded spec n =
     (if n < bs_floor spec then Inl (bs_envVar spec, Too_low (bs_floor spec) n)
      else if n > bs_ceiling spec then Inl (bs_envVar spec, Too_high (bs_ceiling spec) n)
      else Inr n)"

definition parseCount :: "json \<Rightarrow> bounded_spec \<Rightarrow> config_parse_error + int" where
  "parseCount raw spec =
     (if isUnset raw then Inr (bs_defaultValue spec)
      else
        (let n = (case raw of
                    JInt _ \<Rightarrow> safe_count raw
                  | JStr s \<Rightarrow> if digits_only (js_trim s) then safe_count (digits_number (js_trim s)) else None
                  | _ \<Rightarrow> None)
         in case n of None \<Rightarrow> Inl (bs_envVar spec, Not_a_count raw) | Some n' \<Rightarrow> bounded spec n'))"

definition lower_char :: "char \<Rightarrow> char" where
  "lower_char c = (if (65 :: nat) \<le> of_char c \<and> of_char c \<le> (90 :: nat) then char_of ((of_char c :: nat) + 32) else c)"

text \<open>The pattern of a size: digits, then nothing or a unit, which one white space may precede.\<close>

definition size_pattern :: "string \<Rightarrow> bool" where
  "size_pattern s =
     (let rest = dropWhile is_digit s;
          unit = (case rest of c # cs \<Rightarrow> if is_space c then cs else rest | [] \<Rightarrow> [])
      in takeWhile is_digit s \<noteq> [] \<and>
         (rest = [] \<or> map lower_char unit \<in> {''b'', ''kb'', ''mb'', ''gb'', ''tb''}))"

definition parseSize :: "(string \<Rightarrow> json) \<Rightarrow> json \<Rightarrow> bounded_spec \<Rightarrow> config_parse_error + int" where
  "parseSize parseBytes raw spec =
     (if isUnset raw then Inr (bs_defaultValue spec)
      else
        (let n = (case raw of
                    JInt _ \<Rightarrow> safe_count raw
                  | JStr s \<Rightarrow> if size_pattern (js_trim s) then safe_count (parseBytes (js_trim s)) else None
                  | _ \<Rightarrow> None)
         in case n of None \<Rightarrow> Inl (bs_envVar spec, Not_a_size raw) | Some n' \<Rightarrow> bounded spec n'))"

definition parseOptionalSize :: "(string \<Rightarrow> json) \<Rightarrow> json \<Rightarrow> bounded_spec \<Rightarrow> config_parse_error + int option" where
  "parseOptionalSize parseBytes raw spec =
     (if isUnset raw then Inr None
      else and_then (parseSize parseBytes raw (spec\<lparr>bs_defaultValue := bs_floor spec\<rparr>)) (\<lambda>n. Inr (Some n)))"

section \<open>The limits of queries\<close>

definition QUERY_LIMIT_UNLIMITED :: int where
  "QUERY_LIMIT_UNLIMITED = -1"

definition GRAPHQL_INT_MAX :: int where
  "GRAPHQL_INT_MAX = 2147483647"

record query_limit_config =
  ql_default :: int
  ql_max :: int
  ql_effectiveDefault :: int

definition DEFAULT_SPEC :: bounded_spec where
  "DEFAULT_SPEC = \<lparr>bs_envVar = ''QUERY_LIMIT_DEFAULT'', bs_defaultValue = 100, bs_floor = 0, bs_ceiling = GRAPHQL_INT_MAX\<rparr>"

definition MAX_SPEC :: bounded_spec where
  "MAX_SPEC = \<lparr>bs_envVar = ''QUERY_LIMIT_MAX'', bs_defaultValue = QUERY_LIMIT_UNLIMITED, bs_floor = 1, bs_ceiling = GRAPHQL_INT_MAX\<rparr>"

definition isUnlimitedSentinel :: "json \<Rightarrow> bool" where
  "isUnlimitedSentinel raw \<longleftrightarrow>
     raw = JInt QUERY_LIMIT_UNLIMITED \<or> (case raw of JStr s \<Rightarrow> js_trim s = ''-1'' | _ \<Rightarrow> False)"

definition parseLimit :: "json \<Rightarrow> bounded_spec \<Rightarrow> int \<Rightarrow> config_parse_error + int" where
  "parseLimit raw spec unsetValue =
     (if isUnset raw then Inr unsetValue
      else if isUnlimitedSentinel raw then Inr QUERY_LIMIT_UNLIMITED
      else parseCount raw spec)"

definition computeEffectiveDefault :: "int \<Rightarrow> int \<Rightarrow> int" where
  "computeEffectiveDefault defaultValue max_limit =
     (if max_limit = QUERY_LIMIT_UNLIMITED then defaultValue
      else if defaultValue = QUERY_LIMIT_UNLIMITED then max_limit
      else min defaultValue max_limit)"

definition resolveQueryLimitConfig :: "json_object \<Rightarrow> config_parse_error + query_limit_config" where
  "resolveQueryLimitConfig source =
     and_then (parseLimit (js_get source ''QUERY_LIMIT_DEFAULT'') DEFAULT_SPEC (bs_defaultValue DEFAULT_SPEC)) (\<lambda>d.
       and_then (parseLimit (js_get source ''QUERY_LIMIT_MAX'') MAX_SPEC QUERY_LIMIT_UNLIMITED) (\<lambda>m.
         Inr \<lparr>ql_default = d, ql_max = m, ql_effectiveDefault = computeEffectiveDefault d m\<rparr>))"

definition getQueryLimitConfig :: "json_object \<Rightarrow> request_error + query_limit_config" where
  "getQueryLimitConfig source = (case resolveQueryLimitConfig source of Inl _ \<Rightarrow> Inl General_Error | Inr c \<Rightarrow> Inr c)"

definition validateQueryLimitConfig :: "json_object \<Rightarrow> request_error + unit" where
  "validateQueryLimitConfig env = (case resolveQueryLimitConfig env of Inl _ \<Rightarrow> Inl General_Error | Inr _ \<Rightarrow> Inr ())"

definition hasFiniteMax :: "query_limit_config \<Rightarrow> bool" where
  "hasFiniteMax c \<longleftrightarrow> ql_max c \<noteq> QUERY_LIMIT_UNLIMITED"

section \<open>Bounds\<close>

lemma bounded_range: "bounded spec n = Inr m \<Longrightarrow> m = n \<and> bs_floor spec \<le> m \<and> m \<le> bs_ceiling spec"
  by (auto simp: bounded_def split: if_splits)

lemma parseCount_range:
  "parseCount raw spec = Inr n \<Longrightarrow> \<not> isUnset raw \<Longrightarrow> bs_floor spec \<le> n \<and> n \<le> bs_ceiling spec"
  by (auto simp: parseCount_def Let_def dest!: bounded_range split: option.splits)

text \<open>A resolved configuration keeps its values in their ranges, and its effective default within a finite maximum.\<close>

definition limits_ok :: "query_limit_config \<Rightarrow> bool" where
  "limits_ok c \<longleftrightarrow>
     (ql_default c = -1 \<or> 0 \<le> ql_default c \<and> ql_default c \<le> GRAPHQL_INT_MAX) \<and>
     (ql_max c = -1 \<or> 1 \<le> ql_max c \<and> ql_max c \<le> GRAPHQL_INT_MAX) \<and>
     (hasFiniteMax c \<longrightarrow> 0 \<le> ql_effectiveDefault c \<and> ql_effectiveDefault c \<le> ql_max c)"

lemma parseLimit_range:
  assumes "parseLimit raw spec unsetValue = Inr n"
  shows "n = unsetValue \<or> n = -1 \<or> bs_floor spec \<le> n \<and> n \<le> bs_ceiling spec"
  using assms parseCount_range[of raw spec n] by (auto simp: parseLimit_def QUERY_LIMIT_UNLIMITED_def split: if_splits)

lemma resolved_limits_ok:
  assumes "resolveQueryLimitConfig source = Inr c"
  shows "limits_ok c"
proof -
  from assms obtain d m where d: "parseLimit (js_get source ''QUERY_LIMIT_DEFAULT'') DEFAULT_SPEC 100 = Inr d"
    and m: "parseLimit (js_get source ''QUERY_LIMIT_MAX'') MAX_SPEC (-1) = Inr m"
    and c: "c = \<lparr>ql_default = d, ql_max = m, ql_effectiveDefault = computeEffectiveDefault d m\<rparr>"
    by (auto simp: resolveQueryLimitConfig_def and_then_Inr_iff DEFAULT_SPEC_def QUERY_LIMIT_UNLIMITED_def)
  have "d = -1 \<or> 0 \<le> d \<and> d \<le> GRAPHQL_INT_MAX" "m = -1 \<or> 1 \<le> m \<and> m \<le> GRAPHQL_INT_MAX"
    using parseLimit_range[OF d] parseLimit_range[OF m]
    by (auto simp: DEFAULT_SPEC_def MAX_SPEC_def GRAPHQL_INT_MAX_def)
  then show ?thesis unfolding c
    by (auto simp: limits_ok_def hasFiniteMax_def computeEffectiveDefault_def QUERY_LIMIT_UNLIMITED_def)
qed

end
