(* ===== verification/Query_Input.thy ===== *)
theory Query_Input
  imports Query_Limit
begin

text \<open>
  The query of a request, brought into its internal form: \<open>api/src/utils/sanitize-query.ts\<close> and \<open>set-own.ts\<close>. The
  configured limits, the context of filters, \<open>JSON.parse\<close>, the conversion of values other than whole numbers by
  \<open>Number\<close>, and lodash's \<open>merge\<close> are parameters, kept in one record. A query is an object; segments of paths in \<open>deep\<close>
  are field names, never list indexes.
\<close>

section \<open>The environment\<close>

record input_env =
  ie_limits :: query_limit_config
  ie_filters :: filter_env
  ie_parseJSON :: "string \<Rightarrow> json option"
  ie_number :: "json \<Rightarrow> json"
  ie_merge :: "json \<Rightarrow> json \<Rightarrow> json"

text \<open>\<open>Number(v)\<close>: a whole number, as such or as decimal digits with a sign, is read here.\<close>

definition js_number :: "input_env \<Rightarrow> json \<Rightarrow> json" where
  "js_number env v =
     (case v of
        JInt n \<Rightarrow> JInt n
      | JFloat s \<Rightarrow> JFloat s
      | JBool b \<Rightarrow> JInt (if b then 1 else 0)
      | JNull \<Rightarrow> JInt 0
      | JStr s \<Rightarrow>
          (let t = js_trim s in
           if t = [] then JInt 0
           else if digits_only t then digits_number t
           else if hd t = CHR ''-'' \<and> digits_only (tl t) then (case digits_number (tl t) of JInt n \<Rightarrow> JInt (- n) | w \<Rightarrow> w)
           else ie_number env v)
      | _ \<Rightarrow> ie_number env v)"

fun is_number :: "json \<Rightarrow> bool" where
  "is_number (JInt _) = True"
| "is_number (JFloat _) = True"
| "is_number _ = False"

text \<open>A text is parsed as JSON where it can be; otherwise the text is kept.\<close>

definition parsed_text :: "input_env \<Rightarrow> json \<Rightarrow> json" where
  "parsed_text env v = (case v of JStr s \<Rightarrow> (case ie_parseJSON env s of None \<Rightarrow> v | Some w \<Rightarrow> w) | _ \<Rightarrow> v)"

definition comma_parts :: "string \<Rightarrow> json list" where
  "comma_parts s = map JStr (js_split CHR '','' s)"

section \<open>The parts of a query\<close>

text \<open>Texts are split at commas, nested lists are flattened once, and every field is trimmed.\<close>

definition split_field :: "json \<Rightarrow> request_error + json list" where
  "split_field field =
     (case field of
        JStr s \<Rightarrow> Inr (if CHR '','' \<in> set s then comma_parts s else [field])
      | JArr vs \<Rightarrow> if JStr '','' \<in> set vs then Inl Type_Error else Inr vs
      | _ \<Rightarrow> Inl Type_Error)"

definition trim_field :: "json \<Rightarrow> request_error + json" where
  "trim_field field = (case field of JStr s \<Rightarrow> Inr (JStr (js_trim s)) | _ \<Rightarrow> Inl Type_Error)"

definition sanitizeFields :: "json \<Rightarrow> request_error + json" where
  "sanitizeFields rawFields =
     (let fs = (case rawFields of JStr s \<Rightarrow> comma_parts s | JArr vs \<Rightarrow> vs | _ \<Rightarrow> []) in
      and_then (map_or_throw split_field fs) (\<lambda>parts.
        and_then (map_or_throw trim_field (concat parts)) (\<lambda>trimmed. Inr (JArr trimmed))))"

definition sanitizeSort :: "json \<Rightarrow> json" where
  "sanitizeSort rawSort = JArr (case rawSort of JStr s \<Rightarrow> comma_parts s | JArr vs \<Rightarrow> vs | _ \<Rightarrow> [])"

definition split_value :: "json \<Rightarrow> json" where
  "split_value v = (case v of JStr s \<Rightarrow> JArr (comma_parts s) | _ \<Rightarrow> v)"

text \<open>An operation's text of fields is split in place, which a text that is not JSON does not allow.\<close>

definition sanitizeAggregate :: "input_env \<Rightarrow> json \<Rightarrow> request_error + json" where
  "sanitizeAggregate env rawAggregate =
     (case parsed_text env rawAggregate of
        JObj es \<Rightarrow> Inr (JObj (map (\<lambda>(operation, fs). (operation, split_value fs)) es))
      | JArr vs \<Rightarrow> Inr (JArr (map split_value vs))
      | JStr s \<Rightarrow> if s = [] then Inr (JStr s) else Inl Type_Error
      | JNull \<Rightarrow> Inl Type_Error
      | JUndefined \<Rightarrow> Inl Type_Error
      | aggregate \<Rightarrow> Inr aggregate)"

definition sanitizeFilter :: "input_env \<Rightarrow> json \<Rightarrow> request_error + json" where
  "sanitizeFilter env rawFilter =
     (let filters = parsed_text env rawFilter in
      if filters \<noteq> JNull \<and> (\<not> isObjectLike filters \<or> isArray filters) then Inl Invalid_Query
      else parseFilter (ie_filters env) filters)"

definition sanitizeLimit :: "input_env \<Rightarrow> json \<Rightarrow> json" where
  "sanitizeLimit env rawLimit = (if nullish rawLimit then JNull else js_number env rawLimit)"

definition sanitizeMeta :: "json \<Rightarrow> request_error + json" where
  "sanitizeMeta rawMeta =
     (case rawMeta of
        JStr s \<Rightarrow>
          Inr (JArr (if s = ''*'' then [JStr ''total_count'', JStr ''filter_count'']
                     else if CHR '','' \<in> set s then comma_parts s else [rawMeta]))
      | JArr vs \<Rightarrow> if JStr '','' \<in> set vs then Inl Type_Error else Inr rawMeta
      | _ \<Rightarrow> Inl Type_Error)"

definition sanitizeAlias :: "input_env \<Rightarrow> json \<Rightarrow> json" where
  "sanitizeAlias env rawAlias = parsed_text env rawAlias"

text \<open>The limit a query gets: its own number, the maximum for \<open>-1\<close>, or the default where it is applied.\<close>

definition sanitized_limit :: "input_env \<Rightarrow> bool \<Rightarrow> json_object \<Rightarrow> json_object" where
  "sanitized_limit env applyDefaultLimit raw =
     (let finiteMax = hasFiniteMax (ie_limits env) in
      if js_get raw ''limit'' \<noteq> JUndefined then
        (let limit = sanitizeLimit env (js_get raw ''limit'') in
         if is_number limit
         then [(''limit'', if limit = JInt (-1) \<and> finiteMax then JInt (ql_max (ie_limits env)) else limit)]
         else [])
      else if applyDefaultLimit \<and> finiteMax then [(''limit'', JInt (ql_effectiveDefault (ie_limits env)))]
      else [])"

text \<open>One option: present and truthy, it is sanitized and set.\<close>

definition set_option_if :: "json_object \<Rightarrow> string \<Rightarrow> string \<Rightarrow> (json \<Rightarrow> request_error + json) \<Rightarrow> json_object \<Rightarrow> request_error + json_object" where
  "set_option_if raw name target sanitize query =
     (if truthy (js_get raw name) then and_then (sanitize (js_get raw name)) (\<lambda>v. Inr (js_set target v query)) else Inr query)"

section \<open>Deep queries\<close>

text \<open>lodash's \<open>get\<close> and the code's \<open>setOwn\<close> along a path of names; an empty path reads the default and writes nothing.\<close>

fun get_own :: "json \<Rightarrow> string list \<Rightarrow> json" where
  "get_own v [] = v"
| "get_own v (k # ks) = get_own (js_prop v k) ks"

fun setOwn :: "json_object \<Rightarrow> string list \<Rightarrow> json \<Rightarrow> json_object" where
  "setOwn object [] v = object"
| "setOwn object [k] v = js_set k v object"
| "setOwn object (k # k' # ks) v =
     js_set k (case js_get object k of
                 JObj inner \<Rightarrow> JObj (setOwn inner (k' # ks) v)
               | _ \<Rightarrow> JObj (setOwn [] (k' # ks) v)) object"

definition get_or_empty :: "json_object \<Rightarrow> string list \<Rightarrow> json" where
  "get_or_empty object path =
     (if path = [] then JObj []
      else case get_own (JObj object) path of JUndefined \<Rightarrow> JObj [] | v \<Rightarrow> v)"

text \<open>The options that hold no queries of their own, in the order in which \<open>sanitizeQuery\<close> reads them.\<close>

definition set_offset :: "input_env \<Rightarrow> json_object \<Rightarrow> json_object \<Rightarrow> json_object" where
  "set_offset env raw query =
     (if js_get raw ''offset'' \<noteq> JUndefined then js_set ''offset'' (js_number env (js_get raw ''offset'')) query else query)"

definition set_search :: "json_object \<Rightarrow> json_object \<Rightarrow> json_object" where
  "set_search raw query =
     (case js_get raw ''search'' of JStr s \<Rightarrow> if s \<noteq> [] then js_set ''search'' (JStr s) query else query | _ \<Rightarrow> query)"

definition plain_options :: "input_env \<Rightarrow> bool \<Rightarrow> json_object \<Rightarrow> request_error + json_object" where
  "plain_options env applyDefaultLimit raw =
     and_then (set_option_if raw ''fields'' ''fields'' sanitizeFields (sanitized_limit env applyDefaultLimit raw)) (\<lambda>q1.
     and_then (set_option_if raw ''groupBy'' ''group'' sanitizeFields q1) (\<lambda>q2.
     and_then (set_option_if raw ''aggregate'' ''aggregate'' (sanitizeAggregate env) q2) (\<lambda>q3.
     and_then (set_option_if raw ''sort'' ''sort'' (\<lambda>v. Inr (sanitizeSort v)) q3) (\<lambda>q4.
     and_then (set_option_if raw ''filter'' ''filter'' (sanitizeFilter env) q4) (\<lambda>q5.
     and_then (set_option_if raw ''page'' ''page'' (\<lambda>v. Inr (js_number env v)) (set_offset env raw q5)) (\<lambda>q6.
     and_then (set_option_if raw ''meta'' ''meta'' sanitizeMeta q6) (\<lambda>q7.
     set_option_if raw ''export'' ''export'' Inr (set_search raw q7))))))))"

text \<open>
  The fuel counts nested calls of \<open>sanitizeQuery\<close> and \<open>parse\<close>. \<open>deep_entries\<close> is the loop of \<open>parse\<close> over the keys of one
  level; it carries the result and the options parsed at this level.
\<close>

function sanitizeQuery :: "nat \<Rightarrow> input_env \<Rightarrow> bool \<Rightarrow> json_object \<Rightarrow> request_error + json_object"
  and sanitizeDeep :: "nat \<Rightarrow> input_env \<Rightarrow> json \<Rightarrow> string list \<Rightarrow> json_object \<Rightarrow> request_error + json_object"
  and deep_entries :: "nat \<Rightarrow> input_env \<Rightarrow> json_object \<Rightarrow> string list \<Rightarrow> json_object \<Rightarrow> json_object \<Rightarrow>
    request_error + json_object \<times> json_object" where
  "sanitizeQuery fuel env applyDefaultLimit raw =
     (case fuel of
        0 \<Rightarrow> Inl Out_Of_Fuel
      | Suc n \<Rightarrow>
          and_then (plain_options env applyDefaultLimit raw) (\<lambda>query.
          and_then (set_option_if raw ''deep'' ''deep''
              (\<lambda>v. and_then (sanitizeDeep n env (parsed_text env v) [] []) (\<lambda>result. Inr (JObj result))) query) (\<lambda>query'.
          set_option_if raw ''alias'' ''alias'' (\<lambda>v. Inr (sanitizeAlias env v)) query')))"
| "sanitizeDeep fuel env level path result =
     (case fuel of
        0 \<Rightarrow> Inl Out_Of_Fuel
      | Suc n \<Rightarrow>
          if nullish level then Inl Type_Error
          else
            and_then (deep_entries n env (own_entries level) path result []) (\<lambda>(result', parsedLevel).
              Inr (if parsedLevel \<noteq> []
                   then setOwn result' path (ie_merge env (get_or_empty result' path) (JObj parsedLevel))
                   else result')))"
| "deep_entries n env entries path result parsedLevel =
     (case entries of
        [] \<Rightarrow> Inr (result, parsedLevel)
      | (key, v) # es \<Rightarrow>
          if key = [] then Inr (result, parsedLevel)
          else if startsWith key ''_'' then
            and_then (sanitizeQuery n env False [(tl key, v)]) (\<lambda>parsedSubQuery.
              deep_entries n env es path result
                (case parsedSubQuery of [] \<Rightarrow> parsedLevel | (k, w) # _ \<Rightarrow> js_set (CHR ''_'' # k) w parsedLevel))
          else if isPlainObject v then
            and_then (sanitizeDeep n env v (path @ [key]) result) (\<lambda>result'. deep_entries n env es path result' parsedLevel)
          else deep_entries n env es path result parsedLevel)"
  by pat_completeness simp_all
termination
  by (relation "inv_image (less_than <*lex*> less_than)
        (case_sum (\<lambda>(n, _). (n, 0)) (case_sum (\<lambda>(n, _). (n, 0)) (\<lambda>(n, _, es, _). (n, Suc (length es)))))") auto

declare sanitizeQuery.simps [simp del] sanitizeDeep.simps [simp del] deep_entries.simps [simp del]

section \<open>Fuel\<close>

text \<open>\<open>returns x\<close>: the computation gives a result or an error of the code, it does not run out of fuel.\<close>

definition returns :: "request_error + 'a \<Rightarrow> bool" where
  "returns x \<longleftrightarrow> x \<noteq> Inl Out_Of_Fuel"

lemma returns_simps [simp]: "returns (Inr v)" "returns (Inl e) \<longleftrightarrow> e \<noteq> Out_Of_Fuel"
  by (simp_all add: returns_def)

lemma returns_and_then: "returns x \<Longrightarrow> (\<And>v. x = Inr v \<Longrightarrow> returns (f v)) \<Longrightarrow> returns (and_then x f)"
  by (cases x) simp_all

lemma returns_map: "(\<And>x. x \<in> set xs \<Longrightarrow> returns (f x)) \<Longrightarrow> returns (map_or_throw f xs)"
  by (induction xs) (auto intro!: returns_and_then)

lemma returns_shift:
  "returns (shiftLogicalOperatorsUp f)"
  "returns (shift_each fs)"
  "returns (shift_values es)"
  "returns (shift_under k w whole)"
  by (induction f and fs and es and k w whole rule: shiftLogicalOperatorsUp_shift_each_shift_values_shift_under.induct)
    (auto intro!: returns_and_then split: json.split)

lemma returns_parse:
  "returns (parseFilterRecursive env f)"
  "returns (parseFilter env f)"
  "returns (parseFilterEntry env k f)"
proof (induction env f and env f and env k f rule: parseFilterRecursive_parseFilter_parseFilterEntry.induct)
  case (1 env flt)
  then show ?case unfolding parseFilterRecursive.simps[of env flt] by (auto intro!: returns_and_then returns_map)
next
  case (2 env flt)
  then show ?case unfolding parseFilter.simps[of env flt] by (auto intro!: returns_and_then returns_shift)
next
  case (3 env key val)
  then show ?case unfolding parseFilterEntry.simps[of env key val]
    by (auto intro!: returns_and_then returns_map split: json.split)
qed

lemma returns_option: "(\<And>v. returns (san v)) \<Longrightarrow> returns (set_option_if raw name target san query)"
  by (auto simp: set_option_if_def intro!: returns_and_then)

lemma returns_sanitize:
  "returns (sanitizeFields v)" "returns (sanitizeAggregate env v)" "returns (sanitizeFilter env v)" "returns (sanitizeMeta v)"
  by (auto simp: sanitizeFields_def sanitizeAggregate_def sanitizeFilter_def sanitizeMeta_def split_field_def trim_field_def
      Let_def intro!: returns_and_then returns_map returns_parse split: json.split)

lemma returns_plain_options: "returns (plain_options env applyDefault raw)"
  unfolding plain_options_def by (intro returns_and_then returns_option returns_sanitize returns_simps(1))

text \<open>The length of a value, which bounds that of a JSON text of it from below; reading a text gives no longer value.\<close>

fun json_length :: "json \<Rightarrow> nat" where
  "json_length (JStr s) = Suc (length s)"
| "json_length (JArr vs) = Suc (sum_list (map json_length vs))"
| "json_length (JObj es) = Suc (sum_list (map (\<lambda>(k, v). json_length v) es))"
| "json_length _ = 1"

lemma json_length_pos [simp]: "0 < json_length v" "json_length v \<noteq> 0"
  by (cases v; simp)+

definition parse_law :: "input_env \<Rightarrow> bool" where
  "parse_law env \<longleftrightarrow> (\<forall>s v. ie_parseJSON env s = Some v \<longrightarrow> json_length v \<le> length s)"

lemma parsed_length: "parse_law env \<Longrightarrow> json_length (parsed_text env v) \<le> json_length v"
  by (cases v) (auto simp: parsed_text_def parse_law_def le_SucI split: option.split)

lemma index_no_operator: "\<not> startsWith (nat_to_radix 10 i) ''_''"
proof
  assume "startsWith (nat_to_radix 10 i) ''_''"
  then obtain t where "nat_to_radix 10 i = CHR ''_'' # t" by (auto simp: startsWith_append)
  moreover have "digits_of 10 (nat_to_radix 10 i)" by (rule digits_of_radix) simp_all
  ultimately show False by (simp add: digit_value_def)
qed

lemma text_entry:
  "(k, w) \<in> set (own_entries (JStr s)) \<Longrightarrow> \<not> startsWith k ''_'' \<and> \<not> isPlainObject w \<and> \<not> isArray w"
  by (auto simp: own_entries_def index_no_operator)

lemma entry_length:
  assumes "(k, w) \<in> set (own_entries v)" "\<not> (\<exists>s. v = JStr s)"
  shows "json_length w < json_length v"
proof (cases v)
  case (JObj es)
  have "(k, w) \<in> set es \<Longrightarrow> json_length w \<le> sum_list (map (\<lambda>(k, v). json_length v) es)"
    by (induction es) auto
  then show ?thesis using assms(1) by (simp add: JObj own_entries_def)
next
  case (JArr vs)
  have "w \<in> set vs \<Longrightarrow> json_length w \<le> sum_list (map json_length vs)" by (induction vs) auto
  then show ?thesis using assms(1) by (auto simp: JArr own_entries_def in_set_enumerate_eq)
qed (use assms in \<open>auto simp: own_entries_def\<close>)

lemma entry_fuel:
  assumes "(k, w) \<in> set (own_entries v)" "startsWith k ''_'' \<or> isPlainObject w"
  shows "json_length w < json_length v"
  using assms entry_length[of k w v] text_entry[of k w] by blast

lemma returns_option_at:
  "returns (san (js_get raw name)) \<Longrightarrow> returns (set_option_if raw name target san query)"
  by (auto simp: set_option_if_def intro!: returns_and_then)

lemma entries_return:
  assumes "\<And>k v. (k, v) \<in> set es \<Longrightarrow> startsWith k ''_'' \<Longrightarrow> returns (sanitizeQuery n env False [(tl k, v)])"
    and "\<And>k v path result. (k, v) \<in> set es \<Longrightarrow> isPlainObject v \<Longrightarrow> returns (sanitizeDeep n env v path result)"
  shows "returns (deep_entries n env es path result parsedLevel)"
  using assms
proof (induction es arbitrary: result parsedLevel)
  case Nil
  show ?case by (simp add: deep_entries.simps)
next
  case (Cons e es)
  obtain k v where e: "e = (k, v)" by (cases e)
  have rest: "returns (deep_entries n env es path result' parsedLevel')" for result' parsedLevel'
  proof (rule Cons.IH)
    show "\<And>k v. (k, v) \<in> set es \<Longrightarrow> startsWith k ''_'' \<Longrightarrow> returns (sanitizeQuery n env False [(tl k, v)])"
      by (rule Cons.prems(1)) simp_all
    show "(k, v) \<in> set es \<Longrightarrow> isPlainObject v \<Longrightarrow> returns (sanitizeDeep n env v path result)" for k v path result
      using Cons.prems(2)[of k v path result] by simp
  qed
  have sub: "startsWith k ''_'' \<Longrightarrow> returns (sanitizeQuery n env False [(tl k, v)])"
    and deep: "isPlainObject v \<Longrightarrow> returns (sanitizeDeep n env v (path @ [k]) result)"
    using Cons.prems[of k v] e by simp_all
  have "returns (deep_entries n env ((k, v) # es) path result parsedLevel)"
    unfolding deep_entries.simps[of n env "(k, v) # es"] list.case prod.case
    using rest sub deep by (auto simp del: startsWith.simps intro!: returns_and_then)
  then show ?case by (simp add: e)
qed

lemma sanitize_fuel:
  assumes law: "parse_law env"
  shows "(\<forall>applyDefault raw. 2 * json_length (js_get raw ''deep'') + 1 \<le> fuel \<longrightarrow> returns (sanitizeQuery fuel env applyDefault raw)) \<and>
    (\<forall>level path result. 2 * json_length level \<le> fuel \<longrightarrow> returns (sanitizeDeep fuel env level path result))"
proof (induction fuel)
  case 0
  show ?case by simp
next
  case (Suc n)
  have query: "returns (sanitizeQuery n env applyDefault raw)" if "2 * json_length (js_get raw ''deep'') + 1 \<le> n" for applyDefault raw
    using Suc that by blast
  have deep: "returns (sanitizeDeep n env level path result)" if "2 * json_length level \<le> n" for level path result
    using Suc that by blast
  have "returns (sanitizeQuery (Suc n) env applyDefault raw)" if "2 * json_length (js_get raw ''deep'') + 1 \<le> Suc n" for applyDefault raw
  proof -
    have "2 * json_length (parsed_text env (js_get raw ''deep'')) \<le> n"
      using parsed_length[OF law, of "js_get raw ''deep''"] that by linarith
    then have "returns (sanitizeDeep n env (parsed_text env (js_get raw ''deep'')) [] [])" by (rule deep)
    then show ?thesis unfolding sanitizeQuery.simps[of "Suc n"] nat.case
      by (intro returns_and_then returns_plain_options returns_option_at returns_simps(1))
  qed
  moreover have "returns (sanitizeDeep (Suc n) env level path result)" if len: "2 * json_length level \<le> Suc n" for level path result
  proof -
    have below: "2 * json_length v + 1 \<le> n" if "(k, v) \<in> set (own_entries level)" "startsWith k ''_'' \<or> isPlainObject v" for k v
      using entry_fuel[OF that] len by linarith
    have "json_length (js_get [(k, v)] ''deep'') \<le> json_length v" for k v by (cases v) simp_all
    then have "returns (sanitizeQuery n env False [(tl k, v)])" if "(k, v) \<in> set (own_entries level)" "startsWith k ''_''" for k v
      using below[of k v] that query[of "[(tl k, v)]" False] by (meson add_le_mono1 le_trans mult_le_mono2)
    moreover have "returns (sanitizeDeep n env v path' result')" if "(k, v) \<in> set (own_entries level)" "isPlainObject v" for k v path' result'
      using below[of k v] that by (intro deep) simp
    ultimately have "returns (deep_entries n env (own_entries level) path result [])" by (rule entries_return)
    then show ?thesis unfolding sanitizeDeep.simps[of "Suc n"] nat.case
      by (auto intro!: returns_and_then)
  qed
  ultimately show ?case by blast
qed

end
