(* ===== verification/Query_Check.thy ===== *)
theory Query_Check
  imports Query_Input
begin

text \<open>
  The check of a sanitized query: \<open>api/src/utils/validate-query.ts\<close> and \<open>calculate-field-depth.ts\<close>, and the limit that
  \<open>api/src/database/run-ast.ts\<close> then runs it with. Joi's schemas, \<open>stringify\<close> of \<open>wellknown\<close>, and the comparison of a
  number that is not whole with the largest safe integer are parameters. A message is kept as the kind of its error.
\<close>

section \<open>The environment\<close>

record check_env =
  ce_limits :: query_limit_config
  ce_schema :: "json_object \<Rightarrow> bool"
  ce_limit_schema :: "int option \<Rightarrow> json \<Rightarrow> bool"
  ce_stringify :: "json \<Rightarrow> bool"
  ce_beyond_safe :: "string \<Rightarrow> bool"
  ce_depth_setting :: "int option"

definition getConfiguredLimitSchema :: "check_env \<Rightarrow> json \<Rightarrow> bool" where
  "getConfiguredLimitSchema env =
     ce_limit_schema env (if hasFiniteMax (ce_limits env) then Some (ql_max (ce_limits env)) else None)"

definition reject_unless :: "bool \<Rightarrow> request_error + unit" where
  "reject_unless ok = (if ok then Inr () else Inl Invalid_Query)"

lemma reject_unless_iff [simp]: "reject_unless ok = Inr () \<longleftrightarrow> ok"
  by (simp add: reject_unless_def)

section \<open>Values of operators\<close>

definition validateFilterPrimitive :: "check_env \<Rightarrow> json \<Rightarrow> request_error + unit" where
  "validateFilterPrimitive env v =
     reject_unless
       (case v of
          JNull \<Rightarrow> True
        | JStr s \<Rightarrow> s \<noteq> []
        | JInt n \<Rightarrow> n \<le> MAX_SAFE_INTEGER
        | JFloat s \<Rightarrow> s \<noteq> ''NaN'' \<and> \<not> ce_beyond_safe env s
        | JBool _ \<Rightarrow> True
        | JDate _ \<Rightarrow> True
        | _ \<Rightarrow> False)"

definition validateList :: "json \<Rightarrow> request_error + unit" where
  "validateList v = reject_unless (case v of JArr vs \<Rightarrow> vs \<noteq> [] | _ \<Rightarrow> False)"

definition validateBoolean :: "json \<Rightarrow> request_error + unit" where
  "validateBoolean v = reject_unless (case v of JNull \<Rightarrow> True | JStr s \<Rightarrow> s = [] | JBool _ \<Rightarrow> True | _ \<Rightarrow> False)"

definition validateGeometry :: "check_env \<Rightarrow> json \<Rightarrow> request_error + unit" where
  "validateGeometry env v = reject_unless (v = JNull \<or> ce_stringify env v)"

datatype operand = List_Operand | Flag_Operand | Geometry_Operand | Filter_Operand | Primitive_Operand

text \<open>The cases of the \<open>switch\<close>: what each operator takes.\<close>

definition operand_of :: "string \<Rightarrow> operand" where
  "operand_of key =
     (if key \<in> {''_in'', ''_nin'', ''_between'', ''_nbetween''} then List_Operand
      else if key \<in> {''_null'', ''_nnull'', ''_empty'', ''_nempty''} then Flag_Operand
      else if key \<in> {''_intersects'', ''_nintersects'', ''_intersects_bbox'', ''_nintersects_bbox''} then Geometry_Operand
      else if key \<in> {''_none'', ''_some''} then Filter_Operand
      else Primitive_Operand)"

section \<open>Filters\<close>

lemma entry_size:
  assumes "(k, w) \<in> set (own_entries v)" "startsWith k ''_'' \<or> isPlainObject w \<or> isArray w"
  shows "size w < size v"
proof (cases "isObjectLike v")
  case False
  then have "\<exists>s. v = JStr s" using assms(1) by (cases v) (simp_all add: own_entries_def)
  then show ?thesis using text_entry[of k w] assms by auto
qed (use assms(1) size_own_entry in simp)

definition entry_weight :: "string \<Rightarrow> json \<Rightarrow> nat" where
  "entry_weight k w = (if startsWith k ''_'' \<or> isPlainObject w \<or> isArray w then 2 * size w + 2 else 0)"

lemma entry_weight_less: "(k, w) \<in> set (own_entries v) \<Longrightarrow> entry_weight k w < 2 * size v + 1"
  using entry_size[of k w v] by (auto simp: entry_weight_def)

function validateFilter :: "check_env \<Rightarrow> json \<Rightarrow> request_error + unit"
  and validateFilterEntry :: "check_env \<Rightarrow> string \<Rightarrow> json \<Rightarrow> request_error + unit" where
  "validateFilter env f =
     (if \<not> truthy f then Inl Invalid_Query
      else for_each (\<lambda>(key, nested). validateFilterEntry env key nested) (own_entries f))"
| "validateFilterEntry env key nested =
     (if is_logical key then (case nested of JArr fs \<Rightarrow> for_each (validateFilter env) fs | _ \<Rightarrow> Inl Type_Error)
      else if startsWith key ''_'' then
        (case operand_of key of
           List_Operand \<Rightarrow> validateList nested
         | Flag_Operand \<Rightarrow> validateBoolean nested
         | Geometry_Operand \<Rightarrow> validateGeometry env nested
         | Filter_Operand \<Rightarrow> validateFilter env nested
         | Primitive_Operand \<Rightarrow> validateFilterPrimitive env nested)
      else if isPlainObject nested \<or> isArray nested then validateFilter env nested
      else validateFilterPrimitive env nested)"
  by pat_completeness auto

termination
proof (relation "measure (case_sum (\<lambda>(_, v). 2 * size v + 1) (\<lambda>(_, k, w). entry_weight k w))", goal_cases)
  case (2 env f entry key nested)
  then show ?case using entry_weight_less[of key nested f] by auto
next
  case (3 env key nested fs f)
  then show ?case using size_member[of f fs] by (auto simp: entry_weight_def)
qed (auto simp: entry_weight_def)

declare validateFilter.simps [simp del] validateFilterEntry.simps [simp del]

section \<open>Aliases and the limits of deep queries\<close>

definition validateAlias :: "json \<Rightarrow> request_error + unit" where
  "validateAlias alias =
     (if \<not> isPlainObject alias then Inl Invalid_Query
      else for_each (\<lambda>(key, v).
             (case v of JStr s \<Rightarrow> reject_unless (CHR ''.'' \<notin> set key \<and> CHR ''.'' \<notin> set s) | _ \<Rightarrow> Inl Invalid_Query))
             (own_entries alias))"

function validateDeepLimits :: "(json \<Rightarrow> bool) \<Rightarrow> json \<Rightarrow> request_error + unit" where
  "validateDeepLimits limitSchema deep =
     for_each (\<lambda>(key, v).
         if key = ''_limit'' then reject_unless (limitSchema v)
         else if \<not> startsWith key ''_'' \<and> isPlainObject v then validateDeepLimits limitSchema v
         else Inr ())
       (own_entries deep)"
  by pat_completeness auto

termination
proof (relation "measure (\<lambda>(_, v). size v)", goal_cases)
  case (2 limitSchema deep entry key v)
  then show ?case using entry_size[of key v deep] by auto
qed simp

declare validateDeepLimits.simps [simp del]

definition validateDeepQueryLimits :: "check_env \<Rightarrow> json \<Rightarrow> request_error + unit" where
  "validateDeepQueryLimits env deep = validateDeepLimits (getConfiguredLimitSchema env) deep"

section \<open>Depths\<close>

text \<open>A \<open>for ... of\<close> over a value, which only lists and texts allow.\<close>

definition iterated :: "json \<Rightarrow> request_error + json list" where
  "iterated v = (case v of JArr vs \<Rightarrow> Inr vs | JStr s \<Rightarrow> Inr (map (\<lambda>c. JStr [c]) s) | _ \<Rightarrow> Inl Type_Error)"

definition dotted_depth :: "json \<Rightarrow> request_error + nat" where
  "dotted_depth v = (case v of JStr s \<Rightarrow> Inr (length (js_split CHR ''.'' s)) | _ \<Rightarrow> Inl Type_Error)"

definition deepest :: "nat list \<Rightarrow> nat" where
  "deepest ds = foldr max ds 0"

lemma deepest_ge: "d \<in> set ds \<Longrightarrow> d \<le> deepest ds"
  by (induction ds) (auto simp: deepest_def)

lemma deepest_mem: "deepest ds = 0 \<or> deepest ds \<in> set ds"
  by (induction ds) (auto simp: deepest_def max_def)

definition sort_key_depths :: "json \<Rightarrow> request_error + nat" where
  "sort_key_depths v =
     and_then (iterated v) (\<lambda>keys.
       and_then (map_or_throw dotted_depth (filter truthy keys)) (\<lambda>ds. Inr (deepest ds)))"

text \<open>
  \<open>key_depth\<close> is what one key adds to the depth of its object. An empty list adds nothing: the largest of no depths is
  \<open>-Infinity\<close>.
\<close>

function calculateFieldDepth :: "string list \<Rightarrow> json \<Rightarrow> request_error + nat"
  and key_depth :: "string list \<Rightarrow> string \<Rightarrow> json \<Rightarrow> request_error + nat" where
  "calculateFieldDepth dotNotationKeys obj =
     (if \<not> truthy obj then Inr 0
      else and_then (map_or_throw (\<lambda>(key, v). key_depth dotNotationKeys key v) (own_entries obj)) (\<lambda>ds. Inr (deepest ds)))"
| "key_depth dotNotationKeys key v =
     (if key \<in> set dotNotationKeys \<and> truthy v then sort_key_depths v
      else
        (let own = (if startsWith key ''_'' then 0 else 1) in
         case v of
           JArr vs \<Rightarrow>
             and_then (map_or_throw (calculateFieldDepth dotNotationKeys) vs) (\<lambda>ds.
               Inr (if vs = [] then 0 else deepest ds + own))
         | JObj es \<Rightarrow> and_then (calculateFieldDepth dotNotationKeys (JObj es)) (\<lambda>d. Inr (d + own))
         | _ \<Rightarrow> Inr 0))"
  by pat_completeness auto

termination
proof (relation "measure (case_sum (\<lambda>(_, v). 2 * size v + 1) (\<lambda>(_, k, w). if isPlainObject w \<or> isArray w then 2 * size w + 2 else 0))",
    goal_cases)
  case (2 dots obj entry key v)
  then show ?case using entry_size[of key v obj] by auto
next
  case (3 dots key v own vs x)
  then show ?case using size_member[of x vs] by simp
qed auto

declare calculateFieldDepth.simps [simp del] key_depth.simps [simp del]

text \<open>\<open>Number(env['MAX_RELATIONAL_DEPTH'])\<close>, where it is a whole number.\<close>

definition maxRelationalDepth :: "check_env \<Rightarrow> int" where
  "maxRelationalDepth env = (case ce_depth_setting env of Some n \<Rightarrow> if n > 2 then n else 2 | None \<Rightarrow> 2)"

definition selected_fields :: "json_object \<Rightarrow> json list" where
  "selected_fields query =
     (let fs = (if truthy (js_get query ''fields'') then array_items (js_get query ''fields'') else [JStr ''*'']);
          fs' = (if truthy (js_get query ''aggregate'') \<and> own_entries (js_get query ''aggregate'') \<noteq> [] then [] else fs)
      in js_uniq (if truthy (js_get query ''group'') then array_items (js_get query ''group'') else fs'))"

definition within :: "check_env \<Rightarrow> request_error + nat \<Rightarrow> request_error + unit" where
  "within env depth = and_then depth (\<lambda>d. reject_unless (int d \<le> maxRelationalDepth env))"

lemma within_iff: "within env depth = Inr () \<longleftrightarrow> (\<exists>d. depth = Inr d \<and> int d \<le> maxRelationalDepth env)"
  by (auto simp: within_def and_then_Inr_iff)

definition validateRelationalDepth :: "check_env \<Rightarrow> json_object \<Rightarrow> request_error + unit" where
  "validateRelationalDepth env query =
     and_then (for_each (\<lambda>field. within env (dotted_depth field)) (selected_fields query)) (\<lambda>_.
     and_then (if truthy (js_get query ''filter'') then within env (calculateFieldDepth [] (js_get query ''filter'')) else Inr ()) (\<lambda>_.
     and_then (if truthy (js_get query ''sort'')
               then and_then (iterated (js_get query ''sort'')) (for_each (\<lambda>field. within env (dotted_depth field)))
               else Inr ()) (\<lambda>_.
     if truthy (js_get query ''deep'') then within env (calculateFieldDepth [''_sort''] (js_get query ''deep'')) else Inr ())))"

section \<open>The check and the limit of the run\<close>

definition validateQuery :: "check_env \<Rightarrow> json_object \<Rightarrow> request_error + json_object" where
  "validateQuery env query =
     and_then (reject_unless (js_get query ''limit'' = JUndefined \<or> getConfiguredLimitSchema env (js_get query ''limit''))) (\<lambda>_.
     and_then (if truthy (js_get query ''filter'') \<and> own_entries (js_get query ''filter'') \<noteq> []
               then validateFilter env (js_get query ''filter'') else Inr ()) (\<lambda>_.
     and_then (if truthy (js_get query ''alias'') then validateAlias (js_get query ''alias'') else Inr ()) (\<lambda>_.
     and_then (if truthy (js_get query ''deep'') then validateDeepQueryLimits env (js_get query ''deep'') else Inr ()) (\<lambda>_.
     and_then (validateRelationalDepth env query) (\<lambda>_.
     if ce_schema env query then Inr query else Inl Invalid_Query)))))"

definition run_limit :: "query_limit_config \<Rightarrow> json_object \<Rightarrow> json" where
  "run_limit limits query =
     (if is_number (js_get query ''limit'') then js_get query ''limit'' else JInt (ql_effectiveDefault limits))"

section \<open>Typed filters\<close>

text \<open>
  The occurrences of keys in a filter: its own entries, and those of the filters that stand in the lists of logical
  operators, below \<open>_some\<close> and \<open>_none\<close>, and below fields. \<open>entry_typed\<close> is the type of one occurrence.
\<close>

inductive occurs :: "json \<Rightarrow> string \<Rightarrow> json \<Rightarrow> bool" where
  here: "(k, w) \<in> set (own_entries f) \<Longrightarrow> occurs f k w"
| listed: "(k', JArr fs) \<in> set (own_entries f) \<Longrightarrow> is_logical k' \<Longrightarrow> g \<in> set fs \<Longrightarrow> occurs g k w \<Longrightarrow> occurs f k w"
| below: "(k', g) \<in> set (own_entries f) \<Longrightarrow> is_bypass k' \<or> \<not> startsWith k' ''_'' \<and> (isPlainObject g \<or> isArray g) \<Longrightarrow>
    occurs g k w \<Longrightarrow> occurs f k w"

fun operand_typed :: "check_env \<Rightarrow> operand \<Rightarrow> json \<Rightarrow> bool" where
  "operand_typed env List_Operand v \<longleftrightarrow> isArray v \<and> array_items v \<noteq> []"
| "operand_typed env Flag_Operand v \<longleftrightarrow> v \<in> {JNull, JStr [], JBool True, JBool False}"
| "operand_typed env Geometry_Operand v \<longleftrightarrow> v = JNull \<or> ce_stringify env v"
| "operand_typed env Filter_Operand v \<longleftrightarrow> truthy v"
| "operand_typed env Primitive_Operand v \<longleftrightarrow>
     \<not> isPlainObject v \<and> \<not> isArray v \<and> v \<noteq> JUndefined \<and> v \<noteq> JStr [] \<and> v \<noteq> JFloat ''NaN'' \<and>
     (case v of JInt n \<Rightarrow> n \<le> MAX_SAFE_INTEGER | JFloat s \<Rightarrow> \<not> ce_beyond_safe env s | _ \<Rightarrow> True)"

definition entry_typed :: "check_env \<Rightarrow> string \<Rightarrow> json \<Rightarrow> bool" where
  "entry_typed env k v \<longleftrightarrow>
     (if is_logical k then isArray v \<and> (\<forall>f\<in>set (array_items v). truthy f)
      else if startsWith k ''_'' then operand_typed env (operand_of k) v
      else isPlainObject v \<or> isArray v \<or> operand_typed env Primitive_Operand v)"

lemma operand_checks:
  "validateList v = Inr () \<longleftrightarrow> operand_typed env List_Operand v"
  "validateBoolean v = Inr () \<longleftrightarrow> operand_typed env Flag_Operand v"
  "validateGeometry env v = Inr () \<longleftrightarrow> operand_typed env Geometry_Operand v"
  "validateFilterPrimitive env v = Inr () \<longleftrightarrow> operand_typed env Primitive_Operand v"
  by (auto simp: validateList_def validateBoolean_def validateGeometry_def validateFilterPrimitive_def array_items_def
      split: json.split)

lemma bypass_operand: "is_bypass k \<longleftrightarrow> operand_of k = Filter_Operand"
  by (auto simp: bypassOperators_def operand_of_def)

text \<open>Where checking goes on below an entry.\<close>

definition below_entry :: "string \<Rightarrow> json \<Rightarrow> json list" where
  "below_entry k v =
     (if is_logical k then array_items v
      else if is_bypass k \<or> \<not> startsWith k ''_'' \<and> (isPlainObject v \<or> isArray v) then [v]
      else [])"

lemma occurs_entries:
  "occurs f k w \<longleftrightarrow>
     (k, w) \<in> set (own_entries f) \<or> (\<exists>(k', v)\<in>set (own_entries f). \<exists>g\<in>set (below_entry k' v). occurs g k w)"
proof
  assume "occurs f k w"
  then show "(k, w) \<in> set (own_entries f) \<or> (\<exists>(k', v)\<in>set (own_entries f). \<exists>g\<in>set (below_entry k' v). occurs g k w)"
  proof cases
    case (listed k' fs g)
    then show ?thesis by (force simp: below_entry_def array_items_def)
  next
    case (below k' g)
    moreover have "\<not> is_logical k'" using below(2) by (auto simp: logicalFilterOperators_def bypassOperators_def)
    ultimately show ?thesis by (force simp: below_entry_def)
  qed simp
qed (auto simp: below_entry_def array_items_def intro: occurs.intros split: if_splits json.splits)

lemma entry_check:
  "validateFilterEntry env k v = Inr () \<longleftrightarrow>
     entry_typed env k v \<and> (\<forall>g\<in>set (below_entry k v). validateFilter env g = Inr ())"
proof -
  have truthy: "validateFilter env g = Inr () \<Longrightarrow> truthy g" for g
    by (simp add: validateFilter.simps split: if_splits)
  consider "is_logical k" | "\<not> is_logical k" "startsWith k ''_''" | "\<not> is_logical k" "\<not> startsWith k ''_''" by blast
  then show ?thesis
  proof cases
    case 1
    then show ?thesis using truthy
      by (auto simp: validateFilterEntry.simps[of env k v] entry_typed_def below_entry_def for_each_iff array_items_def
          split: json.splits)
  next
    case 2
    then show ?thesis using truthy
      by (cases "operand_of k")
        (auto simp: validateFilterEntry.simps[of env k v] entry_typed_def below_entry_def bypass_operand
          operand_checks[where env = env] simp del: operand_typed.simps(1,2,3,5))
  next
    case 3
    moreover have "\<not> is_bypass k" using 3(2) by (auto simp: bypassOperators_def)
    moreover have "truthy v" if "isPlainObject v \<or> isArray v" using that by (cases v) auto
    ultimately show ?thesis using truthy
      by (auto simp: validateFilterEntry.simps[of env k v] entry_typed_def below_entry_def
          operand_checks[where env = env] simp del: operand_typed.simps)
  qed
qed

lemma filter_check:
  "validateFilter env f = Inr () \<longleftrightarrow> truthy f \<and>
     (\<forall>(k, v)\<in>set (own_entries f). entry_typed env k v \<and> (\<forall>g\<in>set (below_entry k v). validateFilter env g = Inr ()))"
  by (auto simp: validateFilter.simps[of env f] for_each_iff entry_check split: if_splits)

lemma below_entry_truthy: "entry_typed env k v \<Longrightarrow> g \<in> set (below_entry k v) \<Longrightarrow> truthy g"
  using logical_underscore(2)[of k]
  by (cases g) (auto simp: entry_typed_def below_entry_def bypass_operand split: if_splits)

lemma below_entry_size:
  assumes "(k, v) \<in> set (own_entries f)" "g \<in> set (below_entry k v)"
  shows "size g < size f"
proof -
  have "startsWith k ''_'' \<or> isPlainObject v \<or> isArray v"
    using assms(2) by (auto simp: below_entry_def logicalFilterOperators_def bypassOperators_def split: if_splits)
  then have "size v < size f" by (rule entry_size[OF assms(1)])
  moreover have "size g \<le> size v"
  proof (cases v)
    case (JArr fs)
    then show ?thesis
      using assms(2) size_member[of g fs] by (auto simp: below_entry_def array_items_def split: if_splits)
  qed (use assms(2) in \<open>auto simp: below_entry_def array_items_def split: if_splits\<close>)
  ultimately show ?thesis by simp
qed

lemma filter_check_typed:
  "truthy f \<Longrightarrow> validateFilter env f = Inr () \<longleftrightarrow> (\<forall>k v. occurs f k v \<longrightarrow> entry_typed env k v)"
proof (induction f rule: measure_induct_rule[of size])
  case (less f)
  have IH: "validateFilter env g = Inr () \<longleftrightarrow> (\<forall>k' v'. occurs g k' v' \<longrightarrow> entry_typed env k' v')"
    if "(k, v) \<in> set (own_entries f)" "entry_typed env k v" "g \<in> set (below_entry k v)" for k v g
    using less.IH[OF below_entry_size[OF that(1,3)] below_entry_truthy[OF that(2,3)]] .
  show ?case
  proof
    assume "validateFilter env f = Inr ()"
    then show "\<forall>k v. occurs f k v \<longrightarrow> entry_typed env k v"
      unfolding filter_check[of env f] occurs_entries[of f] using IH by blast
  next
    assume typed: "\<forall>k v. occurs f k v \<longrightarrow> entry_typed env k v"
    have own: "entry_typed env k v" if "(k, v) \<in> set (own_entries f)" for k v
      using typed that occurs.here by blast
    moreover have "validateFilter env g = Inr ()"
      if "(k, v) \<in> set (own_entries f)" "g \<in> set (below_entry k v)" for k v g
    proof -
      have "\<forall>k' v'. occurs g k' v' \<longrightarrow> entry_typed env k' v'"
        using typed that unfolding occurs_entries[of f] by blast
      then show ?thesis using IH[OF that(1) own[OF that(1)] that(2)] by simp
    qed
    ultimately show "validateFilter env f = Inr ()" unfolding filter_check[of env f] using less.prems by blast
  qed
qed

section \<open>Nesting\<close>

text \<open>
  \<open>nests dots v n\<close>: some way down into \<open>v\<close> passes \<open>n\<close> names that are not operators, where a name of \<open>dots\<close> holds a
  list of dotted paths instead.
\<close>

inductive nests :: "string list \<Rightarrow> json \<Rightarrow> nat \<Rightarrow> bool" for dots where
  top: "nests dots v 0"
| into_object: "(k, JObj es) \<in> set (own_entries v) \<Longrightarrow> k \<notin> set dots \<Longrightarrow> nests dots (JObj es) n \<Longrightarrow>
    nests dots v (n + (if startsWith k ''_'' then 0 else 1))"
| into_list: "(k, JArr vs) \<in> set (own_entries v) \<Longrightarrow> k \<notin> set dots \<Longrightarrow> g \<in> set vs \<Longrightarrow> nests dots g n \<Longrightarrow>
    nests dots v (n + (if startsWith k ''_'' then 0 else 1))"
| dotted: "(k, JArr vs) \<in> set (own_entries v) \<Longrightarrow> k \<in> set dots \<Longrightarrow> JStr s \<in> set vs \<Longrightarrow> s \<noteq> [] \<Longrightarrow>
    nests dots v (length (js_split CHR ''.'' s))"

lemma map_or_throw_at: "map_or_throw f xs = Inr ys \<Longrightarrow> x \<in> set xs \<Longrightarrow> \<exists>y\<in>set ys. f x = Inr y"
  by (induction xs arbitrary: ys) (auto simp: and_then_Inr_iff)

lemma depth_of_key:
  assumes "calculateFieldDepth dots v = Inr d" "(k, w) \<in> set (own_entries v)" "truthy v"
  obtains d' where "key_depth dots k w = Inr d'" "d' \<le> d"
proof -
  from assms(1,3) obtain ds where ds: "map_or_throw (\<lambda>(key, v). key_depth dots key v) (own_entries v) = Inr ds"
    and d: "d = deepest ds"
    by (auto simp: calculateFieldDepth.simps[of dots v] and_then_Inr_iff)
  from map_or_throw_at[OF ds assms(2)] obtain d' where "d' \<in> set ds" "key_depth dots k w = Inr d'" by auto
  then show ?thesis using that deepest_ge d by blast
qed

lemma depth_bounds_nesting: "nests dots v n \<Longrightarrow> calculateFieldDepth dots v = Inr d \<Longrightarrow> n \<le> d"
proof (induction arbitrary: d rule: nests.induct)
  case (into_object k es v n)
  have "truthy v" using into_object(1) by (cases v) (auto simp: own_entries_def)
  then obtain d' where d': "key_depth dots k (JObj es) = Inr d'" "d' \<le> d"
    using depth_of_key into_object by blast
  then obtain e where "calculateFieldDepth dots (JObj es) = Inr e" "d' = e + (if startsWith k ''_'' then 0 else 1)"
    using into_object(2) by (auto simp: key_depth.simps[of dots k] and_then_Inr_iff Let_def)
  then show ?case using into_object.IH d'(2) by fastforce
next
  case (into_list k vs v g n)
  have "truthy v" using into_list(1) by (cases v) (auto simp: own_entries_def)
  then obtain d' where d': "key_depth dots k (JArr vs) = Inr d'" "d' \<le> d"
    using depth_of_key into_list by blast
  then obtain ds where ds: "map_or_throw (calculateFieldDepth dots) vs = Inr ds"
    "d' = deepest ds + (if startsWith k ''_'' then 0 else 1)"
    using into_list(2,3) by (auto simp: key_depth.simps[of dots k] and_then_Inr_iff Let_def split: if_splits)
  then obtain e where "calculateFieldDepth dots g = Inr e" "e \<in> set ds" using map_or_throw_at into_list(3) by meson
  then have "n \<le> deepest ds" using into_list.IH deepest_ge le_trans by blast
  then show ?case using ds(2) d'(2) by simp
next
  case (dotted k vs v s)
  have "truthy v" using dotted(1) by (cases v) (auto simp: own_entries_def)
  then obtain d' where d': "key_depth dots k (JArr vs) = Inr d'" "d' \<le> d"
    using depth_of_key dotted by blast
  then obtain ds where ds: "map_or_throw dotted_depth (filter truthy vs) = Inr ds" "d' = deepest ds"
    using dotted(2) by (auto simp: key_depth.simps[of dots k] sort_key_depths_def iterated_def and_then_Inr_iff)
  have "JStr s \<in> set (filter truthy vs)" using dotted by simp
  from map_or_throw_at[OF ds(1) this] have "length (js_split CHR ''.'' s) \<in> set ds" by (auto simp: dotted_depth_def)
  then show ?case using ds(2) d'(2) deepest_ge le_trans by blast
qed simp

section \<open>Limits\<close>

text \<open>The levels of a deep query that a query is nested at.\<close>

inductive deep_level :: "json \<Rightarrow> json \<Rightarrow> bool" for deep where
  outermost: "deep_level deep deep"
| nested: "deep_level deep level \<Longrightarrow> (k, v) \<in> set (own_entries level) \<Longrightarrow> \<not> startsWith k ''_'' \<Longrightarrow> isPlainObject v \<Longrightarrow>
    deep_level deep v"

lemma deep_limits_checked:
  assumes "deep_level deep level" "validateDeepLimits schema deep = Inr ()"
  shows "validateDeepLimits schema level = Inr ()"
  using assms
proof induction
  case (nested level k v)
  from nested.IH[OF nested.prems] have "(if k = ''_limit'' then reject_unless (schema v)
      else if \<not> startsWith k ''_'' \<and> isPlainObject v then validateDeepLimits schema v else Inr ()) = Inr ()"
    using nested.hyps(2) unfolding validateDeepLimits.simps[of schema level] for_each_iff by fast
  moreover have "k \<noteq> ''_limit''" using nested.hyps(3) by auto
  ultimately show ?case using nested.hyps(3,4) by simp
qed

lemma deep_limit_checked:
  assumes "deep_level deep level" "validateDeepLimits schema deep = Inr ()" "(''_limit'', v) \<in> set (own_entries level)"
  shows "schema v"
  using deep_limits_checked[OF assms(1,2)] assms(3) by (force simp: validateDeepLimits.simps[of schema level] for_each_iff)

lemma set_option_keeps: "set_option_if raw name target san q = Inr q' \<Longrightarrow> target \<noteq> f \<Longrightarrow> js_get q' f = js_get q f"
  by (auto simp: set_option_if_def and_then_Inr_iff split: if_splits)

lemma plain_options_limit:
  assumes "plain_options env applyDefault raw = Inr q"
  shows "js_get q ''limit'' = js_get (sanitized_limit env applyDefault raw) ''limit''"
proof -
  have others: "js_get (set_offset env raw q) ''limit'' = js_get q ''limit''"
    "js_get (set_search raw q) ''limit'' = js_get q ''limit''" for q
    by (auto simp: set_offset_def set_search_def split: json.split)
  from assms show ?thesis unfolding plain_options_def
    by (elim and_then_InrE) (simp add: others set_option_keeps)
qed

lemma sanitized_limit_kept:
  assumes "sanitizeQuery fuel env applyDefault raw = Inr q"
  shows "js_get q ''limit'' = js_get (sanitized_limit env applyDefault raw) ''limit''"
proof (cases fuel)
  case 0
  then show ?thesis using assms by (simp add: sanitizeQuery.simps)
next
  case (Suc n)
  have "sanitizeQuery (Suc n) env applyDefault raw = Inr q" using assms Suc by simp
  then show ?thesis unfolding sanitizeQuery.simps[of "Suc n"] nat.case
    by (elim and_then_InrE) (simp add: plain_options_limit set_option_keeps)
qed

text \<open>A finite maximum leaves no limit of \<open>-1\<close>.\<close>

lemma sanitized_limit_not_unlimited:
  assumes "sanitizeQuery fuel env applyDefault raw = Inr q" "hasFiniteMax (ie_limits env)" "limits_ok (ie_limits env)"
  shows "js_get q ''limit'' \<noteq> JInt (-1)"
  using sanitized_limit_kept[OF assms(1)] assms(2,3)
  by (auto simp: sanitized_limit_def Let_def limits_ok_def hasFiniteMax_def QUERY_LIMIT_UNLIMITED_def)

section \<open>Properties\<close>

text \<open>
  The laws of Joi's \<open>number().integer().min(-1)\<close>, with \<open>.max(m)\<close> where there is a maximum, that the code relies on: of
  the numbers, only whole numbers of the range pass.
\<close>

definition limit_schema_laws :: "check_env \<Rightarrow> bool" where
  "limit_schema_laws env \<longleftrightarrow>
     (\<forall>max_limit n. ce_limit_schema env max_limit (JInt n) \<longrightarrow> -1 \<le> n \<and> (\<forall>m. max_limit = Some m \<longrightarrow> n \<le> m)) \<and>
     (\<forall>max_limit s. \<not> ce_limit_schema env max_limit (JFloat s))"

lemma accepted_parts:
  assumes "validateQuery env query = Inr query'"
  shows "query' = query"
    and "js_get query ''limit'' = JUndefined \<or> getConfiguredLimitSchema env (js_get query ''limit'')"
    and "truthy (js_get query ''filter'') \<Longrightarrow> own_entries (js_get query ''filter'') \<noteq> [] \<Longrightarrow>
      validateFilter env (js_get query ''filter'') = Inr ()"
    and "truthy (js_get query ''deep'') \<Longrightarrow> validateDeepLimits (getConfiguredLimitSchema env) (js_get query ''deep'') = Inr ()"
    and "validateRelationalDepth env query = Inr ()"
  using assms unfolding validateQuery_def validateDeepQueryLimits_def
  by (elim and_then_InrE; simp split: if_splits)+

lemma accepted_depths:
  assumes "validateRelationalDepth env query = Inr ()"
  shows "truthy (js_get query ''filter'') \<Longrightarrow> nests [] (js_get query ''filter'') n \<Longrightarrow> int n \<le> maxRelationalDepth env"
    and "truthy (js_get query ''deep'') \<Longrightarrow> nests [''_sort''] (js_get query ''deep'') n \<Longrightarrow> int n \<le> maxRelationalDepth env"
  using assms depth_bounds_nesting unfolding validateRelationalDepth_def
  by (elim and_then_InrE; fastforce simp: within_iff)+

lemma no_occurrence: "own_entries f = [] \<Longrightarrow> \<not> occurs f k w"
  by (auto simp: occurs_entries[of f])


definition sample_check_env :: check_env where
  "sample_check_env =
     \<lparr>ce_limits = \<lparr>ql_default = 100, ql_max = 500, ql_effectiveDefault = 100\<rparr>,
      ce_schema = (\<lambda>_. True),
      ce_limit_schema = (\<lambda>max_limit v. case v of
          JInt n \<Rightarrow> -1 \<le> n \<and> (case max_limit of None \<Rightarrow> True | Some m \<Rightarrow> n \<le> m) | _ \<Rightarrow> False),
      ce_stringify = isPlainObject, ce_beyond_safe = (\<lambda>_. False), ce_depth_setting = Some 10\<rparr>"



definition sample_input_env :: input_env where
  "sample_input_env =
     \<lparr>ie_limits = \<lparr>ql_default = 100, ql_max = 500, ql_effectiveDefault = 100\<rparr>, ie_filters = plain_env,
      ie_parseJSON = (\<lambda>_. None), ie_number = (\<lambda>_. JFloat ''NaN''), ie_merge = (\<lambda>_ v. v)\<rparr>"


text \<open>C39: sanitizing a query returns, with a query or with an error of the code, however deep the deep query is nested and however
  often its levels are texts that have to be parsed.\<close>

theorem sanitizeQuery_returns:
  assumes "parse_law env" "2 * json_length (js_get raw ''deep'') + 1 \<le> fuel"
  shows "sanitizeQuery fuel env applyDefault raw \<noteq> Inl Out_Of_Fuel"
  using sanitize_fuel[OF assms(1), of fuel] assms(2) unfolding returns_def by blast

lemma sanitizeQuery_returns_witness:
  "sanitizeQuery 11 sample_input_env True [(''deep'', JObj [(''a'', JObj [(''_deep'', JStr ''x'')])])] \<noteq> Inl Out_Of_Fuel"
  by (rule sanitizeQuery_returns) (simp_all add: parse_law_def sample_input_env_def)

end
