(* ===== verification/Query_Tree.thy ===== *)
theory Query_Tree
  imports Query_Check Authorization
begin

text \<open>
  The syntax tree of a query, \<open>api/src/utils/get-ast-from-query.ts\<close>. The query object is mutable in the code and is the
  query of the root of the tree: its aliases, which a nested query replaces while its own fields are read, are passed
  along and returned. Fields and aliases are texts, as the check of the query demands, and no name is one that every
  JavaScript object inherits.
\<close>

section \<open>Trees\<close>

datatype tree_node =
    Tree_Field string string
  | Tree_Function string string string
  | Tree_Nested info_type string "tree_node list" query string relation string string
  | Tree_A2O "string list" "(string \<times> tree_node list) list" "(string \<times> query) list" string relation string "(string \<times> string) list"

record tree_env =
  te_schema :: schema_overview
  te_permissions :: "permission list option"
  te_strict :: bool

abbreviation te_relations :: "tree_env \<Rightarrow> relation list" where
  "te_relations env \<equiv> so_relations (te_schema env)"

abbreviation te_collection :: "tree_env \<Rightarrow> string \<Rightarrow> collection_overview option" where
  "te_collection env c \<equiv> map_of (so_collections (te_schema env)) c"

text \<open>What an unresolved part of a path does: it is skipped unless the paths are read strictly.\<close>

definition unresolved :: "tree_env \<Rightarrow> 'a \<Rightarrow> request_error + 'a" where
  "unresolved env v = (if te_strict env then Inl Invalid_Query else Inr v)"

section \<open>Relations\<close>

definition getRelation :: "tree_env \<Rightarrow> string \<Rightarrow> string \<Rightarrow> relation option" where
  "getRelation env collection field = find (relation_of (JStr collection) (JStr field)) (te_relations env)"

definition getRelatedCollection :: "tree_env \<Rightarrow> string \<Rightarrow> string \<Rightarrow> string option" where
  "getRelatedCollection env collection field =
     (case getRelation env collection field of
        None \<Rightarrow> None
      | Some r \<Rightarrow>
          (let related = (if rl_collection r = collection \<and> rl_field r = field then rl_related r else Some (rl_collection r))
           in if set_text related then related else None))"

text \<open>The relation that a field of the collection is the other side of.\<close>

definition relation_from :: "tree_env \<Rightarrow> string \<Rightarrow> string \<Rightarrow> relation option" where
  "relation_from env parentCollection name =
     find (\<lambda>r. rl_related r = Some parentCollection \<and> one_field_value r = JStr name) (te_relations env)"

definition permitted :: "tree_env \<Rightarrow> string \<Rightarrow> bool" where
  "permitted env collection \<longleftrightarrow>
     (case te_permissions env of None \<Rightarrow> True | Some ps \<Rightarrow> (\<exists>p\<in>set ps. pm_collection p = collection))"

section \<open>Aliases and nested queries\<close>

text \<open>\<open>name in query.alias\<close>, which only an object allows.\<close>

definition alias_of :: "json \<Rightarrow> string \<Rightarrow> request_error + string" where
  "alias_of alias name =
     (if \<not> truthy alias then Inr name
      else if \<not> isObjectLike alias then Inl Type_Error
      else (case map_of (own_entries alias) name of
              None \<Rightarrow> Inr name
            | Some (JStr original) \<Rightarrow> Inr original
            | Some _ \<Rightarrow> Inl Type_Error))"

definition getDeepQuery :: "json \<Rightarrow> json_object" where
  "getDeepQuery q =
     (case q of JObj es \<Rightarrow> map (\<lambda>(k, v). (tl k, v)) (filter (\<lambda>(k, v). startsWith k ''_'') es) | _ \<Rightarrow> [])"

definition or_empty :: "json \<Rightarrow> json" where
  "or_empty v = (if truthy v then v else JObj [])"

definition query_of :: "json_object \<Rightarrow> query" where
  "query_of q =
     \<lparr>qy_filter = js_get q ''filter'',
      qy_sort = (case js_get q ''sort'' of JArr vs \<Rightarrow> Some (map property_key vs) | _ \<Rightarrow> None),
      qy_aggregate = js_get q ''aggregate'',
      qy_alias = js_get q ''alias'',
      qy_other = JObj (filter (\<lambda>(k, v). k \<notin> {''filter'', ''sort'', ''aggregate'', ''alias''}) q)\<rparr>"

section \<open>Wildcards\<close>

definition allowed_for_wildcards :: "tree_env \<Rightarrow> string \<Rightarrow> string list \<Rightarrow> string list option" where
  "allowed_for_wildcards env parentCollection fieldsInCollection =
     (case te_permissions env of
        None \<Rightarrow> Some fieldsInCollection
      | Some ps \<Rightarrow>
          (case permission_for ps parentCollection of None \<Rightarrow> Some fieldsInCollection | Some p \<Rightarrow> pm_fields p))"

definition alias_keys :: "json \<Rightarrow> string list" where
  "alias_keys alias = map fst (own_entries alias)"

text \<open>What \<open>*\<close> and \<open>*.rest\<close> are replaced with; \<open>None\<close> for a field that is kept.\<close>

definition all_fields :: "json \<Rightarrow> string list \<Rightarrow> string list \<Rightarrow> string list" where
  "all_fields alias fieldsInCollection allowedFields =
     (if ''*'' \<in> set allowedFields then fieldsInCollection @ alias_keys alias
      else allowedFields @ filter (\<lambda>key. \<exists>name\<in>set allowedFields. map_of (own_entries alias) key = Some (JStr name)) (alias_keys alias))"

definition relational_fields :: "tree_env \<Rightarrow> string \<Rightarrow> string list \<Rightarrow> json list" where
  "relational_fields env parentCollection allowedFields =
     (if ''*'' \<in> set allowedFields
      then map (\<lambda>r. if rl_collection r = parentCollection then JStr (rl_field r) else one_field_value r)
             (filter (\<lambda>r. rl_collection r = parentCollection \<or> rl_related r = Some parentCollection) (te_relations env))
      else map JStr (filter (\<lambda>field. getRelation env parentCollection field \<noteq> None) allowedFields))"

definition nested_wildcard :: "tree_env \<Rightarrow> json \<Rightarrow> string \<Rightarrow> string list \<Rightarrow> string \<Rightarrow> string list" where
  "nested_wildcard env alias parentCollection allowedFields rest =
     (let relational = relational_fields env parentCollection allowedFields in
      map (\<lambda>field. property_key field @ CHR ''.'' # rest) relational @
      filter (\<lambda>field. JStr field \<notin> set relational) allowedFields @
      map (\<lambda>(key, name). if name \<in> set relational then key @ CHR ''.'' # rest else key) (own_entries alias))"

definition expansion :: "tree_env \<Rightarrow> json \<Rightarrow> string \<Rightarrow> string list \<Rightarrow> string list \<Rightarrow> string \<Rightarrow> string list option" where
  "expansion env alias parentCollection fieldsInCollection allowedFields key =
     (let parts = js_split CHR ''.'' key in
      if key = ''*'' then Some (all_fields alias fieldsInCollection allowedFields)
      else if tl parts \<noteq> [] \<and> hd parts = ''*''
      then Some (nested_wildcard env alias parentCollection allowedFields (js_join CHR ''.'' (tl parts)))
      else None)"

text \<open>
  The loop over the indexes of a list that it splices: the first of the inserted fields, or the field that moves to the
  place of a removed one, is passed over. The fuel counts the rounds.
\<close>

fun expand_wildcards :: "nat \<Rightarrow> (string \<Rightarrow> string list option) \<Rightarrow> string list \<Rightarrow> request_error + string list" where
  "expand_wildcards n expands [] = Inr []"
| "expand_wildcards 0 expands (field # fs) = Inl Out_Of_Fuel"
| "expand_wildcards (Suc n) expands (field # fs) =
     (case expands field of
        None \<Rightarrow> and_then (expand_wildcards n expands fs) (\<lambda>rest. Inr (field # rest))
      | Some inserted \<Rightarrow>
          (case inserted @ fs of
             [] \<Rightarrow> Inr []
           | passed # fs' \<Rightarrow> and_then (expand_wildcards n expands fs') (\<lambda>rest. Inr (passed # rest))))"

definition convertWildcards :: "nat \<Rightarrow> tree_env \<Rightarrow> json \<Rightarrow> string \<Rightarrow> string list \<Rightarrow> request_error + string list" where
  "convertWildcards n env alias parentCollection fs =
     (case te_collection env parentCollection of
        None \<Rightarrow> Inl Type_Error
      | Some c \<Rightarrow>
          (let fieldsInCollection = map fst (co_fields c) in
           case allowed_for_wildcards env parentCollection fieldsInCollection of
             None \<Rightarrow> Inr []
           | Some [] \<Rightarrow> Inr []
           | Some (field # others) \<Rightarrow>
               expand_wildcards n
                 (expansion env alias parentCollection fieldsInCollection
                   (if field = ''*'' then fieldsInCollection else field # others)) fs))"

section \<open>The fields of one level\<close>

text \<open>The nested fields of a relational field: a list, or lists by the collection they are scoped to.\<close>

datatype nested_fields = Plain_Fields "string list" | Scoped_Fields "(string \<times> string list) list"

type_synonym relational_structure = "(string \<times> nested_fields) list"

text \<open>A scoped field after a field without a scope goes to a property of the list, which nothing reads.\<close>

definition add_nested :: "string option \<Rightarrow> string option \<Rightarrow> nested_fields \<Rightarrow> request_error + nested_fields" where
  "add_nested scope childKey nested =
     (case childKey of
        None \<Rightarrow> Inr nested
      | Some child \<Rightarrow>
          (case (scope, nested) of
             (Some c, Scoped_Fields m) \<Rightarrow>
               Inr (Scoped_Fields (js_set c ((case map_of m c of None \<Rightarrow> [] | Some fs \<Rightarrow> fs) @ [child]) m))
           | (Some c, Plain_Fields fs) \<Rightarrow> Inr (Plain_Fields fs)
           | (None, Plain_Fields fs) \<Rightarrow> Inr (Plain_Fields (fs @ [child]))
           | (None, Scoped_Fields m) \<Rightarrow> Inl Type_Error))"

definition add_path :: "string \<Rightarrow> relational_structure \<Rightarrow> request_error + relational_structure" where
  "add_path key structure =
     (let parts = js_split CHR ''.'' key;
          scoped = js_split CHR '':'' (hd parts);
          rootField = hd scoped;
          scope = (case tl scoped of c # _ \<Rightarrow> if c = [] then None else Some c | [] \<Rightarrow> None);
          childKey = (if tl parts = [] then None else Some (js_join CHR ''.'' (tl parts)));
          nested = (case map_of structure rootField of
                      Some known \<Rightarrow> known
                    | None \<Rightarrow> (case scope of Some c \<Rightarrow> Scoped_Fields [(c, [])] | None \<Rightarrow> Plain_Fields []))
      in and_then (add_nested scope childKey nested) (\<lambda>nested'. Inr (js_set rootField nested' structure)))"

definition function_field :: "tree_env \<Rightarrow> collection_overview \<Rightarrow> string \<Rightarrow> string \<Rightarrow> string option" where
  "function_field env c parentCollection key =
     (case getBetweenParens key of
        None \<Rightarrow> None
      | Some columnName \<Rightarrow>
          (case map_of (co_fields c) columnName of
             Some f \<Rightarrow>
               if js_prop f ''type'' = JStr ''alias'' then map_option rl_collection (relation_from env parentCollection columnName)
               else None
           | None \<Rightarrow> None))"

definition known_field :: "collection_overview \<Rightarrow> string \<Rightarrow> bool" where
  "known_field c name \<longleftrightarrow> (case getBetweenParens name of None \<Rightarrow> name | Some column \<Rightarrow> column) \<in> set (map fst (co_fields c))"

definition read_field :: "tree_env \<Rightarrow> json \<Rightarrow> string \<Rightarrow> string \<Rightarrow> tree_node list \<times> relational_structure \<Rightarrow>
    request_error + tree_node list \<times> relational_structure" where
  "read_field env alias parentCollection key = (\<lambda>(children, structure).
     and_then (alias_of alias key) (\<lambda>name.
       if CHR ''.'' \<in> set name \<or> relation_from env parentCollection name \<noteq> None then
         and_then (add_path key structure) (\<lambda>structure'. Inr (children, structure'))
       else
         (case te_collection env parentCollection of
            None \<Rightarrow> Inl Type_Error
          | Some c \<Rightarrow>
              (case function_field env c parentCollection key of
                 Some related \<Rightarrow> Inr (children @ [Tree_Function name key related], structure)
               | None \<Rightarrow>
                   if te_strict env \<and> \<not> known_field c name then Inl Invalid_Query
                   else Inr (children @ [Tree_Field name key], structure)))))"

fun read_fields_of :: "tree_env \<Rightarrow> json \<Rightarrow> string \<Rightarrow> string list \<Rightarrow> tree_node list \<times> relational_structure \<Rightarrow>
    request_error + tree_node list \<times> relational_structure" where
  "read_fields_of env alias parentCollection [] state = Inr state"
| "read_fields_of env alias parentCollection (key # keys) state =
     and_then (read_field env alias parentCollection key state) (read_fields_of env alias parentCollection keys)"

section \<open>Nested nodes\<close>

text \<open>Reading the fields of a nested level is a parameter here: aliases, collection, fields and deep query to nodes and aliases.\<close>

type_synonym level_parser = "json \<Rightarrow> string \<Rightarrow> string list \<Rightarrow> json \<Rightarrow> request_error + tree_node list \<times> json"

definition scoped_key :: "string \<Rightarrow> string \<Rightarrow> string" where
  "scoped_key key collection = key @ CHR '':'' # collection"

definition fields_scoped_to :: "nested_fields \<Rightarrow> string \<Rightarrow> string list" where
  "fields_scoped_to nested collection =
     (case nested of Plain_Fields fs \<Rightarrow> fs | Scoped_Fields m \<Rightarrow> (case map_of m collection of None \<Rightarrow> [] | Some fs \<Rightarrow> fs))"

text \<open>The children, queries and keys of a node with several collections, one collection after the other.\<close>

type_synonym a2o_parts = "(string \<times> tree_node list) list \<times> (string \<times> query) list \<times> (string \<times> string) list"

fun scoped_levels :: "tree_env \<Rightarrow> level_parser \<Rightarrow> nested_fields \<Rightarrow> (string \<Rightarrow> json) \<Rightarrow> string list \<Rightarrow> json \<Rightarrow> a2o_parts \<Rightarrow>
    request_error + a2o_parts \<times> json" where
  "scoped_levels env parse nested deepOf [] alias parts = Inr (parts, alias)"
| "scoped_levels env parse nested deepOf (c # cs) alias (children, queries, keys) =
     and_then (parse alias c (fields_scoped_to nested c) (deepOf c)) (\<lambda>(nodes, alias').
       (case te_collection env c of
          None \<Rightarrow> Inl Type_Error
        | Some co \<Rightarrow>
            scoped_levels env parse nested deepOf cs alias'
              (js_set c nodes children, js_set c (query_of (getDeepQuery (or_empty (deepOf c)))) queries,
               js_set c (co_primary co) keys)))"

definition allowed_collections :: "tree_env \<Rightarrow> relation \<Rightarrow> string list" where
  "allowed_collections env r =
     (case rl_meta r of
        None \<Rightarrow> []
      | Some meta \<Rightarrow> (case rm_one_allowed_collections meta of None \<Rightarrow> [] | Some cs \<Rightarrow> filter (permitted env) cs))"

definition scopes_unresolved :: "tree_env \<Rightarrow> nested_fields \<Rightarrow> string list \<Rightarrow> bool" where
  "scopes_unresolved env nested allowed \<longleftrightarrow>
     allowed = [] \<or> (\<exists>c\<in>set allowed. te_collection env c = None) \<or>
     (case nested of Plain_Fields _ \<Rightarrow> False | Scoped_Fields m \<Rightarrow> \<not> set (map fst m) \<subseteq> set allowed)"

definition a2o_node :: "tree_env \<Rightarrow> level_parser \<Rightarrow> string \<Rightarrow> relation \<Rightarrow> string \<Rightarrow> nested_fields \<Rightarrow> json \<Rightarrow> json \<Rightarrow>
    request_error + tree_node option \<times> json" where
  "a2o_node env parse parentCollection r key nested deep alias =
     (let allowed = allowed_collections env r in
      if te_strict env \<and> scopes_unresolved env nested allowed then Inl Invalid_Query
      else
        (case te_collection env parentCollection of
           None \<Rightarrow> Inl Type_Error
         | Some pc \<Rightarrow>
             and_then (scoped_levels env parse nested (\<lambda>c. js_prop deep (scoped_key key c)) allowed alias ([], [], []))
               (\<lambda>((children, queries, keys), alias').
                 Inr (Some (Tree_A2O allowed children queries key r (co_primary pc) keys), alias'))))"

text \<open>A nested list of items is sorted by the sort field of its relation, or by its primary key.\<close>

definition with_sort :: "tree_env \<Rightarrow> info_type \<Rightarrow> relation \<Rightarrow> json_object \<Rightarrow> request_error + json_object" where
  "with_sort env kind r q =
     (if kind \<noteq> Info_o2m \<or> truthy (js_get q ''sort'') then Inr q
      else (case rl_meta r of
              Some meta \<Rightarrow>
                (case rm_sort_field meta of
                   Some (c # cs) \<Rightarrow> Inr (js_set ''sort'' (JArr [JStr (c # cs)]) q)
                 | _ \<Rightarrow>
                     (case te_collection env (rl_collection r) of
                        None \<Rightarrow> Inl Type_Error
                      | Some co \<Rightarrow> Inr (js_set ''sort'' (JArr [JStr (co_primary co)]) q)))
            | None \<Rightarrow>
                (case te_collection env (rl_collection r) of
                   None \<Rightarrow> Inl Type_Error
                 | Some co \<Rightarrow> Inr (js_set ''sort'' (JArr [JStr (co_primary co)]) q))))"

definition nested_level :: "level_parser \<Rightarrow> json \<Rightarrow> string \<Rightarrow> nested_fields \<Rightarrow> json \<Rightarrow> request_error + tree_node list \<times> json" where
  "nested_level parse alias related nested deep =
     (case nested of Plain_Fields fs \<Rightarrow> parse alias related fs deep | Scoped_Fields _ \<Rightarrow> Inr ([], alias))"

definition related_node :: "tree_env \<Rightarrow> level_parser \<Rightarrow> string \<Rightarrow> relation \<Rightarrow> info_type \<Rightarrow> string \<Rightarrow> string \<Rightarrow> nested_fields \<Rightarrow> json \<Rightarrow> json \<Rightarrow>
    request_error + tree_node option \<times> json" where
  "related_node env parse parentCollection r kind related key nested deep alias =
     (if te_strict env \<and> te_collection env related = None then Inl Invalid_Query
      else if \<not> permitted env related then Inr (None, alias)
      else
        (let level = or_empty (js_prop deep key);
             deepQuery = getDeepQuery level;
             deepAlias = js_get deepQuery ''alias'';
             alias' = (if own_entries deepAlias = [] then alias else deepAlias)
         in case (te_collection env parentCollection, te_collection env related) of
              (Some pc, Some rc) \<Rightarrow>
                and_then (nested_level parse alias' related nested level) (\<lambda>(children, alias'').
                and_then (with_sort env kind r deepQuery) (\<lambda>q.
                  Inr (Some (Tree_Nested kind related children (query_of q) key r (co_primary pc) (co_primary rc)), alias'')))
            | _ \<Rightarrow> Inl Type_Error))"

definition nested_node :: "tree_env \<Rightarrow> level_parser \<Rightarrow> string \<Rightarrow> json \<Rightarrow> string \<times> nested_fields \<Rightarrow> json \<Rightarrow>
    request_error + tree_node option \<times> json" where
  "nested_node env parse parentCollection deep = (\<lambda>(key, nested) alias.
     and_then (alias_of alias key) (\<lambda>fieldName.
       (case getRelation env parentCollection fieldName of
          None \<Rightarrow> unresolved env (None, alias)
        | Some r \<Rightarrow>
            (case getRelationType r (JStr parentCollection) fieldName of
               None \<Rightarrow> unresolved env (None, alias)
             | Some Info_a2o \<Rightarrow> a2o_node env parse parentCollection r key nested deep alias
             | Some kind \<Rightarrow>
                 (case getRelatedCollection env parentCollection fieldName of
                    None \<Rightarrow> unresolved env (None, alias)
                  | Some related \<Rightarrow> related_node env parse parentCollection r kind related key nested deep alias)))))"

fun nested_nodes :: "tree_env \<Rightarrow> level_parser \<Rightarrow> string \<Rightarrow> json \<Rightarrow> relational_structure \<Rightarrow> json \<Rightarrow> request_error + tree_node list \<times> json" where
  "nested_nodes env parse parentCollection deep [] alias = Inr ([], alias)"
| "nested_nodes env parse parentCollection deep (entry # structure) alias =
     and_then (nested_node env parse parentCollection deep entry alias) (\<lambda>(node, alias').
       and_then (nested_nodes env parse parentCollection deep structure alias') (\<lambda>(nodes, alias'').
         Inr ((case node of None \<Rightarrow> nodes | Some child \<Rightarrow> child # nodes), alias'')))"

section \<open>Levels\<close>

fun tree_key :: "tree_node \<Rightarrow> string" where
  "tree_key (Tree_Field _ key) = key"
| "tree_key (Tree_Function _ key _) = key"
| "tree_key (Tree_Nested _ _ _ _ key _ _ _) = key"
| "tree_key (Tree_A2O _ _ _ key _ _ _) = key"

fun is_tree_field :: "tree_node \<Rightarrow> bool" where
  "is_tree_field (Tree_Field _ _) = True"
| "is_tree_field _ = False"

definition without_duplicates :: "tree_node list \<Rightarrow> tree_node list" where
  "without_duplicates children =
     (let nested = filter (\<lambda>node. \<not> is_tree_field node) children in
      filter (\<lambda>node. \<not> (is_tree_field node \<and> tree_key node \<in> set (map tree_key nested))) children)"

text \<open>The first fuel counts the levels of the tree, the second the rounds of the wildcards of one level.\<close>

primrec parseFields :: "nat \<Rightarrow> nat \<Rightarrow> tree_env \<Rightarrow> level_parser" where
  "parseFields 0 wild env alias parentCollection fs deep = Inl Out_Of_Fuel"
| "parseFields (Suc n) wild env alias parentCollection fs deep =
     and_then (convertWildcards wild env alias parentCollection fs) (\<lambda>keys.
     and_then (read_fields_of env alias parentCollection keys ([], [])) (\<lambda>(children, structure).
     and_then (nested_nodes env (parseFields n wild env) parentCollection deep structure alias) (\<lambda>(nested, alias').
       Inr (without_duplicates (children @ nested), alias'))))"

section \<open>The tree of a query\<close>

record tree =
  tr_name :: string
  tr_children :: "tree_node list"
  tr_query :: query

definition tree_permissions :: "accountability option \<Rightarrow> string \<Rightarrow> permission list option" where
  "tree_permissions accountability action =
     (if accountability = None \<or> is_admin accountability then None
      else Some (filter (\<lambda>p. pm_action p = action) (permissions_of accountability)))"

definition first_group :: "json_object \<Rightarrow> json" where
  "first_group q = (case js_get q ''group'' of JArr (v # _) \<Rightarrow> v | _ \<Rightarrow> JUndefined)"

text \<open>The configured sort field is used where the caller may read it.\<close>

definition initial_sort :: "accountability option \<Rightarrow> string \<Rightarrow> collection_overview \<Rightarrow> json_object \<Rightarrow> json" where
  "initial_sort accountability collection c q =
     (let configured = js_prop (co_rest c) ''sortField'';
          allowed = (case find_permission (permissions_of accountability) collection ''read'' of
                       None \<Rightarrow> [] | Some p \<Rightarrow> (case pm_fields p of None \<Rightarrow> [] | Some fs \<Rightarrow> fs));
          restricted = (accountability \<noteq> None \<and> \<not> is_admin accountability)
      in if truthy (first_group q) then first_group q
         else if truthy configured \<and> (restricted \<longrightarrow> ''*'' \<in> set allowed \<or> configured \<in> set (map JStr allowed)) then configured
         else JStr (co_primary c))"

definition with_initial_sort :: "tree_env \<Rightarrow> accountability option \<Rightarrow> string \<Rightarrow> json_object \<Rightarrow> request_error + json_object" where
  "with_initial_sort env accountability collection q =
     and_then
       (if truthy (js_get q ''sort'') then Inr q
        else (case te_collection env collection of
                None \<Rightarrow> Inl Type_Error
              | Some c \<Rightarrow> Inr (js_set ''sort'' (JArr [initial_sort accountability collection c q]) q)))
       (\<lambda>q'. Inr (if truthy (js_get q ''aggregate'') \<and> own_entries (js_get q ''aggregate'') \<noteq> [] \<and> \<not> truthy (first_group q)
                  then js_delete ''sort'' q' else q'))"

definition field_text :: "json \<Rightarrow> request_error + string" where
  "field_text v = (case v of JStr s \<Rightarrow> Inr s | _ \<Rightarrow> Inl Type_Error)"

definition getASTFromQuery :: "nat \<Rightarrow> nat \<Rightarrow> string \<Rightarrow> json_object \<Rightarrow> schema_overview \<Rightarrow> accountability option \<Rightarrow> string \<Rightarrow> bool \<Rightarrow>
    request_error + tree" where
  "getASTFromQuery n wild collection q schema accountability action strict =
     (let env = \<lparr>te_schema = schema, te_permissions = tree_permissions accountability action, te_strict = strict\<rparr>;
          deep = or_empty (js_get q ''deep'')
      in and_then (with_initial_sort env accountability collection (js_delete ''deep'' (js_delete ''fields'' q))) (\<lambda>q'.
         and_then (map_or_throw field_text (selected_fields q)) (\<lambda>fs.
         and_then (parseFields n wild env (js_get q ''alias'') collection fs deep) (\<lambda>(children, alias).
           Inr \<lparr>tr_name = collection, tr_children = children, tr_query = (query_of q')\<lparr>qy_alias := alias\<rparr>\<rparr>))))"

text \<open>What authorization reads of a tree.\<close>

fun node_of :: "tree_node \<Rightarrow> ast_node" where
  "node_of (Tree_Field name key) = Field_Node name key"
| "node_of (Tree_Function name key related) = Function_Node name key (query_of []) related"
| "node_of (Tree_Nested kind name children q key r pk rk) = Nested_Node name (map node_of children) q key"
| "node_of (Tree_A2O collections children qs key r pk rks) =
     A2O_Node collections (map (\<lambda>(c, nodes). (c, map node_of nodes)) children) qs key"

definition ast_of :: "tree \<Rightarrow> ast" where
  "ast_of t = \<lparr>as_name = tr_name t, as_children = map node_of (tr_children t), as_query = tr_query t\<rparr>"

section \<open>Typed trees\<close>

text \<open>
  The relation of a nested node leads from its parent's collection to its own. A restricted caller has a permission for
  every collection the nodes are nested in.
\<close>

definition leads :: "relation \<Rightarrow> info_type \<Rightarrow> string \<Rightarrow> string \<Rightarrow> bool" where
  "leads r kind c name \<longleftrightarrow>
     kind = Info_m2o \<and> rl_collection r = c \<and> rl_related r = Some name \<or>
     kind = Info_o2m \<and> rl_related r = Some c \<and> rl_collection r = name"

definition entries_known :: "tree_env \<Rightarrow> (string \<times> string) list \<Rightarrow> (string \<times> query) list \<Rightarrow> string set \<Rightarrow> bool" where
  "entries_known env keys qs cs \<longleftrightarrow>
     (\<forall>name\<in>cs. \<exists>co. te_collection env name = Some co \<and> map_of keys name = Some (co_primary co) \<and> map_of qs name \<noteq> None)"

definition allows_collection :: "relation \<Rightarrow> string \<Rightarrow> bool" where
  "allows_collection r name \<longleftrightarrow>
     (case rl_meta r of
        None \<Rightarrow> False
      | Some meta \<Rightarrow> (case rm_one_allowed_collections meta of None \<Rightarrow> False | Some cs \<Rightarrow> name \<in> set cs))"

lemma allowed_collections_typed: "\<forall>name\<in>set (allowed_collections env r). permitted env name \<and> allows_collection r name"
  by (auto simp: allowed_collections_def allows_collection_def split: option.splits)

inductive tree_typed :: "tree_env \<Rightarrow> string \<Rightarrow> tree_node \<Rightarrow> bool" for env where
  field: "(te_strict env \<longrightarrow> (\<exists>co. te_collection env c = Some co \<and> known_field co name)) \<Longrightarrow> tree_typed env c (Tree_Field name key)"
| functional: "getBetweenParens key = Some column \<Longrightarrow> relation_from env c column = Some r \<Longrightarrow>
    tree_typed env c (Tree_Function name key (rl_collection r))"
| nested: "r \<in> set (te_relations env) \<Longrightarrow> leads r kind c name \<Longrightarrow> permitted env name \<Longrightarrow>
    te_collection env c = Some pc \<Longrightarrow> te_collection env name = Some rc \<Longrightarrow> \<forall>child\<in>set children. tree_typed env name child \<Longrightarrow>
    tree_typed env c (Tree_Nested kind name children q key r (co_primary pc) (co_primary rc))"
| a2o: "r \<in> set (te_relations env) \<Longrightarrow> rl_collection r = c \<Longrightarrow>
    \<forall>name\<in>set collections. permitted env name \<and> allows_collection r name \<Longrightarrow>
    te_collection env c = Some pc \<Longrightarrow> distinct (map fst children) \<Longrightarrow> set (map fst children) = set collections \<Longrightarrow>
    entries_known env keys qs (set collections) \<Longrightarrow>
    \<forall>(name, nodes)\<in>set children. \<forall>child\<in>set nodes. tree_typed env name child \<Longrightarrow>
    tree_typed env c (Tree_A2O collections children qs key r (co_primary pc) keys)"

lemma read_field_typed:
  assumes "read_field env al c key (children, structure) = Inr (children', structure')" "\<forall>x\<in>set children. tree_typed env c x"
  shows "\<forall>x\<in>set children'. tree_typed env c x"
proof -
  have "tree_typed env c (Tree_Function name key related)"
    if "te_collection env c = Some co" "function_field env co c key = Some related" for name co related
    using that by (auto simp: function_field_def split: option.splits if_splits intro: tree_typed.functional)
  then show ?thesis using assms unfolding read_field_def
    by (auto simp: and_then_Inr_iff split: if_splits option.splits intro!: tree_typed.field)
qed

lemma read_fields_typed:
  "read_fields_of env al c keys state = Inr (children', structure') \<Longrightarrow> \<forall>x\<in>set (fst state). tree_typed env c x \<Longrightarrow>
     \<forall>x\<in>set children'. tree_typed env c x"
proof (induction keys arbitrary: state)
  case (Cons key keys)
  obtain children st where s: "state = (children, st)" by (cases state)
  from Cons.prems(1) obtain state' where step: "read_field env al c key (children, st) = Inr state'"
    and rest: "read_fields_of env al c keys state' = Inr (children', structure')"
    by (auto simp: s and_then_Inr_iff)
  obtain children1 st1 where s': "state' = (children1, st1)" by (cases state')
  have "\<forall>x\<in>set (fst state'). tree_typed env c x"
    using read_field_typed[OF step[unfolded s']] Cons.prems(2) s s' by simp
  then show ?case using Cons.IH[OF rest] by blast
qed simp

lemma relation_of_leads:
  assumes "getRelation env c field = Some r"
  shows "r \<in> set (te_relations env)" and "relation_of (JStr c) (JStr field) r"
  using assms unfolding getRelation_def by (auto simp: find_Some_iff)

lemma relation_type_leads:
  assumes r: "getRelation env c field = Some r" and kind: "getRelationType r (JStr c) field = Some kind" "kind \<noteq> Info_a2o"
    and related: "getRelatedCollection env c field = Some name"
  shows "leads r kind c name"
proof -
  have "(if rl_collection r = c \<and> rl_field r = field then rl_related r else Some (rl_collection r)) = Some name"
    using related r by (auto simp: getRelatedCollection_def Let_def split: if_splits)
  moreover have "related_value r = JStr c \<longleftrightarrow> rl_related r = Some c" by (auto simp: related_value_def split: option.split)
  ultimately show ?thesis using kind
    by (auto simp: getRelationType_def leads_def Let_def split: if_splits)
qed

lemma a2o_own:
  assumes "getRelation env c field = Some r" "getRelationType r (JStr c) field = Some Info_a2o"
  shows "r \<in> set (te_relations env)" "rl_collection r = c"
  using relation_of_leads(1)[OF assms(1)] assms(2) by (auto simp: getRelationType_def Let_def split: if_splits)

text \<open>The contract of reading a nested level, which the nodes of a level are built on: the nodes it gives are typed.\<close>

locale typed_level =
  fixes env :: tree_env
    and parse :: level_parser
  assumes level_typed: "parse al c fs deep = Inr (nodes, al') \<Longrightarrow> x \<in> set nodes \<Longrightarrow> tree_typed env c x"
begin

lemma scoped_levels_typed:
  assumes "scoped_levels env parse nested deepOf cs al (children, qs, keys) = Inr ((children', qs', keys'), al2)"
    and "distinct (map fst children)" "\<forall>(name, nodes)\<in>set children. \<forall>x\<in>set nodes. tree_typed env name x"
    and "entries_known env keys qs (set (map fst children))"
  shows "distinct (map fst children') \<and> set (map fst children') = set (map fst children) \<union> set cs \<and>
    (\<forall>(name, nodes)\<in>set children'. \<forall>x\<in>set nodes. tree_typed env name x) \<and>
    entries_known env keys' qs' (set (map fst children'))"
  using assms
proof (induction cs arbitrary: al children qs keys)
  case (Cons c cs)
  from Cons.prems(1) obtain nodes al1 co where p: "parse al c (fields_scoped_to nested c) (deepOf c) = Inr (nodes, al1)"
    and co: "te_collection env c = Some co"
    and rest: "scoped_levels env parse nested deepOf cs al1
      (js_set c nodes children, js_set c (query_of (getDeepQuery (or_empty (deepOf c)))) qs, js_set c (co_primary co) keys) =
      Inr ((children', qs', keys'), al2)"
    by (auto simp: and_then_Inr_iff split: option.splits)
  have new: "\<forall>x\<in>set nodes. tree_typed env c x" using level_typed[OF p] by blast
  have keysof: "set (map fst (js_set c nodes children)) = insert c (set (map fst children))" by (simp add: keys_js_set)
  have "\<forall>(name, ns)\<in>set (js_set c nodes children). \<forall>x\<in>set ns. tree_typed env name x"
  proof -
    have "(name, ns) \<in> set (js_set c nodes m) \<Longrightarrow> (name, ns) \<in> set m \<or> name = c \<and> ns = nodes" for name ns m
      by (induction c nodes m rule: js_set.induct) (auto split: if_splits)
    then show ?thesis using Cons.prems(3) new by blast
  qed
  moreover have "entries_known env (js_set c (co_primary co) keys) (js_set c (query_of (getDeepQuery (or_empty (deepOf c)))) qs)
      (set (map fst (js_set c nodes children)))"
    using Cons.prems(4) co unfolding keysof by (auto simp: entries_known_def)
  moreover have "distinct (map fst (js_set c nodes children))" using Cons.prems(2) by simp
  ultimately show ?case using Cons.IH[OF rest] unfolding keysof by auto
qed simp

lemma nested_node_typed:
  assumes "nested_node env parse c deep (key, nested) al = Inr (Some x, al')"
  shows "tree_typed env c x"
proof -
  define result where "result = (Inr (Some x, al') :: request_error + tree_node option \<times> json)"
  have unresolved: "unresolved env (None, a) \<noteq> result" for a by (simp add: unresolved_def result_def)
  from assms obtain field where body: "(case getRelation env c field of
        None \<Rightarrow> unresolved env (None, al)
      | Some r \<Rightarrow>
          (case getRelationType r (JStr c) field of
             None \<Rightarrow> unresolved env (None, al)
           | Some Info_a2o \<Rightarrow> a2o_node env parse c r key nested deep al
           | Some kind \<Rightarrow>
               (case getRelatedCollection env c field of
                  None \<Rightarrow> unresolved env (None, al)
                | Some related \<Rightarrow> related_node env parse c r kind related key nested deep al))) = result"
    unfolding nested_node_def result_def by (auto simp: and_then_Inr_iff)
  then obtain r where r0: "getRelation env c field = Some r"
    by (cases "getRelation env c field") (simp_all add: unresolved)
  with body obtain kind where r1: "getRelationType r (JStr c) field = Some kind"
    by (cases "getRelationType r (JStr c) field") (simp_all add: unresolved)
  note r = r0 r1
  have node: "if kind = Info_a2o then a2o_node env parse c r key nested deep al = result
     else \<exists>related. getRelatedCollection env c field = Some related \<and>
       related_node env parse c r kind related key nested deep al = result"
    using body r by (cases kind; cases "getRelatedCollection env c field") (simp_all add: unresolved)
  note node = node[unfolded result_def]
  show ?thesis
  proof (cases "kind = Info_a2o")
    case True
    with node have "a2o_node env parse c r key nested deep al = Inr (Some x, al')" by simp
    then obtain pc children qs keys where pc: "te_collection env c = Some pc"
      and levels: "scoped_levels env parse nested (\<lambda>c. js_prop deep (scoped_key key c)) (allowed_collections env r) al ([], [], []) =
         Inr ((children, qs, keys), al')"
      and x: "x = Tree_A2O (allowed_collections env r) children qs key r (co_primary pc) keys"
      unfolding a2o_node_def by (auto simp: and_then_Inr_iff Let_def split: option.splits if_splits)
    have "entries_known env [] [] {}" by (simp add: entries_known_def)
    with scoped_levels_typed[OF levels] have typed: "distinct (map fst children)" "set (map fst children) = set (allowed_collections env r)"
      "\<forall>(name, nodes)\<in>set children. \<forall>x\<in>set nodes. tree_typed env name x"
      "entries_known env keys qs (set (allowed_collections env r))"
      by auto
    show ?thesis unfolding x
      using a2o_own[OF r(1)] r(2) True by (intro tree_typed.a2o pc typed allowed_collections_typed) simp_all
  next
    case False
    with node obtain related where related: "getRelatedCollection env c field = Some related"
      and "related_node env parse c r kind related key nested deep al = Inr (Some x, al')" by auto
    then obtain pc rc children q alias1 where node': "te_collection env c = Some pc" "te_collection env related = Some rc" "permitted env related"
      and level: "nested_level parse alias1 related nested (or_empty (js_prop deep key)) = Inr (children, al')"
      and x: "x = Tree_Nested kind related children (query_of q) key r (co_primary pc) (co_primary rc)"
      unfolding related_node_def by (auto simp: and_then_Inr_iff Let_def split: option.splits if_splits)
    have "\<forall>child\<in>set children. tree_typed env related child"
      using level level_typed by (auto simp: nested_level_def split: nested_fields.splits)
    then show ?thesis unfolding x
      using relation_type_leads[OF r False related] relation_of_leads(1)[OF r(1)] node' by (intro tree_typed.nested)
  qed
qed

lemma nested_nodes_typed:
  "nested_nodes env parse c deep st al = Inr (nodes, al2) \<Longrightarrow> \<forall>x\<in>set nodes. tree_typed env c x"
proof (induction st arbitrary: al nodes)
  case (Cons entry st)
  obtain key nested where e: "entry = (key, nested)" by (cases entry)
  from Cons.prems obtain node al1 rest where "nested_node env parse c deep (key, nested) al = Inr (node, al1)"
    "nested_nodes env parse c deep st al1 = Inr (rest, al2)" "nodes = (case node of None \<Rightarrow> rest | Some child \<Rightarrow> child # rest)"
    by (auto simp: e and_then_Inr_iff)
  then show ?case using Cons.IH nested_node_typed by (auto split: option.splits)
qed simp

end

lemma parseFields_typed: "typed_level env (parseFields n wild env)"
proof (induction n)
  case (Suc n)
  show ?case
  proof
    fix al c fs deep nodes al' x
    assume x: "x \<in> set nodes" and "parseFields (Suc n) wild env al c fs deep = Inr (nodes, al')"
    then obtain keys children st nested where
        parts: "read_fields_of env al c keys ([], []) = Inr (children, st)"
        "nested_nodes env (parseFields n wild env) c deep st al = Inr (nested, al')"
        "nodes = without_duplicates (children @ nested)"
      by (auto simp: and_then_Inr_iff)
    from read_fields_typed[OF parts(1)] typed_level.nested_nodes_typed[OF Suc parts(2)] x
    show "tree_typed env c x" by (auto simp: parts(3) without_duplicates_def Let_def)
  qed
qed (unfold_locales, simp)

interpretation fields_level: typed_level env "parseFields n wild env" for env n wild
  by (rule parseFields_typed)

lemma typed_tree_ok: "tree_typed env c x \<Longrightarrow> tree_ok (node_of x)"
proof (induction rule: tree_typed.induct)
  case (nested r kind c name pc rc children q key)
  then show ?case by (induction children) simp_all
next
  case (a2o r c collections pc children keys qs key)
  have "\<forall>(name, nodes)\<in>set children. \<forall>x\<in>set nodes. tree_ok (node_of x)" using a2o by fastforce
  then have "entries_ok (map (\<lambda>(c, nodes). (c, map node_of nodes)) children)"
  proof (induction children)
    case (Cons e es)
    have "\<forall>x\<in>set xs. tree_ok x \<Longrightarrow> children_ok xs" for xs by (induction xs) simp_all
    then show ?case using Cons by (cases e) fastforce
  qed simp
  then show ?case using a2o.hyps by (simp add: comp_def case_prod_unfold)
qed simp_all

section \<open>Well-typed trees\<close>

abbreviation root_env :: "schema_overview \<Rightarrow> accountability option \<Rightarrow> string \<Rightarrow> bool \<Rightarrow> tree_env" where
  "root_env schema accountability action strict \<equiv>
     \<lparr>te_schema = schema, te_permissions = tree_permissions accountability action, te_strict = strict\<rparr>"

text \<open>C6: the tree of a query is well typed: every nested node follows a relation of the schema from its parent's collection to its
  own, which the caller has a permission for, and nodes with several collections hold those their relation allows, once each; so
  authorization may process it.\<close>

theorem query_tree_typed:
  assumes "getASTFromQuery n wild collection q schema accountability action strict = Inr t"
  shows "tr_name t = collection \<and>
    (\<forall>x\<in>set (tr_children t). tree_typed (root_env schema accountability action strict) collection x) \<and>
    tree_ok (root_node (ast_of t))"
proof -
  from assms obtain keys al where
      "parseFields n wild (root_env schema accountability action strict) (js_get q ''alias'') collection keys (or_empty (js_get q ''deep'')) =
        Inr (tr_children t, al)" and name: "tr_name t = collection"
    unfolding getASTFromQuery_def Let_def by (elim and_then_InrE) auto
  then have typed: "\<forall>x\<in>set (tr_children t). tree_typed (root_env schema accountability action strict) collection x"
    using fields_level.level_typed by blast
  have "\<forall>x\<in>set xs. tree_ok x \<Longrightarrow> children_ok xs" for xs by (induction xs) simp_all
  moreover have "\<forall>x\<in>set (as_children (ast_of t)). tree_ok x" using typed typed_tree_ok by (auto simp: ast_of_def)
  ultimately have "tree_ok (root_node (ast_of t))" by (simp add: root_node_def)
  then show ?thesis using name typed by blast
qed

definition library_schema :: schema_overview where
  "library_schema =
     \<lparr>so_collections =
        [(''books'', \<lparr>co_primary = ''id'', co_rest = JUndefined,
            co_fields = [(''id'', JObj []), (''title'', JObj []), (''author'', JObj [])]\<rparr>),
         (''authors'', \<lparr>co_primary = ''id'', co_rest = JUndefined, co_fields = [(''id'', JObj []), (''name'', JObj [])]\<rparr>)],
      so_relations =
        [\<lparr>rl_collection = ''books'', rl_field = ''author'', rl_related = Some ''authors'',
           rl_meta = Some \<lparr>rm_one_field = Some ''books'', rm_one_allowed_collections = None, rm_one_collection_field = None,
             rm_sort_field = None\<rparr>\<rparr>]\<rparr>"

lemma query_tree_typed_witness:
  "\<exists>t. getASTFromQuery 3 5 ''books'' [(''fields'', JArr [JStr ''title'', JStr ''author.name''])] library_schema None ''read'' False = Inr t \<and>
     length (tr_children t) = 2 \<and> tree_ok (root_node (ast_of t))"
proof -
  let ?q = "[(''fields'', JArr [JStr ''title'', JStr ''author.name''])]"
  have "map_sum (\<lambda>e. e) (\<lambda>t. length (tr_children t)) (getASTFromQuery 3 5 ''books'' ?q library_schema None ''read'' False) = Inr 2"
    by code_simp
  then obtain t where t: "getASTFromQuery 3 5 ''books'' ?q library_schema None ''read'' False = Inr t" "length (tr_children t) = 2"
    by (cases "getASTFromQuery 3 5 ''books'' ?q library_schema None ''read'' False") auto
  then show ?thesis using query_tree_typed[OF t(1)] by blast
qed

end
