(* ===== verification/Tree_Reading.thy ===== *)
theory Tree_Reading
  imports Query_Tree
begin

text \<open>
  Reading a tree returns: how many rounds the wildcards of a level cost, how paths get shorter from level to level, and the
  aliases that can keep the loop over wildcards from ending.
\<close>

section \<open>Wildcards and fuel\<close>

text \<open>A name that cannot be taken for a wildcard or a path.\<close>

definition plain_name :: "string \<Rightarrow> bool" where
  "plain_name s \<longleftrightarrow> CHR ''*'' \<notin> set s \<and> CHR ''.'' \<notin> set s"

definition plain_aliases :: "json \<Rightarrow> bool" where
  "plain_aliases al \<longleftrightarrow> (\<forall>key\<in>set (alias_keys al). plain_name key)"

definition plain_names :: "tree_env \<Rightarrow> bool" where
  "plain_names env \<longleftrightarrow>
     (\<forall>(c, co)\<in>set (so_collections (te_schema env)). \<forall>field\<in>set (map fst (co_fields co)). plain_name field) \<and>
     (\<forall>r\<in>set (te_relations env). plain_name (rl_field r) \<and> plain_name (property_key (one_field_value r))) \<and>
     (\<forall>ps. te_permissions env = Some ps \<longrightarrow> (\<forall>p\<in>set ps. \<forall>fs. pm_fields p = Some fs \<longrightarrow> (\<forall>field\<in>set fs. field = ''*'' \<or> plain_name field)))"

lemma plain_split [simp]: "plain_name s \<Longrightarrow> js_split CHR ''.'' s = [s]"
  by (simp add: plain_name_def js_split_free)

lemma plain_not_star [simp]: "plain_name s \<Longrightarrow> s \<noteq> ''*''"
  by (auto simp: plain_name_def)

lemma plain_no_expansion [simp]: "plain_name s \<Longrightarrow> expansion env al c fs allowed s = None"
  by (simp add: expansion_def)

lemma prefixed_no_expansion [simp]: "plain_name s \<Longrightarrow> expansion env al c fs allowed (s @ CHR ''.'' # t) = None"
  by (auto simp: expansion_def Let_def js_split_append plain_name_def append_eq_Cons_conv)

text \<open>The rounds that one field costs, where what a wildcard inserts inserts no further wildcards.\<close>

lemma expansion_terminates:
  assumes "\<And>f X. expands f = Some X \<Longrightarrow> (\<Sum>x\<leftarrow>X. w x) < (w f :: nat)" "\<And>f. 0 < w f"
  shows "(\<Sum>f\<leftarrow>fs. w f) \<le> n \<Longrightarrow> returns (expand_wildcards n expands fs)"
proof (induction n arbitrary: fs)
  case 0
  have nz: "w f \<noteq> 0" for f using assms(2)[of f] by simp
  show ?case using 0 by (cases fs) (simp_all add: nz)
next
  case (Suc n)
  show ?case
  proof (cases fs)
    case (Cons f fs')
    show ?thesis
    proof (cases "expands f")
      case None
      have "(\<Sum>f\<leftarrow>fs'. w f) \<le> n" using Suc.prems assms(2)[of f] by (simp add: Cons)
      then show ?thesis using Suc.IH by (auto simp: Cons None intro!: returns_and_then)
    next
      case (Some X)
      have "(\<Sum>x\<leftarrow>X @ fs'. w x) \<le> n" using Suc.prems assms(1)[OF Some] by (simp add: Cons)
      then have "(\<Sum>x\<leftarrow>tl (X @ fs'). w x) \<le> n" by (cases "X @ fs'") simp_all
      then show ?thesis using Suc.IH[of "tl (X @ fs')"]
        by (auto simp: Cons Some intro!: returns_and_then split: list.split)
    qed
  qed simp
qed

lemma expand_more_fuel: "expand_wildcards n expands fs \<noteq> Inl Out_Of_Fuel \<Longrightarrow> n \<le> n' \<Longrightarrow> expand_wildcards n' expands fs = expand_wildcards n expands fs"
proof (induction n arbitrary: fs n')
  case 0
  then show ?case by (cases fs) simp_all
next
  case (Suc n)
  obtain m where m: "n' = Suc m" "n \<le> m" using Suc.prems(2) by (cases n') auto
  have IH: "expand_wildcards n expands gs \<noteq> Inl Out_Of_Fuel \<Longrightarrow> expand_wildcards m expands gs = expand_wildcards n expands gs" for gs
    by (rule Suc.IH[OF _ m(2)])
  have more: "and_then (expand_wildcards m expands gs) h = and_then (expand_wildcards n expands gs) h"
    if "and_then (expand_wildcards n expands gs) h \<noteq> Inl Out_Of_Fuel" for gs and h :: "string list \<Rightarrow> request_error + string list"
    using IH[of gs] that by (cases "expand_wildcards n expands gs") simp_all
  show ?case
  proof (cases fs)
    case (Cons f fs')
    show ?thesis
    proof (cases "expands f")
      case None
      then have e: "expand_wildcards (Suc k) expands fs = and_then (expand_wildcards k expands fs') (\<lambda>rest. Inr (f # rest))" for k
        by (simp add: Cons)
      show ?thesis using Suc.prems(1) more[of fs' "\<lambda>rest. Inr (f # rest)"] unfolding m(1) e by blast
    next
      case (Some X)
      show ?thesis
      proof (cases "X @ fs'")
        case Nil
        then show ?thesis by (simp add: Cons Some m(1))
      next
        case (Cons g gs)
        then have e: "expand_wildcards (Suc k) expands fs = and_then (expand_wildcards k expands gs) (\<lambda>rest. Inr (g # rest))" for k
          by (simp add: \<open>fs = f # fs'\<close> Some)
        show ?thesis using Suc.prems(1) more[of gs "\<lambda>rest. Inr (g # rest)"] unfolding m(1) e by blast
      qed
    qed
  qed simp
qed

lemma wildcards_one_level:
  assumes "expansion env al c all allowed f = Some X" "x \<in> set X" "plain_aliases al" "plain_names env"
    "\<forall>f\<in>set all. plain_name f" "\<forall>f\<in>set allowed. f = ''*'' \<or> plain_name f"
  shows "x = ''*'' \<and> ''*'' \<in> set allowed \<or> expansion env al c all allowed x = None"
proof -
  have al: "plain_name key" if "key \<in> set (alias_keys al)" for key using assms(3) that by (simp add: plain_aliases_def)
  have rel: "plain_name (property_key v)" if "v \<in> set (relational_fields env c allowed)" for v
    using that assms(4,6) by (auto simp: relational_fields_def plain_names_def split: if_splits)
  from assms(1) consider "X = all_fields al all allowed" | t where "X = nested_wildcard env al c allowed t"
    by (auto simp: expansion_def Let_def split: if_splits)
  then show ?thesis
  proof cases
    case 1
    then show ?thesis using assms(2,5,6) al by (auto simp: all_fields_def split: if_splits)
  next
    case 2
    have al': "plain_name key" if "(key, v) \<in> set (own_entries al)" for key v
      using that al by (force simp: alias_keys_def)
    from 2 assms(2) consider v where "v \<in> set (relational_fields env c allowed)" "x = property_key v @ CHR ''.'' # t"
      | "x \<in> set allowed" "x \<noteq> ''*'' \<or> ''*'' \<in> set allowed"
      | key v where "(key, v) \<in> set (own_entries al)" "x = key @ CHR ''.'' # t \<or> x = key"
      unfolding nested_wildcard_def Let_def by auto
    then show ?thesis
      by cases (use assms(6) rel al' in auto)
  qed
qed

lemma second_level_plain:
  assumes "expansion env al c all allowed f = Some X" "x \<in> set X" "expansion env al c all allowed x = Some Y" "y \<in> set Y"
    and "plain_aliases al" "plain_names env" "\<forall>f\<in>set all. plain_name f" "\<forall>f\<in>set allowed. f = ''*'' \<or> plain_name f"
  shows "expansion env al c all allowed y = None"
proof -
  from wildcards_one_level[OF assms(1,2,5-8)] assms(3) have "x = ''*''" "''*'' \<in> set allowed" by auto
  with assms(3) have "Y = all @ alias_keys al" by (simp add: expansion_def all_fields_def)
  then show ?thesis using assms(4,5,7) by (auto simp: plain_aliases_def)
qed

text \<open>A computation that settles: with enough fuel it returns, and more fuel changes nothing.\<close>

definition settles :: "(nat \<Rightarrow> request_error + 'a) \<Rightarrow> bool" where
  "settles f \<longleftrightarrow> (\<exists>enough r. returns r \<and> (\<forall>n\<ge>enough. f n = r))"

lemma settles_const [simp]: "returns r \<Longrightarrow> settles (\<lambda>n. r)"
  by (auto simp: settles_def)

lemma settles_and_then:
  assumes "settles f" "\<And>v n. f n = Inr v \<Longrightarrow> settles (g v)"
  shows "settles (\<lambda>n. and_then (f n) (\<lambda>v. g v n))"
proof -
  from assms(1) obtain m r where m: "returns r" "\<forall>n\<ge>m. f n = r" by (auto simp: settles_def)
  show ?thesis
  proof (cases r)
    case (Inl e)
    then have "\<forall>n\<ge>m. and_then (f n) (\<lambda>v. g v n) = Inl e" using m(2) by simp
    moreover have "returns (Inl e :: request_error + 'b)" using m(1) Inl by simp
    ultimately show ?thesis unfolding settles_def by blast
  next
    case (Inr v)
    then obtain m' r' where m': "returns r'" "\<forall>n\<ge>m'. g v n = r'" using assms(2)[of m v] m(2) by (auto simp: settles_def)
    have "\<forall>n\<ge>max m m'. and_then (f n) (\<lambda>v. g v n) = r'" using m(2) m'(2) Inr by simp
    then show ?thesis using m'(1) unfolding settles_def by blast
  qed
qed

lemma settles_then: "settles f \<Longrightarrow> (\<And>v n. f n = Inr v \<Longrightarrow> returns (g v)) \<Longrightarrow> settles (\<lambda>n. and_then (f n) g)"
  using settles_and_then[of f "\<lambda>v n. g v"] by simp

lemma settles_first: "returns r \<Longrightarrow> (\<And>v. r = Inr v \<Longrightarrow> settles (g v)) \<Longrightarrow> settles (\<lambda>n. and_then r (\<lambda>v. g v n))"
  by (rule settles_and_then) simp_all

lemma allowed_plain:
  assumes "plain_names env" "te_collection env c = Some co" "allowed_for_wildcards env c (map fst (co_fields co)) = Some allowed"
  shows "\<forall>f\<in>set (map fst (co_fields co)). plain_name f" "\<forall>f\<in>set allowed. f = ''*'' \<or> plain_name f"
proof -
  show all: "\<forall>f\<in>set (map fst (co_fields co)). plain_name f"
    using assms(1) map_of_SomeD[OF assms(2)] by (force simp: plain_names_def)
  show "\<forall>f\<in>set allowed. f = ''*'' \<or> plain_name f"
  proof (cases "te_permissions env")
    case None
    then show ?thesis using assms(3) all by (auto simp: allowed_for_wildcards_def)
  next
    case (Some ps)
    show ?thesis
    proof (cases "permission_for ps c")
      case None
      then show ?thesis using assms(3) all Some by (auto simp: allowed_for_wildcards_def)
    next
      case p: (Some p)
      then have "p \<in> set ps" by (auto simp: permission_for_def find_Some_iff)
      moreover have "pm_fields p = Some allowed" using assms(3) Some p by (simp add: allowed_for_wildcards_def)
      ultimately show ?thesis using assms(1) Some unfolding plain_names_def by blast
    qed
  qed
qed

lemma wildcards_settle:
  assumes "plain_names env" "plain_aliases al"
  shows "settles (\<lambda>n. convertWildcards n env al c fs)"
proof (cases "te_collection env c")
  case (Some co)
  let ?all = "map fst (co_fields co)"
  have all: "\<forall>f\<in>set ?all. plain_name f" using assms(1) map_of_SomeD[OF Some] by (force simp: plain_names_def)
  show ?thesis
  proof (cases "case allowed_for_wildcards env c ?all of None \<Rightarrow> True | Some [] \<Rightarrow> True | _ \<Rightarrow> False")
    case True
    then show ?thesis by (auto simp: convertWildcards_def Some split: option.splits list.splits)
  next
    case False
    then obtain field others where allowed: "allowed_for_wildcards env c ?all = Some (field # others)"
      by (auto split: option.splits list.splits)
    let ?allowed = "if field = ''*'' then ?all else field # others"
    have ok: "\<forall>f\<in>set ?allowed. f = ''*'' \<or> plain_name f"
      using allowed_plain[OF assms(1) Some allowed] by auto
    let ?expands = "expansion env al c ?all ?allowed"
    define w1 :: "string \<Rightarrow> nat" where "w1 x = (case ?expands x of None \<Rightarrow> 1 | Some Y \<Rightarrow> 1 + length Y)" for x
    define w :: "string \<Rightarrow> nat" where "w f = (case ?expands f of None \<Rightarrow> 1 | Some X \<Rightarrow> 1 + (\<Sum>x\<leftarrow>X. w1 x))" for f
    have less: "(\<Sum>x\<leftarrow>X. w x) < w f" if f: "?expands f = Some X" for f X
    proof -
      have "w x \<le> w1 x" if x: "x \<in> set X" for x
      proof (cases "?expands x")
        case (Some Y)
        have "w1 y = 1" if "y \<in> set Y" for y
          using second_level_plain[OF f x Some that assms(2,1) all ok] by (simp add: w1_def)
        then have sum: "(\<Sum>y\<leftarrow>Y. w1 y) = length Y" by (induction Y) simp_all
        have "w x = 1 + length Y" by (simp add: w_def Some sum)
        moreover have "w1 x = 1 + length Y" by (simp add: w1_def Some)
        ultimately show ?thesis by simp
      qed (simp add: w_def w1_def)
      then have "(\<Sum>x\<leftarrow>X. w x) \<le> (\<Sum>x\<leftarrow>X. w1 x)" by (rule sum_list_mono)
      then show ?thesis by (simp add: w_def f)
    qed
    have pos: "0 < w f" for f by (simp add: w_def split: option.split)
    have r: "returns (expand_wildcards (\<Sum>f\<leftarrow>fs. w f) ?expands fs)" by (rule expansion_terminates[OF less pos order_refl])
    have "\<forall>n\<ge>(\<Sum>f\<leftarrow>fs. w f). convertWildcards n env al c fs = expand_wildcards (\<Sum>f\<leftarrow>fs. w f) ?expands fs"
    proof (intro allI impI)
      fix n assume n: "(\<Sum>f\<leftarrow>fs. w f) \<le> n"
      have "convertWildcards n env al c fs = expand_wildcards n ?expands fs"
        by (simp add: convertWildcards_def Some allowed Let_def)
      also have "\<dots> = expand_wildcards (\<Sum>f\<leftarrow>fs. w f) ?expands fs"
        by (rule expand_more_fuel[OF r[unfolded returns_def] n])
      finally show "convertWildcards n env al c fs = expand_wildcards (\<Sum>f\<leftarrow>fs. w f) ?expands fs" .
    qed
    then show ?thesis using r unfolding settles_def by blast
  qed
qed (simp add: convertWildcards_def)

section \<open>Depths of paths\<close>

definition path_depth :: "string \<Rightarrow> nat" where
  "path_depth key = length (js_split CHR ''.'' key)"

lemma path_depth_pos: "0 < path_depth key"
  by (simp add: path_depth_def)

lemma split_parts_free: "s \<in> set (js_split c t) \<Longrightarrow> c \<notin> set s"
  by (induction c t arbitrary: s rule: js_split.induct) (auto split: if_splits list.splits)

lemma path_depth_plain [simp]: "plain_name s \<Longrightarrow> path_depth s = 1"
  by (simp add: path_depth_def)

lemma path_depth_star [simp]: "path_depth ''*'' = 1"
  by (simp add: path_depth_def)

lemma path_depth_prefixed: "plain_name s \<Longrightarrow> path_depth (s @ CHR ''.'' # t) = Suc (path_depth t)"
  by (simp add: path_depth_def js_split_append plain_name_def)

lemma path_depth_join: "ss \<noteq> [] \<Longrightarrow> set ss \<subseteq> set (js_split CHR ''.'' key) \<Longrightarrow> path_depth (js_join CHR ''.'' ss) = length ss"
  unfolding path_depth_def by (subst js_split_join) (auto dest: split_parts_free)

lemma path_depth_tl: "tl (js_split CHR ''.'' key) \<noteq> [] \<Longrightarrow> Suc (path_depth (js_join CHR ''.'' (tl (js_split CHR ''.'' key)))) = path_depth key"
  using path_depth_join[of "tl (js_split CHR ''.'' key)" key]
  by (cases "js_split CHR ''.'' key") (auto simp: path_depth_def)

lemma expansion_depth:
  assumes "expansion env al c all allowed f = Some X" "x \<in> set X" "plain_aliases al" "plain_names env"
    "\<forall>f\<in>set all. plain_name f" "\<forall>f\<in>set allowed. f = ''*'' \<or> plain_name f"
  shows "path_depth x \<le> path_depth f"
proof -
  have one: "1 \<le> path_depth f" using path_depth_pos[of f] by linarith
  have al: "plain_name key" if "(key, v) \<in> set (own_entries al)" for key v
    using assms(3) that by (force simp: plain_aliases_def alias_keys_def)
  have rel: "plain_name (property_key v)" if "v \<in> set (relational_fields env c allowed)" for v
    using that assms(4,6) by (auto simp: relational_fields_def plain_names_def split: if_splits)
  have allowed: "path_depth y = 1" if "y \<in> set allowed" for y using assms(6) that by auto
  from assms(1) consider "X = all_fields al all allowed"
    | "tl (js_split CHR ''.'' f) \<noteq> []" "X = nested_wildcard env al c allowed (js_join CHR ''.'' (tl (js_split CHR ''.'' f)))"
    by (auto simp: expansion_def Let_def split: if_splits)
  then show ?thesis
  proof cases
    case 1
    then have "x \<in> set all \<or> x \<in> set allowed \<or> (\<exists>v. (x, v) \<in> set (own_entries al))"
      using assms(2) by (auto simp: all_fields_def alias_keys_def split: if_splits)
    then have "path_depth x = 1" using allowed al assms(5) by auto
    then show ?thesis using one by simp
  next
    case 2
    let ?t = "js_join CHR ''.'' (tl (js_split CHR ''.'' f))"
    have t: "Suc (path_depth ?t) = path_depth f" by (rule path_depth_tl[OF 2(1)])
    from 2(2) assms(2) consider v where "v \<in> set (relational_fields env c allowed)" "x = property_key v @ CHR ''.'' # ?t"
      | "x \<in> set allowed"
      | key v where "(key, v) \<in> set (own_entries al)" "x = key @ CHR ''.'' # ?t \<or> x = key"
      unfolding nested_wildcard_def Let_def by auto
    then show ?thesis
      by cases (use allowed one rel al t path_depth_prefixed in auto)
  qed
qed

lemma expand_depth:
  assumes "\<And>f X x. expands f = Some X \<Longrightarrow> x \<in> set X \<Longrightarrow> path_depth x \<le> path_depth f"
  shows "expand_wildcards n expands fs = Inr keys \<Longrightarrow> \<forall>f\<in>set fs. path_depth f \<le> m \<Longrightarrow> \<forall>key\<in>set keys. path_depth key \<le> m"
proof (induction n arbitrary: fs keys)
  case 0
  then show ?case by (cases fs) simp_all
next
  case (Suc n)
  show ?case
  proof (cases fs)
    case Nil
    then show ?thesis using Suc.prems(1) by simp
  next
    case (Cons f fs')
    show ?thesis
    proof (cases "expands f")
      case None
      then show ?thesis using Suc.prems Suc.IH[of fs'] by (auto simp: Cons and_then_Inr_iff)
    next
      case (Some X)
      have d: "\<forall>x\<in>set (X @ fs'). path_depth x \<le> m" using assms[OF Some] Suc.prems(2) by (fastforce simp: Cons)
      show ?thesis
      proof (cases "X @ fs'")
        case Nil
        then show ?thesis using Suc.prems(1) Some by (simp add: Cons)
      next
        case (Cons g gs)
        obtain rest where "expand_wildcards n expands gs = Inr rest" "keys = g # rest"
          using Suc.prems(1) Some Cons by (auto simp: \<open>fs = f # fs'\<close> and_then_Inr_iff)
        then show ?thesis using Suc.IH[of gs rest] d unfolding Cons by simp
      qed
    qed
  qed
qed

lemma wildcards_depth:
  assumes "convertWildcards n env al c fs = Inr keys" "plain_names env" "plain_aliases al" "\<forall>f\<in>set fs. path_depth f \<le> m"
  shows "\<forall>key\<in>set keys. path_depth key \<le> m"
proof -
  from assms(1) obtain co where co: "te_collection env c = Some co" by (cases "te_collection env c") (simp_all add: convertWildcards_def)
  show ?thesis
  proof (cases "keys = []")
    case False
    with assms(1) co obtain field others where allowed: "allowed_for_wildcards env c (map fst (co_fields co)) = Some (field # others)"
      by (auto simp: convertWildcards_def Let_def split: option.splits list.splits)
    let ?allowed = "if field = ''*'' then map fst (co_fields co) else field # others"
    have plain: "\<forall>f\<in>set ?allowed. f = ''*'' \<or> plain_name f" using allowed_plain[OF assms(2) co allowed] by auto
    have keys: "expand_wildcards n (expansion env al c (map fst (co_fields co)) ?allowed) fs = Inr keys"
      using assms(1) co allowed by (simp add: convertWildcards_def Let_def)
    show ?thesis
      by (rule expand_depth[OF expansion_depth[OF _ _ assms(3,2) allowed_plain(1)[OF assms(2) co allowed] plain] keys assms(4)])
  qed simp
qed

text \<open>The paths kept for nested levels are shorter.\<close>

fun nested_within :: "nat \<Rightarrow> nested_fields \<Rightarrow> bool" where
  "nested_within m (Plain_Fields fs) \<longleftrightarrow> (\<forall>f\<in>set fs. path_depth f \<le> m)"
| "nested_within m (Scoped_Fields entries) \<longleftrightarrow> (\<forall>(c, fs)\<in>set entries. \<forall>f\<in>set fs. path_depth f \<le> m)"

lemma set_js_set: "e \<in> set (js_set k v m) \<Longrightarrow> e = (k, v) \<or> e \<in> set m"
  by (induction k v m rule: js_set.induct) (auto split: if_splits)

lemma add_path_within:
  assumes "add_path key st = Inr st'" "\<forall>(k, nested)\<in>set st. nested_within m nested" "path_depth key \<le> Suc m"
  shows "\<forall>(k, nested)\<in>set st'. nested_within m nested"
proof -
  let ?tl = "tl (js_split CHR ''.'' key)"
  define child where "child = (if ?tl = [] then None else Some (js_join CHR ''.'' ?tl))"
  have child: "path_depth s \<le> m" if "child = Some s" for s
    using path_depth_tl[of key] assms(3) that by (auto simp: child_def split: if_splits)
  let ?scoped = "js_split CHR '':'' (hd (js_split CHR ''.'' key))"
  define scope where "scope = (case tl ?scoped of c # _ \<Rightarrow> if c = [] then None else Some c | [] \<Rightarrow> None)"
  define nested0 where "nested0 = (case map_of st (hd ?scoped) of
      Some known \<Rightarrow> known | None \<Rightarrow> (case scope of Some c \<Rightarrow> Scoped_Fields [(c, [])] | None \<Rightarrow> Plain_Fields []))"
  have old: "nested_within m nested0"
    using assms(2) by (auto simp: nested0_def split: option.split dest!: map_of_SomeD)
  obtain nested1 where add: "add_nested scope child nested0 = Inr nested1" and st': "st' = js_set (hd ?scoped) nested1 st"
    using assms(1) unfolding add_path_def Let_def child_def scope_def nested0_def by (auto simp: and_then_Inr_iff)
  have "nested_within m nested1"
    using add old child
    by (cases child; cases scope; cases nested0;
        auto simp: add_nested_def dest!: set_js_set map_of_SomeD split: option.splits; fastforce)
  then show ?thesis using assms(2) set_js_set unfolding st' by fast
qed

lemma read_fields_within:
  "read_fields_of env al c keys (children, st) = Inr (children', st') \<Longrightarrow> \<forall>(k, nested)\<in>set st. nested_within m nested \<Longrightarrow>
     \<forall>key\<in>set keys. path_depth key \<le> Suc m \<Longrightarrow> \<forall>(k, nested)\<in>set st'. nested_within m nested"
proof (induction keys arbitrary: children st)
  case (Cons key keys)
  from Cons.prems(1) obtain children1 st1 where step: "read_field env al c key (children, st) = Inr (children1, st1)"
    and rest: "read_fields_of env al c keys (children1, st1) = Inr (children', st')"
    by (auto simp: and_then_Inr_iff)
  from step have "st1 = st \<or> add_path key st = Inr st1"
    by (auto simp: read_field_def and_then_Inr_iff split: if_splits option.splits)
  moreover have "path_depth key \<le> Suc m" using Cons.prems(3) by simp
  ultimately have "\<forall>(k, nested)\<in>set st1. nested_within m nested"
    using add_path_within[of key st st1 m] Cons.prems(2) by blast
  then show ?case using Cons.IH[OF rest] Cons.prems(3) by simp
qed simp

lemma fields_scoped_within: "nested_within m nested \<Longrightarrow> \<forall>f\<in>set (fields_scoped_to nested c). path_depth f \<le> m"
proof (cases nested)
  case (Scoped_Fields entries)
  then show "nested_within m nested \<Longrightarrow> ?thesis"
    by (cases "map_of entries c") (force simp: fields_scoped_to_def dest: map_of_SomeD)+
qed (simp add: fields_scoped_to_def)

lemma returns_read_fields: "returns (read_fields_of env al c keys state)"
proof (induction keys arbitrary: state)
  case (Cons key keys)
  have "returns (add_path k st)" for k st
    by (auto simp: add_path_def add_nested_def Let_def intro!: returns_and_then split: option.split nested_fields.split)
  then have "returns (read_field env al c key state)"
    by (cases state) (auto simp: read_field_def alias_of_def intro!: returns_and_then split: option.split json.split)
  then show ?case using Cons.IH by (auto intro!: returns_and_then)
qed simp

section \<open>The aliases of nested queries\<close>

inductive inside :: "json \<Rightarrow> json \<Rightarrow> bool" for deep where
  whole: "inside deep deep"
| entry: "inside deep v \<Longrightarrow> (k, w) \<in> set (own_entries v) \<Longrightarrow> inside deep w"

definition plain_deep :: "json \<Rightarrow> bool" where
  "plain_deep deep \<longleftrightarrow> (\<forall>v. inside deep v \<longrightarrow> plain_aliases (js_get (getDeepQuery v) ''alias''))"

lemma plain_aliases_undefined [simp]: "plain_aliases JUndefined" "plain_aliases (JObj [])"
  by (simp_all add: plain_aliases_def alias_keys_def own_entries_def)

lemma inside_empty: "own_entries v = [] \<Longrightarrow> inside v w \<longleftrightarrow> w = v"
  by (auto intro: inside.intros elim: inside.induct)

lemma plain_deep_empty [simp]: "plain_deep JUndefined" "plain_deep (JObj [])"
  by (simp_all add: plain_deep_def inside_empty own_entries_def getDeepQuery_def)

lemma plain_deep_alias: "plain_deep deep \<Longrightarrow> plain_aliases (js_get (getDeepQuery deep) ''alias'')"
  unfolding plain_deep_def using inside.whole by blast

lemma plain_deep_prop: "plain_deep deep \<Longrightarrow> plain_deep (js_prop deep key)"
proof -
  assume deep: "plain_deep deep"
  show ?thesis
  proof (cases "js_prop deep key = JUndefined")
    case False
    then obtain es where "deep = JObj es" "map_of es key = Some (js_prop deep key)"
      by (cases deep) (auto simp: js_get_def split: option.splits)
    then have "(key, js_prop deep key) \<in> set (own_entries deep)" by (auto simp: own_entries_def dest: map_of_SomeD)
    then have start: "inside deep (js_prop deep key)" using inside.intros by blast
    have "inside (js_prop deep key) v \<Longrightarrow> inside deep v" for v
      by (induction rule: inside.induct) (use start inside.entry in blast)+
    then show ?thesis using deep unfolding plain_deep_def by blast
  qed simp
qed

lemma plain_deep_or_empty: "plain_deep deep \<Longrightarrow> plain_deep (or_empty deep)"
  by (simp add: or_empty_def)

text \<open>Reading a level leaves plain aliases behind.\<close>

definition keeps_aliases :: "level_parser \<Rightarrow> bool" where
  "keeps_aliases parse \<longleftrightarrow>
     (\<forall>al c fs deep nodes al'. parse al c fs deep = Inr (nodes, al') \<longrightarrow> plain_aliases al \<longrightarrow> plain_deep deep \<longrightarrow> plain_aliases al')"

lemma keeps_aliasesD:
  "keeps_aliases parse \<Longrightarrow> parse al c fs deep = Inr (nodes, al') \<Longrightarrow> plain_aliases al \<Longrightarrow> plain_deep deep \<Longrightarrow> plain_aliases al'"
  unfolding keeps_aliases_def by blast

lemma scoped_levels_aliases:
  "scoped_levels env parse nested deepOf cs al parts = Inr (parts', al') \<Longrightarrow> keeps_aliases parse \<Longrightarrow> plain_aliases al \<Longrightarrow>
     (\<And>c. plain_deep (deepOf c)) \<Longrightarrow> plain_aliases al'"
proof (induction cs arbitrary: al parts)
  case (Cons c cs)
  obtain children qs keys where parts: "parts = (children, qs, keys)" by (cases parts)
  from Cons.prems(1) obtain nodes al1 parts1 where "parse al c (fields_scoped_to nested c) (deepOf c) = Inr (nodes, al1)"
    and rest: "scoped_levels env parse nested deepOf cs al1 parts1 = Inr (parts', al')"
    by (auto simp: parts and_then_Inr_iff split: option.splits)
  then have "plain_aliases al1" using keeps_aliasesD[OF Cons.prems(2)] Cons.prems(3,4) by blast
  then show ?case using Cons.IH[OF rest Cons.prems(2)] Cons.prems(4) by blast
qed auto

lemma related_node_aliases:
  assumes "related_node env parse c r kind related key nested deep al = Inr (node, al')" "keeps_aliases parse"
    "plain_aliases al" "plain_deep deep"
  shows "plain_aliases al'"
proof -
  let ?level = "or_empty (js_prop deep key)"
  let ?renamed = "js_get (getDeepQuery ?level) ''alias''"
  have level: "plain_deep ?level" by (rule plain_deep_or_empty[OF plain_deep_prop[OF assms(4)]])
  have start: "plain_aliases (if own_entries ?renamed = [] then al else ?renamed)"
    using assms(3) plain_deep_alias[OF level] by simp
  from assms(1) consider "al' = al" | children where
      "nested_level parse (if own_entries ?renamed = [] then al else ?renamed) related nested ?level = Inr (children, al')"
    unfolding related_node_def by (auto simp: and_then_Inr_iff Let_def split: if_splits option.splits)
  then show ?thesis
  proof cases
    case 2
    then show ?thesis
      using start level keeps_aliasesD[OF assms(2)] by (cases nested) (auto simp: nested_level_def)
  qed (use assms(3) in simp)
qed

lemma nested_node_aliases:
  assumes "nested_node env parse c deep (key, nested) al = Inr (node, al')" "keeps_aliases parse" "plain_aliases al" "plain_deep deep"
  shows "plain_aliases al'"
proof -
  define out where "out = (Inr (node, al') :: request_error + tree_node option \<times> json)"
  have unresolved: "unresolved env (None, al) = out \<Longrightarrow> plain_aliases al'"
    using assms(3) by (simp add: unresolved_def out_def split: if_splits)
  have a2o: "a2o_node env parse c r key nested deep al = out \<Longrightarrow> plain_aliases al'" for r
    unfolding a2o_node_def out_def
    by (auto simp: and_then_Inr_iff Let_def plain_deep_prop assms(2-4) split: if_splits option.splits elim!: scoped_levels_aliases)
  have related: "related_node env parse c r kind related key nested deep al = out \<Longrightarrow> plain_aliases al'" for r kind related
    using related_node_aliases assms(2-4) unfolding out_def by blast
  from assms(1) obtain field where "(case getRelation env c field of
        None \<Rightarrow> unresolved env (None, al)
      | Some r \<Rightarrow>
          (case getRelationType r (JStr c) field of
             None \<Rightarrow> unresolved env (None, al)
           | Some Info_a2o \<Rightarrow> a2o_node env parse c r key nested deep al
           | Some kind \<Rightarrow>
               (case getRelatedCollection env c field of
                  None \<Rightarrow> unresolved env (None, al)
                | Some related \<Rightarrow> related_node env parse c r kind related key nested deep al))) = out"
    unfolding nested_node_def out_def by (auto simp: and_then_Inr_iff)
  then show ?thesis using unresolved a2o related by (simp split: option.splits info_type.splits)
qed

lemma nested_nodes_aliases:
  "nested_nodes env parse c deep st al = Inr (nodes, al') \<Longrightarrow> keeps_aliases parse \<Longrightarrow> plain_aliases al \<Longrightarrow> plain_deep deep \<Longrightarrow>
     plain_aliases al'"
proof (induction st arbitrary: al nodes)
  case (Cons entry st)
  obtain key nested where e: "entry = (key, nested)" by (cases entry)
  from Cons.prems(1) obtain node al1 rest where "nested_node env parse c deep (key, nested) al = Inr (node, al1)"
    and rest: "nested_nodes env parse c deep st al1 = Inr (rest, al')"
    by (auto simp: e and_then_Inr_iff)
  then have "plain_aliases al1" using nested_node_aliases Cons.prems(2-4) by blast
  then show ?case using Cons.IH[OF rest] Cons.prems(2,4) by blast
qed simp

lemma parseFields_aliases: "keeps_aliases (parseFields n wild env)"
proof (induction n)
  case (Suc n)
  have "plain_aliases al'"
    if "parseFields (Suc n) wild env al c fs deep = Inr (nodes, al')" "plain_aliases al" "plain_deep deep" for al c fs deep nodes al'
  proof -
    from that(1) obtain st nested where "nested_nodes env (parseFields n wild env) c deep st al = Inr (nested, al')"
      by (auto simp: and_then_Inr_iff)
    then show ?thesis using nested_nodes_aliases Suc that(2,3) by blast
  qed
  then show ?case unfolding keeps_aliases_def by blast
qed (simp add: keeps_aliases_def)

section \<open>Reading a tree returns\<close>

text \<open>A family of readers of a level, by their fuel, settles on paths of a depth.\<close>

definition levels_settle :: "nat \<Rightarrow> (nat \<Rightarrow> level_parser) \<Rightarrow> bool" where
  "levels_settle m parse \<longleftrightarrow>
     (\<forall>al c fs deep. plain_aliases al \<longrightarrow> plain_deep deep \<longrightarrow> (\<forall>f\<in>set fs. path_depth f \<le> m) \<longrightarrow> settles (\<lambda>n. parse n al c fs deep)) \<and>
     (\<forall>n. keeps_aliases (parse n))"

lemma levels_settleD:
  assumes "levels_settle m parse"
  shows "plain_aliases al \<Longrightarrow> plain_deep deep \<Longrightarrow> \<forall>f\<in>set fs. path_depth f \<le> m \<Longrightarrow> settles (\<lambda>n. parse n al c fs deep)"
    and "keeps_aliases (parse n)"
  using assms unfolding levels_settle_def by blast+

lemma scoped_levels_settle:
  assumes "levels_settle m parse" "nested_within m nested" "\<And>c. plain_deep (deepOf c)"
  shows "plain_aliases al \<Longrightarrow> settles (\<lambda>n. scoped_levels env (parse n) nested deepOf cs al parts)"
proof (induction cs arbitrary: al parts)
  case (Cons c cs)
  obtain children qs keys where parts: "parts = (children, qs, keys)" by (cases parts)
  let ?next = "\<lambda>(nodes, al1) n. (case te_collection env c of
      None \<Rightarrow> Inl Type_Error
    | Some co \<Rightarrow> scoped_levels env (parse n) nested deepOf cs al1
        (js_set c nodes children, js_set c (query_of (getDeepQuery (or_empty (deepOf c)))) qs, js_set c (co_primary co) keys))"
  have "settles (\<lambda>n. and_then (parse n al c (fields_scoped_to nested c) (deepOf c)) (\<lambda>v. ?next v n))"
  proof (rule settles_and_then)
    show "settles (\<lambda>n. parse n al c (fields_scoped_to nested c) (deepOf c))"
      by (rule levels_settleD(1)[OF assms(1) Cons.prems assms(3) fields_scoped_within[OF assms(2)]])
    fix v n assume v: "parse n al c (fields_scoped_to nested c) (deepOf c) = Inr v"
    obtain nodes al1 where v': "v = (nodes, al1)" by (cases v)
    have "plain_aliases al1"
      by (rule keeps_aliasesD[OF levels_settleD(2)[OF assms(1)] v[unfolded v'] Cons.prems assms(3)])
    then show "settles (?next v)" using Cons.IH by (cases "te_collection env c") (simp_all add: v')
  qed
  then show ?case by (simp add: parts case_prod_unfold)
qed simp

lemma returns_with_sort: "returns (with_sort env kind r q)"
  by (auto simp: with_sort_def split: option.split list.split)

lemma related_node_settles:
  assumes "levels_settle m parse" "nested_within m nested" "plain_aliases al" "plain_deep deep"
  shows "settles (\<lambda>n. related_node env (parse n) c r kind related key nested deep al)"
proof -
  let ?level = "or_empty (js_prop deep key)"
  let ?deepQuery = "getDeepQuery ?level"
  let ?renamed = "js_get ?deepQuery ''alias''"
  let ?al = "if own_entries ?renamed = [] then al else ?renamed"
  have level: "plain_deep ?level" by (rule plain_deep_or_empty[OF plain_deep_prop[OF assms(4)]])
  have start: "plain_aliases ?al" using assms(3) plain_deep_alias[OF level] by simp
  have nested: "settles (\<lambda>n. nested_level (parse n) ?al related nested ?level)"
  proof (cases nested)
    case (Plain_Fields fs)
    then show ?thesis using levels_settleD(1)[OF assms(1) start level] assms(2) by (simp add: nested_level_def)
  qed (simp add: nested_level_def)
  show ?thesis
  proof (cases "te_strict env \<and> te_collection env related = None")
    case True
    then show ?thesis by (simp add: related_node_def)
  next
    case strict: False
    show ?thesis
    proof (cases "permitted env related")
      case False
      show ?thesis unfolding related_node_def if_not_P[OF strict] if_P[OF False] by simp
    next
      case True
      then have not_not: "\<not> \<not> permitted env related" by simp
      note unfold = related_node_def if_not_P[OF strict] if_not_P[OF not_not] Let_def
    show ?thesis
    proof (cases "te_collection env c = None \<or> te_collection env related = None")
      case True
      then show ?thesis unfolding unfold by (cases "te_collection env c"; cases "te_collection env related") simp_all
    next
      case collections: False
      then obtain pc rc where pc: "te_collection env c = Some pc" "te_collection env related = Some rc" by auto
      have "settles (\<lambda>n. and_then (nested_level (parse n) ?al related nested ?level) (\<lambda>(children, al'').
          and_then (with_sort env kind r ?deepQuery) (\<lambda>q.
            Inr (Some (Tree_Nested kind related children (query_of q) key r (co_primary pc) (co_primary rc)), al''))))"
        by (rule settles_then[OF nested]) (auto intro!: returns_and_then returns_with_sort)
      then show ?thesis unfolding unfold pc option.case prod.case by simp
    qed
    qed
  qed
qed

lemma nested_node_settles:
  assumes "levels_settle m parse" "nested_within m nested" "plain_aliases al" "plain_deep deep"
  shows "settles (\<lambda>n. nested_node env (parse n) c deep (key, nested) al)"
proof -
  have unresolved: "returns (unresolved env v)" for v :: "tree_node option \<times> json"
    by (simp add: unresolved_def)
  have levels: "settles (\<lambda>n. scoped_levels env (parse n) nested (\<lambda>c. js_prop deep (scoped_key key c)) cs al ([], [], []))" for cs
    by (rule scoped_levels_settle[OF assms(1,2) plain_deep_prop[OF assms(4)] assms(3)])
  have a2o: "settles (\<lambda>n. a2o_node env (parse n) c r key nested deep al)" for r
  proof (cases "te_strict env \<and> scopes_unresolved env nested (allowed_collections env r)")
    case False
    show ?thesis
    proof (cases "te_collection env c")
      case (Some pc)
      have "settles (\<lambda>n. and_then
          (scoped_levels env (parse n) nested (\<lambda>c. js_prop deep (scoped_key key c)) (allowed_collections env r) al ([], [], []))
          (\<lambda>((children, queries, keys), al').
            Inr (Some (Tree_A2O (allowed_collections env r) children queries key r (co_primary pc) keys), al')))"
        by (rule settles_then[OF levels]) (simp add: case_prod_unfold)
      then show ?thesis unfolding a2o_node_def Let_def if_not_P[OF False] Some option.case .
    next
      case None
      show ?thesis unfolding a2o_node_def Let_def if_not_P[OF False] None by simp
    qed
  qed (simp add: a2o_node_def Let_def)
  show ?thesis unfolding nested_node_def prod.case
  proof (rule settles_first, goal_cases)
    case 1
    show ?case by (auto simp: alias_of_def split: option.split json.split)
  next
    case (2 v)
    show ?case
    proof (cases "getRelation env c v")
      case r: (Some r)
      show ?thesis
      proof (cases "getRelationType r (JStr c) v")
        case (Some kind)
        then show ?thesis
          by (cases kind; cases "getRelatedCollection env c v")
            (simp_all add: r unresolved a2o related_node_settles[OF assms])
      qed (simp add: r unresolved)
    qed (simp add: unresolved)
  qed
qed

lemma nested_nodes_settle:
  assumes "levels_settle m parse" "plain_deep deep"
  shows "plain_aliases al \<Longrightarrow> \<forall>(key, nested)\<in>set st. nested_within m nested \<Longrightarrow>
    settles (\<lambda>n. nested_nodes env (parse n) c deep st al)"
proof (induction st arbitrary: al)
  case (Cons entry st)
  obtain key nested where e: "entry = (key, nested)" by (cases entry)
  let ?join = "\<lambda>node. \<lambda>(nodes, al''). Inr ((case node of None \<Rightarrow> nodes | Some child \<Rightarrow> child # nodes), al'')"
  let ?next = "\<lambda>(node, al1) n. and_then (nested_nodes env (parse n) c deep st al1) (?join node)"
  have "settles (\<lambda>n. and_then (nested_node env (parse n) c deep entry al) (\<lambda>v. ?next v n))"
  proof (rule settles_and_then)
    show "settles (\<lambda>n. nested_node env (parse n) c deep entry al)"
      unfolding e using nested_node_settles[OF assms(1) _ Cons.prems(1) assms(2)] Cons.prems(2) e by simp
    fix v n assume v: "nested_node env (parse n) c deep entry al = Inr v"
    obtain node al1 where v': "v = (node, al1)" by (cases v)
    have "plain_aliases al1"
      by (rule nested_node_aliases[OF v[unfolded v' e] levels_settleD(2)[OF assms(1)] Cons.prems(1) assms(2)])
    then have "settles (\<lambda>n. nested_nodes env (parse n) c deep st al1)" using Cons.IH Cons.prems(2) by simp
    then show "settles (?next v)" unfolding v' prod.case by (rule settles_then) (simp add: case_prod_unfold)
  qed
  then show ?case by (simp add: case_prod_unfold)
qed simp

lemma level_settles:
  assumes "plain_names env" "plain_aliases al" "plain_deep deep"
    and "\<And>st. \<forall>(key, nested)\<in>set st. nested_within m nested \<Longrightarrow> settles (\<lambda>n. nested_nodes env (parse n) c deep st al)"
    and "\<forall>f\<in>set fs. path_depth f \<le> Suc m"
  shows "settles (\<lambda>wild. and_then (convertWildcards wild env al c fs) (\<lambda>keys.
     and_then (read_fields_of env al c keys ([], [])) (\<lambda>(children, st).
     and_then (nested_nodes env (parse wild) c deep st al) (\<lambda>(nested, al').
       Inr (without_duplicates (children @ nested), al')))))"
proof (rule settles_and_then[OF wildcards_settle[OF assms(1,2)]])
  fix keys n assume "convertWildcards n env al c fs = Inr keys"
  then have keys: "\<forall>key\<in>set keys. path_depth key \<le> Suc m" by (rule wildcards_depth[OF _ assms(1,2,5)])
  show "settles (\<lambda>n. and_then (read_fields_of env al c keys ([], [])) (\<lambda>(children, st).
     and_then (nested_nodes env (parse n) c deep st al) (\<lambda>(nested, al'). Inr (without_duplicates (children @ nested), al'))))"
    unfolding case_prod_unfold
  proof (rule settles_first[OF returns_read_fields])
    fix v assume v: "read_fields_of env al c keys ([], []) = Inr v"
    obtain children st where v': "v = (children, st)" by (cases v)
    have "\<forall>(k, nested)\<in>set st. nested_within m nested"
      by (rule read_fields_within[OF v[unfolded v'] _ keys]) simp
    from assms(4)[OF this] show "settles (\<lambda>n. and_then (nested_nodes env (parse n) c deep (snd v) al)
        (\<lambda>p. Inr (without_duplicates (fst v @ fst p), snd p)))"
      unfolding v' snd_conv by (rule settles_then) simp
  qed
qed

lemma parseFields_settles:
  assumes "plain_names env"
  shows "levels_settle n (\<lambda>wild. parseFields (Suc n) wild env)"
proof (induction n)
  case 0
  have "settles (\<lambda>wild. parseFields (Suc 0) wild env al c fs deep)" if "plain_aliases al" "\<forall>f\<in>set fs. path_depth f \<le> 0" for al c fs deep
  proof -
    have "path_depth f \<noteq> 0" for f using path_depth_pos[of f] by simp
    then have "fs = []" using that(2) by (metis le_zero_eq list.set_intros(1) neq_Nil_conv)
    then have "convertWildcards wild env al c fs = Inr [] \<or> (\<forall>w. convertWildcards w env al c fs = Inl Type_Error)" for wild
      by (auto simp: convertWildcards_def Let_def split: option.splits list.splits)
    then consider "\<forall>w. convertWildcards w env al c fs = Inr []" | "\<forall>w. convertWildcards w env al c fs = Inl Type_Error" by metis
    then show ?thesis by cases simp_all
  qed
  then show ?case unfolding levels_settle_def using parseFields_aliases by blast
next
  case (Suc n)
  have "settles (\<lambda>wild. parseFields (Suc (Suc n)) wild env al c fs deep)"
    if "plain_aliases al" "plain_deep deep" "\<forall>f\<in>set fs. path_depth f \<le> Suc n" for al c fs deep
    unfolding parseFields.simps(2)[of "Suc n"]
    by (rule level_settles[OF assms that(1,2) nested_nodes_settle[OF Suc that(2,1)] that(3)])
  then show ?case unfolding levels_settle_def using parseFields_aliases by blast
qed

section \<open>Returning, and not\<close>



end
