(* ===== verification/Tree_Default.thy ===== *)
theory Tree_Default
  imports Tree_Reading
begin

text \<open>
  The composition of building a tree and authorizing it: the tree that a restricted caller gets for the default selection
  passes the check of its fields.
\<close>

section \<open>The default selection\<close>

text \<open>Reading no fields gives no nodes.\<close>

lemma parse_no_fields: "parseFields n wild env al c [] deep = Inr (nodes, al') \<Longrightarrow> nodes = [] \<and> al' = al"
proof (cases n)
  case (Suc m)
  moreover have "convertWildcards wild env al c [] = Inr keys \<Longrightarrow> keys = []" for keys
    by (auto simp: convertWildcards_def Let_def split: option.splits list.splits)
  ultimately show "parseFields n wild env al c [] deep = Inr (nodes, al') \<Longrightarrow> nodes = [] \<and> al' = al"
    by (auto simp: and_then_Inr_iff without_duplicates_def)
qed simp

fun no_paths :: "nested_fields \<Rightarrow> bool" where
  "no_paths (Plain_Fields fs) \<longleftrightarrow> fs = []"
| "no_paths (Scoped_Fields entries) \<longleftrightarrow> (\<forall>e\<in>set entries. snd e = [])"

lemma no_paths_scoped: "no_paths nested \<Longrightarrow> fields_scoped_to nested c = []"
proof (cases nested)
  case (Scoped_Fields entries)
  then show "no_paths nested \<Longrightarrow> ?thesis"
    by (cases "map_of entries c") (force simp: fields_scoped_to_def dest: map_of_SomeD)+
qed (simp add: fields_scoped_to_def)

lemma read_plain_fields:
  "read_fields_of env JUndefined c keys (children, st) = Inr (children', st') \<Longrightarrow> \<forall>key\<in>set keys. plain_name key \<Longrightarrow>
     \<forall>(k, nested)\<in>set st. no_paths nested \<Longrightarrow>
     (\<forall>(k, nested)\<in>set st'. no_paths nested) \<and>
     set children' \<subseteq> set children \<union> (\<lambda>key. Tree_Field key key) ` set keys \<union> {x. \<exists>a b d. x = Tree_Function a b d}"
proof (induction keys arbitrary: children st)
  case (Cons key keys)
  from Cons.prems(1) obtain children1 st1 where step: "read_field env JUndefined c key (children, st) = Inr (children1, st1)"
    and rest: "read_fields_of env JUndefined c keys (children1, st1) = Inr (children', st')"
    by (auto simp: and_then_Inr_iff)
  have key: "plain_name key" using Cons.prems(2) by simp
  have "no_paths nested" if "add_path key st = Inr st2" "(k, nested) \<in> set st2" for st2 k nested
    using that key Cons.prems(3)
    by (auto simp: add_path_def add_nested_def Let_def dest!: set_js_set map_of_SomeD split: option.splits list.splits if_splits; fastforce)
  then have st1: "\<forall>(k, nested)\<in>set st1. no_paths nested"
    using step Cons.prems(3) by (auto simp: read_field_def alias_of_def and_then_Inr_iff split: if_splits option.splits)
  have "set children1 \<subseteq> set children \<union> {Tree_Field key key} \<union> {x. \<exists>a b d. x = Tree_Function a b d}"
    using step by (auto simp: read_field_def alias_of_def and_then_Inr_iff split: if_splits option.splits)
  moreover have "(\<forall>(k, nested)\<in>set st'. no_paths nested) \<and>
     set children' \<subseteq> set children1 \<union> (\<lambda>key. Tree_Field key key) ` set keys \<union> {x. \<exists>a b d. x = Tree_Function a b d}"
    using Cons.IH[OF rest _ st1] Cons.prems(2) by simp
  ultimately show ?case by auto
qed simp

lemma expand_plain: "expand_wildcards m (expansion env al c all allowed) gs = Inr ks \<Longrightarrow> \<forall>g\<in>set gs. plain_name g \<Longrightarrow> ks = gs"
  by (induction m "expansion env al c all allowed" gs arbitrary: ks rule: expand_wildcards.induct) (auto simp: and_then_Inr_iff)

lemma default_keys:
  assumes "convertWildcards n env JUndefined c [''*''] = Inr keys" "plain_names env" "te_permissions env = Some ps"
    "permission_for ps c = Some p" "pm_fields p = Some fs"
  shows "(\<forall>key\<in>set keys. plain_name key) \<and> (''*'' \<notin> set fs \<longrightarrow> set keys \<subseteq> set fs)"
proof (cases fs)
  case Nil
  then show ?thesis using assms(1,3-5)
    by (auto simp: convertWildcards_def allowed_for_wildcards_def Let_def split: option.splits)
next
  case (Cons field others)
  from assms(1) obtain co where co: "te_collection env c = Some co" by (cases "te_collection env c") (simp_all add: convertWildcards_def)
  let ?all = "map fst (co_fields co)"
  let ?allowed = "if field = ''*'' then ?all else field # others"
  let ?X = "all_fields JUndefined ?all ?allowed"
  let ?expands = "expansion env JUndefined c ?all ?allowed"
  have plain: "\<forall>f\<in>set ?all. plain_name f" "\<forall>f\<in>set fs. f = ''*'' \<or> plain_name f"
    using allowed_plain[OF assms(2) co, of fs] assms(3-5) by (auto simp: allowed_for_wildcards_def)
  have X: "\<forall>f\<in>set ?X. plain_name f"
    using plain by (auto simp: all_fields_def alias_keys_def own_entries_def Cons)
  have subset: "''*'' \<notin> set fs \<Longrightarrow> set ?X \<subseteq> set fs"
    by (auto simp: all_fields_def alias_keys_def own_entries_def Cons)
  have "expand_wildcards n ?expands [''*''] = Inr keys"
    using assms(1,3-5) co Cons by (simp add: convertWildcards_def allowed_for_wildcards_def Let_def)
  moreover have "?expands ''*'' = Some ?X" by (simp add: expansion_def)
  ultimately obtain m where m: "(case ?X of [] \<Rightarrow> Inr [] | passed # fs' \<Rightarrow>
      and_then (expand_wildcards m ?expands fs') (\<lambda>rest. Inr (passed # rest))) = Inr keys"
    by (cases n) simp_all
  have "keys = ?X"
  proof (cases ?X)
    case (Cons passed fs')
    have plain': "\<forall>f\<in>set fs'. plain_name f" using X unfolding Cons by simp
    from m[unfolded Cons list.case] obtain rest where rest: "expand_wildcards m ?expands fs' = Inr rest" "keys = passed # rest"
      by (elim and_then_InrE) simp
    show ?thesis unfolding Cons rest(2) expand_plain[OF rest(1) plain'] ..
  next
    case Nil
    show ?thesis using m[unfolded Nil list.case] unfolding Nil by simp
  qed
  then show ?thesis using X subset by blast
qed

text \<open>A node that selects no fields, of collections the caller has permissions for.\<close>

fun bare :: "tree_env \<Rightarrow> tree_node \<Rightarrow> bool" where
  "bare env (Tree_Nested kind name children q key r pk rk) \<longleftrightarrow> children = [] \<and> qy_aggregate q = JUndefined \<and> permitted env name"
| "bare env (Tree_A2O cs children qs key r pk rks) \<longleftrightarrow>
     (\<forall>e\<in>set children. snd e = [] \<and> fst e \<in> set cs \<and> permitted env (fst e)) \<and> (\<forall>e\<in>set qs. qy_aggregate (snd e) = JUndefined)"
| "bare env x \<longleftrightarrow> False"

lemma empty_deep [simp]:
  "js_prop (JObj []) key = JUndefined" "or_empty JUndefined = JObj []" "or_empty (JObj []) = JObj []" "getDeepQuery (JObj []) = []"
  "qy_aggregate (query_of []) = JUndefined"
  by (simp_all add: or_empty_def getDeepQuery_def query_of_def)

lemma scoped_levels_bare:
  "scoped_levels env (parseFields n wild env) nested (\<lambda>c. JUndefined) cs al (children, qs, keys) = Inr ((children', qs', keys'), al') \<Longrightarrow>
     no_paths nested \<Longrightarrow> \<forall>e\<in>set children. snd e = [] \<and> fst e \<in> S \<Longrightarrow> \<forall>e\<in>set qs. qy_aggregate (snd e) = JUndefined \<Longrightarrow> set cs \<subseteq> S \<Longrightarrow>
     al' = al \<and> (\<forall>e\<in>set children'. snd e = [] \<and> fst e \<in> S) \<and> (\<forall>e\<in>set qs'. qy_aggregate (snd e) = JUndefined)"
proof (induction cs arbitrary: children qs keys)
  case (Cons c cs)
  let ?rest = "\<lambda>v co. scoped_levels env (parseFields n wild env) nested (\<lambda>c. JUndefined) cs (snd v)
      (js_set c (fst v) children, js_set c (query_of []) qs, js_set c (co_primary co) keys)"
  obtain v where v: "parseFields n wild env al c (fields_scoped_to nested c) JUndefined = Inr v"
      "(case te_collection env c of None \<Rightarrow> Inl Type_Error | Some co \<Rightarrow> ?rest v co) = Inr ((children', qs', keys'), al')"
    using Cons.prems(1) unfolding scoped_levels.simps empty_deep by (auto simp: and_then_Inr_iff case_prod_unfold)
  obtain co where co: "te_collection env c = Some co" using v(2) by (cases "te_collection env c") simp_all
  have rest: "?rest v co = Inr ((children', qs', keys'), al')" using v(2) by (simp add: co)
  define nodes where "nodes = fst v"
  have none: "nodes = []" "snd v = al"
    using parse_no_fields[of n wild env al c JUndefined "fst v" "snd v"] v(1) no_paths_scoped[OF Cons.prems(2)]
    by (simp_all add: nodes_def)
  note rest = rest[unfolded none(2), folded nodes_def]
  have "\<forall>e\<in>set (js_set c nodes children). snd e = [] \<and> fst e \<in> S"
    using set_js_set Cons.prems(3,5) none by fastforce
  moreover have "\<forall>e\<in>set (js_set c (query_of []) qs). qy_aggregate (snd e) = JUndefined"
    using set_js_set[of _ c "query_of []" qs] Cons.prems(4) by fastforce
  ultimately show ?case using Cons.IH[OF rest Cons.prems(2)] Cons.prems(5) by simp
qed simp

lemma nested_node_bare:
  assumes "nested_node env (parseFields n wild env) c (JObj []) (key, nested) JUndefined = Inr (node, al')" "no_paths nested"
  shows "al' = JUndefined \<and> (\<forall>x. node = Some x \<longrightarrow> bare env x)"
proof -
  let ?parse = "parseFields n wild env"
  define out where "out = (Inr (node, al') :: request_error + tree_node option \<times> json)"
  have unresolved: "unresolved env (None, JUndefined) = out \<Longrightarrow> ?thesis"
    by (auto simp: unresolved_def out_def split: if_splits)
  have a2o: ?thesis if given: "a2o_node env ?parse c r key nested (JObj []) JUndefined = out" for r
  proof -
    let ?levels = "scoped_levels env ?parse nested (\<lambda>c. JUndefined) (allowed_collections env r) JUndefined ([], [], [])"
    obtain pc where pc0: "te_collection env c = Some pc"
    proof (cases "te_collection env c")
      case None
      then show thesis using given by (auto simp: a2o_node_def Let_def out_def split: if_splits)
    qed
    have pc: "and_then ?levels (\<lambda>((children, queries, keys), alias').
        Inr (Some (Tree_A2O (allowed_collections env r) children queries key r (co_primary pc) keys), alias')) = out"
      using given unfolding a2o_node_def Let_def pc0 option.case empty_deep by (simp add: out_def split: if_splits)
    then obtain v where v: "?levels = Inr v" by (cases ?levels) (simp_all add: out_def)
    obtain children qs keys al1 where "v = ((children, qs, keys), al1)" by (cases v) auto
    with v pc have levels: "?levels = Inr ((children, qs, keys), al')"
        "node = Some (Tree_A2O (allowed_collections env r) children qs key r (co_primary pc) keys)"
      by (simp_all add: out_def)
    have "\<forall>c\<in>set (allowed_collections env r). permitted env c" by (auto simp: allowed_collections_def split: option.split)
    then show ?thesis
      using scoped_levels_bare[OF levels(1) assms(2), of "set (allowed_collections env r)"] by (auto simp: levels(2))
  qed
  have level: "nested_level ?parse JUndefined related nested (JObj []) = Inr (children, al'') \<Longrightarrow> children = [] \<and> al'' = JUndefined"
    for related children al'' using parse_no_fields assms(2) by (cases nested) (auto simp: nested_level_def)
  have "with_sort env kind r [] = Inr q \<Longrightarrow> qy_aggregate (query_of q) = JUndefined" for kind r q
    by (auto simp: with_sort_def query_of_def split: if_splits option.splits list.splits)
  then have related: ?thesis if "related_node env ?parse c r kind related key nested (JObj []) JUndefined = out" for r kind related
    using that level unfolding related_node_def out_def
    by (auto simp: and_then_Inr_iff Let_def own_entries_def split: if_splits option.splits)
  from assms(1) have "(case getRelation env c key of
        None \<Rightarrow> unresolved env (None, JUndefined)
      | Some r \<Rightarrow>
          (case getRelationType r (JStr c) key of
             None \<Rightarrow> unresolved env (None, JUndefined)
           | Some Info_a2o \<Rightarrow> a2o_node env ?parse c r key nested (JObj []) JUndefined
           | Some kind \<Rightarrow>
               (case getRelatedCollection env c key of
                  None \<Rightarrow> unresolved env (None, JUndefined)
                | Some related \<Rightarrow> related_node env ?parse c r kind related key nested (JObj []) JUndefined))) = out"
    unfolding nested_node_def out_def by (simp add: alias_of_def)
  then show ?thesis using unresolved a2o related by (simp split: option.splits info_type.splits)
qed

lemma nested_nodes_bare:
  "nested_nodes env (parseFields n wild env) c (JObj []) st JUndefined = Inr (nodes, al') \<Longrightarrow>
     \<forall>(k, nested)\<in>set st. no_paths nested \<Longrightarrow> \<forall>x\<in>set nodes. bare env x"
proof (induction st arbitrary: nodes)
  case (Cons entry st)
  obtain key nested where e: "entry = (key, nested)" by (cases entry)
  from Cons.prems(1) obtain node al1 rest where node: "nested_node env (parseFields n wild env) c (JObj []) (key, nested) JUndefined = Inr (node, al1)"
    and rest: "nested_nodes env (parseFields n wild env) c (JObj []) st al1 = Inr (rest, al')"
    and nodes: "nodes = (case node of None \<Rightarrow> rest | Some child \<Rightarrow> child # rest)"
    by (auto simp: e and_then_Inr_iff)
  have "no_paths nested" using Cons.prems(2) by (simp add: e)
  from nested_node_bare[OF node this] have al1: "al1 = JUndefined" "\<forall>x. node = Some x \<longrightarrow> bare env x" by simp_all
  then show ?case using Cons.IH[OF rest[unfolded al1(1)]] Cons.prems(2) by (auto simp: nodes split: option.splits)
qed simp


section \<open>Permissions of a tree\<close>

lemma find_uniqWith:
  assumes "\<And>x y. eq x y \<Longrightarrow> Q x = Q y"
  shows "find Q (uniqWith eq acc xs) = find Q (acc @ xs)"
proof (induction xs arbitrary: acc)
  case (Cons x xs)
  show ?case
  proof (cases "list_ex (eq x) acc")
    case True
    then have "Q x \<Longrightarrow> \<exists>y\<in>set acc. Q y" using assms by (auto simp: list_ex_iff)
    then have "find Q (acc @ xs) = find Q (acc @ x # xs)" by (induction acc) auto
    then show ?thesis using Cons.IH[of acc] True by simp
  qed (use Cons.IH[of "acc @ [x]"] in simp)
qed simp

lemma find_filter: "(\<And>x. Q x \<Longrightarrow> P x) \<Longrightarrow> find Q (filter P xs) = find Q xs"
  by (induction xs) auto

text \<open>For a collection of the tree, the permissions the tree is authorized with give the one that built it.\<close>

lemma permission_of_tree:
  assumes "c \<in> set (map fst (getCollectionsFromAST a))"
  shows "permission_for (permissionsForCollections action a accountability) c =
    permission_for (filter (\<lambda>p. pm_action p = action) (permissions_of accountability)) c"
proof -
  let ?ps = "filter (\<lambda>p. pm_action p = action \<and> pm_collection p \<in> set (map fst (getCollectionsFromAST a))) (permissions_of accountability)"
  have "permission_for (permissionsForCollections action a accountability) c = permission_for ?ps c"
    unfolding permission_for_def permissionsForCollections_def
    by (subst find_uniqWith) auto
  also have "?ps = filter (\<lambda>p. pm_collection p \<in> set (map fst (getCollectionsFromAST a)))
      (filter (\<lambda>p. pm_action p = action) (permissions_of accountability))"
    by (simp add: conj_commute)
  also have "permission_for \<dots> c = permission_for (filter (\<lambda>p. pm_action p = action) (permissions_of accountability)) c"
    unfolding permission_for_def by (rule find_filter) (use assms in auto)
  finally show ?thesis .
qed

lemma permitted_permission:
  "permitted env c \<Longrightarrow> te_permissions env = Some ps \<Longrightarrow> permission_for ps c \<noteq> None"
  by (auto simp: permitted_def permission_for_def find_None_iff)

lemma child_collections_mem: "x \<in> set nodes \<Longrightarrow> \<not> is_field x \<Longrightarrow> set (nested_collections x) \<subseteq> set (child_collections nodes)"
proof (induction nodes)
  case (Cons y ys)
  then show ?case by (cases y) auto
qed simp

lemma bare_validates:
  assumes "bare env x" "\<And>c. permitted env c \<Longrightarrow> c \<in> set (map fst (nested_collections (node_of x))) \<Longrightarrow> permission_for ps c \<noteq> None"
  shows "validateFields ps (node_of x) = Inr ()"
proof (cases x)
  case (Tree_Nested kind name children q key r pk rk)
  then show ?thesis using assms by (auto simp: checkAggregate_def)
next
  case (Tree_A2O cs children qs key r pk rks)
  let ?entries = "map (\<lambda>(c, nodes). (c, map node_of nodes)) children"
  have "qy_aggregate q = JUndefined" if "map_of qs c = Some q" for c q
    using that assms(1) map_of_SomeD[OF that] by (force simp: Tree_A2O)
  then have agg: "(case map_of qs c of None \<Rightarrow> JUndefined | Some q \<Rightarrow> qy_aggregate q) = JUndefined" for c
    by (simp split: option.split)
  have "checkEntries ps qs (map (\<lambda>(c, nodes). (c, map node_of nodes)) es) = Inr ()"
    if "\<forall>e\<in>set es. snd e = [] \<and> permission_for ps (fst e) \<noteq> None" for es
    using that by (induction es) (auto simp: agg checkAggregate_def)
  moreover have "\<forall>e\<in>set children. snd e = [] \<and> permission_for ps (fst e) \<noteq> None"
    using assms by (auto simp: Tree_A2O)
  ultimately show ?thesis by (simp add: Tree_A2O)
qed (use assms(1) in simp_all)

lemma checkChildren_each:
  "checkChildren ps allowed nodes = Inr () \<longleftrightarrow>
     (\<forall>x\<in>set nodes. if is_field x then \<forall>name key. x = Field_Node name key \<longrightarrow> ''*'' \<in> set allowed \<or> stripFunction name \<in> set allowed
        else validateFields ps x = Inr ())"
proof (induction nodes)
  case (Cons x nodes)
  then show ?case by (cases x) (auto simp: and_then_Inr_iff)
qed simp

text \<open>C14: a restricted caller whose query names no fields, aliases, nested queries or aggregates gets a tree that passes the check of
  its fields: wildcards select only what the permission lists, and nested nodes only collections with a permission.\<close>

theorem default_query_allowed:
  assumes "getASTFromQuery n wild collection q schema (Some accountability) action False = Inr t" "\<not> ac_admin accountability"
    and "selected_fields q = [JStr ''*'']"
    and "js_get q ''alias'' = JUndefined" "js_get q ''deep'' = JUndefined" "js_get q ''aggregate'' = JUndefined"
    and "plain_names (root_env schema (Some accountability) action False)"
    and "permission_for (filter (\<lambda>p. pm_action p = action) (permissions_of (Some accountability))) collection = Some p"
    and "pm_fields p = Some allowed" "\<forall>field\<in>set allowed. CHR ''('' \<notin> set field"
  shows "validateFields (permissionsForCollections action (ast_of t) (Some accountability)) (root_node (ast_of t)) = Inr ()"
proof -
  let ?env = "root_env schema (Some accountability) action False"
  let ?ps = "filter (\<lambda>p. pm_action p = action) (permissions_of (Some accountability))"
  let ?requested = "permissionsForCollections action (ast_of t) (Some accountability)"
  have ps: "te_permissions ?env = Some ?ps" using assms(2) by (simp add: tree_permissions_def is_admin_def)
  obtain q' al where q': "with_initial_sort ?env (Some accountability) collection (js_delete ''deep'' (js_delete ''fields'' q)) = Inr q'"
    and level: "parseFields n wild ?env JUndefined collection [''*''] (JObj []) = Inr (tr_children t, al)"
    and t: "tr_name t = collection" "tr_query t = (query_of q')\<lparr>qy_alias := al\<rparr>"
    using assms(1) unfolding getASTFromQuery_def Let_def assms(3-5)
    by (elim and_then_InrE) (auto simp: field_text_def and_then_Inr_iff or_empty_def)
  have "js_get q' ''aggregate'' = JUndefined" using q' assms(6)
    by (auto simp: with_initial_sort_def and_then_Inr_iff split: if_splits option.splits)
  then have agg: "qy_aggregate (tr_query t) = JUndefined" by (simp add: t query_of_def)
  obtain m where n: "n = Suc m" using level by (cases n) simp_all
  from level obtain keys children st nested where keys: "convertWildcards wild ?env JUndefined collection [''*''] = Inr keys"
    and fields: "read_fields_of ?env JUndefined collection keys ([], []) = Inr (children, st)"
    and nodes: "nested_nodes ?env (parseFields m wild ?env) collection (JObj []) st JUndefined = Inr (nested, al)"
    and all: "tr_children t = without_duplicates (children @ nested)"
    unfolding n by (auto simp: and_then_Inr_iff)
  note key_facts = default_keys[OF keys assms(7) ps assms(8,9)]
  from read_plain_fields[OF fields] key_facts have st: "\<forall>(k, nested)\<in>set st. no_paths nested"
    and own: "set children \<subseteq> (\<lambda>key. Tree_Field key key) ` set keys \<union> {x. \<exists>a b d. x = Tree_Function a b d}" by auto
  have child: "x \<in> (\<lambda>key. Tree_Field key key) ` set keys \<or> (\<exists>a b d. x = Tree_Function a b d) \<or> bare ?env x" if "x \<in> set (tr_children t)" for x
    using that own nested_nodes_bare[OF nodes st] by (auto simp: all without_duplicates_def Let_def)
  have known: "permission_for ?requested c = permission_for ?ps c" if "c \<in> set (map fst (getCollectionsFromAST (ast_of t)))" for c
    by (rule permission_of_tree[OF that])
  have "permission_for ?requested collection = Some p"
    using known[of collection] assms(8) by (simp add: getCollectionsFromAST_def ast_of_def t)
  moreover have "checkChildren ?requested allowed (map node_of (tr_children t)) = Inr ()"
    unfolding checkChildren_each
  proof
    fix y assume "y \<in> set (map node_of (tr_children t))"
    then obtain x where x: "x \<in> set (tr_children t)" "y = node_of x" by auto
    from child[OF x(1)] consider key where "x = Tree_Field key key" "key \<in> set keys" | a b d where "x = Tree_Function a b d" | "bare ?env x"
      by auto
    then show "if is_field y then \<forall>name key. y = Field_Node name key \<longrightarrow> ''*'' \<in> set allowed \<or> stripFunction name \<in> set allowed
        else validateFields ?requested y = Inr ()"
    proof cases
      case 1
      have "stripFunction key \<in> set allowed" if "''*'' \<notin> set allowed"
        using key_facts that 1(2) assms(10) by (auto simp: stripFunction_def)
      then show ?thesis by (auto simp: x 1)
    next
      case 3
      then have "\<not> is_field y" by (cases x) (simp_all add: x)
      then have "set (nested_collections y) \<subseteq> set (getCollectionsFromAST (ast_of t))"
        using child_collections_mem[of y "map node_of (tr_children t)"] x by (auto simp: getCollectionsFromAST_def ast_of_def)
      then have "permission_for ?requested c \<noteq> None" if "permitted ?env c" "c \<in> set (map fst (nested_collections y))" for c
        using known[of c] permitted_permission[OF that(1) ps] that(2) by fastforce
      then have "validateFields ?requested y = Inr ()" using bare_validates[OF 3] unfolding x(2) by blast
      then show ?thesis using \<open>\<not> is_field y\<close> by simp
    qed (simp add: x)
  qed
  ultimately show ?thesis
    by (simp add: root_node_def ast_of_def t assms(9) checkAggregate_def agg[unfolded t])
qed

definition reader :: accountability where
  "reader = \<lparr>ac_admin = False, ac_role = Some ''reader'', ac_permissions = Some
     [\<lparr>pm_id = JInt 1, pm_system = JUndefined, pm_collection = ''authors'', pm_action = ''read'', pm_role = Some ''reader'',
       pm_permissions = JNull, pm_validation = JNull, pm_fields = Some [''name''], pm_presets = JNull\<rparr>]\<rparr>"

lemma default_query_allowed_witness:
  "\<exists>t. getASTFromQuery 1 5 ''authors'' [] library_schema (Some reader) ''read'' False = Inr t \<and>
     validateFields (permissionsForCollections ''read'' (ast_of t) (Some reader)) (root_node (ast_of t)) = Inr ()"
proof -
  have "map_sum (\<lambda>e. e) (\<lambda>t. ()) (getASTFromQuery 1 5 ''authors'' [] library_schema (Some reader) ''read'' False) = Inr ()"
    by code_simp
  then obtain t where t: "getASTFromQuery 1 5 ''authors'' [] library_schema (Some reader) ''read'' False = Inr t"
    by (cases "getASTFromQuery 1 5 ''authors'' [] library_schema (Some reader) ''read'' False") auto
  have ps: "filter (\<lambda>p. pm_action p = ''read'') (permissions_of (Some reader)) = the (ac_permissions reader)"
    by (simp add: permissions_of_def reader_def)
  obtain p where p: "the (ac_permissions reader) = [p]" "pm_collection p = ''authors''" "pm_fields p = Some [''name'']"
    by (simp add: reader_def)
  have "plain_names (root_env library_schema (Some reader) ''read'' False)"
    by (auto simp: plain_names_def library_schema_def tree_permissions_def is_admin_def permissions_of_def reader_def plain_name_def
        one_field_value_def)
  moreover have "selected_fields [] = [JStr ''*'']" by code_simp
  moreover have "\<not> ac_admin reader" by (simp add: reader_def)
  moreover have "permission_for [p] ''authors'' = Some p" by (simp add: permission_for_def p)
  ultimately have "validateFields (permissionsForCollections ''read'' (ast_of t) (Some reader)) (root_node (ast_of t)) = Inr ()"
    using default_query_allowed[OF t, of p "[''name'']"] p ps by simp
  then show ?thesis using t by blast
qed

end
